(* ===== verification/Prelude.thy ===== *)
theory Prelude
  imports Main "HOL-Library.Word" "HOL-Library.Multiset"
begin

text \<open>
  Shared vocabulary of the development: machine integers, results of C++ code that may
  fail, guarded vector access, the algorithms of the C++ standard library the sources
  call (\<open>std::lower_bound\<close>, \<open>std::find_if\<close>, \<open>std::unique\<close>), and the generic lemmas about
  partitioned and sorted sequences that every search and every index proof uses.
\<close>

unbundle bit_operations_syntax

type_synonym u8 = "8 word"
type_synonym u16 = "16 word"
type_synonym u32 = "32 word"
type_synonym u64 = "64 word"

named_theorems res_simps "evaluation of results of fallible code"
named_theorems bound_simps "positions in partitioned and sorted sequences"

lemma unat_bound: "unat w < 2 ^ LENGTH('l)" for w :: "'l::len word"
  by simp

lemma unat_word_of_nat [simp]:
  "n < 2 ^ LENGTH('l) \<Longrightarrow> unat (word_of_nat n :: 'l::len word) = n"
  by (simp add: unat_of_nat)

section \<open>Results of fallible code\<close>

text \<open>
  \<open>Fail\<close> is a call of \<open>util::fail\<close> or \<open>exit(EXIT_FAILURE)\<close>, \<open>Thrown\<close> is a C++ exception,
  and \<open>Undefined\<close> is undefined behaviour of the abstract machine (an out-of-range read, a
  division by zero, a signed overflow, a read of an uninitialised object).
\<close>

datatype cxx_error = Fail string | Thrown string | Undefined

type_synonym 'a res = "cxx_error + 'a"

definition bind_res :: "'a res \<Rightarrow> ('a \<Rightarrow> 'b res) \<Rightarrow> 'b res" where
  "bind_res m f = (case m of Inl e \<Rightarrow> Inl e | Inr x \<Rightarrow> f x)"

lemma bind_res_Inl [simp, res_simps]: "bind_res (Inl e) f = Inl e"
  by (simp add: bind_res_def)

lemma bind_res_Inr [simp, res_simps]: "bind_res (Inr x) f = f x"
  by (simp add: bind_res_def)

lemma bind_res_eq_Inr [res_simps]:
  "bind_res m f = Inr y \<longleftrightarrow> (\<exists>x. m = Inr x \<and> f x = Inr y)"
  by (cases m) auto

lemma bind_res_cong [fundef_cong]:
  "m = m' \<Longrightarrow> (\<And>x. m' = Inr x \<Longrightarrow> f x = f' x) \<Longrightarrow> bind_res m f = bind_res m' f'"
  by (cases m') auto

text \<open>The same for code that may not return: \<open>None\<close> is a call that does not end.\<close>

definition bind_run :: "'a res option \<Rightarrow> ('a \<Rightarrow> 'b res option) \<Rightarrow> 'b res option" where
  "bind_run m f =
     (case m of None \<Rightarrow> None | Some (Inl e) \<Rightarrow> Some (Inl e) | Some (Inr x) \<Rightarrow> f x)"

lemma bind_run_simps [simp, res_simps]:
  "bind_run None f = None" "bind_run (Some (Inl e)) f = Some (Inl e)" "bind_run (Some (Inr x)) f = f x"
  by (simp_all add: bind_run_def)

text \<open>\<open>v[i]\<close> on a vector or array: undefined behaviour outside of its elements.\<close>

definition at :: "'a list \<Rightarrow> nat \<Rightarrow> 'a res" where
  "at xs i = (if i < length xs then Inr (xs ! i) else Inl Undefined)"

lemma at_Inr [simp, res_simps]: "i < length xs \<Longrightarrow> at xs i = Inr (xs ! i)"
  by (simp add: at_def)

lemma at_Inl [simp, res_simps]: "length xs \<le> i \<Longrightarrow> at xs i = Inl Undefined"
  by (simp add: at_def)

lemma at_eq_Inr [res_simps]: "at xs i = Inr x \<longleftrightarrow> i < length xs \<and> x = xs ! i"
  by (auto simp: at_def)

text \<open>\<open>v[i] = x\<close> on a vector or array.\<close>

definition store :: "'a list \<Rightarrow> nat \<Rightarrow> 'a \<Rightarrow> 'a list res" where
  "store xs i x = (if i < length xs then Inr (xs[i := x]) else Inl Undefined)"

lemma store_Inr [simp, res_simps]: "i < length xs \<Longrightarrow> store xs i x = Inr (xs[i := x])"
  by (simp add: store_def)

lemma store_Inl [simp, res_simps]: "length xs \<le> i \<Longrightarrow> store xs i x = Inl Undefined"
  by (simp add: store_def)

section \<open>Partitioned sequences\<close>

text \<open>\<open>lb p xs\<close> is the number of leading elements of \<open>xs\<close> that satisfy \<open>p\<close>.\<close>

definition lb :: "('a \<Rightarrow> bool) \<Rightarrow> 'a list \<Rightarrow> nat" where
  "lb p xs = length (takeWhile p xs)"

definition partitioned :: "('a \<Rightarrow> bool) \<Rightarrow> 'a list \<Rightarrow> bool" where
  "partitioned p xs \<longleftrightarrow> (\<forall>j < length xs. \<forall>i \<le> j. p (xs ! j) \<longrightarrow> p (xs ! i))"

lemma lb_le [simp, bound_simps]: "lb p xs \<le> length xs"
  by (simp add: lb_def length_takeWhile_le)

lemma lb_nth: "i < lb p xs \<Longrightarrow> p (xs ! i)"
  unfolding lb_def by (metis nth_mem set_takeWhileD takeWhile_nth)

lemma lb_at: "lb p xs < length xs \<Longrightarrow> \<not> p (xs ! lb p xs)"
  unfolding lb_def by (rule nth_length_takeWhile)

lemma lb_unique:
  assumes "n \<le> length xs" and "\<And>i. i < n \<Longrightarrow> p (xs ! i)" and "n < length xs \<Longrightarrow> \<not> p (xs ! n)"
  shows "lb p xs = n"
proof (rule ccontr)
  assume "lb p xs \<noteq> n"
  then consider "lb p xs < n" | "n < lb p xs" by linarith
  then show False
  proof cases
    case 1
    with assms(1) have "\<not> p (xs ! lb p xs)" by (intro lb_at) simp
    with 1 assms(2) show False by blast
  next
    case 2
    then have "n < length xs" using lb_le [of p xs] by linarith
    with assms(3) lb_nth [OF 2] show False by blast
  qed
qed

lemma partitioned_iff [bound_simps]:
  assumes "partitioned p xs" and "i < length xs"
  shows "p (xs ! i) \<longleftrightarrow> i < lb p xs"
proof
  assume pi: "p (xs ! i)"
  show "i < lb p xs"
  proof (rule ccontr)
    assume "\<not> i < lb p xs"
    then have le: "lb p xs \<le> i" by simp
    with assms(2) have "\<not> p (xs ! lb p xs)" by (intro lb_at) simp
    with assms pi le show False unfolding partitioned_def by blast
  qed
qed (rule lb_nth)

text \<open>\<open>__builtin_ctz\<close>, for a number that is not 0.\<close>

definition builtin_ctz :: "u32 \<Rightarrow> nat" where
  "builtin_ctz w = length (takeWhile (\<lambda>i. \<not> bit w i) [0..<32])"

lemma builtin_ctz_eq:
  "n < 32 \<Longrightarrow> bit w n \<Longrightarrow> (\<And>i. i < n \<Longrightarrow> \<not> bit w i) \<Longrightarrow> builtin_ctz w = n"
  using lb_unique [of n "[0..<32]" "\<lambda>i. \<not> bit w i"] by (simp add: builtin_ctz_def lb_def)

section \<open>Algorithms of the standard library\<close>

text \<open>
  \<open>std::lower_bound(first, last, \<dots>)\<close> on random access iterators, written as the library
  does it: halve the remaining length, test the middle element.
\<close>

function lb_loop :: "('a \<Rightarrow> bool) \<Rightarrow> 'a list \<Rightarrow> nat \<Rightarrow> nat \<Rightarrow> nat" where
  "lb_loop p xs i len =
     (if len = 0 then i
      else let half = len div 2; mid = i + half
           in if p (xs ! mid) then lb_loop p xs (Suc mid) (len - half - 1)
              else lb_loop p xs i half)"
  by pat_completeness auto
termination
  by (relation "measure (\<lambda>(p, xs, i, len). len)") auto

declare lb_loop.simps [simp del]

definition lower_bound :: "('a \<Rightarrow> bool) \<Rightarrow> 'a list \<Rightarrow> nat \<Rightarrow> nat \<Rightarrow> nat" where
  "lower_bound p xs lo hi = lb_loop p xs lo (hi - lo)"

lemma lb_loop_eq:
  assumes "partitioned p xs" and "i + len \<le> length xs"
  shows "lb_loop p xs i len = max i (min (i + len) (lb p xs))"
  using assms
proof (induction p xs i len rule: lb_loop.induct)
  case (1 p xs i len)
  let ?mid = "i + len div 2"
  show ?case
  proof (cases "len = 0")
    case True
    then show ?thesis by (simp add: lb_loop.simps)
  next
    case False
    with "1.prems" have mid: "p (xs ! ?mid) \<longleftrightarrow> ?mid < lb p xs"
      by (intro partitioned_iff) linarith+
    show ?thesis
    proof (cases "?mid < lb p xs")
      case True
      with mid have p: "p (xs ! ?mid)" by simp
      have "lb_loop p xs (Suc ?mid) (len - len div 2 - 1) =
          max (Suc ?mid) (min (Suc ?mid + (len - len div 2 - 1)) (lb p xs))"
        by (rule "1.IH"(1) [OF False refl refl p]) (use "1.prems" False in linarith)+
      with False p True show ?thesis
        by (auto simp: lb_loop.simps [of p xs i len] Let_def max_def min_def)
    next
      case ge: False
      with mid have np: "\<not> p (xs ! ?mid)" by simp
      have "lb_loop p xs i (len div 2) = max i (min ?mid (lb p xs))"
        by (rule "1.IH"(2) [OF False refl refl np]) (use "1.prems" False in linarith)+
      with False np ge show ?thesis
        by (auto simp: lb_loop.simps [of p xs i len] Let_def max_def min_def)
    qed
  qed
qed

lemma lower_bound_eq:
  "partitioned p xs \<Longrightarrow> lo \<le> hi \<Longrightarrow> hi \<le> length xs \<Longrightarrow>
   lower_bound p xs lo hi = max lo (min hi (lb p xs))"
  by (simp add: lower_bound_def lb_loop_eq)

text \<open>\<open>std::find_if(first, last, p)\<close>: the first position that satisfies \<open>p\<close>, else \<open>last\<close>.\<close>

function find_if :: "('a \<Rightarrow> bool) \<Rightarrow> 'a list \<Rightarrow> nat \<Rightarrow> nat \<Rightarrow> nat" where
  "find_if p xs i hi = (if i < hi \<and> \<not> p (xs ! i) then find_if p xs (Suc i) hi else i)"
  by pat_completeness auto
termination
  by (relation "measure (\<lambda>(p, xs, i, hi). hi - i)") auto

declare find_if.simps [simp del]

lemma find_if_props:
  assumes "i \<le> hi"
  shows "i \<le> find_if p xs i hi \<and> find_if p xs i hi \<le> hi
    \<and> (\<forall>j. i \<le> j \<longrightarrow> j < find_if p xs i hi \<longrightarrow> \<not> p (xs ! j))
    \<and> (find_if p xs i hi < hi \<longrightarrow> p (xs ! find_if p xs i hi))"
  using assms
proof (induction p xs i hi rule: find_if.induct)
  case (1 p xs i hi)
  show ?case
  proof (cases "i < hi \<and> \<not> p (xs ! i)")
    case True
    with 1 have IH: "Suc i \<le> find_if p xs (Suc i) hi \<and> find_if p xs (Suc i) hi \<le> hi
      \<and> (\<forall>j. Suc i \<le> j \<longrightarrow> j < find_if p xs (Suc i) hi \<longrightarrow> \<not> p (xs ! j))
      \<and> (find_if p xs (Suc i) hi < hi \<longrightarrow> p (xs ! find_if p xs (Suc i) hi))" by simp
    have eq: "find_if p xs i hi = find_if p xs (Suc i) hi"
      using True by (subst find_if.simps) simp
    have step: "i \<le> j \<longleftrightarrow> j = i \<or> Suc i \<le> j" for j by auto
    show ?thesis
      unfolding eq using IH True by (simp add: step)
  next
    case False
    then have "find_if p xs i hi = i" by (subst find_if.simps) auto
    with False "1.prems" show ?thesis by auto
  qed
qed

lemma find_if_unique:
  assumes "i \<le> n" and "n \<le> hi" and "\<And>j. i \<le> j \<Longrightarrow> j < n \<Longrightarrow> \<not> p (xs ! j)"
    and "n < hi \<Longrightarrow> p (xs ! n)"
  shows "find_if p xs i hi = n"
proof -
  have "i \<le> hi" using assms by simp
  note F = find_if_props [OF this, of p xs]
  show ?thesis
  proof (rule linorder_cases [of "find_if p xs i hi" n])
    assume "find_if p xs i hi < n"
    with F assms(2) assms(3) [of "find_if p xs i hi"] show ?thesis by simp
  next
    assume "n < find_if p xs i hi"
    with F assms(1,4) show ?thesis by auto
  qed
qed

text \<open>\<open>std::unique\<close> followed by \<open>erase\<close>: of each run of equal elements, the first stays.\<close>

fun std_unique_erase :: "'a list \<Rightarrow> 'a list" where
  "std_unique_erase [] = []"
| "std_unique_erase [x] = [x]"
| "std_unique_erase (x # y # ys) =
     (if x = y then std_unique_erase (x # ys) else x # std_unique_erase (y # ys))"

lemma std_unique_erase_remdups_adj: "std_unique_erase xs = remdups_adj xs"
  by (induction xs rule: std_unique_erase.induct) auto

section \<open>Positions of a key in a sequence sorted by key\<close>

text \<open>
  \<open>key_lb f xs k\<close> is the first position whose key \<open>f x\<close> is not below \<open>k\<close>, \<open>key_ub f xs k\<close>
  the first whose key is above \<open>k\<close>; between them lie exactly the entries with key \<open>k\<close>.
\<close>

abbreviation sorted_by :: "('a \<Rightarrow> 'k::linorder) \<Rightarrow> 'a list \<Rightarrow> bool" where
  "sorted_by f xs \<equiv> sorted (map f xs)"

definition key_lb :: "('a \<Rightarrow> 'k::linorder) \<Rightarrow> 'a list \<Rightarrow> 'k \<Rightarrow> nat" where
  "key_lb f xs k = lb (\<lambda>x. f x < k) xs"

definition key_ub :: "('a \<Rightarrow> 'k::linorder) \<Rightarrow> 'a list \<Rightarrow> 'k \<Rightarrow> nat" where
  "key_ub f xs k = lb (\<lambda>x. f x \<le> k) xs"

lemma sorted_by_nth:
  "sorted_by f xs \<Longrightarrow> i \<le> j \<Longrightarrow> j < length xs \<Longrightarrow> f (xs ! i) \<le> f (xs ! j)"
  using sorted_nth_mono [of "map f xs" i j] by simp

lemma sorted_hd_last:
  assumes "sorted_by f xs" and "x \<in> set xs"
  shows "f (hd xs) \<le> f x" and "f x \<le> f (last xs)"
proof -
  obtain i where i: "i < length xs" "x = xs ! i" using assms(2) by (auto simp: in_set_conv_nth)
  then show "f (hd xs) \<le> f x"
    using sorted_by_nth [OF assms(1), of 0 i] by (simp add: hd_conv_nth [of xs] flip: length_greater_0_conv)
  show "f x \<le> f (last xs)"
    using sorted_by_nth [OF assms(1), of i "length xs - 1"] i
    by (simp add: last_conv_nth [of xs] flip: length_greater_0_conv)
qed

lemma partitioned_less [intro]: "sorted_by f xs \<Longrightarrow> partitioned (\<lambda>x. f x < k) xs"
  unfolding partitioned_def by (meson order.strict_trans1 sorted_by_nth)

lemma partitioned_le [intro]: "sorted_by f xs \<Longrightarrow> partitioned (\<lambda>x. f x \<le> k) xs"
  unfolding partitioned_def by (meson order.trans sorted_by_nth)

lemma key_lb_le [simp, bound_simps]: "key_lb f xs k \<le> length xs"
  by (simp add: key_lb_def)

lemma key_ub_le [simp, bound_simps]: "key_ub f xs k \<le> length xs"
  by (simp add: key_ub_def)

lemma less_key_lb_iff [bound_simps]:
  "sorted_by f xs \<Longrightarrow> i < length xs \<Longrightarrow> i < key_lb f xs k \<longleftrightarrow> f (xs ! i) < k"
  unfolding key_lb_def by (subst partitioned_iff [symmetric]) auto

lemma less_key_ub_iff [bound_simps]:
  "sorted_by f xs \<Longrightarrow> i < length xs \<Longrightarrow> i < key_ub f xs k \<longleftrightarrow> f (xs ! i) \<le> k"
  unfolding key_ub_def by (subst partitioned_iff [symmetric]) auto

lemma key_lb_le_ub: "sorted_by f xs \<Longrightarrow> key_lb f xs k \<le> key_ub f xs k"
proof (rule ccontr)
  assume s: "sorted_by f xs" and "\<not> key_lb f xs k \<le> key_ub f xs k"
  then have lt: "key_ub f xs k < key_lb f xs k" by simp
  then have "key_ub f xs k < length xs" using key_lb_le [of f xs k] by linarith
  with s lt less_key_lb_iff [of f xs "key_ub f xs k" k] less_key_ub_iff [of f xs "key_ub f xs k" k]
  show False by simp
qed

lemma key_range_iff:
  "sorted_by f xs \<Longrightarrow> i < length xs \<Longrightarrow>
   key_lb f xs k \<le> i \<and> i < key_ub f xs k \<longleftrightarrow> f (xs ! i) = k"
  using less_key_lb_iff [of f xs i k] less_key_ub_iff [of f xs i k] by auto

lemma key_lb_hit_iff:
  assumes "sorted_by f xs"
  shows "key_lb f xs k < length xs \<and> f (xs ! key_lb f xs k) = k \<longleftrightarrow> k \<in> f ` set xs"
proof
  assume "k \<in> f ` set xs"
  then obtain i where i: "i < length xs" "f (xs ! i) = k"
    by (auto simp: in_set_conv_nth)
  with assms have le: "key_lb f xs k \<le> i" using less_key_lb_iff [of f xs i k] by auto
  with i have lt: "key_lb f xs k < length xs" by simp
  from assms le i have "f (xs ! key_lb f xs k) \<le> k" using sorted_by_nth [of f xs] by blast
  moreover from assms lt have "\<not> f (xs ! key_lb f xs k) < k"
    using less_key_lb_iff [of f xs "key_lb f xs k" k] by simp
  ultimately show "key_lb f xs k < length xs \<and> f (xs ! key_lb f xs k) = k" using lt by simp
qed (metis image_eqI nth_mem)

lemma key_lb_eqI:
  assumes "sorted_by f xs" and "n \<le> length xs"
    and "\<And>i. i < n \<Longrightarrow> f (xs ! i) < k" and "n < length xs \<Longrightarrow> k \<le> f (xs ! n)"
  shows "key_lb f xs k = n"
  unfolding key_lb_def by (rule lb_unique) (use assms in force)+

lemma key_lb_mono:
  assumes "sorted_by f xs" and "sorted_by g xs"
    and "\<And>x. x \<in> set xs \<Longrightarrow> f x < a \<Longrightarrow> g x < b"
  shows "key_lb f xs a \<le> key_lb g xs b"
proof (rule ccontr)
  assume "\<not> key_lb f xs a \<le> key_lb g xs b"
  then have lt: "key_lb g xs b < key_lb f xs a" by simp
  then have len: "key_lb g xs b < length xs" using key_lb_le [of f xs a] by linarith
  with assms lt less_key_lb_iff [of f xs "key_lb g xs b" a]
    less_key_lb_iff [of g xs "key_lb g xs b" b] show False by auto
qed

lemma key_lb_append_skip:
  "(\<And>x. x \<in> set xs \<Longrightarrow> f x < k) \<Longrightarrow> key_lb f (xs @ ys) k = length xs + key_lb f ys k"
  by (simp add: key_lb_def lb_def takeWhile_append2)

lemma key_lb_append_hit:
  assumes "key_lb f xs k < length xs"
  shows "key_lb f (xs @ ys) k = key_lb f xs k"
proof -
  have "\<not> f (xs ! key_lb f xs k) < k"
    using assms unfolding key_lb_def by (rule lb_at)
  moreover have "xs ! key_lb f xs k \<in> set xs" using assms by (rule nth_mem)
  ultimately have "takeWhile (\<lambda>x. f x < k) (xs @ ys) = takeWhile (\<lambda>x. f x < k) xs"
    by (intro takeWhile_append1)
  then show ?thesis by (simp add: key_lb_def lb_def)
qed

lemma key_lb_less_iff:
  assumes "sorted_by f xs"
  shows "key_lb f xs k < length xs \<longleftrightarrow> xs \<noteq> [] \<and> k \<le> f (last xs)"
proof (cases "xs = []")
  case False
  then have "length xs - 1 < length xs" "last xs = xs ! (length xs - 1)"
    by (simp_all add: last_conv_nth)
  with less_key_lb_iff [OF assms, of "length xs - 1" k]
  have "length xs - 1 < key_lb f xs k \<longleftrightarrow> \<not> k \<le> f (last xs)" by (simp add: not_le)
  with False show ?thesis using key_lb_le [of f xs k] by (cases xs) auto
qed (simp add: key_lb_def lb_def)

text \<open>The entries of a key are one contiguous run.\<close>

lemma filter_key_eq_run:
  assumes "sorted_by f xs"
  shows "filter (\<lambda>x. f x = k) xs = takeWhile (\<lambda>x. f x = k) (drop (key_lb f xs k) xs)"
  using assms
proof (induction xs)
  case (Cons x xs)
  show ?case
  proof (cases "f x < k")
    case True
    then have "key_lb f (x # xs) k = Suc (key_lb f xs k)" by (simp add: key_lb_def lb_def)
    with True Cons show ?thesis by auto
  next
    case ge: False
    then have lb0: "key_lb f (x # xs) k = 0" by (simp add: key_lb_def lb_def)
    show ?thesis
    proof (cases "f x = k")
      case True
      with Cons.prems have "key_lb f xs k = 0"
        by (cases xs) (auto simp: key_lb_def lb_def)
      with True lb0 Cons show ?thesis by auto
    next
      case False
      with ge Cons.prems have "\<forall>y \<in> set xs. f y \<noteq> k" by auto
      with False lb0 show ?thesis by (auto simp: filter_empty_conv)
    qed
  qed
qed simp

lemma lower_bound_key:
  "sorted_by f xs \<Longrightarrow> lo \<le> hi \<Longrightarrow> hi \<le> length xs \<Longrightarrow>
   lower_bound (\<lambda>x. f x < k) xs lo hi = max lo (min hi (key_lb f xs k))"
  unfolding key_lb_def by (rule lower_bound_eq) auto

text \<open>A key in a concatenation of sorted pieces: it is found in the first piece that reaches it.\<close>

lemma concat_split_nth:
  "p < length ess \<Longrightarrow> concat ess = concat (take p ess) @ ess ! p @ concat (drop (Suc p) ess)"
  by (metis append_take_drop_id concat.simps(2) concat_append Cons_nth_drop_Suc)

lemma key_lb_concat:
  assumes s: "sorted_by f (concat ess)" and p: "p < length ess"
    and below: "\<And>i. i < p \<Longrightarrow> ess ! i \<noteq> [] \<and> f (last (ess ! i)) < k"
    and ne: "ess ! p \<noteq> []" and le: "k \<le> f (last (ess ! p))"
  shows "key_lb f (concat ess) k = length (concat (take p ess)) + key_lb f (ess ! p) k"
    and "key_lb f (ess ! p) k < length (ess ! p)"
    and "concat ess ! key_lb f (concat ess) k = ess ! p ! key_lb f (ess ! p) k"
proof -
  note split = concat_split_nth [OF p]
  have sp: "sorted_by f (ess ! p)" and st: "sorted_by f (concat (take p ess))"
    using s unfolding split by (simp_all add: sorted_append)
  show hit: "key_lb f (ess ! p) k < length (ess ! p)"
    using key_lb_less_iff [OF sp] ne le by simp
  have "f x < k" if x: "x \<in> set (concat (take p ess))" for x
  proof -
    obtain i where i: "i < p" "x \<in> set (ess ! i)"
      using x p by (auto simp: in_set_conv_nth [of _ "take p ess"])
    have "sorted_by f (ess ! i)"
      using s concat_split_nth [of i ess] i p by (simp add: sorted_append)
    then have "f x \<le> f (last (ess ! i))"
      using i(2) by (rule sorted_hd_last(2))
    with below [OF i(1)] show ?thesis by (meson le_less_trans)
  qed
  then show eq: "key_lb f (concat ess) k = length (concat (take p ess)) + key_lb f (ess ! p) k"
    unfolding split using key_lb_append_hit [OF hit]
    by (subst key_lb_append_skip) auto
  show "concat ess ! key_lb f (concat ess) k = ess ! p ! key_lb f (ess ! p) k"
    unfolding eq by (subst split) (simp add: nth_append hit)
qed

lemma sorted_lasts:
  assumes "sorted_by f (concat ess)" and "[] \<notin> set ess"
  shows "sorted (map (\<lambda>es. f (last es)) ess)"
  using assms
proof (induction ess)
  case (Cons es ess)
  have "f (last es) \<le> f (last es')" if "es' \<in> set ess" for es'
  proof -
    have "es' \<noteq> []" using Cons.prems(2) that by auto
    then have "last es' \<in> set (concat ess)"
      using that unfolding set_concat by (blast intro: last_in_set)
    moreover have "last es \<in> set es" using Cons.prems(2) by auto
    ultimately show ?thesis using Cons.prems(1) by (auto simp: sorted_append)
  qed
  with Cons show ?case by (auto simp: sorted_append)
qed simp

lemma find_lb:
  "find (\<lambda>x. \<not> p x) xs = (if lb p xs < length xs then Some (xs ! lb p xs) else None)"
  by (induction xs) (auto simp: lb_def)

lemma find_key_lb:
  "find (\<lambda>x. k \<le> f x) xs = (if key_lb f xs k < length xs then Some (xs ! key_lb f xs k) else None)"
  for k :: "'k::linorder"
  using find_lb [of "\<lambda>x. f x < k" xs] by (simp add: key_lb_def not_less)

lemma find_if_lb: "find_if (\<lambda>x. \<not> p x) xs 0 (length xs) = lb p xs"
  by (rule find_if_unique) (auto dest: lb_nth lb_at)

lemma key_lb_map: "key_lb (\<lambda>x. x) (map f xs) k = key_lb f xs k"
  by (simp add: key_lb_def lb_def takeWhile_map o_def)

text \<open>Sorted insertion into a concatenation of pieces.\<close>

lemma insort_key_append_skip:
  "(\<And>x. x \<in> set xs \<Longrightarrow> f x < f a) \<Longrightarrow> insort_key f a (xs @ ys) = xs @ insort_key f a ys"
  by (induction xs) (auto dest: leD)

lemma insort_key_append_hit:
  "x \<in> set xs \<Longrightarrow> f a \<le> f x \<Longrightarrow> insort_key f a (xs @ ys) = insort_key f a xs @ ys"
  by (induction xs) auto

lemma insort_key_append_last:
  "(\<And>y. y \<in> set ys \<Longrightarrow> f a \<le> f y) \<Longrightarrow> insort_key f a (xs @ ys) = insort_key f a xs @ ys"
  by (induction xs) (cases ys; auto)+

end
