(* ===== verification/Util.thy ===== *)
theory Util
  imports Prelude
begin

text \<open>
  Model of \<open>src/util.h\<close>: the row types every component exchanges, dataset names, the binary
  file format of datasets and lookups, duplicate removal, the artificial payloads, and the
  xorshift generator \<open>FastRandom\<close>.
\<close>

section \<open>Types\<close>

datatype DataType = UINT32 | UINT64

text \<open>\<open>KeyValue<KeyType>\<close>: one entry of the data an index is built on.\<close>

record 'k KeyValue =
  kv_key :: 'k
  kv_value :: u64

text \<open>\<open>ROW_WIDTH\<close> payload columns; the array \<open>data\<close> of a row is a list of that length.\<close>

definition ROW_WIDTH :: nat where
  "ROW_WIDTH = 1"

record 'k Row =
  row_key :: 'k
  row_data :: "u64 list"

record 'k EqualityLookup =
  lk_key :: 'k
  lk_result :: u64

text \<open>\<open>SearchBound\<close>: \<open>size_t\<close> positions; the half-open range \<open>[start, stop)\<close>.\<close>

record SearchBound =
  sb_start :: nat
  sb_stop :: nat

definition NOT_FOUND :: u64 where
  "NOT_FOUND = - 1"

section \<open>Dataset names\<close>

text \<open>\<open>std::string::find_last_of\<close> for one character; \<open>None\<close> is \<open>npos\<close>.\<close>

fun find_last_of :: "char \<Rightarrow> string \<Rightarrow> nat option" where
  "find_last_of c [] = None"
| "find_last_of c (d # ds) =
     (case find_last_of c ds of Some n \<Rightarrow> Some (Suc n)
      | None \<Rightarrow> if c = d then Some 0 else None)"

definition get_suffix :: "string \<Rightarrow> string" where
  "get_suffix filename =
     (case find_last_of (CHR ''_'') filename of
        None \<Rightarrow> ''''
      | Some pos \<Rightarrow> if pos = length filename - 1 then '''' else drop (pos + 1) filename)"

definition resolve_type :: "string \<Rightarrow> DataType res" where
  "resolve_type filename =
     (let suffix = get_suffix filename
      in if suffix = ''uint32'' then Inr UINT32
         else if suffix = ''uint64'' then Inr UINT64
         else Inl (Fail ''type not supported''))"

lemma find_last_of_append:
  "CHR ''_'' \<notin> set s \<Longrightarrow> find_last_of (CHR ''_'') (p @ CHR ''_'' # s) = Some (length p)"
proof (induction p)
  case Nil
  have "CHR ''_'' \<notin> set s \<Longrightarrow> find_last_of (CHR ''_'') s = None" for s
    by (induction s) auto
  with Nil show ?case by simp
qed simp

lemma find_last_of_None: "c \<notin> set s \<Longrightarrow> find_last_of c s = None"
  by (induction s) auto

lemma get_suffix_append:
  "CHR ''_'' \<notin> set s \<Longrightarrow> get_suffix (p @ CHR ''_'' # s) = s"
  by (simp add: get_suffix_def find_last_of_append)

lemma find_last_of_decompose:
  "find_last_of c s = Some n \<Longrightarrow> \<exists>p q. s = p @ c # q \<and> length p = n \<and> c \<notin> set q"
proof (induction s arbitrary: n)
  case (Cons d ds)
  show ?case
  proof (cases "find_last_of c ds")
    case (Some m)
    with Cons.IH obtain p q where "ds = p @ c # q" "length p = m" "c \<notin> set q" by blast
    with Some Cons.prems have "d # ds = (d # p) @ c # q \<and> length (d # p) = n \<and> c \<notin> set q" by simp
    then show ?thesis by blast
  next
    case None
    have notin: "find_last_of c xs = None \<Longrightarrow> c \<notin> set xs" for xs
      by (induction xs) (auto split: option.splits if_splits)
    from None Cons.prems have "c = d" "n = 0" by (auto split: if_splits)
    with notin [OF None] have "d # ds = [] @ c # ds \<and> length [] = n \<and> c \<notin> set ds" by simp
    then show ?thesis by blast
  qed
qed simp

section \<open>Duplicates\<close>

text \<open>The loop of \<open>is_unique\<close>, from position \<open>i\<close> on, comparing what \<open>f\<close> reads.\<close>

function is_unique_from :: "('a \<Rightarrow> 'k) \<Rightarrow> 'a list \<Rightarrow> nat \<Rightarrow> bool" where
  "is_unique_from f data i =
     (if i < length data
      then if f (data ! i) = f (data ! (i - 1)) then False else is_unique_from f data (Suc i)
      else True)"
  by pat_completeness auto
termination
  by (relation "measure (\<lambda>(f, data, i). length data - i)") auto

declare is_unique_from.simps [simp del]

definition is_unique :: "'k list \<Rightarrow> bool" where
  "is_unique data = is_unique_from (\<lambda>x. x) data 1"

definition is_unique_kv :: "'k KeyValue list \<Rightarrow> bool" where
  "is_unique_kv data = is_unique_from kv_key data 1"

definition remove_duplicates :: "'a list \<Rightarrow> 'a list" where
  "remove_duplicates data = std_unique_erase data"

lemma is_unique_from_iff:
  "0 < i \<Longrightarrow> is_unique_from f data i \<longleftrightarrow>
     (\<forall>j. i \<le> j \<longrightarrow> j < length data \<longrightarrow> f (data ! j) \<noteq> f (data ! (j - 1)))"
proof (induction f data i rule: is_unique_from.induct)
  case (1 f data i)
  have step: "i \<le> j \<longleftrightarrow> j = i \<or> Suc i \<le> j" for j by auto
  show ?case
    using 1 by (simp add: is_unique_from.simps [of f data i] step) blast
qed

lemma sorted_adjacent_distinct:
  fixes xs :: "'k::linorder list"
  assumes "sorted xs"
  shows "distinct xs \<longleftrightarrow> (\<forall>j. 1 \<le> j \<longrightarrow> j < length xs \<longrightarrow> xs ! j \<noteq> xs ! (j - 1))"
proof
  assume adj: "\<forall>j. 1 \<le> j \<longrightarrow> j < length xs \<longrightarrow> xs ! j \<noteq> xs ! (j - 1)"
  show "distinct xs"
    unfolding distinct_conv_nth
  proof (intro allI impI)
    fix i j assume ij: "i < length xs" "j < length xs" "i \<noteq> j"
    have lt: "xs ! a < xs ! b" if "a < b" "b < length xs" for a b
    proof -
      have "xs ! a \<le> xs ! (b - 1)" using assms that by (intro sorted_nth_mono) auto
      also have "\<dots> \<le> xs ! b" using assms that by (intro sorted_nth_mono) auto
      finally have "xs ! a \<le> xs ! b" .
      moreover have "xs ! (b - 1) \<le> xs ! b" "xs ! (b - 1) \<noteq> xs ! b" "xs ! a \<le> xs ! (b - 1)"
        using adj [rule_format, of b] that assms by (auto intro!: sorted_nth_mono)
      ultimately show ?thesis by auto
    qed
    from ij lt [of i j] lt [of j i] show "xs ! i \<noteq> xs ! j" by (cases i j rule: linorder_cases) auto
  qed
qed (auto simp: distinct_conv_nth)

lemma is_unique_iff_distinct:
  "sorted (data :: 'k::linorder list) \<Longrightarrow> is_unique data \<longleftrightarrow> distinct data"
  by (simp add: is_unique_def is_unique_from_iff sorted_adjacent_distinct)

lemma is_unique_kv_iff_distinct:
  assumes "sorted_by kv_key (data :: 'k::linorder KeyValue list)"
  shows "is_unique_kv data \<longleftrightarrow> distinct (map kv_key data)"
  unfolding is_unique_kv_def sorted_adjacent_distinct [OF assms]
  by (simp add: is_unique_from_iff)

lemma set_remove_duplicates [simp]: "set (remove_duplicates data) = set data"
  by (simp add: remove_duplicates_def std_unique_erase_remdups_adj)

lemma sorted_remdups_adj: "sorted xs \<Longrightarrow> sorted (remdups_adj xs)"
  for xs :: "'k::linorder list"
  by (induction xs rule: remdups_adj.induct) auto

lemma sorted_remove_duplicates:
  "sorted data \<Longrightarrow> sorted (remove_duplicates (data :: 'k::linorder list))"
  by (simp add: remove_duplicates_def std_unique_erase_remdups_adj sorted_remdups_adj)

lemma distinct_remove_duplicates:
  "sorted data \<Longrightarrow> distinct (remove_duplicates (data :: 'k::linorder list))"
  unfolding remove_duplicates_def std_unique_erase_remdups_adj
  by (induction data rule: remdups_adj.induct) auto

section \<open>Payloads\<close>

definition get_value :: "u64 \<Rightarrow> u64" where
  "get_value i = i"

text \<open>The body of the loop of \<open>add_values\<close> for position \<open>i\<close>.\<close>

definition make_row :: "'k \<Rightarrow> u64 \<Rightarrow> 'k Row" where
  "make_row k i = \<lparr>row_key = k,
     row_data = map (\<lambda>j. get_value (i * (word_of_nat j + 1))) [0..<ROW_WIDTH]\<rparr>"

definition add_values :: "'k list \<Rightarrow> 'k Row list" where
  "add_values keys = map (\<lambda>i. make_row (keys ! i) (word_of_nat i)) [0..<length keys]"

lemma length_add_values [simp]: "length (add_values keys) = length keys"
  by (simp add: add_values_def)

lemma row_key_make_row [simp]: "row_key (make_row k i) = k"
  by (simp add: make_row_def)

lemma row_data_make_row [simp]: "row_data (make_row k i) = [i]"
  by (simp add: make_row_def ROW_WIDTH_def get_value_def)

lemma nth_add_values:
  "i < length keys \<Longrightarrow> add_values keys ! i = make_row (keys ! i) (word_of_nat i)"
  by (simp add: add_values_def)

lemma map_row_key_add_values [simp]: "map row_key (add_values keys) = keys"
  by (simp add: add_values_def o_def map_nth)

section \<open>The binary file format\<close>

text \<open>
  A file is its bytes; \<open>None\<close> is a file that cannot be opened. Integers are stored as the
  memory image of an x86 machine, least significant byte first.
\<close>

fun le_enc :: "nat \<Rightarrow> nat \<Rightarrow> u8 list" where
  "le_enc 0 n = []"
| "le_enc (Suc w) n = word_of_nat (n mod 256) # le_enc w (n div 256)"

fun le_dec :: "u8 list \<Rightarrow> nat" where
  "le_dec [] = 0"
| "le_dec (b # bs) = unat b + 256 * le_dec bs"

lemma length_le_enc [simp]: "length (le_enc w n) = w"
  by (induction w arbitrary: n) auto

lemma unat_byte [simp]: "unat (word_of_nat (n mod 256) :: u8) = n mod 256"
  by (simp add: unat_of_nat)

lemma le_dec_enc: "n < 256 ^ w \<Longrightarrow> le_dec (le_enc w n) = n"
proof (induction w arbitrary: n)
  case (Suc w)
  then have "n div 256 < 256 ^ w" by (simp add: less_mult_imp_div_less mult.commute)
  with Suc.IH show ?case by simp
qed simp

text \<open>\<open>std::vector<T>::max_size()\<close> for elements of \<open>sz\<close> bytes.\<close>

definition max_size :: "nat \<Rightarrow> nat" where
  "max_size sz = (2 ^ 63 - 1) div sz"

text \<open>
  \<open>sz\<close> is \<open>sizeof(T)\<close>; \<open>enc\<close> and \<open>dec\<close> are the memory image of a \<open>T\<close> and its reading.
  A short file leaves \<open>size\<close> uninitialised (fewer than 8 bytes) or leaves the rest of the
  vector, which \<open>resize\<close> has set to zero, as it is.
\<close>

definition load_data :: "nat \<Rightarrow> (u8 list \<Rightarrow> 'a) \<Rightarrow> u8 list option \<Rightarrow> 'a list res" where
  "load_data sz dec file =
     (case file of
        None \<Rightarrow> Inl (Fail ''unable to open'')
      | Some bytes \<Rightarrow>
          if length bytes < 8 then Inl Undefined
          else let size = le_dec (take 8 bytes)
               in if max_size sz < size then Inl (Thrown ''length_error'')
                  else let raw = take (size * sz) (drop 8 bytes);
                           mem = raw @ replicate (size * sz - length raw) 0
                       in Inr (map (\<lambda>i. dec (take sz (drop (i * sz) mem))) [0..<size]))"

definition write_data :: "('a \<Rightarrow> u8 list) \<Rightarrow> 'a list \<Rightarrow> bool \<Rightarrow> u8 list res" where
  "write_data enc data is_open =
     (if \<not> is_open then Inl (Fail ''unable to open'')
      else Inr (le_enc 8 (length data) @ concat (map enc data)))"

text \<open>A trivially copyable type: its memory image has the size of the type and reads back.\<close>

locale trivially_copyable =
  fixes sz :: nat and enc :: "'a \<Rightarrow> u8 list" and dec :: "u8 list \<Rightarrow> 'a"
  assumes length_enc: "length (enc x) = sz"
    and dec_enc: "dec (enc x) = x"
    and sz_pos: "0 < sz"
begin

lemma length_concat_enc: "length (concat (map enc xs)) = length xs * sz"
  by (induction xs) (auto simp: length_enc)

lemma chunk_concat_enc:
  "i < length xs \<Longrightarrow> take sz (drop (i * sz) (concat (map enc xs))) = enc (xs ! i)"
proof (induction xs arbitrary: i)
  case (Cons x xs)
  then show ?case by (cases i) (auto simp: length_enc)
qed simp

lemma load_written:
  assumes "length data \<le> max_size sz" and "write_data enc data True = Inr bytes"
  shows "load_data sz dec (Some bytes) = Inr data"
proof -
  have bytes: "bytes = le_enc 8 (length data) @ concat (map enc data)"
    using assms(2) by (simp add: write_data_def)
  have "length data \<le> 2 ^ 63 - 1"
    using assms(1) unfolding max_size_def by (meson div_le_dividend order.trans)
  then have "length data < 256 ^ 8" by (rule order.strict_trans1) simp
  then have size: "le_dec (take 8 bytes) = length data"
    by (simp add: bytes le_dec_enc)
  have "map (\<lambda>i. dec (take sz (drop (i * sz) (concat (map enc data))))) [0..<length data] = data"
    by (rule nth_equalityI) (simp_all add: chunk_concat_enc dec_enc)
  with size assms(1) show ?thesis
    by (simp add: load_data_def Let_def bytes length_concat_enc)
qed

end

text \<open>The element types of the files: keys of 4 and 8 bytes, and equality lookups.\<close>

definition enc_u32 :: "u32 \<Rightarrow> u8 list" where "enc_u32 x = le_enc 4 (unat x)"
definition dec_u32 :: "u8 list \<Rightarrow> u32" where "dec_u32 bs = word_of_nat (le_dec bs)"
definition enc_u64 :: "u64 \<Rightarrow> u8 list" where "enc_u64 x = le_enc 8 (unat x)"
definition dec_u64 :: "u8 list \<Rightarrow> u64" where "dec_u64 bs = word_of_nat (le_dec bs)"

definition enc_lookup64 :: "u64 EqualityLookup \<Rightarrow> u8 list" where
  "enc_lookup64 l = enc_u64 (lk_key l) @ enc_u64 (lk_result l)"

definition dec_lookup64 :: "u8 list \<Rightarrow> u64 EqualityLookup" where
  "dec_lookup64 bs = \<lparr>lk_key = dec_u64 (take 8 bs), lk_result = dec_u64 (drop 8 bs)\<rparr>"

text \<open>\<open>EqualityLookup<uint32_t>\<close> has four bytes of padding, whose content \<open>pad\<close> is arbitrary.\<close>

definition enc_lookup32 :: "u32 \<Rightarrow> u32 EqualityLookup \<Rightarrow> u8 list" where
  "enc_lookup32 pad l = enc_u32 (lk_key l) @ enc_u32 pad @ enc_u64 (lk_result l)"

definition dec_lookup32 :: "u8 list \<Rightarrow> u32 EqualityLookup" where
  "dec_lookup32 bs = \<lparr>lk_key = dec_u32 (take 4 bs), lk_result = dec_u64 (drop 8 bs)\<rparr>"

lemma dec_enc_u32 [simp]: "dec_u32 (enc_u32 x) = x"
  using unat_bound [of x] by (simp add: dec_u32_def enc_u32_def le_dec_enc)

lemma dec_enc_u64 [simp]: "dec_u64 (enc_u64 x) = x"
  using unat_bound [of x] by (simp add: dec_u64_def enc_u64_def le_dec_enc)

lemma length_enc_u [simp]: "length (enc_u32 x) = 4" "length (enc_u64 y) = 8"
  by (simp_all add: enc_u32_def enc_u64_def)

interpretation tc_u32: trivially_copyable 4 enc_u32 dec_u32
  by unfold_locales auto

interpretation tc_u64: trivially_copyable 8 enc_u64 dec_u64
  by unfold_locales auto

interpretation tc_lookup64: trivially_copyable 16 enc_lookup64 dec_lookup64
  by unfold_locales (auto simp: enc_lookup64_def dec_lookup64_def)

interpretation tc_lookup32: trivially_copyable 16 "enc_lookup32 pad" dec_lookup32 for pad
  by unfold_locales (auto simp: enc_lookup32_def dec_lookup32_def)

section \<open>\<open>FastRandom\<close>\<close>

text \<open>The state is the seed; each call returns the value drawn and the next seed.\<close>

definition xorshift :: "u64 \<Rightarrow> u64" where
  "xorshift seed0 =
     (let seed1 = seed0 XOR push_bit 13 seed0;
          seed2 = seed1 XOR drop_bit 15 seed1
      in seed2 XOR push_bit 5 seed2)"

definition RandUint32 :: "u64 \<Rightarrow> u32 \<times> u64" where
  "RandUint32 seed = (ucast (xorshift seed), xorshift seed)"

definition RandInt32 :: "u64 \<Rightarrow> int \<times> u64" where
  "RandInt32 seed = (let (r, seed') = RandUint32 seed in (sint r, seed'))"

text \<open>The modulus \<open>max - min + 1\<close> is computed in 32 bits; a modulus of 0 is undefined.\<close>

definition RandUint32_range :: "u32 \<Rightarrow> u32 \<Rightarrow> u64 \<Rightarrow> (u32 \<times> u64) res" where
  "RandUint32_range inclusive_min inclusive_max seed =
     (let (r, seed') = RandUint32 seed; m = inclusive_max - inclusive_min + 1
      in if m = 0 then Inl Undefined else Inr (inclusive_min + r mod m, seed'))"

text \<open>The signed version: \<open>max - min + 1\<close> is an \<open>int\<close> expression, undefined on overflow.\<close>

definition RandInt32_range :: "int \<Rightarrow> int \<Rightarrow> u64 \<Rightarrow> (int \<times> u64) res" where
  "RandInt32_range inclusive_min inclusive_max seed =
     (let (r, seed') = RandUint32 seed; d = inclusive_max - inclusive_min
      in if d + 1 \<ge> 2 ^ 31 \<or> d < - (2 ^ 31) \<or> d + 1 = 0 then Inl Undefined
         else Inr (sint (word_of_int inclusive_min + r mod word_of_int (d + 1) :: u32), seed'))"

definition RandBool :: "u64 \<Rightarrow> bool \<times> u64" where
  "RandBool seed = (let (r, seed') = RandUint32 seed in (r mod 2 = 0, seed'))"

text \<open>
  The build compiles with \<open>-ffast-math\<close>, so the rounding of \<open>float\<close> arithmetic is not
  fixed: the conversion of the drawn integer to a fraction of the largest one is the
  parameter \<open>to_unit\<close>, the affine map of \<open>RandFloat\<close> is the parameter \<open>affine\<close>.
\<close>

definition ScaleFactor :: "(u32 \<Rightarrow> 'f) \<Rightarrow> u64 \<Rightarrow> 'f \<times> u64" where
  "ScaleFactor to_unit seed = (let (r, seed') = RandUint32 seed in (to_unit r, seed'))"

definition RandFloat ::
  "(u32 \<Rightarrow> 'f) \<Rightarrow> ('f \<Rightarrow> 'f \<Rightarrow> 'f \<Rightarrow> 'f) \<Rightarrow> 'f \<Rightarrow> 'f \<Rightarrow> u64 \<Rightarrow> 'f \<times> u64" where
  "RandFloat to_unit affine inclusive_min inclusive_max seed =
     (let (s, seed') = ScaleFactor to_unit seed in (affine inclusive_min s inclusive_max, seed'))"

lemma snd_RandUint32 [simp]: "snd (RandUint32 seed) = xorshift seed"
  by (simp add: RandUint32_def)

text \<open>Each of the three steps is injective, so the generator is a permutation of the seeds.\<close>

lemma xor_push_bit_inj:
  fixes a b :: "'l::len word"
  assumes "0 < n" and "a XOR push_bit n a = b XOR push_bit n b"
  shows "a = b"
proof (rule bit_word_eqI)
  fix i assume "i < LENGTH('l)"
  then show "bit a i = bit b i"
  proof (induction i rule: less_induct)
    case (less i)
    have "bit (a XOR push_bit n a) i = bit (b XOR push_bit n b) i" using assms(2) by simp
    moreover have "n \<le> i \<Longrightarrow> bit a (i - n) = bit b (i - n)"
      using less assms(1) by simp
    ultimately show ?case
      using less.prems by (auto simp: bit_xor_iff bit_push_bit_iff)
  qed
qed

lemma xor_drop_bit_inj:
  fixes a b :: "'l::len word"
  assumes "0 < n" and "a XOR drop_bit n a = b XOR drop_bit n b"
  shows "a = b"
proof (rule bit_word_eqI)
  fix i assume "i < LENGTH('l)"
  then show "bit a i = bit b i"
  proof (induction "LENGTH('l) - i" arbitrary: i rule: less_induct)
    case less
    have "bit (a XOR drop_bit n a) i = bit (b XOR drop_bit n b) i" using assms(2) by simp
    moreover have "bit a (n + i) = bit b (n + i)"
    proof (cases "n + i < LENGTH('l)")
      case True
      with less assms(1) show ?thesis by simp
    next
      case False
      then show ?thesis using bit_imp_le_length by blast
    qed
    ultimately show ?case by (auto simp: bit_xor_iff bit_drop_bit_eq)
  qed
qed

lemma xorshift_inj: "xorshift a = xorshift b \<Longrightarrow> a = b"
  unfolding xorshift_def Let_def
  by (blast dest: xor_push_bit_inj [rotated] xor_drop_bit_inj [rotated]
      intro: zero_less_numeral)

lemma xorshift_0 [simp]: "xorshift 0 = 0"
  by (simp add: xorshift_def)

lemma xorshift_nonzero: "seed \<noteq> 0 \<Longrightarrow> xorshift seed \<noteq> 0"
  using xorshift_inj [of seed 0] by auto

lemma RandUint32_range_Inr:
  assumes "RandUint32_range lo hi seed = Inr (r, seed')" and "lo \<le> hi"
  shows "lo \<le> r \<and> r \<le> hi \<and> seed' = xorshift seed"
proof -
  let ?m = "hi - lo + 1" and ?v = "fst (RandUint32 seed)"
  have m0: "?m \<noteq> 0" and r: "r = lo + ?v mod ?m" and s: "seed' = xorshift seed"
    using assms(1) by (auto simp: RandUint32_range_def RandUint32_def Let_def split: if_splits)
  have "unat (hi - lo) = unat hi - unat lo" using assms(2) by (simp add: unat_sub)
  moreover have um: "unat ?m = unat (hi - lo) + 1"
    using m0 by (metis add.commute add_diff_cancel_right' unatSuc Suc_eq_plus1)
  ultimately have md: "unat ?m = unat hi - unat lo + 1" by simp
  have "?v mod ?m < ?m" using m0 by (metis word_gt_0 word_mod_less_divisor)
  then have lt: "unat (?v mod ?m) \<le> unat hi - unat lo" using md by (simp add: word_less_nat_alt)
  have le: "unat lo \<le> unat hi" using assms(2) by (simp add: word_le_nat_alt)
  have "unat lo + unat (?v mod ?m) < 2 ^ 32" using lt le unat_bound [of hi] by simp
  then have "unat r = unat lo + unat (?v mod ?m)" by (simp add: r iffD1 [OF unat_add_lem])
  with lt le s show ?thesis by (simp add: word_le_nat_alt)
qed

lemma RandUint32_range_cases:
  assumes "lo \<le> hi"
  shows "(if lo = 0 \<and> hi = - 1 then RandUint32_range lo hi seed = Inl Undefined
    else \<exists>r. RandUint32_range lo hi seed = Inr (r, xorshift seed) \<and> lo \<le> r \<and> r \<le> hi)"
proof -
  have m0: "hi - lo + 1 = 0 \<longleftrightarrow> lo = 0 \<and> hi = - 1"
  proof
    assume "hi - lo + 1 = 0"
    then have d: "hi - lo = - 1" by (metis add_eq_0_iff2)
    have "unat (hi - lo) = unat hi - unat lo" using assms by (simp add: unat_sub)
    then have "unat (- 1 :: u32) = unat hi - unat lo" using d by simp
    moreover have "unat (- 1 :: u32) = 2 ^ 32 - 1" by (simp add: unsigned_minus_1_eq_mask mask_eq_exp_minus_1)
    ultimately have "unat lo = 0" using unat_bound [of hi] by simp
    with d show "lo = 0 \<and> hi = - 1" by (simp add: unat_eq_zero)
  qed simp
  show ?thesis
  proof (cases "lo = 0 \<and> hi = - 1")
    case True
    then show ?thesis by (simp add: RandUint32_range_def RandUint32_def)
  next
    case False
    with m0 obtain r s where "RandUint32_range lo hi seed = Inr (r, s)"
      by (simp add: RandUint32_range_def RandUint32_def Let_def)
    with RandUint32_range_Inr [OF this assms] False show ?thesis by auto
  qed
qed

section \<open>Properties\<close>

text \<open>
  C40. A file of lookups written by \<open>write_data\<close> is read back by \<open>load_data\<close> unchanged, for
  every number of lookups that a vector can hold: the size header, the little-endian
  fields and the offsets of the elements agree between the two.
\<close>
theorem load_data_write_data:
  assumes "length lookups \<le> max_size 16"
    and "write_data enc_lookup64 lookups True = Inr bytes"
  shows "load_data 16 dec_lookup64 (Some bytes) = Inr lookups"
  using assms by (rule tc_lookup64.load_written)

theorem load_data_write_data_witness:
  "\<exists>bytes. write_data enc_lookup64 [\<lparr>lk_key = 700, lk_result = 3\<rparr>] True = Inr bytes
    \<and> load_data 16 dec_lookup64 (Some bytes) = Inr [\<lparr>lk_key = 700, lk_result = 3\<rparr>]"
  using load_data_write_data [of "[\<lparr>lk_key = 700, lk_result = 3\<rparr>]"]
  by (simp add: write_data_def max_size_def)

text \<open>
  \<open>resolve_type\<close> accepts exactly the names that end in an underscore and a supported
  type name; every other name ends the program.
\<close>
theorem resolve_type_accepts:
  "resolve_type filename = Inr t \<longleftrightarrow>
   (\<exists>p. filename = p @ CHR ''_'' # (case t of UINT32 \<Rightarrow> ''uint32'' | UINT64 \<Rightarrow> ''uint64''))"
  (is "?l \<longleftrightarrow> ?r")
proof
  have suffix: "get_suffix filename = s \<Longrightarrow> s \<noteq> [] \<Longrightarrow> \<exists>p. filename = p @ CHR ''_'' # s" for s
    by (auto simp: get_suffix_def split: option.splits if_splits
        dest!: find_last_of_decompose)
  assume ?l
  then show ?r
    using suffix [of "''uint32''"] suffix [of "''uint64''"]
    by (auto simp: resolve_type_def Let_def split: if_splits)
next
  assume ?r
  then show ?l
    by (cases t) (auto simp: resolve_type_def get_suffix_append)
qed

text \<open>
  On sorted data \<open>remove_duplicates\<close> returns the same set of keys in strictly ascending
  order, so \<open>is_unique\<close> holds of its result, and data on which \<open>is_unique\<close> holds is
  returned as it is.
\<close>
theorem remove_duplicates_unique:
  fixes data :: "'k::linorder list"
  assumes "sorted data"
  shows "set (remove_duplicates data) = set data \<and> sorted (remove_duplicates data)
    \<and> is_unique (remove_duplicates data)
    \<and> (is_unique data \<longrightarrow> remove_duplicates data = data)"
proof -
  have d: "is_unique (remove_duplicates data)"
    using assms by (simp add: is_unique_iff_distinct sorted_remove_duplicates distinct_remove_duplicates)
  have "remdups_adj data = data" if "distinct data"
    using that by (induction data rule: remdups_adj.induct) auto
  with assms d show ?thesis
    by (auto simp: sorted_remove_duplicates is_unique_iff_distinct remove_duplicates_def
        std_unique_erase_remdups_adj)
qed

theorem remove_duplicates_unique_witness:
  "is_unique (remove_duplicates [2, 2, 5, 9, 9, 9::nat]) \<and> remove_duplicates [1, 4::nat] = [1, 4]"
  using remove_duplicates_unique [of "[2, 2, 5, 9, 9, 9::nat]"]
    remove_duplicates_unique [of "[1, 4::nat]"]
  by (simp add: is_unique_iff_distinct)

text \<open>
  \<open>FastRandom::RandUint32(min, max)\<close> never leaves its closed range and is defined for
  every range but the full one, whose size wraps to a modulus of 0.
\<close>
theorem RandUint32_range_bounds:
  assumes "lo \<le> hi"
  shows "(if lo = 0 \<and> hi = - 1 then RandUint32_range lo hi seed = Inl Undefined
    else \<exists>r. RandUint32_range lo hi seed = Inr (r, xorshift seed) \<and> lo \<le> r \<and> r \<le> hi)"
  using RandUint32_range_cases [OF assms] .

theorem RandUint32_range_bounds_witness:
  "\<exists>r. RandUint32_range 0 99 42 = Inr (r, xorshift 42) \<and> r \<le> 99"
  using RandUint32_range_bounds [of 0 99 42] by auto

text \<open>
  One step of the xorshift generator permutes the 64-bit states and has 0 as its only
  preimage of 0, so a generator that is seeded with a state other than 0 never reaches it.
\<close>
theorem xorshift_permutes_states:
  "bij xorshift \<and> (xorshift seed = 0 \<longleftrightarrow> seed = 0)"
proof -
  have "inj xorshift" by (rule injI) (rule xorshift_inj)
  then have "bij xorshift" by (simp add: bij_def finite_UNIV_inj_surj)
  then show ?thesis using xorshift_inj [of seed 0] by auto
qed

end
