(* ===== verification/Searches.thy ===== *)
theory Searches
  imports Util "HOL-Library.Signed_Division"
begin

text \<open>
  Model of \<open>src/searches/\<close>: the four last-mile searches that turn the bound returned by an
  index into the sum of the payloads of a key and the number of qualifying rows. The
  locale \<open>search_algorithm\<close> states what the callers rely on: started on a bound that encloses
  the first occurrence, a search returns the sum and the count over the whole data.
\<close>

section \<open>What a lookup is to return\<close>

abbreviation payload :: "'k Row \<Rightarrow> u64" where
  "payload r \<equiv> row_data r ! 0"

abbreviation sorted_rows :: "'k::linorder Row list \<Rightarrow> bool" where
  "sorted_rows data \<equiv> sorted_by row_key data"

abbreviation row_lb :: "'k::linorder Row list \<Rightarrow> 'k \<Rightarrow> nat" where
  "row_lb data k \<equiv> key_lb row_key data k"

abbreviation row_ub :: "'k::linorder Row list \<Rightarrow> 'k \<Rightarrow> nat" where
  "row_ub data k \<equiv> key_ub row_key data k"

definition lookup_sum :: "'k Row list \<Rightarrow> 'k \<Rightarrow> u64" where
  "lookup_sum data k = sum_list (map payload (filter (\<lambda>r. row_key r = k) data))"

definition lookup_count :: "'k Row list \<Rightarrow> 'k \<Rightarrow> nat" where
  "lookup_count data k = length (filter (\<lambda>r. row_key r = k) data)"

lemma filter_absent:
  "k \<notin> row_key ` set data \<Longrightarrow> filter (\<lambda>r. row_key r = k) data = []"
  by (auto simp: filter_empty_conv)

lemma lookup_absent [simp]:
  "k \<notin> row_key ` set data \<Longrightarrow> lookup_sum data k = 0"
  "k \<notin> row_key ` set data \<Longrightarrow> lookup_count data k = 0"
  by (simp_all add: lookup_sum_def lookup_count_def filter_absent)

lemma lookup_count_0_iff: "lookup_count data k = 0 \<longleftrightarrow> k \<notin> row_key ` set data"
  by (auto simp: lookup_count_def filter_empty_conv)

section \<open>Branching binary search\<close>

text \<open>The loop that sums the payloads of the rows from position \<open>i\<close> on that have the key.\<close>

function sum_run :: "'k Row list \<Rightarrow> 'k \<Rightarrow> nat \<Rightarrow> u64 \<Rightarrow> nat \<Rightarrow> u64 \<times> nat" where
  "sum_run data lookup_key i result num_qualifying =
     (if i < length data \<and> row_key (data ! i) = lookup_key
      then sum_run data lookup_key (Suc i) (result + payload (data ! i)) (Suc num_qualifying)
      else (result, num_qualifying))"
  by pat_completeness auto
termination
  by (relation "measure (\<lambda>(data, k, i, r, n). length data - i)") auto

declare sum_run.simps [simp del]

text \<open>
  \<open>data.begin() + end\<close> must not pass \<open>data.end()\<close>, and \<open>[start, end)\<close> must be a range.
\<close>

definition branching_search ::
  "'k::linorder Row list \<Rightarrow> 'k \<Rightarrow> nat \<Rightarrow> nat \<Rightarrow> (u64 \<times> nat) res" where
  "branching_search data lookup_key start stop =
     (if \<not> (start \<le> stop \<and> stop \<le> length data) then Inl Undefined
      else let it = lower_bound (\<lambda>r. row_key r < lookup_key) data start stop
           in if it = length data \<or> row_key (data ! it) \<noteq> lookup_key then Inr (0, 0)
              else Inr (sum_run data lookup_key (Suc it) (payload (data ! it)) 1))"

lemma sum_run_eq:
  "sum_run data k i r n =
     (r + sum_list (map payload (takeWhile (\<lambda>x. row_key x = k) (drop i data))),
      n + length (takeWhile (\<lambda>x. row_key x = k) (drop i data)))"
proof (induction data k i r n rule: sum_run.induct)
  case (1 data k i r n)
  show ?case
  proof (cases "i < length data \<and> row_key (data ! i) = k")
    case True
    then have "drop i data = data ! i # drop (Suc i) data" by (simp add: Cons_nth_drop_Suc)
    with 1 True show ?thesis by (simp add: sum_run.simps [of data k i r n] add.assoc)
  next
    case False
    then have "takeWhile (\<lambda>x. row_key x = k) (drop i data) = []"
      by (cases "i < length data") (auto simp: Cons_nth_drop_Suc [symmetric])
    with False show ?thesis by (auto simp: sum_run.simps [of data k i r n])
  qed
qed

lemma run_at_lb:
  assumes "sorted_rows data"
  shows "takeWhile (\<lambda>x. row_key x = k) (drop (row_lb data k) data)
    = filter (\<lambda>x. row_key x = k) data"
  using filter_key_eq_run [OF assms] by simp

lemma sum_run_lb:
  assumes "sorted_rows data"
  shows "sum_run data k (row_lb data k) 0 0 = (lookup_sum data k, lookup_count data k)"
  by (simp add: sum_run_eq run_at_lb [OF assms] lookup_sum_def lookup_count_def)

lemma sum_run_hit:
  assumes "i < length data" and "row_key (data ! i) = k"
  shows "sum_run data k (Suc i) (payload (data ! i)) 1 = sum_run data k i 0 0"
  using assms by (simp add: sum_run.simps [of data k i 0 0])

text \<open>From a position where the first occurrence is, or where there is none.\<close>

lemma sum_from_lb:
  assumes "sorted_rows data" and "it = row_lb data k"
  shows "(if it = length data \<or> row_key (data ! it) \<noteq> k then Inr (0, 0)
      else Inr (sum_run data k (Suc it) (payload (data ! it)) 1))
    = (Inr (lookup_sum data k, lookup_count data k) :: (u64 \<times> nat) res)"
proof (cases "k \<in> row_key ` set data")
  case True
  with key_lb_hit_iff [OF assms(1), of k] assms(2)
  have it: "it < length data" "row_key (data ! it) = k" by auto
  then have "sum_run data k (Suc it) (payload (data ! it)) 1 = (lookup_sum data k, lookup_count data k)"
    using sum_run_lb [OF assms(1), of k] by (simp only: sum_run_hit assms(2))
  with it show ?thesis by simp
next
  case False
  with key_lb_hit_iff [OF assms(1), of k] assms(2)
  have "it = length data \<or> row_key (data ! it) \<noteq> k"
    using key_lb_le [of row_key data k] by auto
  with False show ?thesis by simp
qed

lemma branching_search_correct:
  assumes "sorted_rows data" and "start \<le> row_lb data k" and "row_lb data k \<le> stop"
    and "stop \<le> length data"
  shows "branching_search data k start stop = Inr (lookup_sum data k, lookup_count data k)"
proof -
  have it: "lower_bound (\<lambda>r. row_key r < k) data start stop = row_lb data k"
    using assms by (simp add: lower_bound_key)
  have ok: "start \<le> stop \<and> stop \<le> length data" using assms by simp
  have "branching_search data k start stop =
      (if row_lb data k = length data \<or> row_key (data ! row_lb data k) \<noteq> k then Inr (0, 0)
       else Inr (sum_run data k (Suc (row_lb data k)) (payload (data ! row_lb data k)) 1))"
    unfolding branching_search_def it Let_def using ok by simp
  then show ?thesis using sum_from_lb [OF assms(1) refl, of k] by simp
qed

section \<open>Linear search\<close>

definition linear_search ::
  "'k::linorder Row list \<Rightarrow> 'k \<Rightarrow> nat \<Rightarrow> nat \<Rightarrow> (u64 \<times> nat) res" where
  "linear_search data lookup_key start stop =
     (if \<not> (start \<le> stop \<and> stop \<le> length data) then Inl Undefined
      else let it = find_if (\<lambda>r. row_key r = lookup_key) data start stop
           in if it = length data \<or> row_key (data ! it) \<noteq> lookup_key then Inr (0, 0)
              else Inr (sum_run data lookup_key (Suc it) (payload (data ! it)) 1))"

lemma linear_search_correct:
  assumes s: "sorted_rows data" and "start \<le> row_lb data k" and "row_lb data k \<le> stop"
    and "stop \<le> length data"
  shows "linear_search data k start stop = Inr (lookup_sum data k, lookup_count data k)"
proof (cases "k \<in> row_key ` set data")
  case True
  with key_lb_hit_iff [OF s, of k]
  have hit: "row_lb data k < length data" "row_key (data ! row_lb data k) = k" by auto
  have "find_if (\<lambda>r. row_key r = k) data start stop = row_lb data k"
  proof (rule find_if_unique)
    fix j assume "j < row_lb data k"
    then show "row_key (data ! j) \<noteq> k" using less_key_lb_iff [OF s, of j k] hit(1) by auto
  qed (use assms hit in auto)
  then show ?thesis
    using sum_from_lb [OF s refl, of k] assms by (simp add: linear_search_def)
next
  case False
  define it where "it = find_if (\<lambda>r. row_key r = k) data start stop"
  have "start \<le> stop" using assms by simp
  from find_if_props [OF this, of "\<lambda>r. row_key r = k" data] have "it \<le> stop"
    by (simp add: it_def)
  with assms False have "it = length data \<or> row_key (data ! it) \<noteq> k" by force
  with False assms show ?thesis by (simp add: linear_search_def it_def [symmetric])
qed

section \<open>Branchless binary search\<close>

text \<open>Conversion of a \<open>size_t\<close> expression to \<open>int\<close>.\<close>

definition to_int32 :: "int \<Rightarrow> int" where
  "to_int32 x = sint (word_of_int x :: u32)"

text \<open>
  The loop \<open>while (const int half = n / 2)\<close>. \<open>int\<close> division truncates; an \<open>int\<close> sum out of
  range and an index outside of the vector are undefined. The prefetches only form addresses.
\<close>

function branchless_loop ::
  "'k::linorder Row list \<Rightarrow> 'k \<Rightarrow> int \<Rightarrow> int \<Rightarrow> int res" where
  "branchless_loop data lookup_key lower n =
     (let half = n sdiv 2
      in if half = 0 then Inr lower
         else let middle = lower + half
              in if 2 ^ 31 \<le> middle \<or> middle < 0 \<or> int (length data) \<le> middle
                 then Inl Undefined
                 else branchless_loop data lookup_key
                   (if row_key (data ! nat middle) \<le> lookup_key then middle else lower)
                   (n - half))"
  by pat_completeness auto
termination
proof (relation "measure (\<lambda>(data, k, lower, n). nat \<bar>n\<bar>)", goal_cases)
  case (2 data k lower n half middle)
  then have "n sdiv 2 \<noteq> 0" by simp
  then have "\<bar>n - n sdiv 2\<bar> < \<bar>n\<bar>"
    by (auto simp: signed_divide_int_def sgn_if abs_if split: if_splits)
  with 2 show ?case by simp
qed simp

declare branchless_loop.simps [simp del]

text \<open>\<open>while (lower > 0 && data[lower - 1].key == lookup_key) --lower;\<close>\<close>

fun scroll_back :: "'k Row list \<Rightarrow> 'k \<Rightarrow> nat \<Rightarrow> nat res" where
  "scroll_back data lookup_key 0 = Inr 0"
| "scroll_back data lookup_key (Suc m) =
     bind_res (at data m) (\<lambda>r. if row_key r = lookup_key then scroll_back data lookup_key m
                               else Inr (Suc m))"

text \<open>The summing loop reads \<open>data[i].key\<close> before it compares \<open>i\<close> with \<open>data.size()\<close>.\<close>

function branchless_sum :: "'k Row list \<Rightarrow> 'k \<Rightarrow> nat \<Rightarrow> u64 \<Rightarrow> nat \<Rightarrow> (u64 \<times> nat) res" where
  "branchless_sum data lookup_key i result num_qualifying =
     (if length data \<le> i then Inl Undefined
      else if row_key (data ! i) = lookup_key
      then branchless_sum data lookup_key (Suc i) (result + payload (data ! i))
             (Suc num_qualifying)
      else Inr (result, num_qualifying))"
  by pat_completeness auto
termination
  by (relation "measure (\<lambda>(data, k, i, r, n). length data - i)") auto

declare branchless_sum.simps [simp del]

definition branchless_search ::
  "'k::linorder Row list \<Rightarrow> 'k \<Rightarrow> nat \<Rightarrow> nat \<Rightarrow> (u64 \<times> nat) res" where
  "branchless_search data lookup_key start stop =
     bind_res (branchless_loop data lookup_key (to_int32 (int start))
                 (to_int32 (int stop - int start + 1)))
       (\<lambda>lower. bind_res (if 0 < lower then scroll_back data lookup_key (nat lower)
                          else if lower = 0 then Inr 0 else Inl Undefined)
          (\<lambda>i. bind_res (at data i)
             (\<lambda>r. if row_key r \<noteq> lookup_key then Inr (0, 0)
                  else branchless_sum data lookup_key i 0 0)))"

lemma branchless_loop_cases:
  assumes s: "sorted_rows data" and L: "length data < 2 ^ 31" and lo: "lo < length data"
    and n: "1 \<le> n" and hi: "lo + n - 1 \<le> length data"
  shows "(branchless_loop data k (int lo) (int n) = Inl Undefined
      \<and> \<not> (lo + 1 < length data \<and> row_ub data k < length data))
    \<or> (\<exists>r. branchless_loop data k (int lo) (int n) = Inr (int r) \<and> lo \<le> r \<and> r < length data
      \<and> r \<le> lo + n - 1 \<and> (row_key (data ! lo) \<le> k \<longrightarrow> row_key (data ! r) \<le> k)
      \<and> (r < lo + n - 1 \<longrightarrow> length data \<le> r + 1 \<or> k < row_key (data ! (r + 1))))"
  using lo n hi
proof (induction n arbitrary: lo rule: less_induct)
  case (less n)
  let ?L = "length data" and ?half = "n div 2" and ?mid = "lo + n div 2"
  have sd: "int n sdiv 2 = int ?half"
    using less.prems by (simp add: signed_divide_int_def zdiv_int)
  show ?case
  proof (cases "?half = 0")
    case True
    then have "n = 1" using less.prems by auto
    with True sd less.prems show ?thesis by (simp add: branchless_loop.simps)
  next
    case half: False
    show ?thesis
    proof (cases "?mid < ?L")
      case False
      then have "branchless_loop data k (int lo) (int n) = Inl Undefined"
        using half sd by (subst branchless_loop.simps) (auto simp: Let_def)
      moreover have "lo + 1 = ?L" using False less.prems half by linarith
      ultimately show ?thesis by simp
    next
      case mid: True
      then have ok: "\<not> (2 ^ 31 \<le> int lo + int ?half \<or> int lo + int ?half < 0
          \<or> int ?L \<le> int lo + int ?half)" using L by auto
      have idx: "nat (int lo + int ?half) = ?mid" by simp
      have diff: "int n - int ?half = int (n - ?half)" by simp
      have step: "branchless_loop data k (int lo) (int n) =
          branchless_loop data k (int (if row_key (data ! ?mid) \<le> k then ?mid else lo))
            (int (n - ?half))"
        using half sd ok idx diff
        by (subst branchless_loop.simps) (simp add: Let_def del: of_nat_diff)
      show ?thesis
      proof (cases "row_key (data ! ?mid) \<le> k")
        case le: True
        have "?mid < row_ub data k" using less_key_ub_iff [OF s mid] le by simp
        then have nolast: "row_ub data k < ?L \<Longrightarrow> ?mid + 1 < ?L" by simp
        have hi': "?mid + (n - ?half) - 1 = lo + n - 1" by simp
        have "n - ?half < n" "1 \<le> n - ?half" using half less.prems by auto
        from less.IH [OF this(1) mid this(2)] less.prems(3) hi' nolast step le
        show ?thesis by auto
      next
        case gt: False
        have "n - ?half < n" "1 \<le> n - ?half" "lo + (n - ?half) - 1 \<le> ?L"
          using half less.prems by auto
        note IH = less.IH [OF this(1) less.prems(1) this(2,3)]
        have next_gt: "?L \<le> r + 1 \<or> k < row_key (data ! (r + 1))"
          if "r = lo + (n - ?half) - 1" for r
        proof (cases "?L \<le> r + 1")
          case False
          then have "row_key (data ! ?mid) \<le> row_key (data ! (r + 1))"
            using that by (intro sorted_by_nth [OF s]) auto
          with gt show ?thesis by auto
        qed simp
        from IH step gt next_gt show ?thesis
          by (elim disjE exE conjE) (simp, force)
      qed
    qed
  qed
qed

lemma scroll_back_lb:
  assumes s: "sorted_rows data" and "row_lb data k \<le> i" and "i < row_ub data k"
  shows "scroll_back data k i = Inr (row_lb data k)"
  using assms(2,3)
proof (induction i)
  case (Suc m)
  have m: "m < length data" using Suc.prems key_ub_le [of row_key data k] by linarith
  show ?case
  proof (cases "row_lb data k = Suc m")
    case True
    then have "row_key (data ! m) \<noteq> k" using less_key_lb_iff [OF s m, of k] by auto
    with m True show ?thesis by simp
  next
    case False
    with Suc.prems have "row_lb data k \<le> m" "m < row_ub data k" by auto
    with Suc.IH key_range_iff [OF s m, of k] m show ?thesis by simp
  qed
qed simp

lemma scroll_back_stays:
  "i \<le> length data \<Longrightarrow> k \<notin> row_key ` set data \<Longrightarrow> scroll_back data k i = Inr i"
  by (cases i) auto

lemma branchless_sum_inside:
  "i \<le> j \<Longrightarrow> j < length data \<Longrightarrow> row_key (data ! j) \<noteq> k \<Longrightarrow>
   branchless_sum data k i r n = Inr (sum_run data k i r n)"
proof (induction data k i r n rule: branchless_sum.induct)
  case (1 data k i r n)
  show ?case
  proof (cases "row_key (data ! i) = k")
    case True
    with "1.prems" have "i < length data" "Suc i \<le> j" by (auto simp: le_less Suc_le_eq)
    with 1 True show ?thesis
      by (subst branchless_sum.simps, subst sum_run.simps) auto
  next
    case False
    with 1 show ?thesis by (subst branchless_sum.simps, subst sum_run.simps) auto
  qed
qed

lemma branchless_sum_end:
  "\<forall>j. i \<le> j \<longrightarrow> j < length data \<longrightarrow> row_key (data ! j) = k \<Longrightarrow>
   branchless_sum data k i r n = Inl Undefined"
proof (induction data k i r n rule: branchless_sum.induct)
  case (1 data k i r n)
  then show ?case by (subst branchless_sum.simps) auto
qed

text \<open>What the loop finds when the key is present and the bound encloses its first row.\<close>

lemma branchless_loop_hit:
  assumes s: "sorted_rows data" and L: "length data < 2 ^ 31" and k: "k \<in> row_key ` set data"
    and start: "start \<le> row_lb data k" and stop: "row_lb data k \<le> stop" "stop \<le> length data"
  shows "(branchless_loop data k (int start) (int (stop - start + 1)) = Inl Undefined
      \<and> row_ub data k = length data)
    \<or> (\<exists>r. branchless_loop data k (int start) (int (stop - start + 1)) = Inr (int r)
      \<and> row_lb data k \<le> r \<and> r < row_ub data k)"
proof -
  let ?L = "length data" and ?n = "stop - start + 1"
  from key_lb_hit_iff [OF s, of k] k
  have hit: "row_lb data k < ?L" "row_key (data ! row_lb data k) = k" by auto
  have lo: "start < ?L" using hit start by simp
  have n: "1 \<le> ?n" "start + ?n - 1 \<le> ?L" using start stop by auto
  have key_lo: "row_key (data ! start) \<le> k"
    using sorted_by_nth [OF s start hit(1)] hit(2) by simp
  have ublb: "row_lb data k < row_ub data k" using key_range_iff [OF s hit(1), of k] hit by simp
  have nolast: "row_ub data k < ?L \<Longrightarrow> start + 1 < ?L" using start ublb by simp
  consider
    (ub) "branchless_loop data k (int start) (int ?n) = Inl Undefined"
      "\<not> (start + 1 < ?L \<and> row_ub data k < ?L)"
  | (r) r where "branchless_loop data k (int start) (int ?n) = Inr (int r)" "r < ?L"
      "r \<le> start + ?n - 1" "row_key (data ! r) \<le> k"
      "r < start + ?n - 1 \<Longrightarrow> ?L \<le> r + 1 \<or> k < row_key (data ! (r + 1))"
    using branchless_loop_cases [OF s L lo n, of k] key_lo by blast
  then show ?thesis
  proof cases
    case ub
    then show ?thesis using nolast key_ub_le [of row_key data k] by (meson le_neq_implies_less)
  next
    case r
    have "row_lb data k \<le> r"
    proof (rule ccontr)
      assume "\<not> row_lb data k \<le> r"
      then have lt: "r + 1 \<le> row_lb data k" by simp
      with r(5) stop start hit(1) have "k < row_key (data ! (r + 1))" by linarith
      with sorted_by_nth [OF s lt hit(1)] hit(2) show False by simp
    qed
    with r less_key_ub_iff [OF s r(2), of k] show ?thesis by blast
  qed
qed

lemma to_int32_nat: "x < 2 ^ 31 \<Longrightarrow> to_int32 (int x) = int x"
  unfolding to_int32_def sint_sbintrunc' by (rule signed_take_bit_int_eq_self) auto

lemma branchless_search_unfold:
  assumes "length data < 2 ^ 31 - 1" and "start \<le> stop" and "stop \<le> length data"
  shows "branchless_search data k start stop =
    bind_res (branchless_loop data k (int start) (int (stop - start + 1)))
      (\<lambda>lower. bind_res (if 0 < lower then scroll_back data k (nat lower)
                         else if lower = 0 then Inr 0 else Inl Undefined)
         (\<lambda>i. bind_res (at data i)
            (\<lambda>r. if row_key r \<noteq> k then Inr (0, 0) else branchless_sum data k i 0 0)))"
proof -
  have "int stop - int start + 1 = int (stop - start + 1)" using assms by simp
  then have n: "to_int32 (int stop - int start + 1) = int (stop - start + 1)"
    using assms by (simp only: to_int32_nat)
  have lo: "to_int32 (int start) = int start" using assms by (simp add: to_int32_nat)
  show ?thesis by (simp only: branchless_search_def n lo)
qed

lemma branchless_search_correct:
  assumes s: "sorted_rows data" and L: "length data < 2 ^ 31 - 1"
    and start: "start \<le> row_lb data k" and stop: "row_lb data k \<le> stop" "stop \<le> length data"
    and nolast: "row_ub data k < length data" and room: "start + 1 < length data"
  shows "branchless_search data k start stop = Inr (lookup_sum data k, lookup_count data k)"
proof (cases "k \<in> row_key ` set data")
  case True
  let ?lb = "row_lb data k"
  from key_lb_hit_iff [OF s, of k] True
  have hit: "?lb < length data" "row_key (data ! ?lb) = k" by auto
  have L': "length data < 2 ^ 31" using L by simp
  obtain r where r: "branchless_loop data k (int start) (int (stop - start + 1)) = Inr (int r)"
    "?lb \<le> r" "r < row_ub data k"
    using branchless_loop_hit [OF s L' True start stop] nolast by auto
  have ub_key: "row_key (data ! row_ub data k) \<noteq> k"
    using less_key_ub_iff [OF s nolast, of k] by auto
  have sum: "branchless_sum data k ?lb 0 0 = Inr (lookup_sum data k, lookup_count data k)"
    using branchless_sum_inside [of ?lb "row_ub data k" data k] ub_key nolast r
      sum_run_lb [OF s, of k] by simp
  have "(if 0 < int r then scroll_back data k (nat (int r)) else
      if int r = 0 then Inr 0 else Inl Undefined) = Inr ?lb"
    using scroll_back_lb [OF s r(2,3)] r(2) by auto
  with r(1) hit sum start stop L show ?thesis
    by (simp add: branchless_search_unfold del: of_nat_add of_nat_diff)
next
  case False
  have n: "1 \<le> stop - start + 1" "start + (stop - start + 1) - 1 \<le> length data"
    using start stop by auto
  obtain r where r: "branchless_loop data k (int start) (int (stop - start + 1)) = Inr (int r)"
    "r < length data"
    using branchless_loop_cases [OF s _ _ n, of k] L room nolast by auto
  have "(if 0 < int r then scroll_back data k (nat (int r)) else
      if int r = 0 then Inr 0 else Inl Undefined) = Inr r"
    using scroll_back_stays [of r data k] False r by auto
  with r start stop L False show ?thesis
    by (auto simp: branchless_search_unfold simp del: of_nat_add of_nat_diff)
qed

text \<open>
  The largest key: the search always reads past the end of the vector, in the bisection or
  in the summing loop.
\<close>

lemma branchless_search_last_key:
  assumes s: "sorted_rows data" and L: "length data < 2 ^ 31 - 1"
    and k: "k \<in> row_key ` set data" and last: "row_ub data k = length data"
    and start: "start \<le> row_lb data k" and stop: "row_lb data k \<le> stop" "stop \<le> length data"
  shows "branchless_search data k start stop = Inl Undefined"
proof -
  let ?lb = "row_lb data k"
  from key_lb_hit_iff [OF s, of k] k
  have hit: "?lb < length data" "row_key (data ! ?lb) = k" by auto
  have L': "length data < 2 ^ 31" using L by simp
  from branchless_loop_hit [OF s L' k start stop] consider
    "branchless_loop data k (int start) (int (stop - start + 1)) = Inl Undefined"
  | (r) r where "branchless_loop data k (int start) (int (stop - start + 1)) = Inr (int r)"
    "?lb \<le> r" "r < row_ub data k" by blast
  then show ?thesis
  proof cases
    case 1
    with start stop L show ?thesis
      by (simp add: branchless_search_unfold del: of_nat_add of_nat_diff)
  next
    case r
    have all: "\<forall>j. ?lb \<le> j \<longrightarrow> j < length data \<longrightarrow> row_key (data ! j) = k"
      using key_range_iff [OF s, of _ k] last by auto
    have "(if 0 < int r then scroll_back data k (nat (int r)) else
        if int r = 0 then Inr 0 else Inl Undefined) = Inr ?lb"
      using scroll_back_lb [OF s r(2,3)] r(2) by auto
    with r(1) hit branchless_sum_end [OF all] start stop L show ?thesis
      by (simp add: branchless_search_unfold del: of_nat_add of_nat_diff)
  qed
qed

section \<open>Interpolation search\<close>

text \<open>
  \<open>est lookup_key start_key end_key distance\<close> stands for the \<open>double\<close> expression that computes
  \<open>mid_offset\<close> (its rounding is not fixed under \<open>-ffast-math\<close>); \<open>None\<close> is a value that does
  not fit \<open>size_t\<close>, whose conversion is undefined. A loop that does not end is \<open>None\<close>.
\<close>

type_synonym 'k estimator = "'k \<Rightarrow> 'k \<Rightarrow> 'k \<Rightarrow> nat \<Rightarrow> nat option"

partial_function (option) interp_loop ::
  "'k estimator \<Rightarrow> 'k::linorder Row list \<Rightarrow> 'k \<Rightarrow> nat \<Rightarrow> nat \<Rightarrow> (nat \<times> nat) res option" where
  "interp_loop est data lookup_key start_it end_it =
     (if \<not> start_it < end_it then Some (Inr (start_it, end_it))
      else if end_it - start_it < 64 then Some (Inr (start_it, end_it))
      else if length data \<le> end_it then Some (Inl Undefined)
      else (case est lookup_key (row_key (data ! start_it)) (row_key (data ! end_it))
                (end_it - start_it) of
          None \<Rightarrow> Some (Inl Undefined)
        | Some mid_offset \<Rightarrow>
            let mid = start_it + mid_offset
            in if mid = start_it then Some (Inr (start_it, end_it))
               else if length data \<le> mid then Some (Inl Undefined)
               else if lookup_key < row_key (data ! mid)
                 then interp_loop est data lookup_key start_it mid
               else if lookup_key > row_key (data ! mid)
                 then interp_loop est data lookup_key mid end_it
               else Some (bind_res (scroll_back data lookup_key mid)
                            (\<lambda>s. Inr (s, mid + 1)))))"

definition interpolation_search ::
  "'k estimator \<Rightarrow> 'k::linorder Row list \<Rightarrow> 'k \<Rightarrow> nat \<Rightarrow> nat \<Rightarrow> (u64 \<times> nat) res option" where
  "interpolation_search est data lookup_key start stop =
     (if \<not> (start \<le> length data \<and> stop \<le> length data) then Some (Inl Undefined)
      else map_option (\<lambda>r. bind_res r (\<lambda>(s, e). branching_search data lookup_key s e))
             (interp_loop est data lookup_key start stop))"

text \<open>
  What the loop needs of the estimate: inside of the key range it is a position of the
  range, and the last one only for the last key.
\<close>

definition est_sound :: "'k::linorder estimator \<Rightarrow> bool" where
  "est_sound est \<longleftrightarrow> (\<forall>k sk ek d. sk \<le> k \<longrightarrow> k \<le> ek \<longrightarrow> sk < ek \<longrightarrow> 0 < d \<longrightarrow>
     (\<exists>m. est k sk ek d = Some m \<and> m \<le> d \<and> (k < ek \<longrightarrow> m < d)))"

text \<open>The estimate without rounding.\<close>

definition exact_est :: "'l::len word estimator" where
  "exact_est k sk ek d =
     (if ek = sk then None else Some (unat (k - sk) * d div unat (ek - sk)))"

lemma est_sound_exact: "est_sound exact_est"
  unfolding est_sound_def
proof (intro allI impI)
  fix k sk ek :: "'l::len word" and d :: nat
  assume le: "sk \<le> k" "k \<le> ek" "sk < ek" "0 < d"
  have num: "unat (k - sk) = unat k - unat sk" using le by (simp add: unat_sub)
  have den: "unat (ek - sk) = unat ek - unat sk" using le by (simp add: unat_sub)
  have ord: "unat sk \<le> unat k" "unat k \<le> unat ek" "unat sk < unat ek"
    using le by (simp_all add: word_le_nat_alt word_less_nat_alt)
  have "unat (k - sk) * d div unat (ek - sk) \<le> d"
  proof -
    have "unat (k - sk) * d \<le> unat (ek - sk) * d"
      unfolding num den by (rule mult_le_mono1) (use ord in simp)
    then have "unat (k - sk) * d div unat (ek - sk) \<le> unat (ek - sk) * d div unat (ek - sk)"
      by (rule div_le_mono)
    with den ord show ?thesis by simp
  qed
  moreover have "unat (k - sk) * d div unat (ek - sk) < d" if "k < ek"
  proof -
    have "unat k < unat ek" using that by (simp add: word_less_nat_alt)
    then have "unat (k - sk) * d < d * unat (ek - sk)" using num den ord le by simp
    then show ?thesis by (rule less_mult_imp_div_less)
  qed
  ultimately show "\<exists>m. exact_est k sk ek d = Some m \<and> m \<le> d \<and> (k < ek \<longrightarrow> m < d)"
    using le by (auto simp: exact_est_def)
qed

lemma distinct_keys_strict:
  assumes "sorted_rows data" and "distinct (map row_key data)"
    and "i < j" and "j < length data"
  shows "row_key (data ! i) < row_key (data ! j)"
proof -
  have "row_key (data ! i) \<le> row_key (data ! j)" using assms by (intro sorted_by_nth) auto
  moreover have "row_key (data ! i) \<noteq> row_key (data ! j)"
    using assms by (auto simp: distinct_conv_nth)
  ultimately show ?thesis by simp
qed

lemma interp_loop_correct:
  assumes s: "sorted_rows data" and d: "distinct (map row_key data)" and est: "est_sound est"
    and k: "k \<in> row_key ` set data"
    and start: "start \<le> row_lb data k" and stop: "row_lb data k \<le> stop" "stop < length data"
  shows "\<exists>s' e'. interp_loop est data k start stop = Some (Inr (s', e'))
    \<and> s' \<le> row_lb data k \<and> row_lb data k \<le> e' \<and> e' \<le> length data"
  using start stop
proof (induction "stop - start" arbitrary: start stop rule: less_induct)
  case less
  let ?lb = "row_lb data k"
  from key_lb_hit_iff [OF s, of k] k
  have hit: "?lb < length data" "row_key (data ! ?lb) = k" by auto
  note unfold = interp_loop.simps [of est data k start stop]
  show ?case
  proof (cases "start < stop \<and> \<not> stop - start < 64")
    case False
    then have "interp_loop est data k start stop = Some (Inr (start, stop))"
      by (subst unfold) auto
    with less.prems show ?thesis by simp
  next
    case True
    let ?sk = "row_key (data ! start)" and ?ek = "row_key (data ! stop)"
    have sk: "?sk \<le> k" using sorted_by_nth [OF s less.prems(1) hit(1)] hit(2) by simp
    have ek: "k \<le> ?ek" using sorted_by_nth [OF s less.prems(2,3)] hit(2) by simp
    have "?sk < ?ek" using distinct_keys_strict [OF s d] True less.prems by simp
    with est sk ek True obtain m where
      m: "est k ?sk ?ek (stop - start) = Some m" "m \<le> stop - start"
        "k < ?ek \<Longrightarrow> m < stop - start"
      unfolding est_sound_def by (meson zero_less_diff)
    let ?mid = "start + m"
    have mid: "?mid \<le> stop" "?mid < length data" using m(2) less.prems True by auto
    note unf = unfold m(1) Let_def
    consider (start) "m = 0" | (less) "m \<noteq> 0" "k < row_key (data ! ?mid)"
      | (greater) "m \<noteq> 0" "row_key (data ! ?mid) < k" | (eq) "m \<noteq> 0" "row_key (data ! ?mid) = k"
      by (meson linorder_neqE)
    then show ?thesis
    proof cases
      case start
      then have "interp_loop est data k start stop = Some (Inr (start, stop))"
        using True less.prems by (subst unfold) (simp add: m(1))
      with less.prems show ?thesis by simp
    next
      case c: less
      then have eq: "interp_loop est data k start stop = interp_loop est data k start ?mid"
        using True less.prems mid by (subst unfold) (simp add: m(1) Let_def)
      have "k < ?ek" using c(2) sorted_by_nth [OF s mid(1) less.prems(3)] by simp
      with m(3) True have lt: "?mid - start < stop - start" by simp
      have lb: "?lb \<le> ?mid"
        using c(2) sorted_by_nth [OF s, of ?mid ?lb] hit by (cases "?mid \<le> ?lb") auto
      show ?thesis unfolding eq by (rule less.hyps [OF lt less.prems(1) lb mid(2)])
    next
      case greater
      then have eq: "interp_loop est data k start stop = interp_loop est data k ?mid stop"
        using True less.prems mid less_not_sym [OF greater(2)] by (subst unfold) (simp add: m(1) Let_def)
      have lt: "stop - ?mid < stop - start"
        using greater(1) True by (intro diff_less_mono2) auto
      have lb: "?mid \<le> ?lb"
        using greater(2) less_key_lb_iff [OF s mid(2), of k] by simp
      show ?thesis unfolding eq by (rule less.hyps [OF lt lb less.prems(2,3)])
    next
      case eq
      have lb: "?mid = ?lb"
      proof (rule ccontr)
        assume "?mid \<noteq> ?lb"
        then consider "?mid < ?lb" | "?lb < ?mid" by linarith
        then show False
          using distinct_keys_strict [OF s d] eq(2) hit mid(2) by (metis less_irrefl)
      qed
      have "?lb < row_ub data k" using key_range_iff [OF s hit(1), of k] hit(2) by simp
      with scroll_back_lb [OF s order.refl this] lb
      have "interp_loop est data k start stop = Some (Inr (?lb, Suc ?lb))"
        using True less.prems mid eq by (subst unfold) (simp add: m(1) Let_def)
      with hit(1) show ?thesis by auto
    qed
  qed
qed

lemma interpolation_search_correct:
  assumes s: "sorted_rows data" and d: "distinct (map row_key data)" and est: "est_sound est"
    and k: "k \<in> row_key ` set data"
    and start: "start \<le> row_lb data k" and stop: "row_lb data k \<le> stop" "stop < length data"
  shows "interpolation_search est data k start stop
    = Some (Inr (lookup_sum data k, lookup_count data k))"
proof -
  from interp_loop_correct [OF assms] obtain s' e' where
    "interp_loop est data k start stop = Some (Inr (s', e'))"
    "s' \<le> row_lb data k" "row_lb data k \<le> e'" "e' \<le> length data" by blast
  with branching_search_correct [OF s this(2,3,4)] start stop show ?thesis
    by (simp add: interpolation_search_def)
qed

text \<open>The loop reads \<open>end_it->key\<close>: on the full range of a large vector that is past the end.\<close>

lemma interpolation_search_full_range:
  assumes "64 \<le> length data"
  shows "interpolation_search est data k 0 (length data) = Some (Inl Undefined)"
  unfolding interpolation_search_def
  by (subst interp_loop.simps) (use assms in auto)

text \<open>An estimate rounded up to the end of the range, with a larger key there, never moves.\<close>

lemma interp_loop_diverges:
  fixes est :: "'k::linorder estimator"
  assumes "64 \<le> stop - start" and "stop < length data" and "k < row_key (data ! stop)"
    and "est k (row_key (data ! start)) (row_key (data ! stop)) (stop - start) = Some (stop - start)"
  shows "interp_loop est data k start stop = None"
proof (rule ccontr)
  assume "interp_loop est data k start stop \<noteq> None"
  then obtain r where ret: "interp_loop est data k start stop = Some r" by auto
  have "\<not> (est = est \<and> data = data \<and> k = k \<and> start = start \<and> stop = stop)"
  proof (rule interp_loop.raw_induct
      [where P = "\<lambda>e d k' s t r. \<not> (e = est \<and> d = data \<and> k' = k \<and> s = start \<and> t = stop)",
       OF _ ret], goal_cases)
    case (1 loop e d k' s t y)
    show ?case
    proof
      assume "e = est \<and> d = data \<and> k' = k \<and> s = start \<and> t = stop"
      then have at: "e = est" "d = data" "k' = k" "s = start" "t = stop" by auto
      have "start < stop" "start + (stop - start) = stop" "stop \<noteq> start"
        using assms(1) by auto
      with 1(2) [unfolded at] assms have "loop e d k' s t = Some y" unfolding at by simp
      from 1(1) [OF this] at show False by blast
    qed
  qed
  then show False by simp
qed

section \<open>The contract of a search\<close>

text \<open>
  \<open>search data k start stop\<close> terminates with the sum and the count of the key, whatever
  bound it is started on, when the bound encloses the first occurrence and the side
  condition \<open>ok\<close> of the implementation holds.
\<close>

locale search_algorithm =
  fixes search :: "'k::linorder Row list \<Rightarrow> 'k \<Rightarrow> nat \<Rightarrow> nat \<Rightarrow> (u64 \<times> nat) res option"
    and ok :: "'k Row list \<Rightarrow> 'k \<Rightarrow> nat \<Rightarrow> nat \<Rightarrow> bool"
  assumes search_correct:
    "sorted_rows data \<Longrightarrow> start \<le> row_lb data k \<Longrightarrow> row_lb data k \<le> stop \<Longrightarrow>
     stop \<le> length data \<Longrightarrow> ok data k start stop \<Longrightarrow>
     search data k start stop = Some (Inr (lookup_sum data k, lookup_count data k))"
begin

lemma search_bound_irrelevant:
  assumes "sorted_rows data" and "ok data k s1 e1" and "ok data k s2 e2"
    and "s1 \<le> row_lb data k" "row_lb data k \<le> e1" "e1 \<le> length data"
    and "s2 \<le> row_lb data k" "row_lb data k \<le> e2" "e2 \<le> length data"
  shows "search data k s1 e1 = search data k s2 e2"
  using assms by (simp add: search_correct)

lemma search_full:
  "sorted_rows data \<Longrightarrow> ok data k 0 (length data) \<Longrightarrow>
   search data k 0 (length data) = Some (Inr (lookup_sum data k, lookup_count data k))"
  by (rule search_correct) auto

lemma search_absent:
  assumes "sorted_rows data" and "k \<notin> row_key ` set data" and "ok data k start stop"
    and "start \<le> row_lb data k" "row_lb data k \<le> stop" "stop \<le> length data"
  shows "search data k start stop = Some (Inr (0, 0))"
  using assms by (simp add: search_correct)

end

abbreviation branchless_ok :: "'k::linorder Row list \<Rightarrow> 'k \<Rightarrow> nat \<Rightarrow> nat \<Rightarrow> bool" where
  "branchless_ok data k start stop \<equiv>
     length data < 2 ^ 31 - 1 \<and> row_ub data k < length data \<and> start + 1 < length data"

abbreviation interpolation_ok ::
  "'k estimator \<Rightarrow> 'k::linorder Row list \<Rightarrow> 'k \<Rightarrow> nat \<Rightarrow> nat \<Rightarrow> bool" where
  "interpolation_ok est data k start stop \<equiv>
     est_sound est \<and> distinct (map row_key data) \<and> k \<in> row_key ` set data
     \<and> stop < length data"

interpretation branching: search_algorithm
  "\<lambda>data k start stop. Some (branching_search data k start stop)" "\<lambda>_ _ _ _. True"
  by unfold_locales (simp add: branching_search_correct)

interpretation linear: search_algorithm
  "\<lambda>data k start stop. Some (linear_search data k start stop)" "\<lambda>_ _ _ _. True"
  by unfold_locales (simp add: linear_search_correct)

interpretation branchless: search_algorithm
  "\<lambda>data k start stop. Some (branchless_search data k start stop)" branchless_ok
  by unfold_locales (simp add: branchless_search_correct)

interpretation interpolation: search_algorithm
  "interpolation_search est" "interpolation_ok est" for est
  by unfold_locales (simp add: interpolation_search_correct)

section \<open>Properties\<close>

text \<open>Small and large sorted data for the witnesses.\<close>

abbreviation ex_row :: "u32 \<Rightarrow> u64 \<Rightarrow> u32 Row" where
  "ex_row k v \<equiv> \<lparr>row_key = k, row_data = [v]\<rparr>"

abbreviation ex_rows :: "u32 Row list" where
  "ex_rows \<equiv> [ex_row 1 10, ex_row 3 20, ex_row 3 30, ex_row 7 5, ex_row 9 8]"

definition ex_large :: "nat \<Rightarrow> u32 Row list" where
  "ex_large n = map (\<lambda>i. ex_row (word_of_nat i) 1) [0..<n]"

lemma ex_large_facts:
  assumes "n \<le> 2 ^ 16"
  shows "length (ex_large n) = n" and "sorted_rows (ex_large n)"
    and "distinct (map row_key (ex_large n))"
    and "i < n \<Longrightarrow> row_lb (ex_large n) (word_of_nat i) = i"
    and "i < n \<Longrightarrow> row_key (ex_large n ! i) = word_of_nat i"
proof -
  have lt: "(word_of_nat i :: u32) < word_of_nat j \<longleftrightarrow> i < j" if "i < n" "j < n" for i j
    using that assms by (simp add: word_less_nat_alt)
  have le: "(word_of_nat i :: u32) \<le> word_of_nat j \<longleftrightarrow> i \<le> j" if "i < n" "j < n" for i j
    using that assms by (simp add: word_le_nat_alt)
  show "length (ex_large n) = n" by (simp add: ex_large_def)
  show s: "sorted_rows (ex_large n)"
    by (simp add: ex_large_def sorted_iff_nth_mono le)
  show "distinct (map row_key (ex_large n))"
    using lt by (auto simp: ex_large_def distinct_conv_nth) (metis less_irrefl nat_neq_iff)
  show "i < n \<Longrightarrow> row_lb (ex_large n) (word_of_nat i) = i"
    by (rule key_lb_eqI [OF s]) (auto simp: ex_large_def lt le)
  show "i < n \<Longrightarrow> row_key (ex_large n ! i) = word_of_nat i" by (simp add: ex_large_def)
qed

text \<open>
  C4. The branching binary search, started on any bound that encloses the first occurrence
  of a key in sorted data, returns the sum of the payloads of all rows with the key and
  their number (0 and 0 for an absent key), even when the rows run past the bound.
\<close>
theorem branching_search_sums_all:
  assumes "sorted_rows data" and "start \<le> row_lb data k" and "row_lb data k \<le> stop"
    and "stop \<le> length data"
  shows "branching_search data k start stop = Inr (lookup_sum data k, lookup_count data k)"
  using branching.search_correct [OF assms] by simp

theorem branching_search_sums_all_witness:
  "branching_search ex_rows 3 1 2 = Inr (50, 2)"
  using branching_search_sums_all [of ex_rows 1 3 2]
  by (simp add: key_lb_def lb_def lookup_sum_def lookup_count_def)

text \<open>
  The linear search returns the same sum and count as the branching binary search on
  every bound that encloses the first occurrence.
\<close>
theorem linear_search_equals_branching:
  assumes "sorted_rows data" and "start \<le> row_lb data k" and "row_lb data k \<le> stop"
    and "stop \<le> length data"
  shows "linear_search data k start stop = branching_search data k start stop"
  using linear.search_correct [OF assms] branching.search_correct [OF assms] by simp

theorem linear_search_equals_branching_witness:
  "linear_search ex_rows 7 2 4 = branching_search ex_rows 7 2 4"
  by (rule linear_search_equals_branching) (simp_all add: key_lb_def lb_def)

text \<open>
  C28. The branchless binary search, which treats the end of the bound as inclusive, returns
  the sum and the count of every key below the largest one, on every enclosing bound that begins
  before the last row, in data of fewer than \<open>2^31 - 1\<close> rows: its bisection, its scroll back
  and its summing loop then stay inside of the vector. A bound that begins at the last row is
  excluded because its inclusive end lets the bisection read behind that row.
\<close>
theorem branchless_search_sums_all:
  assumes "sorted_rows data" and "length data < 2 ^ 31 - 1"
    and "row_ub data k < length data" and "start + 1 < length data"
    and "start \<le> row_lb data k" and "row_lb data k \<le> stop" and "stop \<le> length data"
  shows "branchless_search data k start stop = Inr (lookup_sum data k, lookup_count data k)"
  using branchless.search_correct [OF assms(1,5,6,7)] assms(2-4) by simp

theorem branchless_search_sums_all_witness:
  "branchless_search ex_rows 3 0 5 = Inr (50, 2)"
  using branchless_search_sums_all [of ex_rows 3 0 5]
  by (simp add: key_lb_def key_ub_def lb_def lookup_sum_def lookup_count_def)

text \<open>
  For the largest key of the data the branchless search reads past the end of the
  vector on every valid bound: the loop \<open>data[i].key == lookup_key && i < data.size()\<close>
  reads before it compares, and the inclusive end can be the size of the vector.
\<close>
theorem branchless_search_reads_past_end:
  assumes "sorted_rows data" and "length data < 2 ^ 31 - 1"
    and "k \<in> row_key ` set data" and "row_ub data k = length data"
    and "start \<le> row_lb data k" and "row_lb data k \<le> stop" and "stop \<le> length data"
  shows "branchless_search data k start stop = Inl Undefined"
  using assms by (rule branchless_search_last_key)

theorem branchless_search_reads_past_end_witness:
  "branchless_search ex_rows 9 0 4 = Inl Undefined"
  using branchless_search_reads_past_end [of ex_rows 9 0 4]
  by (simp add: key_lb_def key_ub_def lb_def)

text \<open>
  C29. The interpolation search terminates and returns the sum and the count of a key of
  duplicate-free data, on a bound that encloses the key and ends before the last row, for
  every estimate that stays in the range and reaches its end only for the last key.
\<close>
theorem interpolation_search_sums_all:
  assumes "sorted_rows data" and "distinct (map row_key data)" and "est_sound est"
    and "k \<in> row_key ` set data"
    and "start \<le> row_lb data k" and "row_lb data k \<le> stop" and "stop < length data"
  shows "interpolation_search est data k start stop
    = Some (Inr (lookup_sum data k, lookup_count data k))"
  using interpolation.search_correct [OF assms(1,5,6)] assms(2-4,7) by simp

theorem interpolation_search_sums_all_witness:
  "interpolation_search exact_est (ex_large 100) 42 0 99
   = Some (Inr (lookup_sum (ex_large 100) 42, lookup_count (ex_large 100) 42))"
proof (rule interpolation_search_sums_all)
  note F = ex_large_facts(1,2,3) [of 100, simplified] ex_large_facts(4,5) [of 100 42, simplified]
  show "(42::u32) \<in> row_key ` set (ex_large 100)"
    by (rule image_eqI [where x = "ex_large 100 ! 42"]) (simp_all add: F nth_mem)
qed (simp_all add: ex_large_facts(1,2,3) [of 100, simplified]
      ex_large_facts(4) [of 100 42, simplified] est_sound_exact)

text \<open>
  An estimate that rounds up to the end of the range while a larger key is there makes
  the interpolation loop run forever: neither end of the range moves.
\<close>
theorem interpolation_loop_stuck:
  fixes est :: "'k::linorder estimator"
  assumes "64 \<le> stop - start" and "stop < length data" and "k < row_key (data ! stop)"
    and "est k (row_key (data ! start)) (row_key (data ! stop)) (stop - start) = Some (stop - start)"
  shows "interp_loop est data k start stop = None"
  using assms by (rule interp_loop_diverges)

theorem interpolation_loop_stuck_witness:
  "interp_loop (\<lambda>_ _ _ d. Some d) (ex_large 100) 42 0 99 = None"
  by (rule interpolation_loop_stuck) (simp_all add: ex_large_facts(1) [of 100, simplified]
      ex_large_facts(5) [of 100 99, simplified])

end
