(* ===== verification/Competitor.thy ===== *)
theory Competitor
  imports Searches
begin

text \<open>
  The interface of an index, \<open>src/competitors/base.h\<close> and the member functions that
  \<open>src/benchmark.h\<close> calls on every competitor, and the plain binary search competitor
  \<open>src/competitors/binary_search.h\<close>. The locale \<open>index_contract\<close> is what the benchmark
  relies on: built on sorted data whose values are positions, an index answers a lookup
  with a bound that encloses the first occurrence of the key.
\<close>

section \<open>The base class\<close>

definition base_applicable :: "bool \<Rightarrow> string \<Rightarrow> bool" where
  "base_applicable unique data_filename = True"

definition base_variant :: int where
  "base_variant = 0"

text \<open>The message of the competitors whose \<open>Insert\<close> is not supported.\<close>

definition insert_unsupported :: "'k KeyValue \<Rightarrow> 'st \<Rightarrow> 'st res" where
  "insert_unsupported keyValue st =
     Inl (Fail ''Attempted to use inserts on index where wrapper does not support'')"

section \<open>The contract of an index\<close>

text \<open>
  What the benchmark builds an index on: entries sorted by key, each with its position as
  value (\<open>index_data_\<close> of \<open>Benchmark\<close>); a \<open>size_t\<close> holds every position.
\<close>

definition index_input :: "'k::linorder KeyValue list \<Rightarrow> bool" where
  "index_input kvs \<longleftrightarrow> sorted_by kv_key kvs \<and> length kvs < 2 ^ 63
     \<and> (\<forall>i < length kvs. kv_value (kvs ! i) = word_of_nat i)"

abbreviation kv_lb :: "'k::linorder KeyValue list \<Rightarrow> 'k \<Rightarrow> nat" where
  "kv_lb kvs k \<equiv> key_lb kv_key kvs k"

definition encloses :: "SearchBound \<Rightarrow> nat \<Rightarrow> nat \<Rightarrow> bool" where
  "encloses b pos n \<longleftrightarrow> sb_start b \<le> pos \<and> pos \<le> sb_stop b \<and> sb_stop b \<le> n"

lemma index_input_iff:
  "index_input kvs \<longleftrightarrow> sorted_by kv_key kvs \<and> length kvs < 2 ^ 63
    \<and> map kv_value kvs = map word_of_nat [0..<length kvs]"
  unfolding index_input_def
  using list_eq_iff_nth_eq [of "map kv_value kvs" "map word_of_nat [0..<length kvs]"] by simp

lemma index_input_value:
  "index_input kvs \<Longrightarrow> i < length kvs \<Longrightarrow> unat (kv_value (kvs ! i)) = i"
  by (simp add: index_input_def)

lemma kv_lb_of_rows: "map kv_key kvs = map row_key data \<Longrightarrow> kv_lb kvs k = row_lb data k"
proof -
  assume eq: "map kv_key kvs = map row_key data"
  have "key_lb f xs k = lb (\<lambda>x. x < k) (map f xs)" for f :: "'b \<Rightarrow> 'a" and xs
    by (simp add: key_lb_def lb_def takeWhile_map o_def)
  then show "kv_lb kvs k = row_lb data k" using eq by metis
qed

locale index_contract =
  fixes build :: "'k::linorder KeyValue list \<Rightarrow> 'st res"
    and equality_lookup :: "'st \<Rightarrow> 'k \<Rightarrow> SearchBound res"
    and supports :: "'k KeyValue list \<Rightarrow> bool"
    and answers :: "'k KeyValue list \<Rightarrow> 'k \<Rightarrow> bool"
  assumes build_total: "index_input kvs \<Longrightarrow> supports kvs \<Longrightarrow> \<exists>st. build kvs = Inr st"
    and lookup_encloses:
      "index_input kvs \<Longrightarrow> supports kvs \<Longrightarrow> build kvs = Inr st \<Longrightarrow> answers kvs k \<Longrightarrow>
       \<exists>b. equality_lookup st k = Inr b \<and> encloses b (kv_lb kvs k) (length kvs)"
begin

text \<open>Index and search together: the lookup returns the sum over all rows of the key.\<close>

lemma lookup_then_search:
  assumes "search_algorithm search ok" and input: "index_input kvs"
    and keys: "map kv_key kvs = map row_key data"
    and sup: "supports kvs" and ans: "answers kvs k"
    and ok: "\<And>b. encloses b (row_lb data k) (length data) \<Longrightarrow> ok data k (sb_start b) (sb_stop b)"
  shows "\<exists>st b. build kvs = Inr st \<and> equality_lookup st k = Inr b
    \<and> search data k (sb_start b) (sb_stop b) = Some (Inr (lookup_sum data k, lookup_count data k))"
proof -
  have len: "length kvs = length data" using keys by (metis length_map)
  obtain st where st: "build kvs = Inr st" using build_total [OF input sup] by blast
  obtain b where b: "equality_lookup st k = Inr b" "encloses b (kv_lb kvs k) (length kvs)"
    using lookup_encloses [OF input sup st ans] by blast
  have enc: "encloses b (row_lb data k) (length data)"
    using b(2) kv_lb_of_rows [OF keys, of k] len by simp
  have "sorted_rows data" using input keys by (simp add: index_input_def)
  then have "search data k (sb_start b) (sb_stop b)
      = Some (Inr (lookup_sum data k, lookup_count data k))"
    using enc ok [OF enc] unfolding encloses_def by (intro search_algorithm.search_correct [OF assms(1)]) auto
  with st b show ?thesis by blast
qed

end

section \<open>Plain binary search\<close>

text \<open>The state is \<open>data_size\<close>; the bound is the whole data.\<close>

definition bs_build :: "'k KeyValue list \<Rightarrow> nat res" where
  "bs_build data = Inr (length data)"

definition bs_lookup :: "nat \<Rightarrow> 'k \<Rightarrow> SearchBound res" where
  "bs_lookup data_size lookup_key = Inr \<lparr>sb_start = 0, sb_stop = data_size\<rparr>"

interpretation bs: index_contract bs_build bs_lookup "\<lambda>_. True" "\<lambda>_ _. True"
  by unfold_locales (auto simp: bs_build_def bs_lookup_def encloses_def)

text \<open>Small data for the witnesses.\<close>

abbreviation ex_kvs :: "u32 KeyValue list" where
  "ex_kvs \<equiv> [\<lparr>kv_key = 4, kv_value = 0\<rparr>, \<lparr>kv_key = 5, kv_value = 1\<rparr>,
    \<lparr>kv_key = 5, kv_value = 2\<rparr>, \<lparr>kv_key = 19, kv_value = 3\<rparr>]"

lemma ex_kvs_input: "index_input ex_kvs" "sorted_by kv_key ex_kvs"
  by (simp_all add: index_input_iff upt_rec)

end
