(* ===== verification/RadixBinarySearch.thy ===== *)
theory RadixBinarySearch
  imports Competitor
begin

text \<open>
  Model of \<open>src/competitors/radix_binary_search.h\<close>: a table of \<open>2 ^ num_radix_bits + 1\<close> hints,
  indexed by the leading bits of the distance of a key from the smallest key. The keys are
  the words \<open>'l word\<close> with \<open>'l\<close> of 32 or 64 bits; \<open>b\<close> is the template parameter
  \<open>num_radix_bits\<close>.
\<close>

section \<open>Definitions\<close>

text \<open>The number of bits of a value without its leading zeros.\<close>

fun bit_len :: "nat \<Rightarrow> nat" where
  "bit_len n = (if n = 0 then 0 else Suc (bit_len (n div 2)))"

declare bit_len.simps [simp del]

text \<open>\<open>__builtin_clz\<close> and \<open>__builtin_clzl\<close>: undefined for 0.\<close>

definition builtin_clz :: "'l::len word \<Rightarrow> nat res" where
  "builtin_clz val = (if val = 0 then Inl Undefined else Inr (LENGTH('l) - bit_len (unat val)))"

definition shift_bits :: "nat \<Rightarrow> 'l::len word \<Rightarrow> nat res" where
  "shift_bits b val =
     bind_res (builtin_clz val)
       (\<lambda>clz. if LENGTH('l) - clz < b then Inr 0 else Inr (LENGTH('l) - b - clz))"

record 'k RBS =
  rbs_n :: nat
  rbs_min :: 'k
  rbs_max :: 'k
  rbs_shift :: nat
  rbs_hint :: "u32 list"

text \<open>\<open>for (j = prev_prefix + 1; j <= curr_prefix; ++j) radix_hint_[j] = i;\<close>\<close>

function rbs_fill :: "u32 list \<Rightarrow> nat \<Rightarrow> nat \<Rightarrow> nat \<Rightarrow> u32 list res" where
  "rbs_fill hint j curr_prefix i =
     (if j \<le> curr_prefix
      then bind_res (store hint j (word_of_nat i)) (\<lambda>hint'. rbs_fill hint' (Suc j) curr_prefix i)
      else Inr hint)"
  by pat_completeness auto
termination
  by (relation "measure (\<lambda>(hint, j, c, i). Suc c - j)") auto

declare rbs_fill.simps [simp del]

text \<open>A shift by the width of the type or more is undefined.\<close>

definition rbs_prefix :: "nat \<Rightarrow> 'l::len word \<Rightarrow> 'l word \<Rightarrow> nat" where
  "rbs_prefix shift mn k = unat (drop_bit shift (k - mn))"

text \<open>The loop over the data: the table and \<open>prev_prefix\<close>.\<close>

function rbs_loop ::
  "'l::len word KeyValue list \<Rightarrow> nat \<Rightarrow> 'l word \<Rightarrow> nat \<Rightarrow> u32 list \<Rightarrow> nat \<Rightarrow> (u32 list \<times> nat) res" where
  "rbs_loop data shift mn i hint prev_prefix =
     (if i < length data
      then let curr_prefix = rbs_prefix shift mn (kv_key (data ! i))
           in if curr_prefix \<noteq> prev_prefix
              then bind_res (rbs_fill hint (prev_prefix + 1) curr_prefix i)
                     (\<lambda>hint'. rbs_loop data shift mn (Suc i) hint' curr_prefix)
              else rbs_loop data shift mn (Suc i) hint prev_prefix
      else Inr (hint, prev_prefix))"
  by pat_completeness auto
termination
  by (relation "measure (\<lambda>(data, s, m, i, h, p). length data - i)") auto

declare rbs_loop.simps [simp del]

text \<open>\<open>for (; prev_prefix < 2 ^ b; ++prev_prefix) radix_hint_[prev_prefix + 1] = n_;\<close>\<close>

function rbs_tail :: "nat \<Rightarrow> u32 list \<Rightarrow> nat \<Rightarrow> nat \<Rightarrow> u32 list res" where
  "rbs_tail b hint prev_prefix n =
     (if prev_prefix < 2 ^ b
      then bind_res (store hint (prev_prefix + 1) (word_of_nat n))
             (\<lambda>hint'. rbs_tail b hint' (Suc prev_prefix) n)
      else Inr hint)"
  by pat_completeness auto
termination
  by (relation "measure (\<lambda>(b, hint, p, n). 2 ^ b - p)") auto

declare rbs_tail.simps [simp del]

definition rbs_build :: "nat \<Rightarrow> 'l::len word KeyValue list \<Rightarrow> 'l word RBS res" where
  "rbs_build b data =
     (if data = [] then Inl Undefined
      else let hint = replicate (2 ^ b + 1) 0;
               n = length data;
               mn = kv_key (hd data);
               mx = kv_key (last data)
           in bind_res (shift_bits b (mx - mn))
                (\<lambda>shift. if LENGTH('l) \<le> shift then Inl Undefined
                         else bind_res (rbs_loop data shift mn 0 (hint[0 := 0]) 0)
                  (\<lambda>(hint', prev_prefix). bind_res (rbs_tail b hint' prev_prefix n)
                     (\<lambda>hint''. Inr \<lparr>rbs_n = n, rbs_min = mn, rbs_max = mx,
                                    rbs_shift = shift, rbs_hint = hint''\<rparr>))))"

definition rbs_lookup :: "'l::len word RBS \<Rightarrow> 'l word \<Rightarrow> SearchBound res" where
  "rbs_lookup st lookup_key =
     (if lookup_key < rbs_min st then Inr \<lparr>sb_start = 0, sb_stop = 1\<rparr>
      else if lookup_key > rbs_max st then Inr \<lparr>sb_start = rbs_n st - 1, sb_stop = rbs_n st\<rparr>
      else let p0 = rbs_prefix (rbs_shift st) (rbs_min st) lookup_key;
               p = (if p0 > length (rbs_hint st) - 2 then length (rbs_hint st) - 2 else p0)
           in bind_res (at (rbs_hint st) p) (\<lambda>h0. bind_res (at (rbs_hint st) (p + 1)) (\<lambda>h1.
                let start0 = unat h0; stop0 = unat h1;
                    start = (if start0 \<noteq> 0 then start0 - 1 else start0);
                    stop = (if stop0 \<noteq> rbs_n st then stop0 + 1 else stop0)
                in Inr \<lparr>sb_start = start, sb_stop = stop\<rparr>)))"

definition rbs_size :: "'k RBS \<Rightarrow> nat" where
  "rbs_size st = 4 * length (rbs_hint st)"

section \<open>The shift\<close>

lemma less_two_power_bit_len: "n < 2 ^ bit_len n"
proof (induction n rule: bit_len.induct)
  case (1 n)
  show ?case
  proof (cases "n = 0")
    case False
    with 1 have "n div 2 < 2 ^ bit_len (n div 2)" by simp
    with False show ?thesis by (simp add: bit_len.simps [of n])
  qed (simp add: bit_len.simps)
qed

lemma bit_len_le: "n < 2 ^ m \<Longrightarrow> bit_len n \<le> m"
proof (induction m arbitrary: n)
  case 0
  then show ?case by (simp add: bit_len.simps)
next
  case (Suc m)
  then have "n div 2 < 2 ^ m" by (simp add: less_mult_imp_div_less mult.commute)
  with Suc.IH have "bit_len (n div 2) \<le> m" by blast
  then show ?case by (simp add: bit_len.simps [of n])
qed

lemma shift_bits_Inr:
  fixes val :: "'l::len word"
  assumes "val \<noteq> 0"
  shows "shift_bits b val = Inr (bit_len (unat val) - b)"
proof -
  have "bit_len (unat val) \<le> LENGTH('l)" by (rule bit_len_le) (rule unat_bound)
  with assms show ?thesis by (auto simp: shift_bits_def builtin_clz_def)
qed

lemma rbs_prefix_eq: "rbs_prefix s mn k = unat (k - mn) div 2 ^ s"
  unfolding rbs_prefix_def unat_drop_bit_eq by (simp add: drop_bit_eq_div)

lemma rbs_prefix_mono:
  assumes "mn \<le> k" and "k \<le> k'"
  shows "rbs_prefix s mn k \<le> rbs_prefix s mn k'"
proof -
  have "unat k \<le> unat k'" "unat (k - mn) = unat k - unat mn" "unat (k' - mn) = unat k' - unat mn"
    using assms by (simp_all add: unat_sub word_le_nat_alt)
  then show ?thesis by (simp add: rbs_prefix_eq div_le_mono)
qed

lemma rbs_prefix_bound:
  assumes "mn \<le> k" and "k \<le> mx" and "mn \<noteq> mx"
  shows "rbs_prefix (bit_len (unat (mx - mn)) - b) mn k < 2 ^ b"
proof -
  let ?l = "bit_len (unat (mx - mn))"
  have "rbs_prefix (?l - b) mn k \<le> unat (mx - mn) div 2 ^ (?l - b)"
    using rbs_prefix_mono [OF assms(1,2)] by (simp add: rbs_prefix_eq)
  also have "\<dots> < 2 ^ b"
  proof (rule less_mult_imp_div_less)
    have "unat (mx - mn) < 2 ^ ?l" by (rule less_two_power_bit_len)
    also have "\<dots> \<le> 2 ^ (b + (?l - b))" by (rule power_increasing) auto
    finally show "unat (mx - mn) < 2 ^ b * 2 ^ (?l - b)" by (simp add: power_add)
  qed
  finally show ?thesis .
qed

section \<open>The table\<close>

text \<open>Filling writes \<open>i\<close> to the positions from \<open>j\<close> to \<open>c\<close> and nothing else.\<close>

lemma rbs_fill_Inr:
  "c < length hint \<Longrightarrow> \<exists>hint'. rbs_fill hint j c i = Inr hint' \<and> length hint' = length hint
    \<and> (\<forall>m < length hint. hint' ! m = (if j \<le> m \<and> m \<le> c then word_of_nat i else hint ! m))"
proof (induction hint j c i rule: rbs_fill.induct)
  case (1 hint j c i)
  show ?case
  proof (cases "j \<le> c")
    case True
    with "1.prems" have j: "j < length hint" by simp
    from "1.IH" [OF True store_Inr [OF j]] "1.prems" obtain hint' where
      h: "rbs_fill (hint[j := word_of_nat i]) (Suc j) c i = Inr hint'" "length hint' = length hint"
        "\<forall>m < length hint. hint' ! m
          = (if Suc j \<le> m \<and> m \<le> c then word_of_nat i else hint[j := word_of_nat i] ! m)"
      by auto
    have "rbs_fill hint j c i = Inr hint'"
      using True j h(1) by (simp add: rbs_fill.simps [of hint j c i])
    moreover have "hint' ! m = (if j \<le> m \<and> m \<le> c then word_of_nat i else hint ! m)"
      if "m < length hint" for m
      using h(3) that True by (auto simp: nth_list_update Suc_le_eq)
    ultimately show ?thesis using h(2) by blast
  next
    case False
    then show ?thesis by (auto simp: rbs_fill.simps [of hint j c i])
  qed
qed

lemma rbs_tail_Inr:
  "length hint = 2 ^ b + 1 \<Longrightarrow> prev \<le> 2 ^ b \<Longrightarrow>
   \<exists>hint'. rbs_tail b hint prev n = Inr hint' \<and> length hint' = length hint
    \<and> (\<forall>m < length hint. hint' ! m = (if prev < m then word_of_nat n else hint ! m))"
proof (induction b hint prev n rule: rbs_tail.induct)
  case (1 b hint prev n)
  show ?case
  proof (cases "prev < 2 ^ b")
    case True
    then have p: "prev + 1 < length hint" using "1.prems" by simp
    from "1.IH" [OF True store_Inr [OF p]] "1.prems" True obtain hint' where
      h: "rbs_tail b (hint[prev + 1 := word_of_nat n]) (Suc prev) n = Inr hint'"
        "length hint' = length hint"
        "\<forall>m < length hint. hint' ! m
          = (if Suc prev < m then word_of_nat n else hint[prev + 1 := word_of_nat n] ! m)"
      by auto
    have "rbs_tail b hint prev n = Inr hint'"
      using True p h(1) by (simp add: rbs_tail.simps [of b hint prev n])
    moreover have "hint' ! m = (if prev < m then word_of_nat n else hint ! m)"
      if "m < length hint" for m
      using h(3) that p by (auto simp: nth_list_update less_Suc_eq)
    ultimately show ?thesis using h(2) by blast
  next
    case False
    then have "rbs_tail b hint prev n = Inr hint" by (simp add: rbs_tail.simps [of b hint prev n])
    with False "1.prems" show ?thesis by auto
  qed
qed

text \<open>
  The table is right up to \<open>prev\<close>: entry \<open>j\<close> is the first position whose prefix is not
  below \<open>j\<close>.
\<close>

definition hints_ok :: "('a \<Rightarrow> nat) \<Rightarrow> 'a list \<Rightarrow> u32 list \<Rightarrow> nat \<Rightarrow> bool" where
  "hints_ok P data hint prev \<longleftrightarrow> (\<forall>j \<le> prev. hint ! j = word_of_nat (key_lb P data j))"

lemma key_lb_between:
  assumes "sorted_by P data" and "i < length data"
    and "\<And>m. m < i \<Longrightarrow> P (data ! m) < j" and "j \<le> P (data ! i)"
  shows "key_lb P data j = i"
  using assms by (intro key_lb_eqI) auto

lemma rbs_loop_Inr:
  fixes data :: "'l::len word KeyValue list"
  defines "P \<equiv> \<lambda>s mn x. rbs_prefix s mn (kv_key x)"
  assumes "sorted_by (P s mn) data" and "\<And>x. x \<in> set data \<Longrightarrow> P s mn x < N"
    and "length hint = N + 1"
    and "hints_ok (P s mn) data hint prev"
    and "\<And>m. m < i \<Longrightarrow> P s mn (data ! m) \<le> prev"
    and "i < length data \<Longrightarrow> prev \<le> P s mn (data ! i)"
    and "i \<le> length data" and "prev < N"
  shows "\<exists>hint' prev'. rbs_loop data s mn i hint prev = Inr (hint', prev')
    \<and> length hint' = N + 1 \<and> hints_ok (P s mn) data hint' prev' \<and> prev' < N
    \<and> (\<forall>x \<in> set data. P s mn x \<le> prev')"
  using assms(2-)
proof (induction data s mn i hint prev rule: rbs_loop.induct)
  case (1 data s mn i hint prev)
  let ?P = "P s mn"
  show ?case
  proof (cases "i < length data")
    case False
    then have i: "i = length data" using "1.prems" by simp
    have "\<forall>x \<in> set data. ?P x \<le> prev" using "1.prems"(5) i by (auto simp: in_set_conv_nth)
    moreover have "rbs_loop data s mn i hint prev = Inr (hint, prev)"
      using False by (simp add: rbs_loop.simps [of data s mn i hint prev])
    ultimately show ?thesis using "1.prems" by simp
  next
    case True
    let ?c = "?P (data ! i)"
    have c: "?c < N" using True "1.prems"(2) by simp
    have c': "rbs_prefix s mn (kv_key (data ! i)) = ?c" by (simp add: P_def)
    have next_le: "?c \<le> ?P (data ! Suc i)" if "Suc i < length data"
      using sorted_by_nth [OF "1.prems"(1), of i "Suc i"] that by simp
    have below: "?P (data ! m) \<le> ?c" if "m < Suc i" for m
      using sorted_by_nth [OF "1.prems"(1), of m i] that True by simp
    show ?thesis
    proof (cases "?c = prev")
      case eq: True
      have step: "rbs_loop data s mn i hint prev = rbs_loop data s mn (Suc i) hint prev"
        using True eq c' by (simp add: rbs_loop.simps [of data s mn i hint prev])
      show ?thesis unfolding step
        by (rule "1.IH"(2)) (use True eq c' "1.prems" next_le below in auto)
    next
      case neq: False
      with "1.prems"(6) True have gt: "prev < ?c" by simp
      obtain hint' where h: "rbs_fill hint (prev + 1) ?c i = Inr hint'" "length hint' = N + 1"
        "\<forall>m < length hint. hint' ! m = (if prev + 1 \<le> m \<and> m \<le> ?c then word_of_nat i else hint ! m)"
        using rbs_fill_Inr [of ?c hint "prev + 1" i] "1.prems"(3) c by auto
      have ok: "hints_ok ?P data hint' ?c"
        unfolding hints_ok_def
      proof (intro allI impI)
        fix j assume j: "j \<le> ?c"
        show "hint' ! j = word_of_nat (key_lb ?P data j)"
        proof (cases "j \<le> prev")
          case True
          then have "hint' ! j = hint ! j" using h(3) j c "1.prems"(3) by simp
          with True "1.prems"(4) show ?thesis by (simp add: hints_ok_def)
        next
          case False
          then have "hint' ! j = word_of_nat i" using h(3) j c "1.prems"(3) by simp
          moreover have "key_lb ?P data j = i"
          proof (rule key_lb_between [OF "1.prems"(1) True])
            fix m assume "m < i"
            with "1.prems"(5) False show "?P (data ! m) < j" by (meson le_less_trans not_less)
          qed (rule j)
          ultimately show ?thesis by simp
        qed
      qed
      have step: "rbs_loop data s mn i hint prev = rbs_loop data s mn (Suc i) hint' ?c"
        using True neq c' h(1) by (simp add: rbs_loop.simps [of data s mn i hint prev])
      show ?thesis unfolding step
        by (rule "1.IH"(1) [of ?c]) (use True neq c' c h ok "1.prems" next_le below in auto)
    qed
  qed
qed

section \<open>Correctness of the index\<close>

definition rbs_supports :: "nat \<Rightarrow> 'l::len word KeyValue list \<Rightarrow> bool" where
  "rbs_supports b kvs \<longleftrightarrow> 0 < b \<and> kvs \<noteq> [] \<and> length kvs < 2 ^ 32
     \<and> kv_key (hd kvs) \<noteq> kv_key (last kvs)"

text \<open>What \<open>Build\<close> leaves: the key range, the shift, and the complete table.\<close>

lemma rbs_build_Inr:
  fixes kvs :: "'l::len word KeyValue list"
  assumes s: "sorted_by kv_key kvs" and sup: "rbs_supports b kvs"
  defines "mn \<equiv> kv_key (hd kvs)" and "mx \<equiv> kv_key (last kvs)"
  defines "sh \<equiv> bit_len (unat (mx - mn)) - b"
  shows "\<exists>hint. rbs_build b kvs = Inr \<lparr>rbs_n = length kvs, rbs_min = mn, rbs_max = mx,
      rbs_shift = sh, rbs_hint = hint\<rparr>
    \<and> length hint = 2 ^ b + 1
    \<and> hints_ok (\<lambda>x. rbs_prefix sh mn (kv_key x)) kvs hint (2 ^ b)"
proof -
  let ?P = "\<lambda>x. rbs_prefix sh mn (kv_key x)" and ?N = "2 ^ b :: nat"
  have b: "0 < b" and ne: "kvs \<noteq> []" and diff: "mn \<noteq> mx"
    using sup by (auto simp: rbs_supports_def mn_def mx_def)
  have range: "mn \<le> kv_key x" "kv_key x \<le> mx" if "x \<in> set kvs" for x
    using sorted_hd_last [OF s that] by (simp_all add: mn_def mx_def)
  have shift: "shift_bits b (mx - mn) = Inr sh" using diff by (simp add: shift_bits_Inr sh_def)
  have "bit_len (unat (mx - mn)) \<le> LENGTH('l)" by (rule bit_len_le) (rule unat_bound)
  then have shlt: "\<not> LENGTH('l) \<le> sh" using b unfolding sh_def not_le by (metis diff_less len_gt_0 less_imp_diff_less le_neq_implies_less neq0_conv diff_0_eq_0)
  have sP: "sorted_by ?P kvs"
    unfolding sorted_iff_nth_mono
    using sorted_by_nth [OF s] range by (auto intro!: rbs_prefix_mono)
  have bound: "?P x < ?N" if "x \<in> set kvs" for x
    using rbs_prefix_bound [OF range [OF that] diff] by (simp add: sh_def)
  have ok0: "hints_ok ?P kvs (replicate (?N + 1) 0) 0"
    using key_lb_eqI [OF sP, of 0 0] by (simp add: hints_ok_def)
  have "(replicate (?N + 1) 0)[0 := 0] = (replicate (?N + 1) (0::u32))" by simp
  moreover obtain hint' prev' where L:
    "rbs_loop kvs sh mn 0 (replicate (?N + 1) 0) 0 = Inr (hint', prev')"
    "length hint' = ?N + 1" "hints_ok ?P kvs hint' prev'" "prev' < ?N"
    "\<forall>x \<in> set kvs. ?P x \<le> prev'"
    using rbs_loop_Inr [where data = kvs and s = sh and mn = mn and N = "?N"
        and hint = "replicate (?N + 1) 0" and prev = 0 and i = 0] sP bound ok0 by auto
  moreover obtain hint where T: "rbs_tail b hint' prev' (length kvs) = Inr hint"
    "length hint = length hint'"
    "\<forall>m < length hint'. hint ! m = (if prev' < m then word_of_nat (length kvs) else hint' ! m)"
    using rbs_tail_Inr [of hint' b prev' "length kvs"] L(2,4) by auto
  ultimately have "rbs_build b kvs = Inr \<lparr>rbs_n = length kvs, rbs_min = mn, rbs_max = mx,
      rbs_shift = sh, rbs_hint = hint\<rparr>"
    using ne shift shlt by (simp add: rbs_build_def Let_def mn_def mx_def)
  moreover have "hints_ok ?P kvs hint ?N"
    unfolding hints_ok_def
  proof (intro allI impI)
    fix j assume j: "j \<le> ?N"
    show "hint ! j = word_of_nat (key_lb ?P kvs j)"
    proof (cases "prev' < j")
      case True
      have "?P (kvs ! i) < j" if "i < length kvs" for i
        using L(5) that True by (meson nth_mem order.strict_trans1)
      then have "key_lb ?P kvs j = length kvs" by (intro key_lb_eqI [OF sP]) auto
      with True T(3) j L(2) show ?thesis by simp
    next
      case False
      with T(3) j L(2,3) show ?thesis by (simp add: hints_ok_def)
    qed
  qed
  ultimately show ?thesis using T(2) L(2) by auto
qed

lemma rbs_lookup_encloses:
  fixes kvs :: "'l::len word KeyValue list"
  assumes s: "sorted_by kv_key kvs" and sup: "rbs_supports b kvs"
    and build: "rbs_build b kvs = Inr st"
  shows "\<exists>bd. rbs_lookup st k = Inr bd \<and> encloses bd (kv_lb kvs k) (length kvs)"
proof -
  define mn mx where "mn = kv_key (hd kvs)" and "mx = kv_key (last kvs)"
  define sh where "sh = bit_len (unat (mx - mn)) - b"
  let ?P = "\<lambda>x. rbs_prefix sh mn (kv_key x)" and ?n = "length kvs" and ?lb = "kv_lb kvs k"
  obtain hint where st: "st = \<lparr>rbs_n = ?n, rbs_min = mn, rbs_max = mx,
      rbs_shift = sh, rbs_hint = hint\<rparr>"
    and len: "length hint = 2 ^ b + 1" and hints: "hints_ok ?P kvs hint (2 ^ b)"
    using rbs_build_Inr [OF s sup] build by (auto simp: mn_def mx_def sh_def)
  have ne: "kvs \<noteq> []" and n32: "?n < 2 ^ 32" and diff: "mn \<noteq> mx"
    using sup by (auto simp: rbs_supports_def mn_def mx_def)
  have range: "mn \<le> kv_key x" "kv_key x \<le> mx" if "x \<in> set kvs" for x
    using sorted_hd_last [OF s that] by (simp_all add: mn_def mx_def)
  have sP: "sorted_by ?P kvs"
    unfolding sorted_iff_nth_mono
    using sorted_by_nth [OF s] range by (auto intro!: rbs_prefix_mono)
  consider "k < mn" | "mx < k" | (inside) "mn \<le> k" "k \<le> mx" by fastforce
  then show ?thesis
  proof cases
    case 1
    have "k \<le> kv_key (kvs ! 0)" using 1 range(1) [of "kvs ! 0"] ne by auto
    then have "?lb = 0" by (intro key_lb_eqI [OF s]) auto
    with 1 ne show ?thesis by (simp add: rbs_lookup_def st encloses_def Suc_le_eq)
  next
    case 2
    have "kv_key (kvs ! i) < k" if "i < ?n" for i using 2 range(2) [of "kvs ! i"] that by auto
    then have "?lb = ?n" by (intro key_lb_eqI [OF s]) auto
    moreover have "\<not> k < mn" using 2 range(1,2) [of "hd kvs"] ne by auto
    ultimately show ?thesis using 2 by (simp add: rbs_lookup_def st encloses_def)
  next
    case inside
    define p where "p = rbs_prefix sh mn k"
    have p: "p < 2 ^ b" using rbs_prefix_bound [OF inside diff] by (simp add: p_def sh_def)
    let ?b0 = "key_lb ?P kvs p" and ?b1 = "key_lb ?P kvs (p + 1)"
    have h0: "unat (hint ! p) = ?b0" and h1: "unat (hint ! (p + 1)) = ?b1"
      using hints p n32 by (auto simp: hints_ok_def intro!: unat_word_of_nat order.strict_trans1 [OF key_lb_le])
    have lo: "?b0 \<le> ?lb"
    proof (rule key_lb_mono [OF sP s])
      fix x assume x: "x \<in> set kvs" "?P x < p"
      show "kv_key x < k"
      proof (rule ccontr)
        assume "\<not> kv_key x < k"
        then have "p \<le> ?P x" unfolding p_def by (intro rbs_prefix_mono inside) simp
        with x(2) show False by simp
      qed
    qed
    have hi: "?lb \<le> ?b1"
    proof (rule key_lb_mono [OF s sP])
      fix x assume x: "x \<in> set kvs" "kv_key x < k"
      then have "?P x \<le> p" unfolding p_def by (intro rbs_prefix_mono range) auto
      then show "?P x < p + 1" by simp
    qed
    have "rbs_lookup st k = Inr \<lparr>sb_start = (if ?b0 \<noteq> 0 then ?b0 - 1 else ?b0),
        sb_stop = (if ?b1 \<noteq> ?n then ?b1 + 1 else ?b1)\<rparr>"
    proof -
      have "\<not> k < mn" "\<not> mx < k" "\<not> 2 ^ b - 1 < p" "p < length hint" "p + 1 < length hint"
        using inside p len by auto
      then show ?thesis
        using len h0 h1 by (simp add: rbs_lookup_def st Let_def p_def [symmetric] del: at_Inl)
    qed
    moreover have "?b1 \<noteq> ?n \<Longrightarrow> ?b1 + 1 \<le> ?n"
      using key_lb_le [of ?P kvs "p + 1"] by linarith
    ultimately show ?thesis using lo hi by (auto simp: encloses_def)
  qed
qed

interpretation rbs: index_contract "rbs_build b" rbs_lookup "rbs_supports b" "\<lambda>_ _. True" for b
proof unfold_locales
  fix kvs :: "'l::len word KeyValue list"
  assume "index_input kvs" and sup: "rbs_supports b kvs"
  then have s: "sorted_by kv_key kvs" by (simp add: index_input_def)
  from rbs_build_Inr [OF s sup] show "\<exists>st. rbs_build b kvs = Inr st" by blast
next
  fix kvs :: "'l::len word KeyValue list" and st :: "'l word RBS" and k :: "'l word"
  assume "index_input kvs" and "rbs_supports b kvs" and "rbs_build b kvs = Inr st"
  then show "\<exists>bd. rbs_lookup st k = Inr bd \<and> encloses bd (kv_lb kvs k) (length kvs)"
    by (intro rbs_lookup_encloses) (simp_all add: index_input_def)
qed

section \<open>Properties\<close>

text \<open>
  C7. Radix binary search: on sorted data of fewer than \<open>2^32\<close> rows with at least two different
  keys the build succeeds, and every lookup, of a present or an absent key, inside or outside of the key
  range, returns a bound inside of the data that encloses the first position whose key is
  not below the lookup key.
\<close>
theorem rbs_bound_encloses:
  fixes kvs :: "'l::len word KeyValue list"
  assumes "index_input kvs" and "rbs_supports b kvs"
  shows "\<exists>st bound. rbs_build b kvs = Inr st \<and> rbs_lookup st k = Inr bound
    \<and> encloses bound (kv_lb kvs k) (length kvs)"
  using rbs.build_total [OF assms] rbs.lookup_encloses [OF assms] by blast

theorem rbs_bound_encloses_witness:
  "\<exists>st bound. rbs_build 2 ex_kvs = Inr st \<and> rbs_lookup st 6 = Inr bound
    \<and> encloses bound (kv_lb ex_kvs 6) (length ex_kvs)"
  by (rule rbs_bound_encloses) (simp_all add: index_input_iff rbs_supports_def upt_rec)

text \<open>
  Data whose keys are all equal (one row, for instance) makes the build call
  \<open>__builtin_clz(0)\<close>, whose result is undefined.
\<close>
theorem rbs_single_key_undefined:
  assumes "kvs \<noteq> []" and "kv_key (hd kvs) = kv_key (last kvs)"
  shows "rbs_build b kvs = Inl Undefined"
  using assms by (simp add: rbs_build_def shift_bits_def builtin_clz_def Let_def)

theorem rbs_single_key_undefined_witness:
  "rbs_build 18 [\<lparr>kv_key = 4 :: u32, kv_value = 0\<rparr>] = Inl Undefined"
  by (rule rbs_single_key_undefined) simp_all

end
