(* ===== verification/InterpolationBTree.thy ===== *)
theory InterpolationBTree
  imports Competitor
begin

text \<open>
  Model of \<open>src/competitors/interpolation_btree.h\<close>: a static B+-tree that is loaded bottom-up
  from a generator and searched by interpolation in each node, and the competitor
  \<open>InterpolationBTree\<close>, which loads every \<open>size_scale\<close>-th entry of the data.
\<close>

section \<open>Nodes\<close>

text \<open>
  A node has its slope, its \<open>count\<close> initialised keys, and its values or its \<open>count + 1\<close>
  children; the entries of the arrays behind them are uninitialised. The slope is a
  \<open>double\<close>: \<open>mk_slope n d\<close> is \<open>n * 1.0 / d\<close>, and \<open>use_slope s d\<close> is \<open>s * d\<close> converted to
  \<open>uint32_t\<close>.
\<close>

datatype ('k, 'v, 's) ib_node =
    Leaf 's "'k list" "'v list"
  | Inner 's "'k list" "('k, 'v, 's) ib_node list"

record ('k, 's) slope_ops =
  mk_slope :: "nat \<Rightarrow> 'k \<Rightarrow> 's"
  use_slope :: "'s \<Rightarrow> 'k \<Rightarrow> nat"

definition MAX_ENTRIES :: nat where
  "MAX_ENTRIES = 256"

definition ib_init :: "('k::minus, 's) slope_ops \<Rightarrow> 'k list \<Rightarrow> 's" where
  "ib_init fo keys = mk_slope fo (length keys) (last keys - hd keys)"

text \<open>\<open>while (idx > 0 && keys[idx] >= key) idx--;\<close>\<close>

fun ib_down :: "'k::linorder list \<Rightarrow> 'k \<Rightarrow> nat \<Rightarrow> nat" where
  "ib_down keys key 0 = 0"
| "ib_down keys key (Suc i) = (if keys ! Suc i \<ge> key then ib_down keys key i else Suc i)"

text \<open>\<open>while (idx < count && keys[idx] < key) idx++;\<close> stops at the first key not below.\<close>

abbreviation ib_up :: "'k::linorder list \<Rightarrow> 'k \<Rightarrow> nat \<Rightarrow> nat" where
  "ib_up keys key i \<equiv> find_if (\<lambda>x. \<not> x < key) keys i (length keys)"

text \<open>\<open>LowerBound\<close> of an inner node, and of a leaf, which clamps the final index.\<close>

definition ib_inner_lower_bound ::
  "('k::{linorder,minus}, 's) slope_ops \<Rightarrow> 's \<Rightarrow> 'k list \<Rightarrow> 'k \<Rightarrow> nat res" where
  "ib_inner_lower_bound fo slope keys key =
     (if keys = [] then Inl Undefined
      else if key \<le> keys ! 0 then Inr 0
      else if key > keys ! (length keys - 1) then Inr (length keys)
      else let idx = use_slope fo slope (key - keys ! 0);
               idx = (if idx \<ge> length keys then length keys - 1 else idx)
           in Inr (ib_up keys key (ib_down keys key idx)))"

definition ib_leaf_lower_bound ::
  "('k::{linorder,minus}, 's) slope_ops \<Rightarrow> 's \<Rightarrow> 'k list \<Rightarrow> 'k \<Rightarrow> nat res" where
  "ib_leaf_lower_bound fo slope keys key =
     (if keys = [] then Inl Undefined
      else if key \<le> keys ! 0 then Inr 0
      else if key > keys ! (length keys - 1) then Inr (length keys)
      else let idx = use_slope fo slope (key - keys ! 0);
               idx = (if idx \<ge> length keys then length keys - 1 else idx);
               idx = ib_up keys key (ib_down keys key idx)
           in Inr (if idx = length keys then length keys - 1 else idx))"

section \<open>Lookup and size\<close>

text \<open>The descent of \<open>height\<close> levels; a node of the wrong type is read as the other type.\<close>

fun ib_descend ::
  "('k::{linorder,minus}, 's) slope_ops \<Rightarrow> nat \<Rightarrow> ('k, 'v, 's) ib_node \<Rightarrow> 'k \<Rightarrow>
   ('k, 'v, 's) ib_node res" where
  "ib_descend fo 0 current key = Inr current"
| "ib_descend fo (Suc h) (Inner slope keys children) key =
     bind_res (ib_inner_lower_bound fo slope keys key)
       (\<lambda>pos. bind_res (at children pos) (\<lambda>child. ib_descend fo h child key))"
| "ib_descend fo (Suc h) (Leaf slope keys vals) key = Inl Undefined"

record ('k, 'v, 's) BTree =
  bt_root :: "('k, 'v, 's) ib_node option"
  bt_height :: nat

definition ib_Lookup ::
  "('k::{linorder,minus}, 's) slope_ops \<Rightarrow> ('k, 'v, 's) BTree \<Rightarrow> 'k \<Rightarrow> 'v res" where
  "ib_Lookup fo t key =
     (case bt_root t of
        None \<Rightarrow> Inl Undefined
      | Some root \<Rightarrow> bind_res (ib_descend fo (bt_height t) root key)
          (\<lambda>leaf. case leaf of
               Inner slope keys children \<Rightarrow> Inl (Fail ''assert'')
             | Leaf slope keys vals \<Rightarrow>
                 bind_res (ib_leaf_lower_bound fo slope keys key) (\<lambda>pos. at vals pos)))"

text \<open>Node sizes for keys of \<open>ks\<close> bytes: header and slope, keys, and values or children.\<close>

definition sizeof_leaf :: "nat \<Rightarrow> nat" where
  "sizeof_leaf ks = 16 + MAX_ENTRIES * ks + MAX_ENTRIES * 8"

definition sizeof_inner :: "nat \<Rightarrow> nat" where
  "sizeof_inner ks = 16 + MAX_ENTRIES * ks + (MAX_ENTRIES + 1) * 8"

fun ib_GetSizeRec :: "nat \<Rightarrow> ('k, 'v, 's) ib_node \<Rightarrow> nat" where
  "ib_GetSizeRec ks (Inner slope keys children) =
     sizeof_inner ks + sum_list (map (ib_GetSizeRec ks) children)"
| "ib_GetSizeRec ks (Leaf slope keys vals) = sizeof_leaf ks"

definition ib_GetSize :: "nat \<Rightarrow> ('k, 'v, 's) BTree \<Rightarrow> nat" where
  "ib_GetSize ks t = (case bt_root t of None \<Rightarrow> 0 | Some node \<Rightarrow> ib_GetSizeRec ks node)"

section \<open>Bulk loading\<close>

text \<open>
  The generator has a state \<open>'g\<close>; \<open>None\<close> is the return value \<open>false\<close>, which leaves the
  arguments alone. \<open>ib_fill_leaf\<close> is the loop that fills one leaf with at most \<open>m\<close> more
  entries and returns whether the last call was good.
\<close>

type_synonym ('k, 'v, 'g) generator = "'g \<Rightarrow> (('k \<times> 'v) option \<times> 'g) res"

fun ib_fill_leaf ::
  "('k, 'v, 'g) generator \<Rightarrow> nat \<Rightarrow> 'g \<Rightarrow> ('k \<times> 'v) list \<Rightarrow> (('k \<times> 'v) list \<times> bool \<times> 'g) res" where
  "ib_fill_leaf gen 0 g acc = Inr (acc, True, g)"
| "ib_fill_leaf gen (Suc m) g acc =
     bind_res (gen g) (\<lambda>(r, g'). case r of
         None \<Rightarrow> Inr (acc, False, g')
       | Some kv \<Rightarrow> ib_fill_leaf gen m g' (acc @ [kv]))"

text \<open>The loop over the leaves; it does not end for a generator that is always good.\<close>

partial_function (option) ib_leaf_layer ::
  "('k::minus, 's) slope_ops \<Rightarrow> ('k, 'v, 'g) generator \<Rightarrow> 'g \<Rightarrow> bool \<Rightarrow>
   ('k \<times> ('k, 'v, 's) ib_node) list \<Rightarrow> nat \<Rightarrow>
   (('k \<times> ('k, 'v, 's) ib_node) list \<times> nat) res option" where
  "ib_leaf_layer fo gen g input_good next_keys loaded =
     (if \<not> input_good then Some (Inr (next_keys, loaded))
      else case ib_fill_leaf gen MAX_ENTRIES g [] of
          Inl e \<Rightarrow> Some (Inl e)
        | Inr (kvs, good, g') \<Rightarrow>
            if kvs = [] then Some (Inr (next_keys, loaded))
            else let keys = map fst kvs
                 in ib_leaf_layer fo gen g' good
                      (next_keys @ [(last keys, Leaf (ib_init fo keys) keys (map snd kvs))])
                      (loaded + length kvs))"

text \<open>
  One inner layer: \<open>current\<close> is distributed over \<open>required\<close> nodes, the first ones with
  \<open>entries\<close> children, the others with one less. Indices are \<open>uint32_t\<close> and \<open>uint64_t\<close>; a
  layer has fewer than \<open>2 ^ 32\<close> nodes.
\<close>

definition adjust_entries :: "nat \<Rightarrow> nat \<Rightarrow> nat \<Rightarrow> nat \<Rightarrow> nat" where
  "adjust_entries n required entries innerNode =
     (if innerNode * entries + (required - innerNode) * (entries - 1) = n
      then entries - 1 else entries)"

function ib_layer ::
  "('k::minus, 's) slope_ops \<Rightarrow> ('k \<times> ('k, 'v, 's) ib_node) list \<Rightarrow> nat \<Rightarrow> nat \<Rightarrow> nat \<Rightarrow> nat \<Rightarrow>
   ('k \<times> ('k, 'v, 's) ib_node) list \<Rightarrow> ('k \<times> ('k, 'v, 's) ib_node) list res" where
  "ib_layer fo current required entries innerNode pos next_keys =
     (if innerNode < required
      then let e = adjust_entries (length current) required entries innerNode
           in if e \<le> 1 then Inl (Fail ''assert'')
              else if MAX_ENTRIES + 1 < e \<or> length current < pos + e then Inl Undefined
              else let part = take e (drop pos current);
                       keys = map fst (butlast part);
                       inner = Inner (ib_init fo keys) keys (map snd part)
                   in ib_layer fo current required e (Suc innerNode) (pos + e)
                        (next_keys @ [(fst (last part), inner)])
      else Inr next_keys)"
  by pat_completeness auto
termination
  by (relation "measure (\<lambda>(fo, c, r, e, i, p, n). r - i)") auto

declare ib_layer.simps [simp del]

definition required_nodes :: "nat \<Rightarrow> nat" where
  "required_nodes n = n div MAX_ENTRIES + (if n mod MAX_ENTRIES = 0 then 0 else 1)"

definition entries_per_node :: "nat \<Rightarrow> nat" where
  "entries_per_node n = n div required_nodes n + (if n mod MAX_ENTRIES = 0 then 0 else 1)"

lemma ib_layer_length:
  "ib_layer fo current required e i pos acc = Inr ns \<Longrightarrow> i \<le> required \<Longrightarrow>
   length ns = length acc + (required - i)"
proof (induction fo current required e i pos acc rule: ib_layer.induct)
  case (1 fo current required entries i pos acc)
  show ?case
  proof (cases "i < required")
    case False
    with "1.prems" show ?thesis by (simp add: ib_layer.simps [of fo current required entries i pos acc])
  next
    case True
    define e where "e = adjust_entries (length current) required entries i"
    note simps = ib_layer.simps [of fo current required entries i pos acc]
    have ok: "\<not> e \<le> 1" "\<not> (MAX_ENTRIES + 1 < e \<or> length current < pos + e)"
      using "1.prems"(1) True by (auto simp: simps Let_def e_def [symmetric] split: if_splits)
    with "1.prems"(1) True have "ib_layer fo current required e (Suc i) (pos + e)
        (acc @ [(fst (last (take e (drop pos current))),
          Inner (ib_init fo (map fst (butlast (take e (drop pos current)))))
            (map fst (butlast (take e (drop pos current))))
            (map snd (take e (drop pos current))))]) = Inr ns"
      by (simp add: simps Let_def e_def [symmetric])
    from "1.IH" [OF True e_def ok refl refl refl this] True show ?thesis by simp
  qed
qed

lemma required_nodes_less: "1 < n \<Longrightarrow> required_nodes n < n"
proof (cases "n mod 256 = 0")
  case True
  assume "1 < n"
  with True div_mult_mod_eq [of n 256] have "n div 256 < n" by linarith
  with True show ?thesis by (simp add: required_nodes_def MAX_ENTRIES_def)
next
  case False
  assume "1 < n"
  with False div_mult_mod_eq [of n 256] have "n div 256 + 1 < n" by linarith
  with False show ?thesis by (simp add: required_nodes_def MAX_ENTRIES_def)
qed

text \<open>The loop over the layers; each one is shorter than the one before.\<close>

function ib_layers ::
  "('k::minus, 's) slope_ops \<Rightarrow> ('k \<times> ('k, 'v, 's) ib_node) list \<Rightarrow> nat \<Rightarrow>
   (('k \<times> ('k, 'v, 's) ib_node) list \<times> nat) res" where
  "ib_layers fo next_keys height =
     (if 1 < length next_keys
      then let n = length next_keys; entries = entries_per_node n
           in if \<not> 1 < entries then Inl (Fail ''assert'')
              else bind_res (ib_layer fo next_keys (required_nodes n) entries 0 0 [])
                     (\<lambda>ns. ib_layers fo ns (Suc height))
      else Inr (next_keys, height))"
  by pat_completeness auto
termination
  by (relation "measure (\<lambda>(fo, ns, h). length ns)")
    (auto dest!: ib_layer_length simp: required_nodes_less)

declare ib_layers.simps [simp del]

text \<open>
  \<open>FastLoadGenerate\<close>: an empty input leaves the root as it is; \<open>None\<close> is a load that does
  not return.
\<close>

definition ib_FastLoadGenerate ::
  "('k::minus, 's) slope_ops \<Rightarrow> ('k, 'v, 'g) generator \<Rightarrow> 'g \<Rightarrow> ('k, 'v, 's) BTree \<Rightarrow>
   (('k, 'v, 's) BTree \<times> nat) res option" where
  "ib_FastLoadGenerate fo gen g t =
     map_option (\<lambda>r. bind_res r (\<lambda>(leaves, loaded).
        if leaves = [] then Inr (t\<lparr>bt_height := 0\<rparr>, loaded)
        else bind_res (ib_layers fo leaves 0) (\<lambda>(layer, height).
               if length layer \<noteq> 1 then Inl (Fail ''assert'')
               else Inr (\<lparr>bt_root = Some (snd (layer ! 0)), bt_height = height\<rparr>, loaded))))
       (ib_leaf_layer fo gen g True [] 0)"

section \<open>The competitor\<close>

text \<open>\<open>while (pos < data.size() && pos % size_scale != 0) pos++;\<close>\<close>

function ib_skip :: "nat \<Rightarrow> nat \<Rightarrow> nat \<Rightarrow> nat" where
  "ib_skip size_scale n pos =
     (if pos < n \<and> pos mod size_scale \<noteq> 0 then ib_skip size_scale n (Suc pos) else pos)"
  by pat_completeness auto
termination
  by (relation "measure (\<lambda>(s, n, p). n - p)") auto

declare ib_skip.simps [simp del]

definition ib_generator ::
  "nat \<Rightarrow> 'k KeyValue list \<Rightarrow> ('k, u64, nat) generator" where
  "ib_generator size_scale data pos0 =
     (if length data \<le> pos0 then Inr (None, pos0)
      else let pos1 = ib_skip size_scale (length data) pos0;
               pos = (if pos1 = length data then pos1 - 1 else pos1)
           in bind_res (at data pos) (\<lambda>kv. Inr (Some (kv_key kv, kv_value kv), Suc pos)))"

definition ib_Build ::
  "('k::minus, 's) slope_ops \<Rightarrow> nat \<Rightarrow> 'k KeyValue list \<Rightarrow> ('k, u64, 's) BTree res option" where
  "ib_Build fo size_scale data =
     map_option (\<lambda>r. bind_res r (\<lambda>(t, loaded). Inr t))
       (ib_FastLoadGenerate fo (ib_generator size_scale data) 0
          \<lparr>bt_root = None, bt_height = 0\<rparr>)"

definition ib_EqualityLookup ::
  "('k::{linorder,minus}, 's) slope_ops \<Rightarrow> nat \<Rightarrow> ('k, u64, 's) BTree \<Rightarrow> 'k \<Rightarrow> SearchBound res" where
  "ib_EqualityLookup fo size_scale t lookup_key =
     bind_res (ib_Lookup fo t lookup_key)
       (\<lambda>v. let ub = unat v; lower = (if ub < size_scale then 0 else ub - size_scale)
            in Inr \<lparr>sb_start = lower, sb_stop = ub\<rparr>)"

definition ib_size :: "nat \<Rightarrow> nat \<Rightarrow> ('k, 'v, 's) BTree \<Rightarrow> nat" where
  "ib_size sizeof_this ks t = sizeof_this + ib_GetSize ks t"

section \<open>Search in a node\<close>

lemma ib_down_props:
  assumes "i < length keys" and "keys ! 0 < key"
  shows "ib_down keys key i \<le> i" and "keys ! ib_down keys key i < key"
  using assms by (induction i) auto

lemma ib_interpolate:
  fixes key :: "'k::linorder"
  assumes s: "sorted keys" and i: "i < length keys" and k0: "keys ! 0 < key"
  shows "ib_up keys key (ib_down keys key i) = key_lb (\<lambda>x. x) keys key"
proof -
  let ?d = "ib_down keys key i" and ?lb = "key_lb (\<lambda>x. x) keys key"
  have s': "sorted_by (\<lambda>x. x) keys" using s by simp
  have d: "?d < length keys" "keys ! ?d < key" using ib_down_props [OF i k0] i by auto
  then have "?d < ?lb" using less_key_lb_iff [OF s', of ?d key] by simp
  moreover have "keys ! j < key" if "j < ?lb" for j
    using less_key_lb_iff [OF s', of j key] that key_lb_le [of "\<lambda>x. x" keys key] by simp
  moreover have "\<not> keys ! ?lb < key" if "?lb < length keys"
    using less_key_lb_iff [OF s', of ?lb key] that by simp
  ultimately show ?thesis by (intro find_if_unique) auto
qed

text \<open>Whatever the slope, an inner node finds the first key that is not below.\<close>

lemma ib_inner_lower_bound_eq:
  fixes key :: "'k::{linorder,minus}"
  assumes s: "sorted keys" and ne: "keys \<noteq> []"
  shows "ib_inner_lower_bound fo slope keys key = Inr (key_lb (\<lambda>x. x) keys key)"
proof -
  have s': "sorted_by (\<lambda>x. x) keys" using s by simp
  have le: "keys ! j \<le> keys ! (length keys - 1)" if "j < length keys" for j
    using s that by (intro sorted_nth_mono) auto
  consider "key \<le> keys ! 0" | "keys ! (length keys - 1) < key" "keys ! 0 < key"
    | "keys ! 0 < key" "key \<le> keys ! (length keys - 1)" by fastforce
  then show ?thesis
  proof cases
    case 1
    then have "key_lb (\<lambda>x. x) keys key = 0" by (intro key_lb_eqI [OF s']) auto
    with 1 ne show ?thesis by (simp add: ib_inner_lower_bound_def)
  next
    case 2
    have "key_lb (\<lambda>x. x) keys key = length keys"
      by (rule key_lb_eqI [OF s']) (use le 2 in \<open>auto intro: le_less_trans\<close>)
    with 2 ne show ?thesis by (simp add: ib_inner_lower_bound_def)
  next
    case 3
    then have "\<not> key \<le> keys ! 0" "\<not> key > keys ! (length keys - 1)" by auto
    with ne ib_interpolate [OF s _ 3(1)] show ?thesis
      by (simp add: ib_inner_lower_bound_def Let_def)
  qed
qed

lemma ib_leaf_lower_bound_eq:
  fixes key :: "'k::{linorder,minus}"
  assumes s: "sorted keys" and ne: "keys \<noteq> []"
  shows "ib_leaf_lower_bound fo slope keys key = Inr (key_lb (\<lambda>x. x) keys key)"
proof (cases "key \<le> keys ! 0 \<or> key > keys ! (length keys - 1)")
  case True
  then show ?thesis
    using ib_inner_lower_bound_eq [OF s ne, of fo slope key]
    by (auto simp: ib_leaf_lower_bound_def ib_inner_lower_bound_def)
next
  case False
  then have k: "keys ! 0 < key" "key \<le> keys ! (length keys - 1)" by auto
  have "key_lb (\<lambda>x. x) keys key < length keys"
    using key_lb_less_iff [of "\<lambda>x. x" keys key] s ne k(2) by (simp add: last_conv_nth)
  moreover have "\<not> key \<le> keys ! 0" "\<not> key > keys ! (length keys - 1)" using k by auto
  ultimately show ?thesis
    using ne ib_interpolate [OF s _ k(1)] by (simp add: ib_leaf_lower_bound_def Let_def)
qed

section \<open>Search in the tree\<close>

fun ib_entries :: "('k, 'v, 's) ib_node \<Rightarrow> ('k \<times> 'v) list" where
  "ib_entries (Leaf s keys vals) = zip keys vals"
| "ib_entries (Inner s keys children) = concat (map ib_entries children)"

text \<open>
  The shape of a loaded tree: all leaves at depth \<open>h\<close>, nodes within their capacity, each
  separator the largest key of the child to its left.
\<close>

fun ib_valid :: "nat \<Rightarrow> ('k, 'v, 's) ib_node \<Rightarrow> bool" where
  "ib_valid 0 (Leaf s keys vals) \<longleftrightarrow>
     keys \<noteq> [] \<and> length vals = length keys \<and> length keys \<le> MAX_ENTRIES"
| "ib_valid (Suc h) (Inner s keys children) \<longleftrightarrow>
     keys \<noteq> [] \<and> length children = Suc (length keys) \<and> length keys \<le> MAX_ENTRIES
     \<and> keys = map (\<lambda>c. fst (last (ib_entries c))) (butlast children)
     \<and> (\<forall>c \<in> set children. ib_valid h c)"
| "ib_valid _ _ \<longleftrightarrow> False"

lemma ib_entries_nonempty: "ib_valid h n \<Longrightarrow> ib_entries n \<noteq> []"
proof (induction h n rule: ib_valid.induct)
  case (2 h s keys children)
  then show ?case by (cases children) auto
qed auto

lemma ib_Lookup_Inner:
  "ib_Lookup fo \<lparr>bt_root = Some (Inner s keys children), bt_height = Suc h\<rparr> key =
     bind_res (ib_inner_lower_bound fo s keys key) (\<lambda>pos. bind_res (at children pos)
       (\<lambda>child. ib_Lookup fo \<lparr>bt_root = Some child, bt_height = h\<rparr> key))"
  by (simp add: ib_Lookup_def bind_res_def split: sum.splits)

text \<open>
  The lookup returns the value of the first entry whose key is not below, and reads an
  uninitialised value when there is none.
\<close>

lemma ib_Lookup_correct:
  fixes key :: "'k::{linorder,minus}"
  assumes "ib_valid h n" and "sorted_by fst (ib_entries n)"
  shows "ib_Lookup fo \<lparr>bt_root = Some n, bt_height = h\<rparr> key =
    (if key \<le> fst (last (ib_entries n))
     then Inr (snd (ib_entries n ! key_lb fst (ib_entries n) key)) else Inl Undefined)"
  using assms
proof (induction h n rule: ib_valid.induct)
  case (1 s keys vals)
  then have ne: "keys \<noteq> []" and len: "length vals = length keys" and sk: "sorted keys"
    by (simp_all add: map_fst_zip)
  have "key_lb fst (zip keys vals) key = key_lb (\<lambda>x. x) keys key"
  proof (rule key_lb_eqI)
    have le: "key_lb (\<lambda>x. x) keys key \<le> length keys" by simp
    show "fst (zip keys vals ! i) < key" if i: "i < key_lb (\<lambda>x. x) keys key" for i
    proof -
      have "i < length keys" using i le by linarith
      with i len less_key_lb_iff [of "\<lambda>x. x" keys i key] sk show ?thesis by simp
    qed
    show "key_lb (\<lambda>x. x) keys key \<le> length (zip keys vals)" using le len by simp
  qed (use sk len less_key_lb_iff [of "\<lambda>x. x" keys _ key] in
      \<open>auto simp: map_fst_zip not_less [symmetric]\<close>)
  moreover have "fst (last (zip keys vals)) = last keys"
    using ne len by (simp add: last_zip flip: length_greater_0_conv)
  moreover have "key_lb (\<lambda>x. x) keys key < length keys \<longleftrightarrow> key \<le> last keys"
    using key_lb_less_iff [of "\<lambda>x. x" keys key] sk ne by simp
  ultimately show ?case
    using ne len by (auto simp: ib_Lookup_def ib_leaf_lower_bound_eq [OF sk ne])
next
  case (2 h s keys children)
  let ?ess = "map ib_entries children" and ?m = "\<lambda>c. fst (last (ib_entries c))"
  let ?p = "key_lb (\<lambda>x. x) keys key"
  from "2.prems" have kne: "keys \<noteq> []" and len: "length children = Suc (length keys)"
    and keys: "keys = map ?m (butlast children)" and val: "\<forall>c \<in> set children. ib_valid h c"
    and s: "sorted_by fst (concat ?ess)"
    unfolding ib_valid.simps ib_entries.simps by blast+
  have ne: "[] \<notin> set ?ess" using val ib_entries_nonempty by fastforce
  from sorted_lasts [OF s ne] have sm: "sorted (map ?m children)" by (simp add: o_def)
  have cne: "children \<noteq> []" using len by auto
  have ch: "children = butlast children @ [last children]" using cne by simp
  have sk: "sorted keys"
    using sm unfolding keys by (subst (asm) ch) (simp add: sorted_append del: append_butlast_last_id)
  have kn: "keys ! i = ?m (children ! i)" if "i < length keys" for i
    using that by (subst keys) (simp add: len nth_butlast)
  have p: "?p < length children" using key_lb_le [of "\<lambda>x. x" keys key] len by linarith
  have step: "ib_Lookup fo \<lparr>bt_root = Some (Inner s keys children), bt_height = Suc h\<rparr> key
      = ib_Lookup fo \<lparr>bt_root = Some (children ! ?p), bt_height = h\<rparr> key"
    using p by (simp add: ib_Lookup_Inner ib_inner_lower_bound_eq [OF sk kne])
  have sp: "sorted_by fst (ib_entries (children ! ?p))"
    using s concat_split_nth [of ?p ?ess] p by (simp add: sorted_append)
  have IH: "ib_Lookup fo \<lparr>bt_root = Some (children ! ?p), bt_height = h\<rparr> key =
      (if key \<le> ?m (children ! ?p)
       then Inr (snd (ib_entries (children ! ?p) ! key_lb fst (ib_entries (children ! ?p)) key))
       else Inl Undefined)"
    using "2.IH" val p sp by (simp add: nth_mem)
  have below: "?ess ! i \<noteq> [] \<and> fst (last (?ess ! i)) < key" if "i < ?p" for i
  proof -
    have i: "i < length keys" "i < length children"
      using that key_lb_le [of "\<lambda>x. x" keys key] len by linarith+
    then have "keys ! i < key" using less_key_lb_iff [of "\<lambda>x. x" keys i key] sk that by simp
    moreover have "ib_entries (children ! i) \<noteq> []" using ne i by (metis image_eqI nth_mem set_map)
    ultimately show ?thesis using kn [OF i(1)] i by simp
  qed
  have last: "?m (Inner s keys children) = ?m (last children)"
  proof -
    have "ib_entries (last children) \<noteq> []" using ne cne by (metis image_eqI last_in_set set_map)
    then show ?thesis by (subst ch) (simp del: append_butlast_last_id)
  qed
  show ?case
  proof (cases "key \<le> ?m (children ! ?p)")
    case True
    have pne: "?ess ! ?p \<noteq> []" using ne p by (metis length_map nth_mem)
    have "?m (children ! ?p) \<le> ?m (last children)"
      using sm p cne by (auto simp: last_conv_nth sorted_iff_nth_mono)
    with True have "key \<le> ?m (Inner s keys children)" unfolding last by simp
    then show ?thesis
      using key_lb_concat(3) [OF s _ below pne] p True unfolding step IH by simp
  next
    case False
    have "?p = length keys"
    proof (rule ccontr)
      assume "?p \<noteq> length keys"
      then have "?p < length keys" using key_lb_le [of "\<lambda>x. x" keys key] by linarith
      then have "\<not> keys ! ?p < key" "keys ! ?p = ?m (children ! ?p)"
        using less_key_lb_iff [of "\<lambda>x. x" keys ?p key] sk kn by auto
      with False show False by simp
    qed
    with False cne len have "\<not> key \<le> ?m (Inner s keys children)"
      unfolding last by (simp add: last_conv_nth)
    with False show ?thesis unfolding step IH by simp
  qed
qed auto

section \<open>Bulk loading builds a valid tree\<close>

text \<open>The generator yields the entries \<open>xs\<close> and then ends.\<close>

fun gen_yields :: "('k, 'v, 'g) generator \<Rightarrow> 'g \<Rightarrow> ('k \<times> 'v) list \<Rightarrow> bool" where
  "gen_yields gen g [] \<longleftrightarrow> (\<exists>g'. gen g = Inr (None, g'))"
| "gen_yields gen g (x # xs) \<longleftrightarrow> (\<exists>g'. gen g = Inr (Some x, g') \<and> gen_yields gen g' xs)"

lemma ib_fill_leaf_yields:
  "gen_yields gen g xs \<Longrightarrow>
   \<exists>g'. ib_fill_leaf gen m g acc = Inr (acc @ take m xs, m \<le> length xs, g')
     \<and> (m \<le> length xs \<longrightarrow> gen_yields gen g' (drop m xs))"
proof (induction m arbitrary: g xs acc)
  case (Suc m)
  show ?case
  proof (cases xs)
    case (Cons x ys)
    with Suc.prems obtain g' where "gen g = Inr (Some x, g')" "gen_yields gen g' ys" by auto
    with Suc.IH [of g' ys "acc @ [x]"] Cons show ?thesis by auto
  qed (use Suc.prems in auto)
qed auto

definition layer_entries :: "('k \<times> ('k, 'v, 's) ib_node) list \<Rightarrow> ('k \<times> 'v) list" where
  "layer_entries ns = concat (map (\<lambda>n. ib_entries (snd n)) ns)"

definition layer_ok :: "nat \<Rightarrow> ('k \<times> ('k, 'v, 's) ib_node) list \<Rightarrow> bool" where
  "layer_ok h ns \<longleftrightarrow>
     (\<forall>n \<in> set ns. ib_valid h (snd n) \<and> fst n = fst (last (ib_entries (snd n))))"

lemma layer_entries_append [simp]:
  "layer_entries (ms @ ns) = layer_entries ms @ layer_entries ns"
  by (simp add: layer_entries_def)

lemma layer_entries_simps [simp]:
  "layer_entries [] = []" "layer_entries (n # ns) = ib_entries (snd n) @ layer_entries ns"
  by (simp_all add: layer_entries_def)

lemma layer_ok_append [simp]: "layer_ok h (ms @ ns) \<longleftrightarrow> layer_ok h ms \<and> layer_ok h ns"
  by (auto simp: layer_ok_def)

lemma ib_leaf_layer_yields:
  assumes "gen_yields gen g xs"
  shows "\<exists>leaves. ib_leaf_layer fo gen g True acc n = Some (Inr (acc @ leaves, n + length xs))
    \<and> layer_ok 0 leaves \<and> layer_entries leaves = xs"
  using assms
proof (induction xs arbitrary: g acc n rule: length_induct)
  case (1 xs)
  let ?M = MAX_ENTRIES
  obtain g' where fill: "ib_fill_leaf gen ?M g [] = Inr (take ?M xs, ?M \<le> length xs, g')"
    and rest: "?M \<le> length xs \<longrightarrow> gen_yields gen g' (drop ?M xs)"
    using ib_fill_leaf_yields [OF "1.prems", of ?M "[]"] by auto
  show ?case
  proof (cases "xs = []")
    case True
    with fill show ?thesis
      by (subst ib_leaf_layer.simps) (simp add: layer_ok_def)
  next
    case False
    let ?kvs = "take ?M xs"
    let ?keys = "map fst ?kvs"
    let ?leaf = "(last ?keys, Leaf (ib_init fo ?keys) ?keys (map snd ?kvs))"
    have ne: "?kvs \<noteq> []" using False by (simp add: MAX_ENTRIES_def)
    have ent: "ib_entries (snd ?leaf) = ?kvs" by (simp add: zip_map_fst_snd)
    have ok: "layer_ok 0 [?leaf]"
      using ne False by (auto simp: layer_ok_def ent last_map MAX_ENTRIES_def zip_map_fst_snd)
    have step: "ib_leaf_layer fo gen g True acc n =
        ib_leaf_layer fo gen g' (?M \<le> length xs) (acc @ [?leaf]) (n + length ?kvs)"
      using fill ne by (subst ib_leaf_layer.simps) (simp add: Let_def)
    show ?thesis
    proof (cases "?M \<le> length xs")
      case True
      have "length (drop ?M xs) < length xs" using False by (simp add: MAX_ENTRIES_def)
      from "1.IH" [rule_format, OF this] rest True obtain leaves where
        "ib_leaf_layer fo gen g' True (acc @ [?leaf]) (n + length ?kvs)
          = Some (Inr ((acc @ [?leaf]) @ leaves, n + length ?kvs + length (drop ?M xs)))"
        "layer_ok 0 leaves" "layer_entries leaves = drop ?M xs" by blast
      with step ok ent True show ?thesis
        by (intro exI [of _ "?leaf # leaves"])
          (simp add: layer_entries_def layer_ok_def)
    next
      case False
      then have "ib_leaf_layer fo gen g' (?M \<le> length xs) (acc @ [?leaf]) (n + length ?kvs)
          = Some (Inr (acc @ [?leaf], n + length ?kvs))"
        by (subst ib_leaf_layer.simps) simp
      with step ok ent False show ?thesis by (intro exI [of _ "[?leaf]"]) simp
    qed
  qed
qed

text \<open>
  The distribution of \<open>n = r * q + m\<close> entries: the first \<open>m\<close> nodes get \<open>q + 1\<close>, the others
  \<open>q\<close>.
\<close>

lemma adjust_entries_eq:
  assumes n: "n = r * q + m" and "i < r" and "2 \<le> q"
    and "e = Suc q \<and> i \<le> m \<or> e = q \<and> m \<le> i"
  shows "adjust_entries n r e i = (if i < m then Suc q else q)"
proof -
  obtain d where d: "r = i + d" "0 < d" using assms(2) by (metis less_imp_add_positive)
  obtain q' where q: "q = Suc q'" using assms(3) by (cases q) auto
  from assms(4) show ?thesis
    by (elim disjE conjE) (auto simp: adjust_entries_def n d q algebra_simps)
qed

lemma ib_layer_correct:
  assumes ok: "layer_ok h cur" and n: "length cur = r * q + m"
    and q: "2 \<le> q" "q \<le> MAX_ENTRIES" and mr: "m < r"
  shows "i \<le> r \<Longrightarrow> e = Suc q \<and> i \<le> m \<or> e = q \<and> m \<le> i \<Longrightarrow>
    \<exists>ns. ib_layer fo cur r e i (i * q + min i m) acc = Inr (acc @ ns) \<and> layer_ok (Suc h) ns
      \<and> layer_entries ns = layer_entries (drop (i * q + min i m) cur) \<and> length ns = r - i"
proof (induction "r - i" arbitrary: i e acc)
  case 0
  then have "i = r" by simp
  with n mr show ?case by (simp add: ib_layer.simps [of _ _ r e r] layer_ok_def)
next
  case (Suc k)
  then have i: "i < r" by simp
  let ?pos = "i * q + min i m"
  define c where "c = (if i < m then Suc q else q)"
  have adj: "adjust_entries (length cur) r e i = c"
    using adjust_entries_eq [OF n i q(1) Suc.prems(2)] by (simp add: c_def)
  have pos': "?pos + c = Suc i * q + min (Suc i) m" by (auto simp: c_def)
  have "Suc i * q \<le> r * q" using i by (intro mult_le_mono1) simp
  then have fits: "?pos + c \<le> length cur" unfolding pos' n using i by simp
  have c: "2 \<le> c" "c \<le> MAX_ENTRIES + 1" using q by (auto simp: c_def)
  define part where "part = take c (drop ?pos cur)"
  have lp: "length part = c" using fits by (simp add: part_def)
  have pne: "part \<noteq> []" using lp c by auto
  have pok: "layer_ok h part"
    using ok by (auto simp: layer_ok_def part_def dest: in_set_takeD in_set_dropD)
  let ?keys = "map fst (butlast part)"
  let ?node = "(fst (last part), Inner (ib_init fo ?keys) ?keys (map snd part))"
  have keys: "?keys = map (\<lambda>c. fst (last (ib_entries c))) (butlast (map snd part))"
    using pok by (auto simp: layer_ok_def map_butlast [symmetric] dest: in_set_butlastD)
  have ent: "ib_entries (snd ?node) = layer_entries part"
    by (simp add: layer_entries_def o_def)
  have lastp: "fst (last part) = fst (last (layer_entries part))"
  proof -
    have v: "ib_valid h (snd (last part)) \<and> fst (last part) = fst (last (ib_entries (snd (last part))))"
      using pok pne by (simp add: layer_ok_def)
    have "part = butlast part @ [last part]" using pne by simp
    then have "layer_entries part = layer_entries (butlast part) @ ib_entries (snd (last part))"
      by (metis append_Nil2 layer_entries_append layer_entries_simps)
    with v ib_entries_nonempty show ?thesis by (metis last_appendR)
  qed
  have nok: "layer_ok (Suc h) [?node]"
  proof -
    have "length (map snd part) = Suc (length ?keys)" "?keys \<noteq> []" "length ?keys \<le> MAX_ENTRIES"
      using lp c by (auto simp: length_0_conv [symmetric] simp del: length_0_conv)
    moreover have "\<forall>c \<in> set (map snd part). ib_valid h c" using pok by (auto simp: layer_ok_def)
    ultimately have "ib_valid (Suc h) (snd ?node)" using keys by simp
    then show ?thesis
      using lastp ent by (simp add: layer_ok_def del: ib_valid.simps ib_entries.simps)
  qed
  have step: "ib_layer fo cur r e i ?pos acc
      = ib_layer fo cur r c (Suc i) (Suc i * q + min (Suc i) m) (acc @ [?node])"
    using i adj c fits
    by (simp add: ib_layer.simps [of fo cur r e i ?pos acc] Let_def part_def pos' [symmetric]
        del: mult_Suc)
  have "c = Suc q \<and> Suc i \<le> m \<or> c = q \<and> m \<le> Suc i" by (auto simp: c_def)
  moreover have "k = r - Suc i" "Suc i \<le> r" using Suc.hyps(2) i by auto
  ultimately obtain ns where
    IH: "ib_layer fo cur r c (Suc i) (Suc i * q + min (Suc i) m) (acc @ [?node])
        = Inr ((acc @ [?node]) @ ns)" "layer_ok (Suc h) ns" "length ns = r - Suc i"
      "layer_entries ns = layer_entries (drop (Suc i * q + min (Suc i) m) cur)"
    using Suc.hyps(1) [of "Suc i" c "acc @ [?node]"] by blast
  have "drop ?pos cur = part @ drop (Suc i * q + min (Suc i) m) cur"
    unfolding part_def pos' [symmetric] by (metis add.commute append_take_drop_id drop_drop)
  then have "layer_entries ([?node] @ ns) = layer_entries (drop ?pos cur)"
    using ent IH(4) by simp
  moreover have "layer_ok (Suc h) ([?node] @ ns)"
    using nok IH(2) by (simp only: layer_ok_append)
  moreover have "length ([?node] @ ns) = r - i" using IH(3) i by simp
  ultimately show ?case
    unfolding step using IH(1)
    by (intro exI [of _ "[?node] @ ns"] conjI) (simp_all only: append_assoc)
qed

lemma distribution:
  assumes "1 < n"
  obtains q m where "n = required_nodes n * q + m" "m < required_nodes n" "2 \<le> q"
    "q \<le> MAX_ENTRIES"
    "entries_per_node n = Suc q \<or> entries_per_node n = q \<and> m = 0"
proof (cases "n mod 256 = 0")
  case True
  then have r: "required_nodes n = n div 256" "n = required_nodes n * 256"
    using div_mult_mod_eq [of n 256] by (simp_all add: required_nodes_def MAX_ENTRIES_def)
  then have pos: "0 < required_nodes n" using assms by (cases "required_nodes n") auto
  then have "entries_per_node n = 256"
    using True r by (simp add: entries_per_node_def MAX_ENTRIES_def)
      (metis nonzero_mult_div_cancel_left less_not_refl2)
  with that [of 256 0] r pos show thesis by (simp add: MAX_ENTRIES_def)
next
  case False
  let ?r = "required_nodes n"
  have r: "?r = n div 256 + 1" using False by (simp add: required_nodes_def MAX_ENTRIES_def)
  have split: "n = n div 256 * 256 + n mod 256" by simp
  have "2 * ?r \<le> n" using split r False assms by (cases "n div 256 = 0") linarith+
  then have "2 \<le> n div ?r" using r by (simp add: less_eq_div_iff_mult_less_eq)
  moreover have "n < ?r * 257" using split r mod_less_divisor [of 256 n] by linarith
  then have "n div ?r < 257" using r by (metis less_mult_imp_div_less mult.commute)
  moreover have "entries_per_node n = Suc (n div ?r)"
    using False by (simp add: entries_per_node_def MAX_ENTRIES_def)
  moreover have "n = ?r * (n div ?r) + n mod ?r" by simp
  moreover have "n mod ?r < ?r" using r by simp
  ultimately show thesis by (intro that [of "n div ?r" "n mod ?r"]) (simp_all add: MAX_ENTRIES_def)
qed

lemma ib_layers_correct:
  "layer_ok h ns \<Longrightarrow> ns \<noteq> [] \<Longrightarrow>
   \<exists>k t h'. ib_layers fo ns h = Inr ([(k, t)], h') \<and> ib_valid h' t
     \<and> ib_entries t = layer_entries ns"
proof (induction fo ns h rule: ib_layers.induct)
  case (1 fo ns h)
  let ?n = "length ns"
  show ?case
  proof (cases "1 < ?n")
    case True
    obtain q m where D: "?n = required_nodes ?n * q + m" "m < required_nodes ?n" "2 \<le> q"
      "q \<le> MAX_ENTRIES" "entries_per_node ?n = Suc q \<or> entries_per_node ?n = q \<and> m = 0"
      using distribution [OF True] by blast
    have e: "1 < entries_per_node ?n" using D(3,5) by auto
    from ib_layer_correct [OF "1.prems"(1) D(1,3,4,2), of 0 "entries_per_node ?n" fo "[]"] D(5)
    obtain ms where ms: "ib_layer fo ns (required_nodes ?n) (entries_per_node ?n) 0 0 [] = Inr ms"
      "layer_ok (Suc h) ms" "layer_entries ms = layer_entries ns" "length ms = required_nodes ?n"
      by auto
    have "ms \<noteq> []" using ms(4) D(2) by auto
    from "1.IH" [OF True refl refl _ ms(1) ms(2) this] e True ms show ?thesis
      by (simp add: ib_layers.simps [of fo ns h] Let_def)
  next
    case False
    with "1.prems" obtain k t where ns: "ns = [(k, t)]"
      by (cases ns) (auto simp: length_Suc_conv)
    with "1.prems" show ?thesis
      by (subst ib_layers.simps) (simp add: layer_ok_def)
  qed
qed

text \<open>The tree holds exactly the generated entries, in their order.\<close>

lemma ib_FastLoadGenerate_correct:
  assumes "gen_yields gen g xs" and "xs \<noteq> []"
  shows "\<exists>n h. ib_FastLoadGenerate fo gen g t0
      = Some (Inr (\<lparr>bt_root = Some n, bt_height = h\<rparr>, length xs))
    \<and> ib_valid h n \<and> ib_entries n = xs"
proof -
  obtain leaves where L: "ib_leaf_layer fo gen g True [] 0 = Some (Inr (leaves, length xs))"
    "layer_ok 0 leaves" "layer_entries leaves = xs"
    using ib_leaf_layer_yields [OF assms(1), of fo "[]" 0] by auto
  have ne: "leaves \<noteq> []" using L(3) assms(2) by auto
  from ib_layers_correct [OF L(2) ne, of fo] L ne show ?thesis
    by (auto simp: ib_FastLoadGenerate_def)
qed

section \<open>The sampled positions\<close>

lemma ib_skip_props:
  assumes "pos \<le> n"
  shows "pos \<le> ib_skip s n pos \<and> ib_skip s n pos \<le> n
    \<and> (ib_skip s n pos < n \<longrightarrow> s dvd ib_skip s n pos)
    \<and> (\<forall>x. pos \<le> x \<longrightarrow> x < ib_skip s n pos \<longrightarrow> \<not> s dvd x)"
  using assms
proof (induction s n pos rule: ib_skip.induct)
  case (1 s n pos)
  show ?case
  proof (cases "pos < n \<and> pos mod s \<noteq> 0")
    case True
    then have "ib_skip s n pos = ib_skip s n (Suc pos)" by (subst ib_skip.simps) simp
    moreover have "\<not> s dvd pos" using True by (simp add: dvd_eq_mod_eq_0)
    moreover have "pos \<le> x \<longleftrightarrow> x = pos \<or> Suc pos \<le> x" for x by auto
    ultimately show ?thesis using "1.IH" [OF True] True by auto
  next
    case False
    then have "ib_skip s n pos = pos" by (subst ib_skip.simps) auto
    with False "1.prems" show ?thesis by (auto simp: dvd_eq_mod_eq_0)
  qed
qed

definition ib_next :: "nat \<Rightarrow> nat \<Rightarrow> nat \<Rightarrow> nat" where
  "ib_next s n pos = (let p = ib_skip s n pos in if p = n then p - 1 else p)"

lemma ib_next_props:
  assumes "pos < n"
  shows "pos \<le> ib_next s n pos" and "ib_next s n pos < n"
    and "s dvd ib_next s n pos \<or> ib_next s n pos = n - 1"
    and "pos \<le> x \<Longrightarrow> x < ib_next s n pos \<Longrightarrow> \<not> s dvd x"
  using ib_skip_props [of pos n s] assms by (auto simp: ib_next_def Let_def split: if_splits)

function ib_samples :: "nat \<Rightarrow> nat \<Rightarrow> nat \<Rightarrow> nat list" where
  "ib_samples s n pos =
     (if n \<le> pos then [] else ib_next s n pos # ib_samples s n (Suc (ib_next s n pos)))"
  by pat_completeness auto
termination
proof (relation "measure (\<lambda>(s, n, pos). n - pos)", goal_cases)
  case (2 s n pos)
  with ib_next_props(1,2) [of pos n s] show ?case by simp
qed simp

declare ib_samples.simps [simp del]

lemma ib_generator_yields:
  "gen_yields (ib_generator s data) pos
     (map (\<lambda>p. (kv_key (data ! p), kv_value (data ! p))) (ib_samples s (length data) pos))"
proof (induction s "length data" pos rule: ib_samples.induct)
  case (1 s pos)
  show ?case
  proof (cases "length data \<le> pos")
    case True
    then show ?thesis by (simp add: ib_generator_def ib_samples.simps [of _ _ pos])
  next
    case False
    let ?p = "ib_next s (length data) pos"
    have "?p < length data" using ib_next_props(2) [of pos "length data" s] False by simp
    then have "ib_generator s data pos = Inr (Some (kv_key (data ! ?p), kv_value (data ! ?p)), Suc ?p)"
      using False by (simp add: ib_generator_def ib_next_def Let_def)
    with 1 False show ?thesis by (simp add: ib_samples.simps [of _ _ pos])
  qed
qed

lemma set_ib_samples:
  "set (ib_samples s n pos) = {y. pos \<le> y \<and> y < n \<and> (s dvd y \<or> y = n - 1)}"
proof (induction s n pos rule: ib_samples.induct)
  case (1 s n pos)
  show ?case
  proof (cases "n \<le> pos")
    case True
    then show ?thesis by (auto simp: ib_samples.simps [of _ _ pos])
  next
    case False
    let ?p = "ib_next s n pos"
    have p: "pos < n" using False by simp
    note P = ib_next_props [OF p, where s = s]
    have "{y. pos \<le> y \<and> y < n \<and> (s dvd y \<or> y = n - 1)}
        = insert ?p {y. Suc ?p \<le> y \<and> y < n \<and> (s dvd y \<or> y = n - 1)}" (is "?L = ?R")
    proof (rule set_eqI)
      fix y
      show "y \<in> ?L \<longleftrightarrow> y \<in> ?R"
        using P by (cases y ?p rule: linorder_cases) auto
    qed
    with 1 False show ?thesis by (simp add: ib_samples.simps [of _ _ pos])
  qed
qed

lemma sorted_ib_samples: "sorted (ib_samples s n pos)"
proof (induction s n pos rule: ib_samples.induct)
  case (1 s n pos)
  then show ?case
    by (cases "n \<le> pos") (auto simp: ib_samples.simps [of _ _ pos] set_ib_samples)
qed

lemma ib_samples_cover:
  assumes "x < n" and "0 < s"
  shows "\<exists>y \<in> set (ib_samples s n 0). x \<le> y \<and> y < x + s"
proof -
  define y where "y = (x + (s - 1)) div s * s"
  have dvd: "s dvd y" by (simp add: y_def)
  have "x + (s - 1) = y + (x + (s - 1)) mod s" unfolding y_def by (metis div_mult_mod_eq)
  moreover have "(x + (s - 1)) mod s < s" using assms(2) by simp
  ultimately have y: "x \<le> y" "y < x + s" using assms(2) by linarith+
  show ?thesis
  proof (cases "y < n")
    case True
    with y dvd show ?thesis by (intro bexI [of _ y]) (simp_all add: set_ib_samples)
  next
    case False
    with y assms show ?thesis by (intro bexI [of _ "n - 1"]) (auto simp: set_ib_samples)
  qed
qed

section \<open>Correctness of the competitor\<close>

definition ib_entry :: "'k KeyValue \<Rightarrow> 'k \<times> u64" where
  "ib_entry kv = (kv_key kv, kv_value kv)"

abbreviation ib_sampled :: "nat \<Rightarrow> 'k KeyValue list \<Rightarrow> ('k \<times> u64) list" where
  "ib_sampled s kvs \<equiv> map (\<lambda>p. ib_entry (kvs ! p)) (ib_samples s (length kvs) 0)"

lemma sorted_ib_sampled:
  assumes "sorted_by kv_key kvs"
  shows "sorted_by fst (ib_sampled s kvs)"
proof -
  have "ib_samples s (length kvs) 0 ! j < length kvs" if "j < length (ib_samples s (length kvs) 0)" for j
    using nth_mem [OF that] by (simp add: set_ib_samples)
  then show ?thesis
    using sorted_nth_mono [OF sorted_ib_samples] sorted_by_nth [OF assms]
    by (simp add: ib_entry_def sorted_iff_nth_mono)
qed

lemma ib_Build_Some:
  assumes "kvs \<noteq> []"
  shows "\<exists>n h. ib_Build fo s kvs = Some (Inr \<lparr>bt_root = Some n, bt_height = h\<rparr>)
    \<and> ib_valid h n \<and> ib_entries n = ib_sampled s kvs"
proof -
  have ne: "ib_sampled s kvs \<noteq> []"
    using assms by (simp add: ib_samples.simps [of _ _ 0])
  have "gen_yields (ib_generator s kvs) 0 (ib_sampled s kvs)"
    using ib_generator_yields [of s kvs 0] by (simp add: ib_entry_def)
  from ib_FastLoadGenerate_correct [OF this ne, of fo "\<lparr>bt_root = None, bt_height = 0\<rparr>"]
  show ?thesis by (auto simp: ib_Build_def)
qed

lemma ib_EqualityLookup_encloses:
  assumes input: "index_input kvs" and s: "0 < s" and ne: "kvs \<noteq> []"
    and build: "ib_Build fo s kvs = Some (Inr t)" and k: "k \<le> kv_key (last kvs)"
  shows "\<exists>b. ib_EqualityLookup fo s t k = Inr b \<and> encloses b (kv_lb kvs k) (length kvs)
    \<and> sb_stop b \<le> sb_start b + s"
proof -
  let ?n = "length kvs" and ?xs = "ib_sampled s kvs" and ?ps = "ib_samples s (length kvs) 0"
  have sorted: "sorted_by kv_key kvs" using input by (simp add: index_input_def)
  obtain n h where t: "t = \<lparr>bt_root = Some n, bt_height = h\<rparr>" "ib_valid h n" "ib_entries n = ?xs"
    using ib_Build_Some [OF ne, of fo s] build by auto
  note sx = sorted_ib_sampled [OF sorted, of s]
  have last: "?n - 1 \<in> set ?ps" using ne by (simp add: set_ib_samples)
  then have "ib_entry (kvs ! (?n - 1)) \<in> set ?xs" by simp
  then have "kv_key (last kvs) \<le> fst (last ?xs)"
    using sorted_hd_last(2) [OF sx] ne by (fastforce simp: ib_entry_def last_conv_nth)
  with k have kx: "k \<le> fst (last ?xs)" by simp
  let ?j = "key_lb fst ?xs k"
  have xne: "?xs \<noteq> []" using last by auto
  have j: "?j < length ?ps" using key_lb_less_iff [OF sx, of k] kx xne by simp
  define p where "p = ?ps ! ?j"
  have p: "p < ?n" using nth_mem [OF j] by (simp add: p_def set_ib_samples)
  have look: "ib_Lookup fo t k = Inr (kv_value (kvs ! p))"
    using ib_Lookup_correct [OF t(2), of fo k] t(1,3) sx kx j by (simp add: p_def ib_entry_def)
  have "\<not> fst (?xs ! ?j) < k" using less_key_lb_iff [OF sx, of ?j k] j by simp
  then have "\<not> kv_key (kvs ! p) < k" using j by (simp add: p_def ib_entry_def)
  then have stop: "kv_lb kvs k \<le> p" using less_key_lb_iff [OF sorted p, of k] by simp
  have start: "p \<le> kv_lb kvs k + s"
  proof (rule ccontr)
    assume far: "\<not> p \<le> kv_lb kvs k + s"
    then have lbn: "kv_lb kvs k < ?n" using p by simp
    obtain y where y: "y \<in> set ?ps" "kv_lb kvs k \<le> y" "y < kv_lb kvs k + s"
      using ib_samples_cover [OF lbn s] by blast
    then have yn: "y < ?n" by (simp add: set_ib_samples)
    obtain i where i: "i < length ?ps" "?ps ! i = y" using y(1) by (auto simp: in_set_conv_nth)
    have "\<not> kv_key (kvs ! y) < k" using less_key_lb_iff [OF sorted yn, of k] y(2) by simp
    then have "?j \<le> i" using less_key_lb_iff [OF sx, of i k] i by (simp add: ib_entry_def)
    then have "p \<le> y" using sorted_nth_mono [OF sorted_ib_samples _ i(1), of ?j] i(2)
      by (simp add: p_def)
    with far y(3) show False by simp
  qed
  have v: "unat (kv_value (kvs ! p)) = p" using index_input_value [OF input p] .
  show ?thesis
    using stop start p by (auto simp: ib_EqualityLookup_def look v encloses_def Let_def)
qed

text \<open>A build that does not return is a failure for the caller.\<close>

definition returns :: "'a res option \<Rightarrow> 'a res" where
  "returns r = (case r of None \<Rightarrow> Inl (Fail ''does not return'') | Some x \<Rightarrow> x)"

interpretation ibtree: index_contract
  "\<lambda>kvs. returns (ib_Build fo (Suc s) kvs)" "ib_EqualityLookup fo (Suc s)"
  "\<lambda>kvs. kvs \<noteq> []" "\<lambda>kvs k. k \<le> kv_key (last kvs)"
  for fo :: "('k::{linorder,minus}, 's) slope_ops" and s
proof unfold_locales
  fix kvs :: "'k KeyValue list"
  assume "kvs \<noteq> []"
  then show "\<exists>st. returns (ib_Build fo (Suc s) kvs) = Inr st"
    using ib_Build_Some [of kvs fo "Suc s"] by (auto simp: returns_def)
next
  fix kvs :: "'k KeyValue list" and t :: "('k, u64, 's) BTree" and k
  assume A: "index_input kvs" "kvs \<noteq> []" "returns (ib_Build fo (Suc s) kvs) = Inr t"
    "k \<le> kv_key (last kvs)"
  then have "ib_Build fo (Suc s) kvs = Some (Inr t)"
    by (simp add: returns_def split: option.splits)
  from ib_EqualityLookup_encloses [OF A(1) _ A(2) this A(4)]
  show "\<exists>b. ib_EqualityLookup fo (Suc s) t k = Inr b \<and> encloses b (kv_lb kvs k) (length kvs)"
    by auto
qed

section \<open>Properties\<close>

text \<open>Slopes as exact fractions, for the witnesses.\<close>

definition fraction_slope :: "('l::len word, nat \<times> nat) slope_ops" where
  "fraction_slope = \<lparr>mk_slope = (\<lambda>n d. (n, unat d)), use_slope = (\<lambda>(n, d) x. n * unat x div d)\<rparr>"

text \<open>
  C8. Interpolation B-tree, end to end: on non-empty sorted data the build returns, and for
  every key up to the largest one the lookup returns a bound of at most \<open>size_scale\<close>
  positions, inside of the data, that encloses the first position whose key is not below
  the lookup key, however the slopes of the nodes are rounded.
\<close>
theorem ib_bound_encloses:
  fixes kvs :: "'k::{linorder,minus} KeyValue list"
  assumes "index_input kvs" and "0 < size_scale" and "kvs \<noteq> []" and "k \<le> kv_key (last kvs)"
  shows "\<exists>t b. ib_Build fo size_scale kvs = Some (Inr t)
    \<and> ib_EqualityLookup fo size_scale t k = Inr b
    \<and> encloses b (kv_lb kvs k) (length kvs) \<and> sb_stop b - sb_start b \<le> size_scale"
  using ib_Build_Some [OF assms(3), of fo size_scale]
    ib_EqualityLookup_encloses [OF assms(1,2,3) _ assms(4), of fo] by fastforce

theorem ib_bound_encloses_witness:
  "\<exists>t b. ib_Build fraction_slope 3 ex_kvs = Some (Inr t)
    \<and> ib_EqualityLookup fraction_slope 3 t 5 = Inr b
    \<and> encloses b (kv_lb ex_kvs 5) (length ex_kvs) \<and> sb_stop b - sb_start b \<le> 3"
  by (rule ib_bound_encloses) (simp_all add: ex_kvs_input)

text \<open>
  \<open>FastLoadGenerate\<close> on a generator that yields a non-empty list of entries returns: none
  of its assertions fails, all leaves of the tree are at the recorded height, every node has
  between one key and its capacity, every separator is the largest key to its left, and the
  leaves hold exactly the generated entries in their order.
\<close>
theorem ib_load_builds_valid_tree:
  assumes "gen_yields gen g xs" and "xs \<noteq> []"
  shows "\<exists>n h. ib_FastLoadGenerate fo gen g t0
      = Some (Inr (\<lparr>bt_root = Some n, bt_height = h\<rparr>, length xs))
    \<and> ib_valid h n \<and> ib_entries n = xs"
  using assms by (rule ib_FastLoadGenerate_correct)

theorem ib_load_builds_valid_tree_witness:
  "\<exists>n h. ib_FastLoadGenerate fraction_slope (ib_generator 3 ex_kvs) 0
      \<lparr>bt_root = None, bt_height = 0\<rparr>
      = Some (Inr (\<lparr>bt_root = Some n, bt_height = h\<rparr>, length (ib_sampled 3 ex_kvs)))
    \<and> ib_valid h n \<and> ib_entries n = ib_sampled 3 ex_kvs"
proof (rule ib_load_builds_valid_tree)
  show "gen_yields (ib_generator 3 ex_kvs) 0 (ib_sampled 3 ex_kvs)"
    using ib_generator_yields [of 3 ex_kvs 0] by (simp add: ib_entry_def)
  show "ib_sampled 3 ex_kvs \<noteq> []" by (simp add: ib_samples.simps [of _ _ 0])
qed

text \<open>
  The lookup in a valid tree over sorted entries returns the value of the first entry
  whose key is not below the lookup key; above the largest key \<open>LowerBound\<close> of the last leaf
  returns \<open>count\<close>, and the lookup reads a value that was never written.
\<close>
theorem ib_lookup_first_not_below:
  fixes key :: "'k::{linorder,minus}"
  assumes "ib_valid h n" and "sorted_by fst (ib_entries n)"
  shows "ib_Lookup fo \<lparr>bt_root = Some n, bt_height = h\<rparr> key =
    (if key \<le> fst (last (ib_entries n))
     then Inr (snd (ib_entries n ! key_lb fst (ib_entries n) key)) else Inl Undefined)"
  using assms by (rule ib_Lookup_correct)

theorem ib_lookup_first_not_below_witness:
  "ib_Lookup fraction_slope
     \<lparr>bt_root = Some (Inner (1, 1) [4 :: u32] [Leaf (1, 1) [2, 4] [0, 1], Leaf (1, 1) [9] [2 :: u64]]),
      bt_height = Suc 0\<rparr> 5 = Inr 2"
  by (subst ib_lookup_first_not_below) (simp_all add: MAX_ENTRIES_def key_lb_def lb_def)

text \<open>
  A lookup of a key above the largest key of the data reads an uninitialised value.
\<close>
theorem ib_lookup_above_max_undefined:
  fixes kvs :: "'k::{linorder,minus} KeyValue list"
  assumes "sorted_by kv_key kvs" and "kvs \<noteq> []" and "k > kv_key (last kvs)"
  shows "\<exists>t. ib_Build fo size_scale kvs = Some (Inr t)
    \<and> ib_EqualityLookup fo size_scale t k = Inl Undefined"
proof -
  let ?xs = "ib_sampled size_scale kvs"
  obtain n h where t: "ib_Build fo size_scale kvs = Some (Inr \<lparr>bt_root = Some n, bt_height = h\<rparr>)"
    "ib_valid h n" "ib_entries n = ?xs"
    using ib_Build_Some [OF assms(2), of fo size_scale] by blast
  have "last ?xs \<in> set ?xs" using ib_entries_nonempty [OF t(2)] t(3) by (metis last_in_set)
  then obtain p where "p < length kvs" "last ?xs = ib_entry (kvs ! p)"
    by (auto simp: set_ib_samples)
  then have "fst (last ?xs) \<le> kv_key (last kvs)"
    using sorted_hd_last(2) [OF assms(1)] by (simp add: ib_entry_def)
  then have "\<not> k \<le> fst (last (ib_entries n))" using assms(3) t(3) by (metis leD le_less_trans not_le)
  then show ?thesis
    using ib_Lookup_correct [OF t(2), of fo k] sorted_ib_sampled [OF assms(1), of size_scale] t(1,3)
    by (simp add: ib_EqualityLookup_def)
qed

theorem ib_lookup_above_max_undefined_witness:
  "\<exists>t. ib_Build fraction_slope 3 ex_kvs = Some (Inr t)
    \<and> ib_EqualityLookup fraction_slope 3 t 20 = Inl Undefined"
  by (rule ib_lookup_above_max_undefined) (simp_all add: ex_kvs_input)

end
