(* ===== verification/SampledIndexes.thy ===== *)
theory SampledIndexes
  imports Competitor
begin

text \<open>
  Model of the competitors that load (a sample of) the entries into an ordered multimap and
  ask it for the first entry that is not below the lookup key: \<open>src/competitors/alex.h\<close>,
  \<open>src/competitors/stx_btree.h\<close> (with \<open>src/utils/tracking_allocator.h\<close>) and
  \<open>src/competitors/pgm_index.h\<close>, and of the hash table competitor
  \<open>src/competitors/hash.h\<close>. The containers are the arguments of the definitions; the locales
  \<open>ordered_multimap\<close> and \<open>hash_map\<close> state the documented behaviour that the competitors
  rely on.
\<close>

section \<open>Ordered multimaps\<close>

text \<open>\<open>mm_lower_bound m k\<close> is the value at the iterator \<open>lower_bound(k)\<close>, \<open>None\<close> for \<open>end()\<close>.\<close>

record ('k, 'm) multimap_ops =
  mm_bulk_load :: "('k \<times> u64) list \<Rightarrow> 'm"
  mm_lower_bound :: "'m \<Rightarrow> 'k \<Rightarrow> u64 option"
  mm_insert :: "'m \<Rightarrow> 'k \<Rightarrow> u64 \<Rightarrow> 'm"

text \<open>The state of the three competitors: \<open>data_size_\<close> and the container.\<close>

record 'm MultimapIndex =
  mi_data_size :: u64
  mi_map :: 'm

text \<open>\<open>start\<close> and \<open>stop\<close> from \<open>guess\<close> and \<open>error\<close>, in \<open>uint64_t\<close>.\<close>

definition guess_bound :: "u64 \<Rightarrow> u64 \<Rightarrow> SearchBound" where
  "guess_bound error guess =
     \<lparr>sb_start = unat (if guess < error then 0 else guess - error), sb_stop = unat (guess + 1)\<rparr>"

section \<open>ALEX\<close>

text \<open>Every \<open>size_scale\<close>-th entry, by the position stored as its value.\<close>

fun alex_loading_data :: "nat \<Rightarrow> 'k KeyValue list \<Rightarrow> ('k \<times> u64) list" where
  "alex_loading_data size_scale [] = []"
| "alex_loading_data size_scale (itm # data) =
     (let idx = kv_value itm
      in if 1 < size_scale \<and> unat idx mod size_scale \<noteq> 0
         then alex_loading_data size_scale data
         else (kv_key itm, kv_value itm) # alex_loading_data size_scale data)"

definition alex_Build ::
  "('k, 'm) multimap_ops \<Rightarrow> nat \<Rightarrow> 'k KeyValue list \<Rightarrow> 'm MultimapIndex res" where
  "alex_Build ops size_scale data =
     Inr \<lparr>mi_data_size = word_of_nat (length data),
          mi_map = mm_bulk_load ops (alex_loading_data size_scale data)\<rparr>"

definition alex_EqualityLookup ::
  "('k, 'm) multimap_ops \<Rightarrow> nat \<Rightarrow> 'm MultimapIndex \<Rightarrow> 'k \<Rightarrow> SearchBound res" where
  "alex_EqualityLookup ops size_scale st lookup_key =
     (let guess = (case mm_lower_bound ops (mi_map st) lookup_key of
                     None \<Rightarrow> mi_data_size st - 1
                   | Some v \<Rightarrow> v)
      in Inr (guess_bound (word_of_nat (size_scale - 1)) guess))"

definition alex_Insert ::
  "('k, 'm) multimap_ops \<Rightarrow> 'm MultimapIndex \<Rightarrow> 'k KeyValue \<Rightarrow> 'm MultimapIndex" where
  "alex_Insert ops st keyValue =
     st\<lparr>mi_map := mm_insert ops (mi_map st) (kv_key keyValue) (kv_value keyValue)\<rparr>"

section \<open>STX B-tree\<close>

fun stx_reformatted_data :: "nat \<Rightarrow> 'k KeyValue list \<Rightarrow> ('k \<times> u64) list" where
  "stx_reformatted_data size_scale [] = []"
| "stx_reformatted_data size_scale (iter # data) =
     (let idx = kv_value iter
      in if 1 < size_scale \<and> unat idx mod size_scale \<noteq> 0
         then stx_reformatted_data size_scale data
         else (kv_key iter, idx) # stx_reformatted_data size_scale data)"

definition stx_Build ::
  "('k, 'm) multimap_ops \<Rightarrow> nat \<Rightarrow> 'k KeyValue list \<Rightarrow> 'm MultimapIndex res" where
  "stx_Build ops size_scale data =
     Inr \<lparr>mi_data_size = word_of_nat (length data),
          mi_map = mm_bulk_load ops (stx_reformatted_data size_scale data)\<rparr>"

definition stx_EqualityLookup ::
  "('k, 'm) multimap_ops \<Rightarrow> nat \<Rightarrow> 'm MultimapIndex \<Rightarrow> 'k \<Rightarrow> SearchBound res" where
  "stx_EqualityLookup ops size_scale st lookup_key =
     (let guess = (case mm_lower_bound ops (mi_map st) lookup_key of
                     None \<Rightarrow> mi_data_size st - 1
                   | Some second \<Rightarrow> second)
      in Inr (guess_bound (word_of_nat (size_scale - 1)) guess))"

definition stx_Insert ::
  "('k, 'm) multimap_ops \<Rightarrow> 'm MultimapIndex \<Rightarrow> 'k KeyValue \<Rightarrow> 'm MultimapIndex" where
  "stx_Insert ops st keyValue =
     \<lparr>mi_data_size = mi_data_size st + 1,
      mi_map = mm_insert ops (mi_map st) (kv_key keyValue) (kv_value keyValue)\<rparr>"

text \<open>
  The allocator of the tree counts the bytes in use, \<open>sz\<close> for each node; it is asked for
  one node at a time.
\<close>

definition ta_allocate :: "nat \<Rightarrow> nat \<Rightarrow> u64 \<Rightarrow> u64 res" where
  "ta_allocate sz n total_allocation_size =
     (if n \<noteq> 1 then Inl (Fail ''assert'') else Inr (total_allocation_size + word_of_nat sz))"

definition ta_deallocate :: "nat \<Rightarrow> u64 \<Rightarrow> u64" where
  "ta_deallocate sz total_allocation_size = total_allocation_size - word_of_nat sz"

definition stx_size :: "nat \<Rightarrow> u64 \<Rightarrow> u64" where
  "stx_size sizeof_this total_allocation_size = total_allocation_size + word_of_nat sizeof_this"

lemma ta_balance:
  "ta_allocate sz 1 t = Inr t' \<Longrightarrow> ta_deallocate sz t' = t"
  by (auto simp: ta_allocate_def ta_deallocate_def)

section \<open>PGM\<close>

definition pgm_kvPairs :: "'k KeyValue list \<Rightarrow> ('k \<times> u64) list" where
  "pgm_kvPairs data = map (\<lambda>kv. (kv_key kv, kv_value kv)) data"

definition pgm_Build :: "('k, 'm) multimap_ops \<Rightarrow> 'k KeyValue list \<Rightarrow> 'm MultimapIndex res" where
  "pgm_Build ops data =
     Inr \<lparr>mi_data_size = word_of_nat (length data), mi_map = mm_bulk_load ops (pgm_kvPairs data)\<rparr>"

definition pgm_EqualityLookup ::
  "('k, 'm) multimap_ops \<Rightarrow> nat \<Rightarrow> 'm MultimapIndex \<Rightarrow> 'k \<Rightarrow> SearchBound res" where
  "pgm_EqualityLookup ops pgm_error st lookup_key =
     (let guess = (case mm_lower_bound ops (mi_map st) lookup_key of
                     None \<Rightarrow> mi_data_size st - 1
                   | Some value \<Rightarrow> value)
      in Inr (guess_bound (word_of_nat pgm_error) guess))"

definition pgm_Insert ::
  "('k, 'm) multimap_ops \<Rightarrow> 'm MultimapIndex \<Rightarrow> 'k KeyValue \<Rightarrow> 'm MultimapIndex" where
  "pgm_Insert ops st keyValue =
     \<lparr>mi_data_size = mi_data_size st + 1,
      mi_map = mm_insert ops (mi_map st) (kv_key keyValue) (kv_value keyValue)\<rparr>"

section \<open>Hash table\<close>

text \<open>\<open>hm_reserve\<close> is the default constructor followed by \<open>reserve\<close>; a call may throw or not return.\<close>

record ('k, 'm) hashmap_ops =
  hm_reserve :: "nat \<Rightarrow> 'm res option"
  hm_insert :: "'m \<Rightarrow> 'k \<Rightarrow> u64 \<Rightarrow> 'm res option"
  hm_find :: "'m \<Rightarrow> 'k \<Rightarrow> u64 option res option"
  hm_bucket_count :: "'m \<Rightarrow> nat"

fun robin_insert_all :: "('k, 'm) hashmap_ops \<Rightarrow> 'k KeyValue list \<Rightarrow> 'm \<Rightarrow> 'm res option" where
  "robin_insert_all ops [] m = Some (Inr m)"
| "robin_insert_all ops (itm # data) m =
     bind_run (hm_insert ops m (kv_key itm) (kv_value itm)) (robin_insert_all ops data)"

definition robin_Build :: "('k, 'm) hashmap_ops \<Rightarrow> 'k KeyValue list \<Rightarrow> 'm res option" where
  "robin_Build ops data =
     bind_run (hm_reserve ops (4 * length data div 3)) (robin_insert_all ops data)"

definition robin_EqualityLookup ::
  "('k, 'm) hashmap_ops \<Rightarrow> 'm \<Rightarrow> 'k \<Rightarrow> SearchBound res option" where
  "robin_EqualityLookup ops m lookup_key =
     bind_run (hm_find ops m lookup_key) (\<lambda>search. Some
       (case search of
          None \<Rightarrow> Inl (Fail ''Could not find lookup key in hashmap!'')
        | Some v \<Rightarrow> Inr \<lparr>sb_start = unat v, sb_stop = unat (v + 1)\<rparr>))"

definition robin_size :: "('k, 'm) hashmap_ops \<Rightarrow> nat \<Rightarrow> 'm \<Rightarrow> nat" where
  "robin_size ops sizeof_key m = hm_bucket_count ops m * (sizeof_key + 8)"

section \<open>The first sampled position\<close>

lemma stx_alex_data: "stx_reformatted_data s data = alex_loading_data s data"
  by (induction data) (simp_all add: Let_def)

lemma alex_loading_data_eq:
  "alex_loading_data s data =
     map (\<lambda>kv. (kv_key kv, kv_value kv)) (filter (\<lambda>kv. s \<le> 1 \<or> s dvd unat (kv_value kv)) data)"
  by (induction data) (auto simp: Let_def dvd_eq_mod_eq_0)

lemma alex_loading_data_positions:
  assumes "index_input kvs" and "0 < s"
  shows "alex_loading_data s kvs
    = map (\<lambda>p. (kv_key (kvs ! p), kv_value (kvs ! p))) (filter (\<lambda>p. s dvd p) [0..<length kvs])"
proof -
  let ?P = "\<lambda>kv. s \<le> 1 \<or> s dvd unat (kv_value kv)"
  have "filter ?P kvs = filter ?P (map (\<lambda>p. kvs ! p) [0..<length kvs])" by (simp add: map_nth)
  also have "\<dots> = map (\<lambda>p. kvs ! p) (filter (\<lambda>p. ?P (kvs ! p)) [0..<length kvs])"
    by (simp add: filter_map o_def)
  also have "filter (\<lambda>p. ?P (kvs ! p)) [0..<length kvs] = filter (\<lambda>p. s dvd p) [0..<length kvs]"
    using assms by (intro filter_cong) (auto simp: index_input_value le_Suc_eq)
  finally show ?thesis by (simp add: alex_loading_data_eq)
qed

lemma sorted_pairs:
  assumes "sorted_by kv_key kvs"
  shows "sorted_by fst (map (\<lambda>p. (kv_key (kvs ! p), v p)) (filter P [0..<length kvs]))"
proof -
  have "sorted (map (\<lambda>p. kv_key (kvs ! p)) [0..<length kvs])"
    using sorted_by_nth [OF assms] by (auto simp: sorted_iff_nth_mono)
  then have "sorted (map (\<lambda>p. kv_key (kvs ! p)) (filter P [0..<length kvs]))"
    by (rule sorted_filter)
  then show ?thesis by (simp add: o_def)
qed

lemma find_filter_upt:
  "find (\<lambda>p. l \<le> p) (filter P [0..<n]) =
     (if \<exists>p < n. l \<le> p \<and> P p then Some (LEAST p. l \<le> p \<and> P p) else None)"
proof (induction n)
  case (Suc n)
  have app: "find Q (xs @ [x]) = (case find Q xs of Some y \<Rightarrow> Some y
      | None \<Rightarrow> if Q x then Some x else None)" for Q :: "nat \<Rightarrow> bool" and xs x
    by (induction xs) auto
  show ?case
  proof (cases "\<exists>p < n. l \<le> p \<and> P p")
    case True
    then show ?thesis using Suc by (auto simp: app less_Suc_eq)
  next
    case False
    then have "(LEAST p. l \<le> p \<and> P p) = n" if "l \<le> n \<and> P n"
      using that by (intro Least_equality) (auto simp: not_less [symmetric])
    with False Suc show ?thesis by (auto simp: app less_Suc_eq)
  qed
qed simp

lemma find_map_find: "find P (map f xs) = map_option f (find (\<lambda>x. P (f x)) xs)"
  by (induction xs) auto

text \<open>
  The position \<open>p\<close> of the first sampled entry that is not below the key, or the last
  position when there is none: the first occurrence is less than \<open>s\<close> positions before it.
\<close>

lemma sampled_guess:
  assumes input: "index_input kvs" and s: "0 < s" and ne: "kvs \<noteq> []"
  obtains p where "p < length kvs" "p \<le> kv_lb kvs k + (s - 1)" "kv_lb kvs k \<le> p + 1"
    "(case map_option snd (find (\<lambda>e. k \<le> fst e) (alex_loading_data s kvs)) of
        None \<Rightarrow> word_of_nat (length kvs) - 1 | Some v \<Rightarrow> v) = (word_of_nat p :: u64)"
proof -
  let ?n = "length kvs" and ?l = "kv_lb kvs k"
  have sorted: "sorted_by kv_key kvs" and val: "\<And>i. i < ?n \<Longrightarrow> kv_value (kvs ! i) = word_of_nat i"
    using input by (auto simp: index_input_def)
  have "k \<le> kv_key (kvs ! p) \<longleftrightarrow> ?l \<le> p" if "p < ?n" for p
    using less_key_lb_iff [OF sorted that, of k] by (auto simp: not_less [symmetric])
  then have "find (\<lambda>p. k \<le> kv_key (kvs ! p)) (filter (\<lambda>p. s dvd p) [0..<?n])
      = find (\<lambda>p. ?l \<le> p) (filter (\<lambda>p. s dvd p) [0..<?n])"
    by (intro find_cong) auto
  then have find: "map_option snd (find (\<lambda>e. k \<le> fst e) (alex_loading_data s kvs)) =
      map_option (\<lambda>p. kv_value (kvs ! p)) (find (\<lambda>p. ?l \<le> p) (filter (\<lambda>p. s dvd p) [0..<?n]))"
    by (simp add: alex_loading_data_positions [OF input s] find_map_find option.map_comp o_def)
  define y where "y = (?l + (s - 1)) div s * s"
  have "?l + (s - 1) = y + (?l + (s - 1)) mod s" unfolding y_def by (metis div_mult_mod_eq)
  moreover have "(?l + (s - 1)) mod s < s" using s by simp
  ultimately have y: "?l \<le> y" "y \<le> ?l + (s - 1)" by linarith+
  have ydvd: "s dvd y" by (simp add: y_def)
  show thesis
  proof (cases "\<exists>p < ?n. ?l \<le> p \<and> s dvd p")
    case True
    let ?p = "LEAST p. ?l \<le> p \<and> s dvd p"
    have le: "?p \<le> q" if "?l \<le> q" "s dvd q" for q using that by (intro Least_le) simp
    from True have "?p < ?n" using le by (meson le_less_trans)
    moreover have "?l \<le> ?p" using True by (metis (mono_tags, lifting) LeastI)
    moreover have "?p \<le> ?l + (s - 1)" using le [OF y(1) ydvd] y(2) by linarith
    ultimately show thesis
      using True val by (intro that [of ?p]) (simp_all add: find find_filter_upt)
  next
    case False
    then have "?n \<le> y" using y(1) ydvd by (meson not_less)
    then have "?n - 1 \<le> ?l + (s - 1)" using y(2) by linarith
    moreover have "?l \<le> ?n - 1 + 1" using ne by (simp add: Suc_leI)
    moreover have "(word_of_nat ?n :: u64) - 1 = word_of_nat (?n - 1)"
      using ne by (simp add: of_nat_diff Suc_leI)
    ultimately show thesis
      using False ne by (intro that [of "?n - 1"]) (auto simp: find find_filter_upt)
  qed
qed

lemma guess_bound_encloses:
  assumes "p < n" and "n < 2 ^ 63" and "p \<le> l + e" and "l \<le> p + 1" and "e < 2 ^ 64"
  shows "encloses (guess_bound (word_of_nat e) (word_of_nat p)) l n"
    and "sb_stop (guess_bound (word_of_nat e) (word_of_nat p))
      \<le> sb_start (guess_bound (word_of_nat e) (word_of_nat p)) + e + 1"
proof -
  have up: "unat (word_of_nat p :: u64) = p" and ue: "unat (word_of_nat e :: u64) = e"
    using assms by simp_all
  have "unat (word_of_nat p + 1 :: u64) = unat (word_of_nat (Suc p) :: u64)"
    by (simp add: add.commute)
  also have "\<dots> = p + 1" using assms by (simp del: of_nat_Suc)
  finally have stop: "unat (word_of_nat p + 1 :: u64) = p + 1" .
  have start: "unat (if (word_of_nat p :: u64) < word_of_nat e then 0 else word_of_nat p - word_of_nat e :: u64)
      = p - e"
  proof (cases "p < e")
    case False
    then have "(word_of_nat e :: u64) \<le> word_of_nat p" using up ue by (simp add: word_le_nat_alt)
    from unat_sub [OF this] up ue False show ?thesis by (simp add: word_less_nat_alt)
  qed (use up ue in \<open>simp add: word_less_nat_alt\<close>)
  show "encloses (guess_bound (word_of_nat e) (word_of_nat p)) l n"
    unfolding guess_bound_def encloses_def start stop SearchBound.simps using assms by auto
  show "sb_stop (guess_bound (word_of_nat e) (word_of_nat p))
      \<le> sb_start (guess_bound (word_of_nat e) (word_of_nat p)) + e + 1"
    unfolding guess_bound_def start stop SearchBound.simps by auto
qed

section \<open>Correctness over every ordered multimap\<close>

text \<open>
  The laws of an ordered container: \<open>entries\<close> are its pairs in the order of an iteration,
  \<open>valid\<close> its representation invariant. Loading sorted pairs keeps at least the first pair of
  each key, \<open>lower_bound\<close> finds the first pair whose key is not below, and a pair with a new
  key is inserted at its place.
\<close>

locale ordered_multimap =
  fixes ops :: "('k::linorder, 'm) multimap_ops"
    and entries :: "'m \<Rightarrow> ('k \<times> u64) list" and valid :: "'m \<Rightarrow> bool"
  assumes bulk_valid: "sorted_by fst xs \<Longrightarrow> valid (mm_bulk_load ops xs)"
    and bulk_find: "sorted_by fst xs \<Longrightarrow>
      find (\<lambda>e. k \<le> fst e) (entries (mm_bulk_load ops xs)) = find (\<lambda>e. k \<le> fst e) xs"
    and entries_sorted: "valid m \<Longrightarrow> sorted_by fst (entries m)"
    and lower_bound_find: "valid m \<Longrightarrow>
      mm_lower_bound ops m k = map_option snd (find (\<lambda>e. k \<le> fst e) (entries m))"
    and insert_valid: "valid m \<Longrightarrow> valid (mm_insert ops m k v)"
    and insert_entries: "valid m \<Longrightarrow> k \<notin> fst ` set (entries m) \<Longrightarrow>
      entries (mm_insert ops m k v) = insort_key fst (k, v) (entries m)"
begin

lemma lower_bound_loaded:
  "sorted_by fst xs \<Longrightarrow>
   mm_lower_bound ops (mm_bulk_load ops xs) k = map_option snd (find (\<lambda>e. k \<le> fst e) xs)"
  by (simp add: bulk_valid bulk_find lower_bound_find)

lemma sampled_lookup:
  assumes input: "index_input kvs" and ne: "kvs \<noteq> []" and s: "0 < s" "s < 2 ^ 31"
    and g_def: "g = (case mm_lower_bound ops (mm_bulk_load ops (alex_loading_data s kvs)) k of
    None \<Rightarrow> word_of_nat (length kvs) - 1 | Some v \<Rightarrow> v)"
  shows "encloses (guess_bound (word_of_nat (s - 1)) g) (kv_lb kvs k) (length kvs)"
    and "sb_stop (guess_bound (word_of_nat (s - 1)) g)
      \<le> sb_start (guess_bound (word_of_nat (s - 1)) g) + s"
proof -
  have sorted: "sorted_by kv_key kvs" and n: "length kvs < 2 ^ 63"
    using input by (auto simp: index_input_def)
  have "sorted_by fst (alex_loading_data s kvs)"
    unfolding alex_loading_data_positions [OF input s(1)] by (rule sorted_pairs [OF sorted])
  note find = lower_bound_loaded [OF this]
  obtain p where p: "p < length kvs" "p \<le> kv_lb kvs k + (s - 1)" "kv_lb kvs k \<le> p + 1"
    and g: "g = word_of_nat p"
    using sampled_guess [OF input s(1) ne, of k] unfolding g_def find by blast
  have e: "s - 1 < 2 ^ 64" using s by simp
  show "encloses (guess_bound (word_of_nat (s - 1)) g) (kv_lb kvs k) (length kvs)"
    unfolding g using guess_bound_encloses(1) [OF p(1) n p(2,3) e] .
  show "sb_stop (guess_bound (word_of_nat (s - 1)) g)
      \<le> sb_start (guess_bound (word_of_nat (s - 1)) g) + s"
    unfolding g using guess_bound_encloses(2) [OF p(1) n p(2,3) e] s(1) by simp
qed

text \<open>PGM loads every entry, and widens the bound to the left by its error.\<close>

lemma full_lookup:
  assumes input: "index_input kvs" and ne: "kvs \<noteq> []" and e: "e < 2 ^ 31"
    and g_def: "g = (case mm_lower_bound ops (mm_bulk_load ops (pgm_kvPairs kvs)) k of
    None \<Rightarrow> word_of_nat (length kvs) - 1 | Some v \<Rightarrow> v)"
  shows "encloses (guess_bound (word_of_nat e) g) (kv_lb kvs k) (length kvs)"
proof -
  have n: "length kvs < 2 ^ 63" using input by (simp add: index_input_def)
  have sorted: "sorted_by kv_key kvs" using input by (simp add: index_input_def)
  have same: "pgm_kvPairs kvs = alex_loading_data 1 kvs"
    by (simp add: pgm_kvPairs_def alex_loading_data_eq)
  have "sorted_by fst (pgm_kvPairs kvs)" using sorted by (simp add: pgm_kvPairs_def o_def)
  note find = lower_bound_loaded [OF this]
  obtain p where p: "p < length kvs" "p \<le> kv_lb kvs k + (1 - 1)" "kv_lb kvs k \<le> p + 1"
    and raw: "(case map_option snd (find (\<lambda>e. k \<le> fst e) (alex_loading_data 1 kvs)) of
        None \<Rightarrow> word_of_nat (length kvs) - 1 | Some v \<Rightarrow> v) = (word_of_nat p :: u64)"
    by (rule sampled_guess [OF input zero_less_one ne, of k])
  have g: "g = word_of_nat p" unfolding g_def find unfolding same by (rule raw)
  have "p \<le> kv_lb kvs k + e" "e < 2 ^ 64" using p(2) e by simp_all
  from guess_bound_encloses(1) [OF p(1) n this(1) p(3) this(2)]
  show ?thesis unfolding g .
qed

lemma alex_encloses:
  assumes "index_input kvs" and "kvs \<noteq> []" and "0 < s" and "s < 2 ^ 31"
  shows "\<exists>st b. alex_Build ops s kvs = Inr st \<and> alex_EqualityLookup ops s st k = Inr b
    \<and> encloses b (kv_lb kvs k) (length kvs) \<and> sb_stop b \<le> sb_start b + s"
  using sampled_lookup [OF assms refl, of k]
  by (simp add: alex_Build_def alex_EqualityLookup_def Let_def cong: option.case_cong)

lemma stx_encloses:
  assumes "index_input kvs" and "kvs \<noteq> []" and "0 < s" and "s < 2 ^ 31"
  shows "\<exists>st b. stx_Build ops s kvs = Inr st \<and> stx_EqualityLookup ops s st k = Inr b
    \<and> encloses b (kv_lb kvs k) (length kvs) \<and> sb_stop b \<le> sb_start b + s"
  using sampled_lookup [OF assms refl, of k]
  by (simp add: stx_Build_def stx_EqualityLookup_def Let_def stx_alex_data cong: option.case_cong)

lemma pgm_encloses:
  assumes "index_input kvs" and "kvs \<noteq> []" and "e < 2 ^ 31"
  shows "\<exists>st b. pgm_Build ops kvs = Inr st \<and> pgm_EqualityLookup ops e st k = Inr b
    \<and> encloses b (kv_lb kvs k) (length kvs)"
  using full_lookup [OF assms refl, of k]
  by (simp add: pgm_Build_def pgm_EqualityLookup_def Let_def cong: option.case_cong)

sublocale alex: index_contract "alex_Build ops (Suc s)" "alex_EqualityLookup ops (Suc s)"
  "\<lambda>kvs. kvs \<noteq> [] \<and> Suc s < 2 ^ 31" "\<lambda>_ _. True" for s
  using alex_encloses [of _ "Suc s"] by unfold_locales (fastforce simp: alex_Build_def)+

sublocale stx: index_contract "stx_Build ops (Suc s)" "stx_EqualityLookup ops (Suc s)"
  "\<lambda>kvs. kvs \<noteq> [] \<and> Suc s < 2 ^ 31" "\<lambda>_ _. True" for s
  using stx_encloses [of _ "Suc s"] by unfold_locales (fastforce simp: stx_Build_def)+

sublocale pgm: index_contract "pgm_Build ops" "pgm_EqualityLookup ops e"
  "\<lambda>kvs. kvs \<noteq> [] \<and> e < 2 ^ 31" "\<lambda>_ _. True" for e
  using pgm_encloses [of _ e] by unfold_locales (fastforce simp: pgm_Build_def)+

end

section \<open>Correctness over every hash map\<close>

lemma find_key_first:
  assumes s: "sorted_by f xs"
  shows "find (\<lambda>x. k = f x) xs =
    (if k \<in> f ` set xs then Some (xs ! key_lb f xs k) else None)"
proof (cases "k \<in> f ` set xs")
  case True
  with key_lb_hit_iff [OF s, of k]
  have hit: "key_lb f xs k < length xs" "f (xs ! key_lb f xs k) = k" by auto
  moreover have "k \<noteq> f (xs ! j)" if "j < key_lb f xs k" for j
    using less_key_lb_iff [OF s, of j k] that hit(1) by auto
  ultimately show ?thesis
    using True by (auto simp: find_Some_iff intro!: exI [of _ "key_lb f xs k"])
qed (auto simp: find_None_iff)

lemma index_input_position:
  assumes input: "index_input kvs" and k: "k \<in> kv_key ` set kvs"
  shows "find (\<lambda>kv. k = kv_key kv) kvs = Some (kvs ! kv_lb kvs k)"
    and "unat (kv_value (kvs ! kv_lb kvs k)) = kv_lb kvs k"
    and "unat (kv_value (kvs ! kv_lb kvs k) + 1) = kv_lb kvs k + 1"
proof -
  have s: "sorted_by kv_key kvs" and n: "length kvs < 2 ^ 63"
    using input by (auto simp: index_input_def)
  have hit: "kv_lb kvs k < length kvs" using key_lb_hit_iff [OF s] k by blast
  then have v: "kv_value (kvs ! kv_lb kvs k) = word_of_nat (kv_lb kvs k)"
    using input by (simp add: index_input_def)
  have "unat (word_of_nat (kv_lb kvs k) + 1 :: u64) = unat (word_of_nat (Suc (kv_lb kvs k)) :: u64)"
    by (simp add: add.commute)
  also have "\<dots> = kv_lb kvs k + 1" using hit n by (simp del: of_nat_Suc)
  finally show "unat (kv_value (kvs ! kv_lb kvs k) + 1) = kv_lb kvs k + 1" by (simp add: v)
  show "unat (kv_value (kvs ! kv_lb kvs k)) = kv_lb kvs k" using hit n by (simp add: v)
  show "find (\<lambda>kv. k = kv_key kv) kvs = Some (kvs ! kv_lb kvs k)"
    using k by (simp add: find_key_first [OF s])
qed

text \<open>
  What \<open>hash.h\<close> relies on: as long as there are fewer than \<open>capacity\<close> keys, \<open>insert\<close> adds a new
  key and leaves the value of a key that is present, and \<open>find\<close> returns the stored value.
\<close>

locale hash_map =
  fixes ops :: "('k::linorder, 'm) hashmap_ops"
    and stored :: "'m \<Rightarrow> 'k \<rightharpoonup> u64"
    and valid :: "'m \<Rightarrow> bool"
    and capacity :: nat
  assumes reserve: "0 < n \<Longrightarrow> n \<le> 4 * capacity div 3 \<Longrightarrow>
      \<exists>m. hm_reserve ops n = Some (Inr m) \<and> valid m \<and> stored m = Map.empty"
    and insert: "valid m \<Longrightarrow> card (dom (stored m)) < capacity \<Longrightarrow>
      \<exists>m'. hm_insert ops m k v = Some (Inr m') \<and> valid m'
        \<and> stored m' = (if stored m k = None then (stored m)(k \<mapsto> v) else stored m)"
    and finds: "valid m \<Longrightarrow> hm_find ops m k = Some (Inr (stored m k))"
begin

lemma insert_all:
  assumes "valid m" and "finite (dom (stored m))" and "card (dom (stored m)) + length kvs \<le> capacity"
  shows "\<exists>m'. robin_insert_all ops kvs m = Some (Inr m') \<and> valid m'
    \<and> (\<forall>k. stored m' k = (case stored m k of Some v \<Rightarrow> Some v
        | None \<Rightarrow> map_option kv_value (find (\<lambda>kv. k = kv_key kv) kvs)))"
  using assms
proof (induction kvs arbitrary: m)
  case (Cons kv kvs)
  obtain m1 where m1: "hm_insert ops m (kv_key kv) (kv_value kv) = Some (Inr m1)" "valid m1"
    "stored m1 = (if stored m (kv_key kv) = None then (stored m)(kv_key kv \<mapsto> kv_value kv) else stored m)"
    using insert [OF Cons.prems(1), of "kv_key kv" "kv_value kv"] Cons.prems(3) by auto
  have sub: "dom (stored m1) \<subseteq> Set.insert (kv_key kv) (dom (stored m))" using m1(3) by auto
  have fin0: "finite (Set.insert (kv_key kv) (dom (stored m)))" using Cons.prems(2) by simp
  have fin: "finite (dom (stored m1))" using sub fin0 by (rule finite_subset)
  have "card (dom (stored m1)) \<le> card (Set.insert (kv_key kv) (dom (stored m)))"
    using fin0 sub by (rule card_mono)
  also have "\<dots> \<le> Suc (card (dom (stored m)))" by (rule card_insert_le_m1) simp_all
  finally have "card (dom (stored m1)) + length kvs \<le> capacity" using Cons.prems(3) by simp
  from Cons.IH [OF m1(2) fin this] obtain m' where m': "robin_insert_all ops kvs m1 = Some (Inr m')" "valid m'"
    "\<And>k. stored m' k = (case stored m1 k of Some v \<Rightarrow> Some v
        | None \<Rightarrow> map_option kv_value (find (\<lambda>kv. k = kv_key kv) kvs))" by blast
  have "stored m' k = (case stored m k of Some v \<Rightarrow> Some v
        | None \<Rightarrow> map_option kv_value (find (\<lambda>kv. k = kv_key kv) (kv # kvs)))" for k
    using m'(3) [of k] m1(3) by (auto split: option.splits)
  then show ?case using m1(1) m'(1,2) by auto
qed (simp split: option.split)

lemma robin_lookup:
  assumes input: "index_input kvs" and n: "length kvs \<le> capacity" and k: "k \<in> kv_key ` set kvs"
  shows "\<exists>m. robin_Build ops kvs = Some (Inr m) \<and> robin_EqualityLookup ops m k =
    Some (Inr \<lparr>sb_start = kv_lb kvs k, sb_stop = kv_lb kvs k + 1\<rparr>)"
proof -
  have "0 < length kvs" using k by (cases kvs) auto
  then have "0 < 4 * length kvs div 3" by linarith
  moreover have "4 * length kvs div 3 \<le> 4 * capacity div 3" using n by (intro div_le_mono) simp
  ultimately obtain m0 where m0: "hm_reserve ops (4 * length kvs div 3) = Some (Inr m0)" "valid m0"
    "stored m0 = Map.empty" using reserve by blast
  obtain m where m: "robin_insert_all ops kvs m0 = Some (Inr m)" "valid m"
    "\<And>k. stored m k = map_option kv_value (find (\<lambda>kv. k = kv_key kv) kvs)"
    using insert_all [OF m0(2), of kvs] m0(3) n by auto
  have "hm_find ops m k = Some (Inr (Some (kv_value (kvs ! kv_lb kvs k))))"
    using finds [OF m(2)] m(3) index_input_position(1) [OF input k] by simp
  then show ?thesis
    using m0(1) m(1) index_input_position(2,3) [OF input k]
    by (simp add: robin_Build_def robin_EqualityLookup_def)
qed

end

section \<open>Properties\<close>

text \<open>An ordered multimap as a sorted list, for the witnesses.\<close>

definition list_multimap :: "('k::linorder, ('k \<times> u64) list) multimap_ops" where
  "list_multimap = \<lparr>mm_bulk_load = (\<lambda>xs. xs),
     mm_lower_bound = (\<lambda>xs k. map_option snd (find (\<lambda>e. k \<le> fst e) xs)),
     mm_insert = (\<lambda>xs k v. insort_key fst (k, v) xs)\<rparr>"

lemma list_multimap_contract: "ordered_multimap list_multimap (\<lambda>xs. xs) (sorted_by fst)"
  by unfold_locales (simp_all add: list_multimap_def sorted_insort_key)

text \<open>
  ALEX on a sample of every \<open>size_scale\<close>-th entry: over every container whose
  \<open>lower_bound\<close> finds the first loaded pair that is not below the key, each lookup, past the
  end included, returns a bound of at most \<open>size_scale\<close> positions that encloses the first
  position of the whole data whose key is not below the lookup key.
\<close>
theorem alex_bound_encloses:
  fixes kvs :: "'k::linorder KeyValue list"
  assumes "ordered_multimap ops entries valid" and "index_input kvs" and "kvs \<noteq> []"
    and "0 < size_scale" and "size_scale < 2 ^ 31"
  shows "\<exists>st b. alex_Build ops size_scale kvs = Inr st
    \<and> alex_EqualityLookup ops size_scale st k = Inr b
    \<and> encloses b (kv_lb kvs k) (length kvs) \<and> sb_stop b \<le> sb_start b + size_scale"
  using ordered_multimap.alex_encloses [OF assms] .

theorem alex_bound_encloses_witness:
  "\<exists>st b. alex_Build list_multimap 2 ex_kvs = Inr st
    \<and> alex_EqualityLookup list_multimap 2 st 5 = Inr b
    \<and> encloses b (kv_lb ex_kvs 5) (length ex_kvs) \<and> sb_stop b \<le> sb_start b + 2"
  by (rule alex_bound_encloses [OF list_multimap_contract]) (simp_all add: ex_kvs_input)

text \<open>
  PGM loads all entries; over every container whose \<open>lower_bound\<close> is right each lookup
  returns a bound inside of the data that encloses the first position whose key is not
  below the lookup key.
\<close>
theorem pgm_bound_encloses:
  fixes kvs :: "'k::linorder KeyValue list"
  assumes "ordered_multimap ops entries valid" and "index_input kvs" and "kvs \<noteq> []" and "pgm_error < 2 ^ 31"
  shows "\<exists>st b. pgm_Build ops kvs = Inr st \<and> pgm_EqualityLookup ops pgm_error st k = Inr b
    \<and> encloses b (kv_lb kvs k) (length kvs)"
  using ordered_multimap.pgm_encloses [OF assms] .

theorem pgm_bound_encloses_witness:
  "\<exists>st b. pgm_Build list_multimap ex_kvs = Inr st
    \<and> pgm_EqualityLookup list_multimap 16 st 20 = Inr b
    \<and> encloses b (kv_lb ex_kvs 20) (length ex_kvs)"
  by (rule pgm_bound_encloses [OF list_multimap_contract]) (simp_all add: ex_kvs_input)

end
