(* ===== verification/ByteKeyIndexes.thy ===== *)
theory ByteKeyIndexes
  imports SampledIndexes "HOL-Library.List_Lexorder"
begin

text \<open>
  Model of the two competitors that index byte strings: \<open>src/competitors/fst_wrapper.h\<close> (the
  fast succinct trie) and \<open>src/competitors/wormhole.h\<close>. Both turn an integer key into its big
  endian bytes, so that the order of the strings is the order of the keys. The trie and the
  ordered index are submodules: records of operations, with their documented behaviour as the
  predicates \<open>fst_contract\<close> and \<open>wh_contract\<close>.
\<close>

section \<open>Keys as byte strings\<close>

text \<open>\<open>sizeof(KeyType)\<close>: 8 for \<open>uint64_t\<close>, 4 for the other key type.\<close>

definition key_length :: "'l::len itself \<Rightarrow> nat" where
  "key_length _ = (if LENGTH('l) = 64 then 8 else 4)"

text \<open>\<open>__builtin_bswap64\<close> and \<open>__builtin_bswap32\<close>: the bytes in reverse order.\<close>

definition bswap :: "nat \<Rightarrow> nat \<Rightarrow> nat" where
  "bswap w n = le_dec (rev (le_enc w n))"

text \<open>The string over the memory image of the swapped word.\<close>

definition key_bytes :: "'l::len word \<Rightarrow> u8 list" where
  "key_bytes k = (let w = key_length TYPE('l) in le_enc w (bswap w (unat k)))"

section \<open>FST\<close>

text \<open>
  \<open>ft_seek t key\<close> is \<open>moveToKeyGreaterThan(key, true)\<close>: \<open>None\<close> for an iterator that is not
  valid, else the index that its \<open>getValue()\<close> returns.
\<close>

record 't fst_ops =
  ft_build :: "u8 list list \<Rightarrow> u64 list \<Rightarrow> 't"
  ft_seek :: "'t \<Rightarrow> u8 list \<Rightarrow> u64 option"

text \<open>A valid iterator stands at the first key that is not below; nothing is said of invalid ones.\<close>

definition fst_contract :: "'t fst_ops \<Rightarrow> bool" where
  "fst_contract ops \<longleftrightarrow> (\<forall>keys values key v.
     sorted keys \<longrightarrow> distinct keys \<longrightarrow> length values = length keys \<longrightarrow> length keys < 2 ^ 63 \<longrightarrow>
     ft_seek ops (ft_build ops keys values) key = Some v \<longrightarrow>
     (\<exists>j < length keys. v = word_of_nat j \<and> key \<le> keys ! j \<and> (\<forall>i < j. keys ! i < key)))"

text \<open>\<open>max_key_\<close> and \<open>max_val_\<close> are not initialised before the first sampled entry.\<close>

record ('k, 't) FST =
  fst_trie :: 't
  fst_data_size :: u64
  fst_min_key :: 'k
  fst_max :: "('k \<times> u64) option"

fun fst_fill ::
  "nat \<Rightarrow> 'l::len word KeyValue list \<Rightarrow> u8 list list \<Rightarrow> u64 list \<Rightarrow> ('l word \<times> u64) option
   \<Rightarrow> u8 list list \<times> u64 list \<times> ('l word \<times> u64) option" where
  "fst_fill size_scale [] keys values mx = (keys, values, mx)"
| "fst_fill size_scale (kv # data) keys values mx =
     (if size_scale > 1 \<and> unat (kv_value kv) mod size_scale \<noteq> 0
      then fst_fill size_scale data keys values mx
      else fst_fill size_scale data (keys @ [key_bytes (kv_key kv)]) (values @ [kv_value kv])
             (Some (kv_key kv, kv_value kv)))"

definition fst_Build ::
  "'t fst_ops \<Rightarrow> nat \<Rightarrow> 'l::len word KeyValue list \<Rightarrow> ('l word, 't) FST res" where
  "fst_Build ops size_scale data =
     bind_res (at data 0) (\<lambda>kv0.
       let (keys, values, mx) = fst_fill size_scale data [] [] None
       in Inr \<lparr>fst_trie = ft_build ops keys values, fst_data_size = word_of_nat (length data),
            fst_min_key = kv_key kv0, fst_max = mx\<rparr>)"

text \<open>\<open>guess\<close> plus and minus \<open>size_scale\<close>, clamped to the data, in \<open>uint64_t\<close>.\<close>

definition fst_bound :: "u64 \<Rightarrow> u64 \<Rightarrow> u64 \<Rightarrow> SearchBound" where
  "fst_bound data_size error guess =
     (let start = (if guess < error then 0 else guess - error)
      in if start > data_size then \<lparr>sb_start = 0, sb_stop = unat data_size\<rparr>
         else let stop = (if guess + error \<ge> data_size then data_size else guess + error + 1)
              in \<lparr>sb_start = unat start, sb_stop = unat stop\<rparr>)"

definition fst_EqualityLookup ::
  "'t fst_ops \<Rightarrow> nat \<Rightarrow> ('l::len word, 't) FST \<Rightarrow> 'l word \<Rightarrow> SearchBound res" where
  "fst_EqualityLookup ops size_scale st lookup_key =
     (case fst_max st of
        None \<Rightarrow> Inl Undefined
      | Some (max_key, max_val) \<Rightarrow>
          if lookup_key \<ge> max_key
          then Inr \<lparr>sb_start = unat max_val, sb_stop = unat (fst_data_size st)\<rparr>
          else case ft_seek ops (fst_trie st) (key_bytes lookup_key) of
                 None \<Rightarrow> Inr \<lparr>sb_start = 0, sb_stop = unat (fst_data_size st)\<rparr>
               | Some v \<Rightarrow> Inr (fst_bound (fst_data_size st) (word_of_nat size_scale)
                                 (v * word_of_nat size_scale)))"

definition unique_applicable :: "bool \<Rightarrow> string \<Rightarrow> bool" where
  "unique_applicable unique data_filename = unique"

section \<open>Wormhole\<close>

text \<open>
  \<open>wh_set\<close> enters a key with a value; \<open>wh_seek t key\<close> are the values at the iterator that
  \<open>whunsafe_iter_seek\<close> places at the first key that is not below, and at those after it.
\<close>

record 't wh_ops =
  wh_create :: 't
  wh_set :: "'t \<Rightarrow> u8 list \<Rightarrow> u64 \<Rightarrow> 't"
  wh_seek :: "'t \<Rightarrow> u8 list \<Rightarrow> u64 list"

definition wh_contract :: "'t wh_ops \<Rightarrow> bool" where
  "wh_contract ops \<longleftrightarrow> (\<forall>kvs key. sorted (map fst kvs) \<longrightarrow> distinct (map fst kvs) \<longrightarrow>
     wh_seek ops (foldl (\<lambda>t (k, v). wh_set ops t k v) (wh_create ops) kvs) key
       = map snd (dropWhile (\<lambda>kv. fst kv < key) kvs))"

record ('k, 't) Wormhole =
  wm_index :: 't
  wm_data_size :: u64
  wm_last :: "('k \<times> u64) option"

text \<open>
  The two loops of \<open>Build\<close> count with \<open>unsigned int\<close>, which wraps around: over a vector of
  \<open>2^32\<close> elements or more they do not end, the value \<open>None\<close>.
\<close>

text \<open>\<open>keys\<close> and \<open>values\<close>: every \<open>size_scale\<close>-th entry.\<close>

partial_function (option) wm_sample ::
  "nat \<Rightarrow> 'k KeyValue list \<Rightarrow> u32 \<Rightarrow> ('k \<times> u64) list \<Rightarrow> ('k \<times> u64) list option" where
  "wm_sample size_scale data i kvs =
     (if unat i < length data
      then wm_sample size_scale data (i + 1)
             (if size_scale > 1 \<and> unat i mod size_scale \<noteq> 0 then kvs
              else kvs @ [(kv_key (data ! unat i), kv_value (data ! unat i))])
      else Some kvs)"

text \<open>The loop from \<open>i = 1\<close>: each key is stored with the value of the key before it.\<close>

partial_function (option) wm_fill ::
  "'t wh_ops \<Rightarrow> ('l::len word \<times> u64) list \<Rightarrow> u32 \<Rightarrow> 't \<Rightarrow> ('l word \<times> u64) option
   \<Rightarrow> ('t \<times> ('l word \<times> u64) option) option" where
  "wm_fill ops kvs i t mx =
     (if unat i < length kvs
      then wm_fill ops kvs (i + 1)
             (wh_set ops t (key_bytes (fst (kvs ! unat i))) (snd (kvs ! unat (i - 1))))
             (Some (kvs ! unat i))
      else Some (t, mx))"

definition wm_Build ::
  "'t wh_ops \<Rightarrow> nat \<Rightarrow> 'l::len word KeyValue list \<Rightarrow> ('l word, 't) Wormhole res option" where
  "wm_Build ops size_scale data =
     Option.bind (wm_sample size_scale data 0 []) (\<lambda>kvs.
     Option.bind (wm_fill ops kvs 1 (wh_create ops) None) (\<lambda>(t, mx).
       Some (Inr \<lparr>wm_index = t, wm_data_size = word_of_nat (length data), wm_last = mx\<rparr>)))"

text \<open>
  \<open>next\<close> past the last entry leaves the value that was read before in \<open>__out\<close>; the lookup of
  \<open>lookup_key - 1\<close> wraps for the key 0.
\<close>

definition wm_EqualityLookup ::
  "'t wh_ops \<Rightarrow> ('l::len word, 't) Wormhole \<Rightarrow> 'l word \<Rightarrow> SearchBound res" where
  "wm_EqualityLookup ops st lookup_key =
     (case wh_seek ops (wm_index st) (key_bytes (lookup_key - 1)) of
        [] \<Rightarrow> (case wm_last st of
                  None \<Rightarrow> Inl Undefined
                | Some (k, last_index) \<Rightarrow>
                    Inr \<lparr>sb_start = unat last_index, sb_stop = unat (wm_data_size st)\<rparr>)
      | start # rest \<Rightarrow>
          let stop0 = (case rest of [] \<Rightarrow> start | v # vs \<Rightarrow> v);
              stop = (if start = stop0 then wm_data_size st - 1 else stop0)
          in Inr \<lparr>sb_start = unat start, sb_stop = unat (stop + 1)\<rparr>)"

text \<open>The counting allocator.\<close>

definition kv_dup_in_count :: "int \<Rightarrow> int \<Rightarrow> int" where
  "kv_dup_in_count kv_size usage = usage + kv_size"

definition kv_free_count :: "int \<Rightarrow> int \<Rightarrow> int" where
  "kv_free_count kv_size usage = usage - kv_size"

definition wm_size :: "int \<Rightarrow> int res" where
  "wm_size usage =
     (if usage < 0 then Inl (Fail ''Wormhole memory usage was negative!'') else Inr usage)"

section \<open>The order of the byte strings\<close>

lemma le_enc_dec: "le_enc (length bs) (le_dec bs) = bs"
proof (induction bs)
  case (Cons b bs)
  have "unat b < 256" using unat_bound [of b] by simp
  with Cons show ?case by simp
qed simp

lemma le_dec_less: "le_dec bs < 256 ^ length bs"
proof (induction bs)
  case (Cons b bs)
  have "unat b < 256" using unat_bound [of b] by simp
  with Cons show ?case by simp
qed simp

lemma le_enc_bswap: "le_enc w (bswap w n) = rev (le_enc w n)"
  using le_enc_dec [of "rev (le_enc w n)"] by (simp add: bswap_def)

lemma snoc_less_iff:
  fixes x y :: "'a::linorder"
  shows "length xs = length ys \<Longrightarrow> xs @ [x] < ys @ [y] \<longleftrightarrow> xs < ys \<or> xs = ys \<and> x < y"
  by (induction xs ys rule: list_induct2) auto

lemma digits_less:
  fixes q q' r r' :: nat
  assumes "r < 256" and "r' < 256"
  shows "256 * q + r < 256 * q' + r' \<longleftrightarrow> q < q' \<or> q = q' \<and> r < r'"
proof (cases q q' rule: linorder_cases)
  case less
  then have "256 * q + 256 \<le> 256 * q'" by simp
  with less assms show ?thesis by linarith
next
  case greater
  then have "256 * q' + 256 \<le> 256 * q" by simp
  with greater assms show ?thesis by linarith
qed simp

lemma big_endian_less:
  "a < 256 ^ w \<Longrightarrow> b < 256 ^ w \<Longrightarrow> rev (le_enc w a) < rev (le_enc w b) \<longleftrightarrow> a < b"
proof (induction w arbitrary: a b)
  case (Suc w)
  have div: "a div 256 < 256 ^ w" "b div 256 < 256 ^ w"
    using Suc.prems by (simp_all add: less_mult_imp_div_less mult.commute)
  have eq: "le_enc w (a div 256) = le_enc w (b div 256) \<longleftrightarrow> a div 256 = b div 256"
    using le_dec_enc [OF div(1)] le_dec_enc [OF div(2)] by metis
  have byte: "(word_of_nat (a mod 256) :: u8) < word_of_nat (b mod 256) \<longleftrightarrow> a mod 256 < b mod 256"
    by (simp add: word_less_nat_alt)
  have "a < b \<longleftrightarrow> a div 256 < b div 256 \<or> a div 256 = b div 256 \<and> a mod 256 < b mod 256"
    using digits_less [of "a mod 256" "b mod 256" "a div 256" "b div 256"] by simp
  then show ?case
    by (simp add: snoc_less_iff Suc.IH [OF div] eq byte)
qed simp

text \<open>The key types of the benchmark have the width of their bytes.\<close>

definition byte_key :: "'l::len itself \<Rightarrow> bool" where
  "byte_key T \<longleftrightarrow> LENGTH('l) = 8 * key_length T"

lemma byte_key_types: "byte_key TYPE(32)" "byte_key TYPE(64)"
  by (simp_all add: byte_key_def key_length_def)

lemma key_bytes_less:
  fixes a b :: "'l::len word"
  assumes "byte_key TYPE('l)"
  shows "key_bytes a < key_bytes b \<longleftrightarrow> a < b"
proof -
  have "unat x < 256 ^ key_length TYPE('l)" for x :: "'l word"
  proof -
    have "(2 :: nat) ^ LENGTH('l) = 256 ^ key_length TYPE('l)"
      using assms by (simp add: byte_key_def power_mult)
    then show ?thesis using unat_bound [of x] by simp
  qed
  then show ?thesis
    by (simp add: key_bytes_def Let_def le_enc_bswap big_endian_less word_less_nat_alt)
qed

lemma key_bytes_le: "byte_key TYPE('l::len) \<Longrightarrow> key_bytes (a :: 'l word) \<le> key_bytes b \<longleftrightarrow> a \<le> b"
  using key_bytes_less [of b a] by (simp add: not_less [symmetric])

lemma sorted_key_bytes:
  assumes "byte_key TYPE('l::len)" and "sorted (ks :: 'l word list)"
  shows "sorted (map key_bytes ks)"
  using assms(2) by (auto simp: sorted_iff_nth_mono key_bytes_le [OF assms(1)])

lemma distinct_key_bytes:
  assumes "byte_key TYPE('l::len)" and "distinct (ks :: 'l word list)"
  shows "distinct (map key_bytes ks)"
proof -
  have "inj (key_bytes :: 'l word \<Rightarrow> u8 list)"
    by (rule injI) (metis assms(1) key_bytes_less less_irrefl linorder_cases)
  then show ?thesis using assms(2) by (simp add: distinct_map inj_on_def)
qed

section \<open>The sampled positions\<close>

definition samples :: "nat \<Rightarrow> nat \<Rightarrow> nat" where
  "samples s n = (n + s - 1) div s"

lemma sampled_positions:
  assumes "0 < s"
  shows "filter (\<lambda>p. s dvd p) [0..<n] = map (\<lambda>j. j * s) [0..<samples s n]"
proof (induction n)
  case 0
  then show ?case using assms by (simp add: samples_def)
next
  case (Suc n)
  show ?case
  proof (cases "s dvd n")
    case True
    then obtain q where n: "n = q * s" by (metis dvd_def mult.commute)
    have "(q * s + (s - 1)) div s = q" using assms by (intro div_nat_eqI) (simp_all add: mult.commute)
    moreover have "q * s + s - 1 = q * s + (s - 1)" using assms by simp
    ultimately have "samples s n = q" unfolding samples_def n by (simp only:)
    moreover have "samples s (Suc n) = Suc q" using assms by (simp add: samples_def n)
    ultimately show ?thesis using Suc True n by simp
  next
    case False
    obtain q r where n: "n = q * s + r" and r: "0 < r" "r < s"
      using False assms by (metis div_mult_mod_eq dvd_eq_mod_eq_0 mod_less_divisor neq0_conv)
    have "(q * s + r + s - 1) div s = Suc q" "(Suc (q * s + r) + s - 1) div s = Suc q"
      using r by (intro div_nat_eqI; simp add: mult.commute)+
    then have "samples s (Suc n) = samples s n" unfolding samples_def n by simp
    with Suc False show ?thesis by simp
  qed
qed

lemma samples_bounds:
  assumes "0 < s" and "0 < n"
  shows "0 < samples s n" "(samples s n - 1) * s < n" "n \<le> samples s n * s"
proof -
  show pos: "0 < samples s n"
    using assms by (simp add: samples_def div_greater_zero_iff)
  have "samples s n * s \<le> n + s - 1" by (simp add: samples_def)
  moreover have "(samples s n - 1) * s + s = samples s n * s"
    using pos by (cases "samples s n") simp_all
  ultimately show "(samples s n - 1) * s < n" using assms by linarith
  have "n + s - 1 < (n + s - 1) div s * s + s"
    using dividend_less_div_times [OF assms(1), of "n + s - 1"] by simp
  then show "n \<le> samples s n * s" using assms by (simp add: samples_def)
qed

lemma sampled_entries:
  assumes "index_input kvs" and "0 < s"
  shows "filter (\<lambda>kv. s \<le> 1 \<or> s dvd unat (kv_value kv)) kvs
    = map (\<lambda>j. kvs ! (j * s)) [0..<samples s (length kvs)]"
proof -
  let ?P = "\<lambda>kv. s \<le> 1 \<or> s dvd unat (kv_value kv)"
  have "filter ?P kvs = filter ?P (map (\<lambda>p. kvs ! p) [0..<length kvs])" by (simp add: map_nth)
  also have "\<dots> = map (\<lambda>p. kvs ! p) (filter (\<lambda>p. ?P (kvs ! p)) [0..<length kvs])"
    by (simp add: filter_map o_def)
  also have "filter (\<lambda>p. ?P (kvs ! p)) [0..<length kvs] = filter (\<lambda>p. s dvd p) [0..<length kvs]"
    using assms by (intro filter_cong) (auto simp: index_input_value le_Suc_eq)
  finally show ?thesis by (simp add: sampled_positions [OF assms(2)])
qed

text \<open>Order of the keys of distinct sorted entries.\<close>

lemma strict_keys:
  assumes "sorted_by kv_key kvs" and "distinct (map kv_key kvs)" and "i < j" and "j < length kvs"
  shows "kv_key (kvs ! i) < kv_key (kvs ! j)"
proof -
  have "kv_key (kvs ! i) \<le> kv_key (kvs ! j)" using assms by (intro sorted_by_nth) auto
  moreover have "kv_key (kvs ! i) \<noteq> kv_key (kvs ! j)"
    using nth_eq_iff_index_eq [OF assms(2), of i j] assms(3,4) by simp
  ultimately show ?thesis by simp
qed

lemma lb_ge_iff:
  assumes "sorted_by kv_key kvs" and "p < length kvs"
  shows "kv_lb kvs k \<le> p \<longleftrightarrow> k \<le> kv_key (kvs ! p)"
  using less_key_lb_iff [OF assms, of k] by (simp add: not_less [symmetric])

lemma sampled_index: "0 < s \<Longrightarrow> j < samples s n \<Longrightarrow> j * s < n"
proof -
  assume s: "0 < s" and j: "j < samples s n"
  then have "0 < n" by (cases n) (simp_all add: samples_def)
  moreover have "j * s \<le> (samples s n - 1) * s" using j by (intro mult_le_mono1) simp
  ultimately show "j * s < n" using samples_bounds(2) [OF s, of n] by linarith
qed

section \<open>The bound of FST\<close>

lemma fst_fill_eq:
  "fst_fill s data K V mx =
     (let F = filter (\<lambda>kv. s \<le> 1 \<or> s dvd unat (kv_value kv)) data
      in (K @ map (\<lambda>kv. key_bytes (kv_key kv)) F, V @ map kv_value F,
          if F = [] then mx else Some (kv_key (last F), kv_value (last F))))"
  by (induction data arbitrary: K V mx) (auto simp: Let_def dvd_eq_mod_eq_0)

lemma fst_bound_encloses_lb:
  assumes "g < n" and "n < 2 ^ 63" and "e < 2 ^ 31" and "g \<le> l + e" and "l \<le> g"
  shows "encloses (fst_bound (word_of_nat n) (word_of_nat e) (word_of_nat g)) l n"
proof -
  have u: "unat (word_of_nat g :: u64) = g" "unat (word_of_nat e :: u64) = e" "unat (word_of_nat n :: u64) = n"
    using assms by simp_all
  have start: "(if (word_of_nat g :: u64) < word_of_nat e then 0 else word_of_nat g - word_of_nat e)
      = (word_of_nat (g - e) :: u64)"
    using u by (auto simp: word_less_nat_alt of_nat_diff)
  have plus: "(word_of_nat g :: u64) + word_of_nat e = word_of_nat (g + e)"
    "(word_of_nat g :: u64) + word_of_nat e + 1 = word_of_nat (g + e + 1)" by simp_all
  have u2: "unat (word_of_nat (g - e) :: u64) = g - e" "unat (word_of_nat (g + e) :: u64) = g + e"
    "unat (word_of_nat (g + e + 1) :: u64) = g + e + 1"
    using assms by (auto intro!: unat_word_of_nat simp del: of_nat_Suc of_nat_add)
  show ?thesis
    unfolding fst_bound_def Let_def start plus(2) encloses_def
    unfolding plus(1)
    using assms u u2 by (auto simp: word_less_nat_alt word_le_nat_alt simp del: of_nat_add of_nat_Suc)
qed

lemma fst_lookup:
  fixes kvs :: "'l::len word KeyValue list"
  assumes ops: "fst_contract ops" and key: "byte_key TYPE('l)" and input: "index_input kvs"
    and d: "distinct (map kv_key kvs)" and ne: "kvs \<noteq> []" and s: "0 < s" "s < 2 ^ 31"
  shows "\<exists>st b. fst_Build ops s kvs = Inr st \<and> fst_EqualityLookup ops s st k = Inr b
    \<and> encloses b (kv_lb kvs k) (length kvs)"
proof -
  let ?n = "length kvs" and ?key = "\<lambda>j. kv_key (kvs ! (j * s))"
  have sorted: "sorted_by kv_key kvs" and n: "?n < 2 ^ 63" "0 < ?n"
    using input ne by (auto simp: index_input_def)
  obtain q where q: "samples s ?n = Suc q" and qn: "q * s < ?n"
    using samples_bounds [OF s(1) n(2)] by (cases "samples s ?n") simp_all
  let ?m = "Suc q"
  let ?F = "map (\<lambda>j. kvs ! (j * s)) [0..<?m]" and ?keys = "map (\<lambda>j. key_bytes (?key j)) [0..<?m]"
  have F: "filter (\<lambda>kv. s \<le> 1 \<or> s dvd unat (kv_value kv)) kvs = ?F"
    using sampled_entries [OF input s(1)] by (simp only: q)
  have last: "last ?F = kvs ! (q * s)" "?F \<noteq> []" by simp_all
  define st where "st = \<lparr>fst_trie = ft_build ops ?keys (map kv_value ?F), fst_data_size = word_of_nat ?n,
    fst_min_key = kv_key (kvs ! 0), fst_max = Some (?key q, kv_value (kvs ! (q * s)))\<rparr>"
  have build: "fst_Build ops s kvs = Inr st"
    using n(2) last unfolding fst_Build_def fst_fill_eq F Let_def st_def by (simp add: o_def)
  have val: "kv_value (kvs ! (q * s)) = word_of_nat (q * s)"
    using input qn by (simp add: index_input_def)
  have un: "unat (word_of_nat ?n :: u64) = ?n" using n(1) by simp
  have um: "unat (word_of_nat (q * s) :: u64) = q * s"
    using qn n(1) by (intro unat_word_of_nat) simp
  have strict: "?key i < ?key j" if "i < j" "j < ?m" for i j
    using strict_keys [OF sorted d, of "i * s" "j * s"] that s(1) sampled_index [OF s(1), of j ?n] q by simp
  show ?thesis
  proof (cases "?key q \<le> k")
    case True
    have "q * s \<le> kv_lb kvs k"
    proof (rule ccontr)
      assume "\<not> ?thesis"
      then have lt: "kv_lb kvs k < q * s" by simp
      with qn have "kv_lb kvs k < ?n" by simp
      then have "k \<le> kv_key (kvs ! kv_lb kvs k)" using lb_ge_iff [OF sorted] by blast
      with strict_keys [OF sorted d lt qn] True show False by simp
    qed
    moreover have "fst_EqualityLookup ops s st k = Inr \<lparr>sb_start = q * s, sb_stop = ?n\<rparr>"
      using True un um by (simp add: fst_EqualityLookup_def st_def val)
    ultimately show ?thesis using build by (auto simp: encloses_def)
  next
    case False
    show ?thesis
    proof (cases "ft_seek ops (fst_trie st) (key_bytes k)")
      case None
      then have "fst_EqualityLookup ops s st k = Inr \<lparr>sb_start = 0, sb_stop = ?n\<rparr>"
        using False un by (simp add: fst_EqualityLookup_def st_def)
      then show ?thesis using build by (auto simp: encloses_def)
    next
      case (Some v)
      have "sorted_wrt (<) (map ?key [0..<?m])" using strict by (simp add: sorted_wrt_iff_nth_less del: upt_Suc)
      then have "sorted (map ?key [0..<?m])" "distinct (map ?key [0..<?m])"
        by (simp_all add: strict_sorted_iff del: upt_Suc)
      from sorted_key_bytes [OF key this(1)] distinct_key_bytes [OF key this(2)]
      have keys: "sorted ?keys" "distinct ?keys" by (simp_all add: o_def)
      have "q \<le> q * s" using s(1) by simp
      then have "?m \<le> ?n" using qn by linarith
      then have len: "length ?keys < 2 ^ 63" using n(1) by simp
      have "\<exists>j < length ?keys. v = word_of_nat j \<and> key_bytes k \<le> ?keys ! j \<and> (\<forall>i < j. ?keys ! i < key_bytes k)"
        using ops [unfolded fst_contract_def, rule_format, OF keys _ len, of "map kv_value ?F" "key_bytes k" v] Some
        by (simp add: st_def)
      then obtain j where j: "j < ?m" "v = word_of_nat j" "k \<le> ?key j" "\<And>i. i < j \<Longrightarrow> ?key i < k"
        by (auto simp: key_bytes_le [OF key] key_bytes_less [OF key] simp del: upt_Suc)
      have jn: "j * s < ?n" using sampled_index [OF s(1), of j ?n] j(1) q by simp
      have "kv_lb kvs k \<le> j * s" using lb_ge_iff [OF sorted jn] j(3) by blast
      moreover have "j * s \<le> kv_lb kvs k + s"
      proof (cases j)
        case (Suc i)
        then have "i * s < ?n" using jn by simp
        then have "i * s < kv_lb kvs k" using less_key_lb_iff [OF sorted] j(4) Suc by blast
        then show ?thesis using Suc by simp
      qed simp
      ultimately have "encloses (fst_bound (word_of_nat ?n) (word_of_nat s) (word_of_nat (j * s))) (kv_lb kvs k) ?n"
        using fst_bound_encloses_lb [OF jn n(1) s(2)] by blast
      moreover have "fst_EqualityLookup ops s st k = Inr (fst_bound (word_of_nat ?n) (word_of_nat s) (word_of_nat (j * s)))"
        using False Some j(2) by (simp add: fst_EqualityLookup_def st_def)
      ultimately show ?thesis using build by blast
    qed
  qed
qed

section \<open>The bound of Wormhole\<close>

text \<open>Below \<open>2^32\<close> elements the counters do not wrap.\<close>

lemma unat_u32 [simp]: "n < 2 ^ 32 \<Longrightarrow> unat (word_of_nat n :: u32) = n"
  by (simp add: unat_word_of_nat)

lemma wm_sample_eq:
  assumes "length data < 2 ^ 32" and "n \<le> length data"
  shows "wm_sample s data (word_of_nat n) kvs = Some (kvs @
    map (\<lambda>i. (kv_key (data ! i), kv_value (data ! i)))
      (filter (\<lambda>i. \<not> (s > 1 \<and> i mod s \<noteq> 0)) [n..<length data]))"
  using assms(2)
proof (induction "length data - n" arbitrary: n kvs)
  case 0
  with assms show ?case by (subst wm_sample.simps) simp
next
  case (Suc d)
  then have n: "n < length data" by simp
  have "word_of_nat n + 1 = (word_of_nat (Suc n) :: u32)" by (simp add: add.commute)
  with Suc.hyps(1) [of "Suc n"] Suc.hyps(2) n assms(1) show ?case
    by (subst wm_sample.simps) (simp add: upt_conv_Cons del: of_nat_Suc)
qed

lemma wm_fill_eq:
  assumes "length kvs < 2 ^ 32" and "n < length kvs"
  shows "wm_fill ops kvs (word_of_nat (Suc n)) t mx = Some
     (foldl (\<lambda>t (k, v). wh_set ops t k v) t
        (zip (map (\<lambda>kv. key_bytes (fst kv)) (drop (Suc n) kvs)) (map snd (drop n kvs))),
      if drop (Suc n) kvs = [] then mx else Some (last kvs))"
  using assms(2)
proof (induction "length kvs - n" arbitrary: n t mx)
  case (Suc d)
  have pred: "word_of_nat (Suc n) - 1 = (word_of_nat n :: u32)" by simp
  have drop: "drop n kvs = kvs ! n # drop (Suc n) kvs" using Suc.prems by (simp add: Cons_nth_drop_Suc)
  show ?case
  proof (cases "Suc n < length kvs")
    case False
    with assms(1) Suc.prems show ?thesis by (subst wm_fill.simps) (simp del: of_nat_Suc)
  next
    case True
    have next': "word_of_nat (Suc n) + 1 = (word_of_nat (Suc (Suc n)) :: u32)" by (simp add: add.commute)
    have drop': "drop (Suc n) kvs = kvs ! Suc n # drop (Suc (Suc n)) kvs"
      using True by (simp add: Cons_nth_drop_Suc)
    have last: "drop (Suc (Suc n)) kvs = [] \<Longrightarrow> last kvs = kvs ! Suc n"
      using True by (metis drop' last_drop last_ConsL)
    have "d = length kvs - Suc n" using Suc.hyps(2) by simp
    from Suc.hyps(1) [OF this True] True assms(1) last show ?thesis
      unfolding drop drop' by (subst wm_fill.simps) (simp add: pred next' del: of_nat_Suc)
  qed
qed simp

text \<open>From \<open>2^32\<close> elements on the first loop does not end.\<close>

lemma wm_sample_ends:
  assumes "wm_sample s data i kvs = Some r"
  shows "length data < 2 ^ 32"
proof (rule wm_sample.raw_induct [OF _ assms, where P = "\<lambda>s data i kvs r. length data < 2 ^ 32"])
  fix f :: "nat \<Rightarrow> 'k KeyValue list \<Rightarrow> u32 \<Rightarrow> ('k \<times> u64) list \<Rightarrow> ('k \<times> u64) list option"
    and s data i kvs r
  assume IH: "\<And>s data i kvs r. f s data i kvs = Some r \<Longrightarrow> length data < 2 ^ 32"
    and step: "(if unat i < length data
      then f s data (i + 1) (if s > 1 \<and> unat i mod s \<noteq> 0 then kvs
             else kvs @ [(kv_key (data ! unat i), kv_value (data ! unat i))])
      else Some kvs) = Some r"
  show "length data < 2 ^ 32"
  proof (cases "unat i < length data")
    case True
    show ?thesis by (rule IH) (rule step [unfolded if_P [OF True]])
  next
    case False
    moreover have "unat i < 2 ^ 32" by (rule order.strict_trans2 [OF unsigned_less]) simp
    ultimately show ?thesis by simp
  qed
qed

lemma dropWhile_upt:
  obtains a where "a \<le> q" and "dropWhile P [0..<q] = [a..<q]" and "\<And>i. i < a \<Longrightarrow> P i"
    and "a < q \<Longrightarrow> \<not> P a"
proof
  let ?a = "length (takeWhile P [0..<q])"
  show le: "?a \<le> q" using length_takeWhile_le [of P "[0..<q]"] by simp
  show "dropWhile P [0..<q] = [?a..<q]" by (simp add: dropWhile_eq_drop)
  show "P i" if "i < ?a" for i
    using that le nth_mem [OF that] takeWhile_nth [OF that] set_takeWhileD [of _ P "[0..<q]"] by force
  show "\<not> P ?a" if "?a < q" using nth_length_takeWhile [of P "[0..<q]"] that by simp
qed

text \<open>The index that is built, and what a lookup finds in it, for \<open>q\<close> stored keys.\<close>

lemma wm_seek:
  fixes kvs :: "'l::len word KeyValue list"
  assumes ops: "wh_contract ops" and key: "byte_key TYPE('l)" and input: "index_input kvs"
    and d: "distinct (map kv_key kvs)" and s: "0 < s" and q: "samples s (length kvs) = Suc q" "0 < q"
    and n32: "length kvs < 2 ^ 32"
  obtains st where "wm_Build ops s kvs = Some (Inr st)" and "wm_data_size st = word_of_nat (length kvs)"
    and "wm_last st = Some (kv_key (kvs ! (q * s)), word_of_nat (q * s))"
    and "\<And>k. wh_seek ops (wm_index st) (key_bytes k)
      = map (\<lambda>i. word_of_nat (i * s)) (dropWhile (\<lambda>i. kv_key (kvs ! (Suc i * s)) < k) [0..<q])"
proof -
  let ?key = "\<lambda>j. kv_key (kvs ! (j * s))" and ?n = "length kvs"
  have sorted: "sorted_by kv_key kvs" using input by (simp add: index_input_def)
  have pos: "j * s < ?n" if "j < Suc q" for j using sampled_index [OF s, of j ?n] q(1) that by simp
  have "filter (\<lambda>i. \<not> (s > 1 \<and> i mod s \<noteq> 0)) [0..<?n] = filter (\<lambda>p. s dvd p) [0..<?n]"
    using s by (cases "s = 1") (auto intro!: filter_cong simp: dvd_eq_mod_eq_0)
  then have "wm_sample s kvs 0 [] = Some (map (\<lambda>j. (?key j, kv_value (kvs ! (j * s)))) [0..<Suc q])"
    using wm_sample_eq [OF n32, of 0 s "[]"] sampled_positions [OF s, of ?n] q(1) by (simp add: o_def)
  also have "map (\<lambda>j. (?key j, kv_value (kvs ! (j * s)))) [0..<Suc q]
      = map (\<lambda>j. (?key j, word_of_nat (j * s))) [0..<Suc q]"
    using input pos by (intro map_cong) (auto simp: index_input_def)
  also have "\<dots> = (?key 0, 0) # map (\<lambda>i. (?key (Suc i), word_of_nat (Suc i * s))) [0..<q]"
    by (subst upt_conv_Cons) (simp_all add: map_Suc_upt [symmetric] o_def distrib_right del: upt_Suc)
  finally have sample: "wm_sample s kvs 0 []
    = Some ((?key 0, 0) # map (\<lambda>i. (?key (Suc i), word_of_nat (Suc i * s))) [0..<q])" .
  let ?C = "map (\<lambda>i. (key_bytes (?key (Suc i)), word_of_nat (i * s) :: u64)) [0..<q]"
  let ?rest = "map (\<lambda>i. (?key (Suc i), word_of_nat (Suc i * s) :: u64)) [0..<q]"
  have zip: "zip (map (\<lambda>kv. key_bytes (fst kv)) ?rest) (0 # map snd ?rest) = ?C"
  proof (rule nth_equalityI)
    fix i assume "i < length (zip (map (\<lambda>kv. key_bytes (fst kv)) ?rest) (0 # map snd ?rest))"
    then show "zip (map (\<lambda>kv. key_bytes (fst kv)) ?rest) (0 # map snd ?rest) ! i = ?C ! i"
      by (cases i) (simp_all add: distrib_right)
  qed simp
  have last: "last ?rest = (?key q, word_of_nat (q * s))"
    using q(2) by (cases q) simp_all
  define st where "st = \<lparr>wm_index = foldl (\<lambda>t (k, v). wh_set ops t k v) (wh_create ops) ?C,
    wm_data_size = word_of_nat ?n, wm_last = Some (?key q, word_of_nat (q * s))\<rparr>"
  have "q < ?n" using pos [of q] s by (metis le_less_trans lessI less_imp_le mult.right_neutral mult_le_mono2 Suc_leI One_nat_def)
  then have "length ((?key 0, 0 :: u64) # ?rest) < 2 ^ 32" using n32 by simp
  from wm_fill_eq [OF this, of 0 ops "wh_create ops" None]
  have build: "wm_Build ops s kvs = Some (Inr st)"
    unfolding wm_Build_def sample using zip last q(2) by (simp add: st_def)
  have strict: "sorted_wrt (<) (map (\<lambda>i. ?key (Suc i)) [0..<q])"
  proof -
    have "?key (Suc i) < ?key (Suc j)" if "i < j" "j < q" for i j
      using strict_keys [OF sorted d, of "Suc i * s" "Suc j * s"] that s pos [of "Suc j"] by simp
    then show ?thesis by (simp add: sorted_wrt_iff_nth_less)
  qed
  then have "sorted (map (\<lambda>i. ?key (Suc i)) [0..<q])" "distinct (map (\<lambda>i. ?key (Suc i)) [0..<q])"
    by (simp_all add: strict_sorted_iff)
  from sorted_key_bytes [OF key this(1)] distinct_key_bytes [OF key this(2)]
  have C: "sorted (map fst ?C)" "distinct (map fst ?C)" by (simp_all add: o_def)
  have "wh_seek ops (wm_index st) (key_bytes k)
      = map (\<lambda>i. word_of_nat (i * s)) (dropWhile (\<lambda>i. ?key (Suc i) < k) [0..<q])" for k
    using ops [unfolded wh_contract_def, rule_format, OF C, of "key_bytes k"]
    by (simp add: st_def dropWhile_map o_def key_bytes_less [OF key])
  with build show thesis by (intro that [of st]) (simp_all add: st_def)
qed

lemma word_pred_less:
  fixes x k :: "'l::len word"
  assumes "k \<noteq> 0" shows "k - 1 < x \<longleftrightarrow> k \<le> x" "k - 1 < k"
proof -
  have "unat (k - 1) = unat k - 1" using assms by (simp add: unat_minus_one)
  moreover have "0 < unat k" using assms by (simp add: unat_gt_0)
  ultimately show "k - 1 < x \<longleftrightarrow> k \<le> x" "k - 1 < k" by (auto simp: word_less_nat_alt word_le_nat_alt)
qed

lemma wm_lookup:
  fixes kvs :: "'l::len word KeyValue list"
  assumes ops: "wh_contract ops" and key: "byte_key TYPE('l)" and input: "index_input kvs"
    and d: "distinct (map kv_key kvs)" and s: "0 < s" "s < length kvs" and k: "k \<noteq> 0"
    and n32: "length kvs < 2 ^ 32"
  shows "\<exists>st b. wm_Build ops s kvs = Some (Inr st) \<and> wm_EqualityLookup ops st k = Inr b
    \<and> encloses b (kv_lb kvs k) (length kvs)"
proof -
  let ?key = "\<lambda>j. kv_key (kvs ! (j * s))" and ?n = "length kvs"
  have sorted: "sorted_by kv_key kvs" and n: "?n < 2 ^ 63" "0 < ?n"
    using input s by (auto simp: index_input_def)
  obtain q where q: "samples s ?n = Suc q" "0 < q"
    using samples_bounds [OF s(1) n(2)] s(2) by (cases "samples s ?n"; cases "samples s ?n - 1") auto
  have pos: "j * s < ?n" if "j \<le> q" for j using sampled_index [OF s(1), of j ?n] q(1) that by simp
  have u: "unat (word_of_nat (j * s) :: u64) = j * s" if "j \<le> q" for j
    using pos [OF that] n(1) by (intro unat_word_of_nat) simp
  obtain st where st: "wm_Build ops s kvs = Some (Inr st)" "wm_data_size st = word_of_nat ?n"
    "wm_last st = Some (?key q, word_of_nat (q * s))"
    "\<And>k. wh_seek ops (wm_index st) (key_bytes k)
      = map (\<lambda>i. word_of_nat (i * s)) (dropWhile (\<lambda>i. ?key (Suc i) < k) [0..<q])"
    by (rule wm_seek [OF ops key input d s(1) q n32]) blast
  obtain a where a: "a \<le> q" "dropWhile (\<lambda>i. ?key (Suc i) < k - 1) [0..<q] = [a..<q]"
    "\<And>i. i < a \<Longrightarrow> ?key (Suc i) < k - 1" "a < q \<Longrightarrow> \<not> ?key (Suc a) < k - 1"
    using dropWhile_upt [of q "\<lambda>i. ?key (Suc i) < k - 1"] by blast
  have before: "a * s \<le> kv_lb kvs k"
  proof (cases a)
    case (Suc i)
    then have "?key a < k" using a(3) [of i] word_pred_less(2) [OF k] by simp
    with less_key_lb_iff [OF sorted pos [OF a(1)], of k] show ?thesis by simp
  qed simp
  show ?thesis
  proof (cases "a < q")
    case False
    then have "a = q" using a(1) by simp
    then have "wm_EqualityLookup ops st k = Inr \<lparr>sb_start = q * s, sb_stop = ?n\<rparr>"
      using u [of q] n(1) unfolding wm_EqualityLookup_def st(2,3,4) a(2) by simp
    with before \<open>a = q\<close> st(1) show ?thesis by (auto simp: encloses_def)
  next
    case True
    let ?p = "Suc a * s"
    have p: "?p < ?n" using pos [of "Suc a"] True by simp
    have after: "kv_lb kvs k \<le> ?p + 1"
    proof (cases "?p + 1 < ?n")
      case True
      have "kv_key (kvs ! ?p) < kv_key (kvs ! (?p + 1))" by (rule strict_keys [OF sorted d _ True]) simp
      with a(4) \<open>a < q\<close> have "k - 1 < kv_key (kvs ! (?p + 1))" by simp
      then have "k \<le> kv_key (kvs ! (?p + 1))" using word_pred_less(1) [OF k] by blast
      then show ?thesis using lb_ge_iff [OF sorted True] by blast
    next
      case False
      then show ?thesis using p key_lb_le [of kv_key kvs k] by linarith
    qed
    have upt: "[a..<q] = a # [Suc a..<q]" using True by (rule upt_conv_Cons)
    show ?thesis
    proof (cases "Suc a < q")
      case True
      have upt2: "[Suc a..<q] = Suc a # [Suc (Suc a)..<q]" using True by (rule upt_conv_Cons)
      have "(word_of_nat (a * s) :: u64) \<noteq> word_of_nat ?p"
        using u [of a] u [of "Suc a"] True s(1) by (metis Suc_leD less_imp_le_nat less_not_refl mult_less_mono1 lessI)
      moreover have "unat (word_of_nat ?p + 1 :: u64) = ?p + 1"
      proof -
        have "unat (word_of_nat ?p + 1 :: u64) = unat (word_of_nat (Suc ?p) :: u64)" by (simp add: add.commute)
        also have "\<dots> = ?p + 1" using p n(1) by (simp del: of_nat_Suc)
        finally show ?thesis .
      qed
      ultimately have "wm_EqualityLookup ops st k = Inr \<lparr>sb_start = a * s, sb_stop = ?p + 1\<rparr>"
        using u [OF a(1)] unfolding wm_EqualityLookup_def st(4) a(2) upt upt2 by (simp add: Let_def distrib_right)
      with before after p st(1) show ?thesis by (auto simp: encloses_def)
    next
      case False
      then have none: "[Suc a..<q] = []" by simp
      have "unat (word_of_nat ?n - 1 + 1 :: u64) = ?n" using n(1) by simp
      then have "wm_EqualityLookup ops st k = Inr \<lparr>sb_start = a * s, sb_stop = ?n\<rparr>"
        using u [OF a(1)] unfolding wm_EqualityLookup_def st(2,4) a(2) upt none by (simp add: Let_def)
      with before st(1) show ?thesis by (auto simp: encloses_def)
    qed
  qed
qed

lemma wm_lookup_zero:
  fixes kvs :: "'l::len word KeyValue list"
  assumes ops: "wh_contract ops" and key: "byte_key TYPE('l)" and input: "index_input kvs"
    and d: "distinct (map kv_key kvs)" and s: "0 < s" "s < length kvs"
    and mx: "kv_key (last kvs) \<noteq> - 1" and n32: "length kvs < 2 ^ 32"
  shows "\<exists>st b. wm_Build ops s kvs = Some (Inr st) \<and> wm_EqualityLookup ops st 0 = Inr b
    \<and> kv_lb kvs 0 = 0 \<and> 0 < sb_start b"
proof -
  let ?key = "\<lambda>j. kv_key (kvs ! (j * s))" and ?n = "length kvs"
  have sorted: "sorted_by kv_key kvs" and n: "?n < 2 ^ 63" "0 < ?n"
    using input s by (auto simp: index_input_def)
  obtain q where q: "samples s ?n = Suc q" "0 < q"
    using samples_bounds [OF s(1) n(2)] s(2) by (cases "samples s ?n"; cases "samples s ?n - 1") auto
  have pos: "j * s < ?n" if "j \<le> q" for j using sampled_index [OF s(1), of j ?n] q(1) that by simp
  obtain st where st: "wm_Build ops s kvs = Some (Inr st)"
    "wm_last st = Some (?key q, word_of_nat (q * s))"
    "\<And>k. wh_seek ops (wm_index st) (key_bytes k)
      = map (\<lambda>i. word_of_nat (i * s)) (dropWhile (\<lambda>i. ?key (Suc i) < k) [0..<q])"
    by (rule wm_seek [OF ops key input d s(1) q n32]) blast
  have below: "?key j < - 1" if "j \<le> q" for j
  proof -
    have "?key j \<le> kv_key (last kvs)"
      using sorted_by_nth [OF sorted, of "j * s" "?n - 1"] pos [OF that] n(2)
      by (auto simp: last_conv_nth)
    moreover have "kv_key (last kvs) < - 1" using mx by (simp add: word_order.not_eq_extremum)
    ultimately show ?thesis by simp
  qed
  then have "dropWhile (\<lambda>i. ?key (Suc i) < - 1) [0..<q] = []"
    unfolding dropWhile_eq_Nil_conv by (metis Suc_leI atLeastLessThan_iff set_upt)
  with st(3) [of "- 1"] have "wh_seek ops (wm_index st) (key_bytes (- 1 :: 'l word)) = []"
    by (simp only: list.map)
  then have "wm_EqualityLookup ops st 0
      = Inr \<lparr>sb_start = unat (word_of_nat (q * s) :: u64), sb_stop = unat (wm_data_size st)\<rparr>"
    by (simp add: wm_EqualityLookup_def st(2))
  moreover have "unat (word_of_nat (q * s) :: u64) = q * s"
    using pos [of q] n(1) by (intro unat_word_of_nat) simp
  moreover have "kv_lb kvs 0 = 0" using lb_ge_iff [OF sorted n(2), of 0] by simp
  ultimately show ?thesis using st(1) q(2) s(1) by simp
qed

section \<open>Properties\<close>

text \<open>A trie as the list of its keys and an ordered index as a sorted list, for the witnesses.\<close>

fun first_from :: "u8 list list \<Rightarrow> u8 list \<Rightarrow> nat option" where
  "first_from [] key = None"
| "first_from (x # xs) key = (if key \<le> x then Some 0 else map_option Suc (first_from xs key))"

definition list_fst :: "u8 list list fst_ops" where
  "list_fst = \<lparr>ft_build = (\<lambda>keys values. keys), ft_seek = (\<lambda>t key. map_option word_of_nat (first_from t key))\<rparr>"

lemma first_from_SomeD:
  "first_from keys key = Some j \<Longrightarrow> j < length keys \<and> key \<le> keys ! j \<and> (\<forall>i < j. keys ! i < key)"
proof (induction keys arbitrary: j)
  case (Cons x xs)
  show ?case
  proof (cases "key \<le> x")
    case False
    with Cons.prems obtain i where i: "first_from xs key = Some i" "j = Suc i" by auto
    then show ?thesis using Cons.IH [OF i(1)] False by (auto simp: nth_Cons not_le split: nat.split)
  qed (use Cons.prems in simp)
qed simp

lemma list_fst_contract: "fst_contract list_fst"
  unfolding fst_contract_def list_fst_def using first_from_SomeD by fastforce

definition list_wh :: "(u8 list \<times> u64) list wh_ops" where
  "list_wh = \<lparr>wh_create = [], wh_set = (\<lambda>t k v. t @ [(k, v)]),
     wh_seek = (\<lambda>t key. map snd (dropWhile (\<lambda>kv. fst kv < key) t))\<rparr>"

lemma list_wh_contract: "wh_contract list_wh"
proof -
  have "foldl (\<lambda>t (k, v). t @ [(k, v)]) acc kvs = acc @ kvs" for acc and kvs :: "(u8 list \<times> u64) list"
    by (induction kvs arbitrary: acc) auto
  then show ?thesis by (simp add: wh_contract_def list_wh_def)
qed

definition byte_kvs :: "u32 KeyValue list" where
  "byte_kvs = [\<lparr>kv_key = 3, kv_value = 0\<rparr>, \<lparr>kv_key = 260, kv_value = 1\<rparr>, \<lparr>kv_key = 600, kv_value = 2\<rparr>,
     \<lparr>kv_key = 66000, kv_value = 3\<rparr>, \<lparr>kv_key = 70000, kv_value = 4\<rparr>]"

lemma byte_kvs_input:
  "index_input byte_kvs" "distinct (map kv_key byte_kvs)" "length byte_kvs = 5" "kv_key (last byte_kvs) = 70000"
  by (simp_all add: index_input_iff byte_kvs_def upt_rec)

text \<open>
  C37. FST over distinct keys: with every correct trie, \<open>Build\<close> succeeds and each lookup returns
  a bound inside the data that encloses the first position whose key is not below the lookup
  key. Keys past the last sampled one, iterators that are not valid and guesses next to both
  ends of the data are covered, and so is the translation of keys into byte strings, whose
  lexicographic order has to be the order of the integers.
\<close>
theorem fst_bound_encloses:
  fixes kvs :: "'l::len word KeyValue list"
  assumes "fst_contract ops" and "byte_key TYPE('l)" and "index_input kvs"
    and "distinct (map kv_key kvs)" and "kvs \<noteq> []" and "0 < size_scale" and "size_scale < 2 ^ 31"
  shows "\<exists>st b. fst_Build ops size_scale kvs = Inr st \<and> fst_EqualityLookup ops size_scale st k = Inr b
    \<and> encloses b (kv_lb kvs k) (length kvs)"
  using fst_lookup [OF assms] .

theorem fst_bound_encloses_witness:
  "\<exists>st b. fst_Build list_fst 2 byte_kvs = Inr st \<and> fst_EqualityLookup list_fst 2 st 601 = Inr b
    \<and> encloses b (kv_lb byte_kvs 601) (length byte_kvs)"
  by (rule fst_bound_encloses [OF list_fst_contract byte_key_types(1) byte_kvs_input(1,2)])
    (simp_all add: byte_kvs_def)

text \<open>
  C38. Wormhole over fewer than \<open>2^32\<close> rows with distinct keys, sampled so that at least two keys
  are left: with every correct ordered index \<open>Build\<close> ends, and a lookup of a key other than 0 returns a bound inside the data that
  encloses the first position whose key is not below the lookup key. Each stored key carries
  the position of the key before it, and the lookup seeks \<open>lookup_key - 1\<close>.
\<close>
theorem wormhole_bound_encloses:
  fixes kvs :: "'l::len word KeyValue list"
  assumes "wh_contract ops" and "byte_key TYPE('l)" and "index_input kvs"
    and "distinct (map kv_key kvs)" and "0 < size_scale" and "size_scale < length kvs" and "k \<noteq> 0"
    and "length kvs < 2 ^ 32"
  shows "\<exists>st b. wm_Build ops size_scale kvs = Some (Inr st) \<and> wm_EqualityLookup ops st k = Inr b
    \<and> encloses b (kv_lb kvs k) (length kvs)"
  using wm_lookup [OF assms] .

theorem wormhole_bound_encloses_witness:
  "\<exists>st b. wm_Build list_wh 2 byte_kvs = Some (Inr st) \<and> wm_EqualityLookup list_wh st 601 = Inr b
    \<and> encloses b (kv_lb byte_kvs 601) (length byte_kvs)"
  by (rule wormhole_bound_encloses [OF list_wh_contract byte_key_types(1) byte_kvs_input(1,2)])
    (simp_all add: byte_kvs_input)

text \<open>
  The lookup of key 0 in Wormhole wraps around to the largest key: unless that key is
  present, the bound starts behind the first position, which is where key 0 belongs.
\<close>
theorem wormhole_key_zero_missed:
  fixes kvs :: "'l::len word KeyValue list"
  assumes "wh_contract ops" and "byte_key TYPE('l)" and "index_input kvs"
    and "distinct (map kv_key kvs)" and "0 < size_scale" and "size_scale < length kvs"
    and "kv_key (last kvs) \<noteq> - 1" and "length kvs < 2 ^ 32"
  shows "\<exists>st b. wm_Build ops size_scale kvs = Some (Inr st) \<and> wm_EqualityLookup ops st 0 = Inr b
    \<and> kv_lb kvs 0 = 0 \<and> 0 < sb_start b"
  using wm_lookup_zero [OF assms] .

theorem wormhole_key_zero_missed_witness:
  "\<exists>st b. wm_Build list_wh 2 byte_kvs = Some (Inr st) \<and> wm_EqualityLookup list_wh st 0 = Inr b
    \<and> kv_lb byte_kvs 0 = 0 \<and> 0 < sb_start b"
  by (rule wormhole_key_zero_missed [OF list_wh_contract byte_key_types(1) byte_kvs_input(1,2)])
    (simp_all add: byte_kvs_input)

text \<open>
  From \<open>2^32\<close> rows on \<open>Build\<close> of Wormhole does not end: the counter of its first loop is an
  \<open>unsigned int\<close> that never reaches the size of the data.
\<close>
theorem wormhole_build_hangs:
  assumes "2 ^ 32 \<le> length data"
  shows "wm_Build ops size_scale data = None"
  using wm_sample_ends [of size_scale data 0 "[]"] assms
  by (cases "wm_sample size_scale data 0 []") (fastforce simp: wm_Build_def)+

end
