(* ===== verification/CuckooHash.thy ===== *)
theory CuckooHash
  imports Competitor
begin

text \<open>
  Model of \<open>src/competitors/stanford_hash.h\<close>: the bucketed cuckoo hash map of 32-bit keys and
  its competitor. The vector instructions compare a key with the eight keys of a bucket at once;
  the mask they leave has four bits per key. The random generator is a function that gives the
  drawn numbers, with a counter as its state.
\<close>

section \<open>Hashing\<close>

definition INVALID_KEY :: u32 where
  "INVALID_KEY = 0xffffffff"

definition BUCKET_SIZE :: nat where
  "BUCKET_SIZE = 8"

text \<open>The finalisation of Murmur3.\<close>

definition hash32 :: "u32 \<Rightarrow> u32" where
  "hash32 value0 =
     (let value1 = value0 XOR drop_bit 16 value0;
          value2 = value1 * 0x85ebca6b;
          value3 = value2 XOR drop_bit 13 value2;
          value4 = value3 * 0xc2b2ae35
      in value4 XOR drop_bit 16 value4)"

text \<open>The product is formed in 64 bits; the upper half is below \<open>n\<close>.\<close>

definition alt_mod :: "u32 \<Rightarrow> u32 \<Rightarrow> u32" where
  "alt_mod x n = ucast (drop_bit 32 ((ucast x :: u64) * (ucast n :: u64)))"

section \<open>The table\<close>

text \<open>The values are not initialised with the table.\<close>

record Bucket =
  bk_keys :: "u32 list"
  bk_values :: "u32 option list"

record CuckooHashMap =
  cm_buckets :: "Bucket list"
  cm_num_buckets :: u32
  cm_size :: u32
  cm_draws :: nat

definition cuckoo_new :: "u32 \<Rightarrow> CuckooHashMap" where
  "cuckoo_new capacity =
     (let num_buckets = (capacity + word_of_nat BUCKET_SIZE - 1) div word_of_nat BUCKET_SIZE
      in \<lparr>cm_buckets = replicate (unat num_buckets)
            \<lparr>bk_keys = replicate BUCKET_SIZE INVALID_KEY, bk_values = replicate BUCKET_SIZE None\<rparr>,
          cm_num_buckets = num_buckets, cm_size = 0, cm_draws = 0\<rparr>)"

text \<open>\<open>_mm256_movemask_epi8(_mm256_cmpeq_epi32(\<dots>))\<close>: four bits for every key.\<close>

definition cmpeq_mask :: "u32 \<Rightarrow> u32 list \<Rightarrow> u32" where
  "cmpeq_mask key keys = horner_sum of_bool 2 (concat (map (\<lambda>k. replicate 4 (k = key)) keys))"

definition bucket_index :: "u32 \<Rightarrow> u32 list \<Rightarrow> nat option" where
  "bucket_index key keys =
     (let mask = cmpeq_mask key keys
      in if mask \<noteq> 0 then Some (builtin_ctz mask div 4) else None)"

definition bucket1 :: "u32 \<Rightarrow> u32 \<Rightarrow> u32" where
  "bucket1 num_buckets key = alt_mod (hash32 key) num_buckets"

definition bucket2 :: "u32 \<Rightarrow> u32 \<Rightarrow> u32" where
  "bucket2 num_buckets key =
     (let hash = hash32 key;
          i1 = alt_mod hash num_buckets;
          i2 = alt_mod (hash32 (key XOR hash)) num_buckets
      in if i2 = i1 then (if i1 = num_buckets - 1 then 0 else i1 + 1) else i2)"

text \<open>The result: \<open>None\<close> for a key that is not found, else the value, which may be uninitialised.\<close>

definition cuckoo_get :: "CuckooHashMap \<Rightarrow> u32 \<Rightarrow> u32 option option res" where
  "cuckoo_get t key =
     bind_res (at (cm_buckets t) (unat (bucket1 (cm_num_buckets t) key))) (\<lambda>b1.
       case bucket_index key (bk_keys b1) of
         Some index \<Rightarrow> Inr (Some (bk_values b1 ! index))
       | None \<Rightarrow>
           bind_res (at (cm_buckets t) (unat (bucket2 (cm_num_buckets t) key))) (\<lambda>b2.
             case bucket_index key (bk_keys b2) of
               Some index \<Rightarrow> Inr (Some (bk_values b2 ! index))
             | None \<Rightarrow> Inr None))"

section \<open>Insertion\<close>

definition bucket_count :: "Bucket \<Rightarrow> nat" where
  "bucket_count b = length (filter (\<lambda>i. bk_keys b ! i \<noteq> INVALID_KEY) [0..<BUCKET_SIZE])"

definition set_value :: "CuckooHashMap \<Rightarrow> nat \<Rightarrow> nat \<Rightarrow> u32 option \<Rightarrow> CuckooHashMap" where
  "set_value t i index v =
     t\<lparr>cm_buckets := (cm_buckets t)[i := (cm_buckets t ! i)\<lparr>bk_values := (bk_values (cm_buckets t ! i))[index := v]\<rparr>]\<rparr>"

definition set_slot :: "CuckooHashMap \<Rightarrow> nat \<Rightarrow> nat \<Rightarrow> u32 \<Rightarrow> u32 option \<Rightarrow> CuckooHashMap" where
  "set_slot t i index key v =
     t\<lparr>cm_buckets := (cm_buckets t)[i :=
        \<lparr>bk_keys = (bk_keys (cm_buckets t ! i))[index := key],
         bk_values = (bk_values (cm_buckets t ! i))[index := v]\<rparr>]\<rparr>"

text \<open>
  \<open>rand n\<close> is the number that the \<open>n\<close>-th call of \<open>rand_()\<close> returns. An insertion that keeps
  evicting does not return.
\<close>

partial_function (option) cuckoo_insert ::
  "(nat \<Rightarrow> u32) \<Rightarrow> CuckooHashMap \<Rightarrow> u32 \<Rightarrow> u32 option \<Rightarrow> bool \<Rightarrow> CuckooHashMap res option" where
  "cuckoo_insert rand t key v is_reinsert =
     (let i1 = unat (bucket1 (cm_num_buckets t) key);
          i2 = unat (bucket2 (cm_num_buckets t) key)
      in if length (cm_buckets t) \<le> i1 \<or> length (cm_buckets t) \<le> i2 then Some (Inl Undefined)
      else let b1 = cm_buckets t ! i1; b2 = cm_buckets t ! i2
      in case bucket_index key (bk_keys b1) of
        Some index \<Rightarrow> Some (Inr (set_value t i1 index v))
      | None \<Rightarrow> (case bucket_index key (bk_keys b2) of
        Some index \<Rightarrow> Some (Inr (set_value t i2 index v))
      | None \<Rightarrow>
          let t = (if is_reinsert then t else t\<lparr>cm_size := cm_size t + 1\<rparr>);
              count1 = bucket_count b1; count2 = bucket_count b2
          in if count1 \<le> count2 \<and> count1 < BUCKET_SIZE then Some (Inr (set_slot t i1 count1 key v))
             else if count2 < BUCKET_SIZE then Some (Inr (set_slot t i2 count2 key v))
             else let victim = (if rand (cm_draws t) mod 2 = 0 then i2 else i1);
                      victim_index = unat (rand (cm_draws t + 1) mod word_of_nat BUCKET_SIZE);
                      old_key = bk_keys (cm_buckets t ! victim) ! victim_index;
                      old_value = bk_values (cm_buckets t ! victim) ! victim_index
                  in cuckoo_insert rand
                       ((set_slot t victim victim_index key v)\<lparr>cm_draws := cm_draws t + 2\<rparr>)
                       old_key old_value True))"

section \<open>The competitor\<close>

definition cuckoo_capacity :: u32 where
  "cuckoo_capacity = 202000000"

fun cuckoo_insert_all :: "(nat \<Rightarrow> u32) \<Rightarrow> CuckooHashMap \<Rightarrow> u32 KeyValue list \<Rightarrow> CuckooHashMap res option" where
  "cuckoo_insert_all rand t [] = Some (Inr t)"
| "cuckoo_insert_all rand t (itm # data) =
     (case cuckoo_insert rand t (kv_key itm) (Some (ucast (kv_value itm))) False of
        None \<Rightarrow> None
      | Some (Inl e) \<Rightarrow> Some (Inl e)
      | Some (Inr t') \<Rightarrow> cuckoo_insert_all rand t' data)"

definition cuckoo_Build :: "(nat \<Rightarrow> u32) \<Rightarrow> u32 KeyValue list \<Rightarrow> CuckooHashMap res option" where
  "cuckoo_Build rand data = cuckoo_insert_all rand (cuckoo_new cuckoo_capacity) data"

definition cuckoo_EqualityLookup :: "CuckooHashMap \<Rightarrow> u32 \<Rightarrow> SearchBound res" where
  "cuckoo_EqualityLookup t lookup_key =
     bind_res (cuckoo_get t lookup_key) (\<lambda>result.
       case result of
         None \<Rightarrow> Inl (Fail ''Could not find key in hashmap'')
       | Some None \<Rightarrow> Inl Undefined
       | Some (Some value) \<Rightarrow> Inr \<lparr>sb_start = unat value, sb_stop = unat (value + 1)\<rparr>)"

text \<open>A bucket has eight keys of four bytes and eight values of four bytes.\<close>

definition cuckoo_size :: "CuckooHashMap \<Rightarrow> u64" where
  "cuckoo_size t = ucast (cm_num_buckets t) * 64"

section \<open>The vector comparison\<close>

lemma lanes_length: "length (concat (map (\<lambda>k. replicate 4 (P k)) ks)) = 4 * length ks"
  by (induction ks) simp_all

lemma lanes_nth:
  "n < 4 * length ks \<Longrightarrow> concat (map (\<lambda>k. replicate 4 (P k)) ks) ! n = P (ks ! (n div 4))"
proof (induction ks arbitrary: n)
  case (Cons k ks)
  show ?case
  proof (cases "n < 4")
    case False
    then have "n - 4 < 4 * length ks" and "n div 4 = Suc ((n - 4) div 4)"
      using Cons.prems by (simp_all add: le_div_geq)
    with False Cons.IH [of "n - 4"] show ?thesis by (simp add: nth_append)
  qed (simp add: nth_append)
qed simp

lemma bit_cmpeq_mask:
  assumes "length keys = 8"
  shows "bit (cmpeq_mask key keys) n \<longleftrightarrow> n < 32 \<and> keys ! (n div 4) = key"
  using assms lanes_nth [of n keys "\<lambda>k. k = key"]
  by (auto simp: cmpeq_mask_def bit_horner_sum_bit_word_iff lanes_length)

lemma bucket_index_None:
  assumes "length keys = 8"
  shows "bucket_index key keys = None \<longleftrightarrow> key \<notin> set keys"
proof -
  have "cmpeq_mask key keys = 0 \<longleftrightarrow> (\<forall>n < 32. keys ! (n div 4) \<noteq> key)"
    using bit_cmpeq_mask [OF assms] by (auto simp: bit_eq_iff)
  also have "\<dots> \<longleftrightarrow> (\<forall>i < 8. keys ! i \<noteq> key)"
  proof safe
    fix i assume "\<forall>n < 32. keys ! (n div 4) \<noteq> keys ! i" and "i < 8"
    then show False by (auto dest!: spec [of _ "4 * i"])
  qed (use less_mult_imp_div_less [of _ 8 4] in auto)
  finally show ?thesis using assms by (auto simp: bucket_index_def Let_def in_set_conv_nth)
qed

text \<open>The index is that of the first equal key.\<close>

lemma bucket_index_Some:
  assumes len: "length keys = 8" and "bucket_index key keys = Some i"
  shows "i < 8 \<and> keys ! i = key \<and> (\<forall>j < i. keys ! j \<noteq> key)"
proof -
  have "key \<in> set keys" using assms bucket_index_None [OF len, of key] by simp
  then have "\<exists>i. i < 8 \<and> keys ! i = key" using len by (auto simp: in_set_conv_nth)
  then obtain m where m: "m < 8" "keys ! m = key" and "\<And>j. j < m \<Longrightarrow> \<not> (j < 8 \<and> keys ! j = key)"
    using exists_least_iff [of "\<lambda>i. i < 8 \<and> keys ! i = key"] by blast
  then have before: "keys ! j \<noteq> key" if "j < m" for j using that by (meson less_trans)
  have "builtin_ctz (cmpeq_mask key keys) = 4 * m"
  proof (rule builtin_ctz_eq)
    show "bit (cmpeq_mask key keys) (4 * m)" using m by (simp add: bit_cmpeq_mask [OF len])
    show "\<not> bit (cmpeq_mask key keys) j" if "j < 4 * m" for j
      using before [of "j div 4"] that by (simp add: bit_cmpeq_mask [OF len] less_mult_imp_div_less mult.commute)
  qed (use m in simp)
  then have "i = m" using assms(2) by (auto simp: bucket_index_def Let_def split: if_splits)
  with m before show ?thesis by simp
qed

section \<open>The buckets of a key\<close>

lemma alt_mod_less:
  assumes "0 < n" shows "alt_mod x n < n"
proof -
  have lt: "unat x * unat n < 2 ^ 32 * unat n"
    using assms unat_bound [of x] by (intro mult_strict_right_mono) (simp_all add: word_less_nat_alt)
  have "2 ^ 32 * unat n \<le> 2 ^ 32 * 2 ^ 32"
    using unat_bound [of n] by (intro mult_le_mono2) simp
  from less_le_trans [OF lt this] have "unat x * unat n < 2 ^ 64" by simp
  moreover have "unat (ucast y :: u64) = unat y" for y :: u32
    using unat_bound [of y] by (simp add: unsigned_ucast_eq take_bit_nat_eq_self)
  ultimately have "unat ((ucast x :: u64) * ucast n) = unat x * unat n"
    by (simp add: unat_mult_lem [THEN iffD1])
  with lt have "unat ((ucast x :: u64) * ucast n) div 2 ^ 32 < unat n"
    by (simp add: less_mult_imp_div_less mult.commute)
  moreover from this have "unat ((ucast x :: u64) * ucast n) div 2 ^ 32 < 2 ^ 32"
    using unat_bound [of n] by simp
  moreover have "unat (alt_mod x n) = take_bit 32 (unat ((ucast x :: u64) * ucast n) div 2 ^ 32)"
    unfolding alt_mod_def unsigned_ucast_eq unat_drop_bit_eq by (simp add: drop_bit_eq_div)
  ultimately show ?thesis by (simp add: word_less_nat_alt take_bit_nat_eq_self)
qed

lemma bucket_less:
  assumes "0 < n" shows "bucket1 n key < n" "bucket2 n key < n"
proof -
  show "bucket1 n key < n" unfolding bucket1_def by (rule alt_mod_less [OF assms])
  have "i + 1 < n" if "i < n" "i \<noteq> n - 1" for i :: u32
  proof -
    have "i + 1 \<le> n" using that(1) by (rule inc_le)
    moreover have "i + 1 \<noteq> n" using that(2) by auto
    ultimately show ?thesis by simp
  qed
  with alt_mod_less [OF assms] assms show "bucket2 n key < n" by (simp add: bucket2_def Let_def)
qed

definition homes :: "CuckooHashMap \<Rightarrow> u32 \<Rightarrow> nat set" where
  "homes t key = {unat (bucket1 (cm_num_buckets t) key), unat (bucket2 (cm_num_buckets t) key)}"

section \<open>The invariant of the table\<close>

abbreviation key_at :: "CuckooHashMap \<Rightarrow> nat \<Rightarrow> nat \<Rightarrow> u32" where
  "key_at t b i \<equiv> bk_keys (cm_buckets t ! b) ! i"

abbreviation val_at :: "CuckooHashMap \<Rightarrow> nat \<Rightarrow> nat \<Rightarrow> u32 option" where
  "val_at t b i \<equiv> bk_values (cm_buckets t ! b) ! i"

definition slot :: "CuckooHashMap \<Rightarrow> nat \<Rightarrow> nat \<Rightarrow> bool" where
  "slot t b i \<longleftrightarrow> b < length (cm_buckets t) \<and> i < 8"

text \<open>
  Eight keys and values in every bucket, the used slots in front of the free ones; a used slot
  lies in one of the two buckets of its key and has a value, and no key is stored twice.
\<close>

definition cuckoo_wf :: "CuckooHashMap \<Rightarrow> bool" where
  "cuckoo_wf t \<longleftrightarrow> length (cm_buckets t) = unat (cm_num_buckets t) \<and> 0 < cm_num_buckets t
     \<and> (\<forall>b < length (cm_buckets t). length (bk_keys (cm_buckets t ! b)) = 8 \<and> length (bk_values (cm_buckets t ! b)) = 8)
     \<and> (\<forall>b i j. slot t b i \<longrightarrow> j < i \<longrightarrow> key_at t b i \<noteq> INVALID_KEY \<longrightarrow> key_at t b j \<noteq> INVALID_KEY)
     \<and> (\<forall>b i. slot t b i \<longrightarrow> (val_at t b i = None \<longleftrightarrow> key_at t b i = INVALID_KEY))
     \<and> (\<forall>b i. slot t b i \<longrightarrow> key_at t b i \<noteq> INVALID_KEY \<longrightarrow> b \<in> homes t (key_at t b i))
     \<and> (\<forall>b i b' i'. slot t b i \<longrightarrow> slot t b' i' \<longrightarrow> key_at t b i = key_at t b' i' \<longrightarrow>
          key_at t b i \<noteq> INVALID_KEY \<longrightarrow> b = b' \<and> i = i')"

lemma cuckoo_wfD:
  assumes "cuckoo_wf t"
  shows "length (cm_buckets t) = unat (cm_num_buckets t)" "0 < cm_num_buckets t"
    and "b < length (cm_buckets t) \<Longrightarrow> length (bk_keys (cm_buckets t ! b)) = 8"
    and "b < length (cm_buckets t) \<Longrightarrow> length (bk_values (cm_buckets t ! b)) = 8"
    and "slot t b i \<Longrightarrow> j < i \<Longrightarrow> key_at t b i \<noteq> INVALID_KEY \<Longrightarrow> key_at t b j \<noteq> INVALID_KEY"
    and "slot t b i \<Longrightarrow> val_at t b i = None \<longleftrightarrow> key_at t b i = INVALID_KEY"
    and "slot t b i \<Longrightarrow> key_at t b i \<noteq> INVALID_KEY \<Longrightarrow> b \<in> homes t (key_at t b i)"
    and "slot t b i \<Longrightarrow> slot t b' i' \<Longrightarrow> key_at t b i = key_at t b' i' \<Longrightarrow> key_at t b i \<noteq> INVALID_KEY \<Longrightarrow>
      b = b' \<and> i = i'"
  using assms unfolding cuckoo_wf_def by blast+

lemma homes_less: "cuckoo_wf t \<Longrightarrow> b \<in> homes t key \<Longrightarrow> b < length (cm_buckets t)"
  using bucket_less [OF cuckoo_wfD(2)] cuckoo_wfD(1) by (auto simp: homes_def word_less_nat_alt)

text \<open>The pairs that the table holds.\<close>

definition holds :: "CuckooHashMap \<Rightarrow> u32 \<Rightarrow> u32 option \<Rightarrow> bool" where
  "holds t k v \<longleftrightarrow> (\<exists>b i. slot t b i \<and> key_at t b i = k \<and> val_at t b i = v)"

lemma holds_unique: "cuckoo_wf t \<Longrightarrow> k \<noteq> INVALID_KEY \<Longrightarrow> holds t k v \<Longrightarrow> holds t k v' \<Longrightarrow> v = v'"
  unfolding holds_def using cuckoo_wfD(8) by metis

lemma bucket_index_slot:
  assumes "cuckoo_wf t" and "b < length (cm_buckets t)"
  shows "bucket_index k (bk_keys (cm_buckets t ! b)) = None \<Longrightarrow> slot t b i \<Longrightarrow> key_at t b i \<noteq> k"
    and "bucket_index k (bk_keys (cm_buckets t ! b)) = Some i \<Longrightarrow> slot t b i \<and> key_at t b i = k"
  using assms(2) bucket_index_None [OF cuckoo_wfD(3) [OF assms]] bucket_index_Some [OF cuckoo_wfD(3) [OF assms]]
    cuckoo_wfD(3) [OF assms] by (auto simp: slot_def in_set_conv_nth)

lemma index_absent:
  assumes wf: "cuckoo_wf t" and k: "k \<noteq> INVALID_KEY"
    and n: "bucket_index k (bk_keys (cm_buckets t ! unat (bucket1 (cm_num_buckets t) k))) = None"
      "bucket_index k (bk_keys (cm_buckets t ! unat (bucket2 (cm_num_buckets t) k))) = None"
  shows "\<not> holds t k u"
proof
  let ?b1 = "unat (bucket1 (cm_num_buckets t) k)" and ?b2 = "unat (bucket2 (cm_num_buckets t) k)"
  have b: "?b1 < length (cm_buckets t)" "?b2 < length (cm_buckets t)"
    using homes_less [OF wf, of ?b1 k] homes_less [OF wf, of ?b2 k] by (simp_all add: homes_def)
  assume "holds t k u"
  then obtain b i where s: "slot t b i" "key_at t b i = k" by (auto simp: holds_def)
  with cuckoo_wfD(7) [OF wf s(1)] k have "b = ?b1 \<or> b = ?b2" by (simp add: homes_def)
  with bucket_index_slot(1) [OF wf b(1) n(1), of i] bucket_index_slot(1) [OF wf b(2) n(2), of i] s
  show False by auto
qed

text \<open>A lookup finds what the table holds.\<close>

lemma get_holds:
  assumes wf: "cuckoo_wf t" and k: "k \<noteq> INVALID_KEY"
  shows "holds t k v \<Longrightarrow> cuckoo_get t k = Inr (Some v)" and "(\<And>v. \<not> holds t k v) \<Longrightarrow> cuckoo_get t k = Inr None"
proof -
  let ?b1 = "unat (bucket1 (cm_num_buckets t) k)" and ?b2 = "unat (bucket2 (cm_num_buckets t) k)"
  have b: "?b1 < length (cm_buckets t)" "?b2 < length (cm_buckets t)"
    using homes_less [OF wf, of ?b1 k] homes_less [OF wf, of ?b2 k] by (simp_all add: homes_def)
  note idx = bucket_index_slot(2) [OF wf b(1), of k] bucket_index_slot(2) [OF wf b(2), of k]
  have get: "cuckoo_get t k = Inr (Some u) \<and> holds t k u"
    if "bucket_index k (bk_keys (cm_buckets t ! ?b1)) = Some i \<and> u = val_at t ?b1 i \<or>
      bucket_index k (bk_keys (cm_buckets t ! ?b1)) = None \<and>
      bucket_index k (bk_keys (cm_buckets t ! ?b2)) = Some i \<and> u = val_at t ?b2 i" for i u
    using that b idx by (auto simp: cuckoo_get_def holds_def)
  have none: "cuckoo_get t k = Inr None \<and> \<not> holds t k u"
    if n: "bucket_index k (bk_keys (cm_buckets t ! ?b1)) = None" "bucket_index k (bk_keys (cm_buckets t ! ?b2)) = None" for u
    using n b index_absent [OF wf k n] by (simp add: cuckoo_get_def)
  show "cuckoo_get t k = Inr (Some v)" if "holds t k v"
    using get none holds_unique [OF wf k that] that
    by (cases "bucket_index k (bk_keys (cm_buckets t ! ?b1))"; cases "bucket_index k (bk_keys (cm_buckets t ! ?b2))") metis+
  show "cuckoo_get t k = Inr None" if "\<And>v. \<not> holds t k v"
    using get none that
    by (cases "bucket_index k (bk_keys (cm_buckets t ! ?b1))"; cases "bucket_index k (bk_keys (cm_buckets t ! ?b2))") metis+
qed

section \<open>Writes to a slot\<close>

lemma count_prefix:
  assumes down: "\<And>i j. i < 8 \<Longrightarrow> j < i \<Longrightarrow> P i \<Longrightarrow> P j" and i: "i < 8"
  shows "P i \<longleftrightarrow> i < length (filter P [0..<8])"
proof -
  let ?S = "{i. i < 8 \<and> P i}"
  have card: "length (filter P [0..<8]) = card ?S"
  proof -
    have "length (filter P [0..<8]) = card (set (filter P [0..<8]))" by (rule distinct_card [symmetric]) (rule distinct_filter, rule distinct_upt)
    also have "set (filter P [0..<8]) = ?S" unfolding set_filter set_upt by auto
    finally show ?thesis .
  qed
  show ?thesis
  proof
    assume "P i"
    then have "{..i} \<subseteq> ?S" using down [OF i] i by (auto simp: le_less)
    then have "card {..i} \<le> card ?S" by (intro card_mono) simp_all
    then show "i < length (filter P [0..<8])" unfolding card by simp
  next
    assume lt: "i < length (filter P [0..<8])"
    show "P i"
    proof (rule ccontr)
      assume "\<not> P i"
      have "?S \<subseteq> {..<i}"
      proof
        fix j assume "j \<in> ?S"
        then show "j \<in> {..<i}" using down [of j i] \<open>\<not> P i\<close> by (cases j i rule: linorder_cases) auto
      qed
      then have "card ?S \<le> card {..<i}" by (intro card_mono) simp_all
      with lt show False unfolding card by simp
    qed
  qed
qed

lemma bucket_count_slot:
  assumes "cuckoo_wf t" and "slot t b i"
  shows "key_at t b i \<noteq> INVALID_KEY \<longleftrightarrow> i < bucket_count (cm_buckets t ! b)"
  unfolding bucket_count_def BUCKET_SIZE_def
proof (rule count_prefix)
  show "key_at t b j \<noteq> INVALID_KEY" if "i < 8" "j < i" "key_at t b i \<noteq> INVALID_KEY" for i j
    using cuckoo_wfD(5) [OF assms(1), of b i j] that assms(2) by (simp add: slot_def)
qed (use assms(2) in \<open>simp add: slot_def\<close>)

lemma set_slot_simps [simp]:
  "cm_num_buckets (set_slot t b i k v) = cm_num_buckets t"
  "length (cm_buckets (set_slot t b i k v)) = length (cm_buckets t)"
  "slot (set_slot t b i k v) = slot t"
  "homes (set_slot t b i k v) = homes t"
  by (auto simp: set_slot_def slot_def homes_def fun_eq_iff)

lemma set_slot_at:
  assumes "cuckoo_wf t" and "slot t b i" and "slot t b' i'"
  shows "key_at (set_slot t b i k v) b' i' = (if b' = b \<and> i' = i then k else key_at t b' i')"
    and "val_at (set_slot t b i k v) b' i' = (if b' = b \<and> i' = i then v else val_at t b' i')"
  using assms cuckoo_wfD(3,4) [OF assms(1)] by (auto simp: set_slot_def slot_def nth_list_update)

lemma set_slot_wf:
  assumes wf: "cuckoo_wf t" and s: "slot t b i" and k: "k \<noteq> INVALID_KEY" and v: "v \<noteq> None"
    and home: "b \<in> homes t k" and new: "\<And>v. \<not> holds t k v"
    and front: "\<And>j. j < i \<Longrightarrow> key_at t b j \<noteq> INVALID_KEY"
  shows "cuckoo_wf (set_slot t b i k v)"
proof -
  let ?t = "set_slot t b i k v"
  have fresh: "key_at t b' i' \<noteq> k" if "slot t b' i'" for b' i'
    using new that unfolding holds_def by blast
  note at = set_slot_at [OF wf s, of _ _ k v]
  have 1: "length (cm_buckets ?t) = unat (cm_num_buckets ?t)" "0 < cm_num_buckets ?t"
    using cuckoo_wfD(1,2) [OF wf] by simp_all
  have 2: "length (bk_keys (cm_buckets ?t ! b')) = 8" "length (bk_values (cm_buckets ?t ! b')) = 8"
    if "b' < length (cm_buckets ?t)" for b'
    using cuckoo_wfD(3,4) [OF wf, of b'] that by (cases "b' = b"; simp add: set_slot_def)+
  have sub: "slot t b' j" if "slot t b' i'" "j < i'" for b' i' j
    using that by (simp add: slot_def)
  have 3: "key_at ?t b' j \<noteq> INVALID_KEY" if "slot t b' i'" "j < i'" "key_at ?t b' i' \<noteq> INVALID_KEY" for b' i' j
    using at(1) [OF that(1)] at(1) [OF sub [OF that(1,2)]] that(3) k front that(2)
      cuckoo_wfD(5) [OF wf that(1,2)] by (auto split: if_splits)
  have 4: "val_at ?t b' i' = None \<longleftrightarrow> key_at ?t b' i' = INVALID_KEY" if "slot t b' i'" for b' i'
    using at [OF that] k v cuckoo_wfD(6) [OF wf that] by simp
  have 5: "b' \<in> homes t (key_at ?t b' i')" if "slot t b' i'" "key_at ?t b' i' \<noteq> INVALID_KEY" for b' i'
    using at(1) [OF that(1)] home cuckoo_wfD(7) [OF wf that(1)] that(2) by (auto split: if_splits)
  have 6: "b1 = b2 \<and> i1 = i2" if "slot t b1 i1" "slot t b2 i2" "key_at ?t b1 i1 = key_at ?t b2 i2"
    "key_at ?t b1 i1 \<noteq> INVALID_KEY" for b1 i1 b2 i2
    using at(1) [OF that(1)] at(1) [OF that(2)] that fresh [OF that(1)] fresh [OF that(2)]
      cuckoo_wfD(8) [OF wf that(1,2)] by (auto split: if_splits)
  show ?thesis unfolding cuckoo_wf_def set_slot_simps(3,4) using 1 2 3 4 5 6 by blast
qed

lemma set_slot_holds:
  assumes wf: "cuckoo_wf t" and s: "slot t b i" and k: "\<And>v. \<not> holds t k v" and k': "k' \<noteq> INVALID_KEY"
  shows "holds (set_slot t b i k v) k' v' \<longleftrightarrow>
    (if k' = k then v' = v else k' \<noteq> key_at t b i \<and> holds t k' v')"
proof -
  have fresh: "key_at t b' i' \<noteq> k" if "slot t b' i'" for b' i'
    using k that unfolding holds_def by blast
  have same: "key_at t b' i' \<noteq> key_at t b i" if "slot t b' i'" "\<not> (b' = b \<and> i' = i)" "key_at t b' i' = k'" for b' i'
    using cuckoo_wfD(8) [OF wf that(1) s] that k' by auto
  have "holds (set_slot t b i k v) k' v' \<longleftrightarrow> (\<exists>b' i'. slot t b' i' \<and>
      (if b' = b \<and> i' = i then k' = k \<and> v' = v else key_at t b' i' = k' \<and> val_at t b' i' = v'))"
    unfolding holds_def set_slot_simps using set_slot_at [OF wf s] by metis
  also have "\<dots> \<longleftrightarrow> (if k' = k then v' = v else k' \<noteq> key_at t b i \<and> holds t k' v')"
    using s fresh same unfolding holds_def by (auto split: if_splits) metis
  finally show ?thesis .
qed

text \<open>The update of the value of a key that is stored.\<close>

lemma set_value_as_slot:
  assumes "cuckoo_wf t" and "slot t b i"
  shows "set_value t b i v = set_slot t b i (key_at t b i) v"
  using assms by (cases "cm_buckets t ! b") (simp add: set_value_def set_slot_def)

lemma set_value_right:
  assumes wf: "cuckoo_wf t" and s: "slot t b i" and k: "key_at t b i = k" "k \<noteq> INVALID_KEY" and v: "v \<noteq> None"
  shows "cuckoo_wf (set_value t b i v)"
    and "k' \<noteq> INVALID_KEY \<Longrightarrow> holds (set_value t b i v) k' v' \<longleftrightarrow> (if k' = k then v' = v else holds t k' v')"
proof -
  let ?t = "set_value t b i v"
  note at = set_slot_at [OF wf s, of _ _ "key_at t b i" v, folded set_value_as_slot [OF wf s]]
  have [simp]: "cm_num_buckets ?t = cm_num_buckets t" "length (cm_buckets ?t) = length (cm_buckets t)"
    "slot ?t = slot t" "homes ?t = homes t"
    by (simp_all add: set_value_as_slot [OF wf s])
  have keys: "key_at ?t b' i' = key_at t b' i'" if "slot t b' i'" for b' i' using at(1) [OF that] by simp
  have len: "length (bk_keys (cm_buckets ?t ! b')) = 8" "length (bk_values (cm_buckets ?t ! b')) = 8"
    if "b' < length (cm_buckets ?t)" for b'
    using cuckoo_wfD(3,4) [OF wf, of b'] that by (cases "b' = b"; simp add: set_value_def)+
  have sub: "slot t b' j" if "slot t b' i'" "j < i'" for b' i' j using that by (simp add: slot_def)
  have 3: "key_at ?t b' j \<noteq> INVALID_KEY" if "slot t b' i'" "j < i'" "key_at ?t b' i' \<noteq> INVALID_KEY" for b' i' j
    using keys [OF that(1)] keys [OF sub [OF that(1,2)]] that(3) cuckoo_wfD(5) [OF wf that(1,2)] by simp
  have 4: "val_at ?t b' i' = None \<longleftrightarrow> key_at ?t b' i' = INVALID_KEY" if "slot t b' i'" for b' i'
    using at [OF that] k v cuckoo_wfD(6) [OF wf that] by simp
  have 5: "b' \<in> homes t (key_at ?t b' i')" if "slot t b' i'" "key_at ?t b' i' \<noteq> INVALID_KEY" for b' i'
    using keys [OF that(1)] cuckoo_wfD(7) [OF wf that(1)] that(2) by simp
  have 6: "b1 = b2 \<and> i1 = i2" if "slot t b1 i1" "slot t b2 i2" "key_at ?t b1 i1 = key_at ?t b2 i2"
    "key_at ?t b1 i1 \<noteq> INVALID_KEY" for b1 i1 b2 i2
    using keys [OF that(1)] keys [OF that(2)] that cuckoo_wfD(8) [OF wf that(1,2)] by simp
  show "cuckoo_wf ?t"
    unfolding cuckoo_wf_def using cuckoo_wfD(1,2) [OF wf] len 3 4 5 6 by simp
  show "holds ?t k' v' \<longleftrightarrow> (if k' = k then v' = v else holds t k' v')" if k': "k' \<noteq> INVALID_KEY"
  proof -
    have only: "b' = b \<and> i' = i" if "slot t b' i'" "key_at t b' i' = k" for b' i'
      using cuckoo_wfD(8) [OF wf that(1) s] that k by simp
    have eq: "slot ?t b' i' \<and> key_at ?t b' i' = k' \<and> val_at ?t b' i' = v' \<longleftrightarrow>
        slot t b' i' \<and> key_at t b' i' = k' \<and> (if b' = b \<and> i' = i then v else val_at t b' i') = v'" for b' i'
      using keys [of b' i'] at(2) [of b' i'] by (cases "slot t b' i'") simp_all
    have hold: "holds ?t k' v' \<longleftrightarrow> (\<exists>b' i'. slot t b' i' \<and> key_at t b' i' = k' \<and>
        (if b' = b \<and> i' = i then v else val_at t b' i') = v')"
      unfolding holds_def eq by (rule refl)
    show ?thesis
    proof (cases "k' = k")
      case True
      with s k(1) only show ?thesis unfolding hold by metis
    next
      case False
      then have "(\<exists>b' i'. slot t b' i' \<and> key_at t b' i' = k' \<and>
          (if b' = b \<and> i' = i then v else val_at t b' i') = v') \<longleftrightarrow> holds t k' v'"
        using k(1) unfolding holds_def by metis
      with False hold show ?thesis by simp
    qed
  qed
qed

section \<open>Insertion keeps the invariant\<close>

lemma counters_irrelevant [simp]:
  "cuckoo_wf (t\<lparr>cm_size := n\<rparr>) = cuckoo_wf t" "holds (t\<lparr>cm_size := n\<rparr>) = holds t"
  "cuckoo_wf (t\<lparr>cm_draws := d\<rparr>) = cuckoo_wf t" "holds (t\<lparr>cm_draws := d\<rparr>) = holds t"
  "slot (t\<lparr>cm_size := n\<rparr>) = slot t" "homes (t\<lparr>cm_size := n\<rparr>) = homes t"
  "slot (t\<lparr>cm_draws := d\<rparr>) = slot t" "homes (t\<lparr>cm_draws := d\<rparr>) = homes t"
  by (auto simp: cuckoo_wf_def holds_def slot_def homes_def fun_eq_iff)

lemma bucket_count_le: "bucket_count b \<le> 8"
  using length_filter_le [of _ "[0..<BUCKET_SIZE]"] by (simp add: bucket_count_def BUCKET_SIZE_def)

text \<open>What an insertion does: an update, a write to a free slot, or an eviction.\<close>

definition room :: "CuckooHashMap \<Rightarrow> u32 \<Rightarrow> bool" where
  "room t k \<longleftrightarrow> (\<exists>b \<in> homes t k. bucket_count (cm_buckets t ! b) < 8)"

definition inserted :: "CuckooHashMap \<Rightarrow> u32 \<Rightarrow> u32 option \<Rightarrow> CuckooHashMap \<Rightarrow> bool" where
  "inserted t k v t' \<longleftrightarrow> cuckoo_wf t' \<and>
     (\<forall>k' v'. k' \<noteq> INVALID_KEY \<longrightarrow> holds t' k' v' \<longleftrightarrow> (if k' = k then v' = v else holds t k' v'))"

lemma free_slot_inserted:
  assumes wf: "cuckoo_wf t" and new: "\<And>v. \<not> holds t k v" and k: "k \<noteq> INVALID_KEY" and v: "v \<noteq> None"
    and b: "b \<in> homes t k" and c: "bucket_count (cm_buckets t ! b) < 8"
  shows "inserted t k v (set_slot t b (bucket_count (cm_buckets t ! b)) k v)"
proof -
  let ?c = "bucket_count (cm_buckets t ! b)"
  have s: "slot t b j" if "j \<le> ?c" for j using homes_less [OF wf b] c that by (simp add: slot_def)
  have free: "key_at t b ?c = INVALID_KEY" using bucket_count_slot [OF wf s, of ?c] by simp
  have front: "key_at t b j \<noteq> INVALID_KEY" if "j < ?c" for j
    using bucket_count_slot [OF wf s, of j] that by simp
  show ?thesis unfolding inserted_def
    using set_slot_wf [OF wf s [OF order_refl] k v b new front] set_slot_holds [OF wf s [OF order_refl] new, of _ v]
    by (simp add: free)
qed

lemma evicted_inserted:
  assumes wf: "cuckoo_wf t" and new: "\<And>v. \<not> holds t k v" and k: "k \<noteq> INVALID_KEY" and v: "v \<noteq> None"
    and b: "b \<in> homes t k" and i: "i < 8" and full: "\<not> bucket_count (cm_buckets t ! b) < 8"
  shows "cuckoo_wf (set_slot t b i k v)" "key_at t b i \<noteq> INVALID_KEY" "val_at t b i \<noteq> None"
    and "inserted (set_slot t b i k v) (key_at t b i) (val_at t b i) t' \<Longrightarrow> inserted t k v t'"
proof -
  have s: "slot t b j" if "j < 8" for j using homes_less [OF wf b] that by (simp add: slot_def)
  have used: "key_at t b j \<noteq> INVALID_KEY" if "j < 8" for j
    using bucket_count_slot [OF wf s [OF that]] full that by simp
  show "cuckoo_wf (set_slot t b i k v)" using set_slot_wf [OF wf s [OF i] k v b new] used i by simp
  show old: "key_at t b i \<noteq> INVALID_KEY" by (rule used [OF i])
  then show "val_at t b i \<noteq> None" using cuckoo_wfD(6) [OF wf s [OF i]] by simp
  have held: "holds t (key_at t b i) (val_at t b i)" using s [OF i] by (auto simp: holds_def)
  show "inserted t k v t'" if "inserted (set_slot t b i k v) (key_at t b i) (val_at t b i) t'"
    unfolding inserted_def
  proof (intro conjI allI impI)
    show "cuckoo_wf t'" using that by (simp add: inserted_def)
    fix k' v' assume k': "k' \<noteq> INVALID_KEY"
    have "k \<noteq> key_at t b i" using held new by auto
    then show "holds t' k' v' \<longleftrightarrow> (if k' = k then v' = v else holds t k' v')"
      using that set_slot_holds [OF wf s [OF i] new k', of v v'] k' held holds_unique [OF wf old held, of v']
      by (auto simp: inserted_def)
  qed
qed

lemma insert_right:
  assumes "cuckoo_insert rand t k v re = Some r" and "cuckoo_wf t" and "k \<noteq> INVALID_KEY" and "v \<noteq> None"
  shows "\<exists>t'. r = Inr t' \<and> inserted t k v t'"
  using assms
proof (induction rand t k v re r rule: cuckoo_insert.raw_induct [rotated, consumes 1, case_names step])
  case (step f rand t k v re r)
  let ?b1 = "unat (bucket1 (cm_num_buckets t) k)" and ?b2 = "unat (bucket2 (cm_num_buckets t) k)"
  note wf = step(3) and k = step(4) and v = step(5)
  have home: "?b1 \<in> homes t k" "?b2 \<in> homes t k" by (simp_all add: homes_def)
  note less = homes_less [OF wf home(1)] homes_less [OF wf home(2)]
  have upd: "inserted t k v (set_value t b i v)"
    if "b < length (cm_buckets t)" "bucket_index k (bk_keys (cm_buckets t ! b)) = Some i" for b i
    using set_value_right [OF wf _ _ k v] bucket_index_slot(2) [OF wf that] by (simp add: inserted_def)
  show ?case
  proof (cases "bucket_index k (bk_keys (cm_buckets t ! ?b1))")
    case (Some i)
    then show ?thesis using step(2) less upd [OF less(1) Some] by (auto simp: Let_def)
  next
    case None
    note None1 = None
    show ?thesis
    proof (cases "bucket_index k (bk_keys (cm_buckets t ! ?b2))")
      case (Some i)
      then show ?thesis using step(2) None1 less upd [OF less(2) Some] by (auto simp: Let_def)
    next
      case None
      define u where "u = (if re then t else t\<lparr>cm_size := cm_size t + 1\<rparr>)"
      note body = step(2) [unfolded Let_def, folded u_def]
      have u: "cuckoo_wf u" "cm_buckets u = cm_buckets t" "homes u = homes t" "holds u = holds t"
        using wf by (simp_all add: u_def)
      have new: "\<not> holds u k x" for x using index_absent [OF wf k None1 None] u(4) by simp
      have through: "inserted t k v t'" if "inserted u k v t'" for t' using that u(4) by (simp add: inserted_def)
      let ?c1 = "bucket_count (cm_buckets t ! ?b1)" and ?c2 = "bucket_count (cm_buckets t ! ?b2)"
      consider "?c1 \<le> ?c2" "?c1 < 8" | "\<not> (?c1 \<le> ?c2 \<and> ?c1 < 8)" "?c2 < 8" | "\<not> ?c1 < 8" "\<not> ?c2 < 8"
        using bucket_count_le [of "cm_buckets t ! ?b1"] by linarith
      then show ?thesis
      proof cases
        case 1
        have "inserted u k v (set_slot u ?b1 ?c1 k v)"
          using free_slot_inserted [OF u(1) new k v, of ?b1] home 1 u by simp
        with through body None None1 less 1 show ?thesis by (auto simp: BUCKET_SIZE_def)
      next
        case 2
        have "inserted u k v (set_slot u ?b2 ?c2 k v)"
          using free_slot_inserted [OF u(1) new k v, of ?b2] home 2 u by simp
        with through body None None1 less 2 show ?thesis by (auto simp: BUCKET_SIZE_def)
      next
        case 3
        define b where "b = (if rand (cm_draws u) mod 2 = 0 then ?b2 else ?b1)"
        define i where "i = unat (rand (cm_draws u + 1) mod word_of_nat BUCKET_SIZE)"
        have b: "b \<in> homes u k" "\<not> bucket_count (cm_buckets u ! b) < 8"
          using home 3 u by (simp_all add: b_def)
        have i: "i < 8" by (simp add: i_def BUCKET_SIZE_def unat_mod)
        note ev = evicted_inserted [OF u(1) new k v b(1) i b(2)]
        let ?t = "(set_slot u b i k v)\<lparr>cm_draws := cm_draws u + 2\<rparr>"
        have "f rand ?t (key_at u b i) (val_at u b i) True = Some r"
          using body None None1 less 3 by (simp add: BUCKET_SIZE_def b_def i_def)
        from step(1) [OF this] ev(1-3) obtain t' where r: "r = Inr t'" "inserted ?t (key_at u b i) (val_at u b i) t'"
          by auto
        from r(2) have "inserted (set_slot u b i k v) (key_at u b i) (val_at u b i) t'"
          unfolding inserted_def counters_irrelevant .
        from through [OF ev(4) [OF this]] r(1) show ?thesis by blast
      qed
    qed
  qed
qed

section \<open>Insertion ends when there is room and never ends when there is none\<close>

lemma insert_returns:
  assumes wf: "cuckoo_wf t" and room: "room t k"
  shows "\<exists>r. cuckoo_insert rand t k v re = Some r"
proof -
  let ?b1 = "cm_buckets t ! unat (bucket1 (cm_num_buckets t) k)"
    and ?b2 = "cm_buckets t ! unat (bucket2 (cm_num_buckets t) k)"
  have "bucket_count ?b1 < 8 \<or> bucket_count ?b2 < 8" using room by (auto simp: room_def homes_def)
  moreover have "bucket_count ?b1 \<le> bucket_count ?b2" if "\<not> bucket_count ?b2 < 8"
    using that bucket_count_le [of ?b1] by linarith
  ultimately show ?thesis
    by (subst cuckoo_insert.simps) (auto simp: Let_def BUCKET_SIZE_def split: option.split)
qed

definition table_full :: "CuckooHashMap \<Rightarrow> bool" where
  "table_full t \<longleftrightarrow> (\<forall>b i. slot t b i \<longrightarrow> key_at t b i \<noteq> INVALID_KEY)"

lemma full_count:
  assumes "cuckoo_wf t" and "table_full t" and "b < length (cm_buckets t)"
  shows "\<not> bucket_count (cm_buckets t ! b) < 8"
proof -
  have "slot t b 7" using assms(3) by (simp add: slot_def)
  with assms have "7 < bucket_count (cm_buckets t ! b)"
    using bucket_count_slot [OF assms(1), of b 7] by (simp add: table_full_def)
  then show ?thesis by simp
qed

lemma full_insert_stuck:
  assumes "cuckoo_insert rand t k v re = Some r" and "cuckoo_wf t" and "table_full t"
    and "\<And>x. \<not> holds t k x" and "k \<noteq> INVALID_KEY" and "v \<noteq> None"
  shows False
  using assms
proof (induction rand t k v re r rule: cuckoo_insert.raw_induct [rotated, consumes 1, case_names step])
  case (step f rand t k v re r)
  let ?b1 = "unat (bucket1 (cm_num_buckets t) k)" and ?b2 = "unat (bucket2 (cm_num_buckets t) k)"
  note wf = step(3) and full = step(4) and new = step(5) and k = step(6) and v = step(7)
  have home: "?b1 \<in> homes t k" "?b2 \<in> homes t k" by (simp_all add: homes_def)
  note less = homes_less [OF wf home(1)] homes_less [OF wf home(2)]
  have none: "bucket_index k (bk_keys (cm_buckets t ! b)) = None" if "b < length (cm_buckets t)" for b
    using bucket_index_slot(2) [OF wf that, of k] new by (cases "bucket_index k (bk_keys (cm_buckets t ! b))") (auto simp: holds_def)
  define u where "u = (if re then t else t\<lparr>cm_size := cm_size t + 1\<rparr>)"
  note body = step(2) [unfolded Let_def, folded u_def]
  have u: "cuckoo_wf u" "cm_buckets u = cm_buckets t" "homes u = homes t" "slot u = slot t" "holds u = holds t"
    using wf by (simp_all add: u_def)
  define b where "b = (if rand (cm_draws u) mod 2 = 0 then ?b2 else ?b1)"
  define i where "i = unat (rand (cm_draws u + 1) mod word_of_nat BUCKET_SIZE)"
  have b: "b \<in> homes u k" "b < length (cm_buckets t)" using home less u(3) by (simp_all add: b_def)
  have i: "i < 8" by (simp add: i_def BUCKET_SIZE_def unat_mod)
  have s: "slot u b i" using b i u by (simp add: slot_def)
  have newu: "\<not> holds u k x" for x using new u(5) by simp
  have fullb: "\<not> bucket_count (cm_buckets u ! b) < 8" using full_count [OF wf full b(2)] u(2) by simp
  note ev = evicted_inserted [OF u(1) newu k v b(1) i fullb]
  let ?t = "(set_slot u b i k v)\<lparr>cm_draws := cm_draws u + 2\<rparr>"
  have rec: "f rand ?t (key_at u b i) (val_at u b i) True = Some r"
    using body less none [OF less(1)] none [OF less(2)] full_count [OF wf full less(1)] full_count [OF wf full less(2)]
    by (simp add: BUCKET_SIZE_def b_def i_def)
  have "table_full ?t"
    using full k set_slot_at(1) [OF u(1) s] u unfolding table_full_def by (simp add: table_full_def)
  moreover have "\<not> holds ?t (key_at u b i) x" for x
    using set_slot_holds [OF u(1) s newu ev(2), of v x] s newu by (auto simp: holds_def)
  moreover have "cuckoo_wf ?t" using ev(1) by simp
  ultimately show False using step(1) [OF rec] ev(2,3) by blast
qed

section \<open>The competitor over the table\<close>

lemma cuckoo_new_empty:
  assumes "0 < cm_num_buckets (cuckoo_new c)"
  shows "cuckoo_wf (cuckoo_new c)" "\<not> holds (cuckoo_new c) k (Some v)"
    and "b < length (cm_buckets (cuckoo_new c)) \<Longrightarrow> bucket_count (cm_buckets (cuckoo_new c) ! b) = 0"
proof -
  have at: "key_at (cuckoo_new c) b i = INVALID_KEY" "val_at (cuckoo_new c) b i = None" if "slot (cuckoo_new c) b i" for b i
    using that by (simp_all add: slot_def cuckoo_new_def Let_def BUCKET_SIZE_def)
  have len: "length (bk_keys (cm_buckets (cuckoo_new c) ! b)) = 8" "length (bk_values (cm_buckets (cuckoo_new c) ! b)) = 8"
    "length (cm_buckets (cuckoo_new c)) = unat (cm_num_buckets (cuckoo_new c))"
    if "b < length (cm_buckets (cuckoo_new c))" for b
    using that by (simp_all add: cuckoo_new_def Let_def BUCKET_SIZE_def)
  have "length (cm_buckets (cuckoo_new c)) = unat (cm_num_buckets (cuckoo_new c))"
    by (simp add: cuckoo_new_def Let_def)
  then show "cuckoo_wf (cuckoo_new c)" unfolding cuckoo_wf_def using at len assms by auto
  show "\<not> holds (cuckoo_new c) k (Some v)" using at by (auto simp: holds_def)
  show "bucket_count (cm_buckets (cuckoo_new c) ! b) = 0" if "b < length (cm_buckets (cuckoo_new c))"
    using that at [of b] by (auto simp: bucket_count_def BUCKET_SIZE_def slot_def filter_empty_conv)
qed

lemma cuckoo_capacity_positive: "0 < cm_num_buckets (cuckoo_new cuckoo_capacity)"
  by (simp add: cuckoo_new_def cuckoo_capacity_def BUCKET_SIZE_def Let_def)

abbreviation cuckoo_pairs :: "u32 KeyValue list \<Rightarrow> (u32 \<times> u32) list" where
  "cuckoo_pairs data \<equiv> map (\<lambda>kv. (kv_key kv, ucast (kv_value kv))) data"

lemma insert_all_right:
  assumes "cuckoo_insert_all rand t data = Some r" and "cuckoo_wf t" and "INVALID_KEY \<notin> kv_key ` set data"
  shows "\<exists>t'. r = Inr t' \<and> cuckoo_wf t' \<and> (\<forall>k v. k \<noteq> INVALID_KEY \<longrightarrow> holds t' k (Some v) \<longleftrightarrow>
    (case map_of (rev (cuckoo_pairs data)) k of None \<Rightarrow> holds t k (Some v) | Some x \<Rightarrow> v = x))"
  using assms
proof (induction data arbitrary: t)
  case (Cons itm data)
  let ?v = "Some (ucast (kv_value itm))"
  have k: "kv_key itm \<noteq> INVALID_KEY" using Cons.prems(3) by auto
  obtain x where x: "cuckoo_insert rand t (kv_key itm) ?v False = Some x"
    using Cons.prems(1) by (cases "cuckoo_insert rand t (kv_key itm) ?v False") simp_all
  obtain t1 where t1: "x = Inr t1" "inserted t (kv_key itm) ?v t1"
    using insert_right [OF x Cons.prems(2) k] by auto
  have "cuckoo_insert_all rand t1 data = Some r" using Cons.prems(1) x t1(1) by simp
  from Cons.IH [OF this] t1(2) Cons.prems(3)
  obtain t' where t': "r = Inr t'" "cuckoo_wf t'" "\<And>k v. k \<noteq> INVALID_KEY \<Longrightarrow> holds t' k (Some v) \<longleftrightarrow>
      (case map_of (rev (cuckoo_pairs data)) k of None \<Rightarrow> holds t1 k (Some v) | Some x \<Rightarrow> v = x)"
    by (auto simp: inserted_def)
  show ?case
    using t' t1(2) by (auto simp: inserted_def map_add_def split: option.split)
qed auto

text \<open>A table whose buckets hold at most \<open>m < 8\<close> entries takes another one without evicting.\<close>

lemma filter_one_more:
  assumes "\<And>j. j \<noteq> i \<Longrightarrow> P' j \<longleftrightarrow> P j"
  shows "length (filter P' xs) \<le> length (filter P xs) + length (filter (\<lambda>j. j = i) xs)"
  using assms by (induction xs) (auto simp: le_SucI)

lemma set_slot_count:
  "bucket_count (cm_buckets (set_slot t b i k v) ! b') \<le> Suc (bucket_count (cm_buckets t ! b'))"
proof (cases "b' = b \<and> b < length (cm_buckets t)")
  case True
  have "length (filter (\<lambda>j. j = i) [0..<BUCKET_SIZE]) \<le> 1"
    using distinct_length_filter [of "[0..<BUCKET_SIZE]" "\<lambda>j. j = i"] card_mono [of "{i}" "{j. j = i} \<inter> {0..<BUCKET_SIZE}"]
    by auto
  moreover have "bucket_count (cm_buckets (set_slot t b i k v) ! b) \<le> bucket_count (cm_buckets t ! b)
      + length (filter (\<lambda>j. j = i) [0..<BUCKET_SIZE])"
    using True unfolding bucket_count_def by (intro filter_one_more) (simp add: set_slot_def)
  ultimately show ?thesis using True by simp
next
  case False
  then have "cm_buckets (set_slot t b i k v) ! b' = cm_buckets t ! b'"
    by (cases "b < length (cm_buckets t)") (auto simp: set_slot_def list_update_beyond)
  then show ?thesis by simp
qed

lemma set_value_count: "bucket_count (cm_buckets (set_value t b i v) ! b') = bucket_count (cm_buckets t ! b')"
  by (cases "b' = b \<and> b < length (cm_buckets t)"; cases "b < length (cm_buckets t)")
    (auto simp: set_value_def bucket_count_def list_update_beyond)

lemma set_value_length [simp]: "length (cm_buckets (set_value t b i v)) = length (cm_buckets t)"
  by (simp add: set_value_def)

lemma insert_load:
  assumes wf: "cuckoo_wf t" and load: "\<And>b. b < length (cm_buckets t) \<Longrightarrow> bucket_count (cm_buckets t ! b) \<le> m" and m: "m < 8"
  shows "\<exists>t'. cuckoo_insert rand t k v re = Some (Inr t') \<and> length (cm_buckets t') = length (cm_buckets t) \<and>
    (\<forall>b < length (cm_buckets t). bucket_count (cm_buckets t' ! b) \<le> Suc m)"
proof -
  let ?b1 = "unat (bucket1 (cm_num_buckets t) k)" and ?b2 = "unat (bucket2 (cm_num_buckets t) k)"
  have less: "?b1 < length (cm_buckets t)" "?b2 < length (cm_buckets t)"
    using homes_less [OF wf, of ?b1 k] homes_less [OF wf, of ?b2 k] by (simp_all add: homes_def)
  have slotted: "bucket_count (cm_buckets (set_slot u b i k v) ! b') \<le> Suc m"
    if "b' < length (cm_buckets t)" "cm_buckets u = cm_buckets t" for u b i b'
    using set_slot_count [of u b i k v b'] load [OF that(1)] that(2) by simp
  have valued: "bucket_count (cm_buckets (set_value t b i v) ! b') \<le> Suc m" if "b' < length (cm_buckets t)" for b i b'
    using load [OF that] by (simp add: set_value_count)
  have "bucket_count (cm_buckets t ! ?b1) < 8" "bucket_count (cm_buckets t ! ?b2) < 8"
    using load [OF less(1)] load [OF less(2)] m by simp_all
  with less show ?thesis
    by (subst cuckoo_insert.simps)
      (auto simp: Let_def BUCKET_SIZE_def intro!: slotted valued split: option.split)
qed

lemma insert_all_returns:
  assumes "cuckoo_wf t" and "\<And>b. b < length (cm_buckets t) \<Longrightarrow> bucket_count (cm_buckets t ! b) \<le> m"
    and "m + length data \<le> 8" and "INVALID_KEY \<notin> kv_key ` set data"
  shows "\<exists>r. cuckoo_insert_all rand t data = Some r"
  using assms
proof (induction data arbitrary: t m)
  case (Cons itm data)
  have m: "m < 8" using Cons.prems(3) by simp
  obtain t1 where t1: "cuckoo_insert rand t (kv_key itm) (Some (ucast (kv_value itm))) False = Some (Inr t1)"
    "length (cm_buckets t1) = length (cm_buckets t)"
    "\<And>b. b < length (cm_buckets t) \<Longrightarrow> bucket_count (cm_buckets t1 ! b) \<le> Suc m"
    using insert_load [OF Cons.prems(1,2) m, of rand "kv_key itm" "Some (ucast (kv_value itm))" False] by blast
  have "cuckoo_wf t1" using insert_right [OF t1(1) Cons.prems(1)] Cons.prems(4) by (auto simp: inserted_def)
  from Cons.IH [OF this, of "Suc m"] t1 Cons.prems(3,4) show ?case by simp
qed simp

text \<open>The value that is stored for a key is the position of its last entry.\<close>

lemma map_of_rev_last:
  assumes "k \<in> kv_key ` set data"
  shows "\<exists>p < length data. kv_key (data ! p) = k \<and> (\<forall>j. p < j \<longrightarrow> j < length data \<longrightarrow> kv_key (data ! j) \<noteq> k)
    \<and> map_of (rev (cuckoo_pairs data)) k = Some (ucast (kv_value (data ! p)))"
  using assms
proof (induction data rule: rev_induct)
  case (snoc kv data)
  show ?case
  proof (cases "kv_key kv = k")
    case True
    then show ?thesis by (intro exI [of _ "length data"]) simp
  next
    case False
    then obtain p where "p < length data" "kv_key (data ! p) = k"
      "\<forall>j. p < j \<longrightarrow> j < length data \<longrightarrow> kv_key (data ! j) \<noteq> k"
      "map_of (rev (cuckoo_pairs data)) k = Some (ucast (kv_value (data ! p)))"
      using snoc by auto
    with False show ?thesis by (intro exI [of _ p]) (auto simp: nth_append less_Suc_eq)
  qed
qed simp

lemma map_of_rev_none: "k \<notin> kv_key ` set data \<Longrightarrow> map_of (rev (cuckoo_pairs data)) k = None"
  by (auto simp: map_of_eq_None_iff image_image)

lemma get_None_holds:
  "cuckoo_wf t \<Longrightarrow> k \<noteq> INVALID_KEY \<Longrightarrow> cuckoo_get t k = Inr None \<longleftrightarrow> (\<forall>v. \<not> holds t k v)"
  using get_holds by fastforce

lemma get_cong:
  assumes "cuckoo_wf t" and "cuckoo_wf t'" and "k \<noteq> INVALID_KEY" and "\<And>v. holds t' k v \<longleftrightarrow> holds t k v"
  shows "cuckoo_get t' k = cuckoo_get t k"
  using get_holds [OF assms(1,3)] get_holds [OF assms(2,3)] assms(4) by metis

lemma build_right:
  assumes "cuckoo_Build rand kvs = Some r" and "INVALID_KEY \<notin> kv_key ` set kvs"
  shows "\<exists>t. r = Inr t \<and> cuckoo_wf t \<and> (\<forall>k v. k \<noteq> INVALID_KEY \<longrightarrow> holds t k (Some v) \<longleftrightarrow>
    map_of (rev (cuckoo_pairs kvs)) k = Some v)"
proof -
  obtain t where t: "r = Inr t" "cuckoo_wf t" "\<And>k v. k \<noteq> INVALID_KEY \<Longrightarrow> holds t k (Some v) \<longleftrightarrow>
      (case map_of (rev (cuckoo_pairs kvs)) k of None \<Rightarrow> holds (cuckoo_new cuckoo_capacity) k (Some v) | Some x \<Rightarrow> v = x)"
    using insert_all_right [OF assms(1) [unfolded cuckoo_Build_def] cuckoo_new_empty(1) [OF cuckoo_capacity_positive] assms(2)]
    by blast
  have "holds t k (Some v) \<longleftrightarrow> map_of (rev (cuckoo_pairs kvs)) k = Some v" if "k \<noteq> INVALID_KEY" for k v
    using t(3) [OF that, of v] cuckoo_new_empty(2) [OF cuckoo_capacity_positive, of k v]
    by (cases "map_of (rev (cuckoo_pairs kvs)) k") auto
  with t(1,2) show ?thesis by blast
qed

lemma small_build_returns:
  assumes "length kvs \<le> 8" and "INVALID_KEY \<notin> kv_key ` set kvs"
  shows "\<exists>r. cuckoo_Build rand kvs = Some r"
  unfolding cuckoo_Build_def
  by (rule insert_all_returns [of _ 0, OF cuckoo_new_empty(1) [OF cuckoo_capacity_positive]])
    (use assms cuckoo_new_empty(3) [OF cuckoo_capacity_positive] in auto)

lemma holds_value: "cuckoo_wf t \<Longrightarrow> k \<noteq> INVALID_KEY \<Longrightarrow> holds t k v \<Longrightarrow> v \<noteq> None"
  unfolding holds_def using cuckoo_wfD(6) by blast

lemma position_bound:
  assumes "index_input kvs" and "length kvs < 2 ^ 32 - 1" and "p < length kvs"
  shows "unat (ucast (kv_value (kvs ! p)) :: u32) = p" "unat ((ucast (kv_value (kvs ! p)) :: u32) + 1) = p + 1"
proof -
  have "(ucast (word_of_nat p :: u64) :: u32) = word_of_nat p"
    using assms by (simp add: word_eq_iff_unsigned unsigned_ucast_eq unsigned_of_nat take_bit_nat_eq_self)
  then have v: "(ucast (kv_value (kvs ! p)) :: u32) = word_of_nat p"
    using assms by (simp add: index_input_def)
  show "unat (ucast (kv_value (kvs ! p)) :: u32) = p" unfolding v using assms by (intro unat_word_of_nat) simp
  have plus: "(word_of_nat p :: u32) + 1 = word_of_nat (p + 1)" by simp
  show "unat ((ucast (kv_value (kvs ! p)) :: u32) + 1) = p + 1"
    unfolding v plus by (rule unat_word_of_nat) (use assms in simp)
qed

section \<open>Properties\<close>

text \<open>
  C33. Insertion into a well formed cuckoo table returns whenever one of the two buckets of the
  key has a free slot; and whenever it returns, after evicting and moving any number of other
  entries, the table is well formed, a lookup of the key gives the value, and the lookup of
  every other key gives what it gave before.
\<close>
theorem cuckoo_insert_get:
  assumes "cuckoo_wf t" and "key \<noteq> INVALID_KEY"
  shows "(room t key \<longrightarrow> (\<exists>r. cuckoo_insert rand t key (Some v) is_reinsert = Some r)) \<and>
    (\<forall>r. cuckoo_insert rand t key (Some v) is_reinsert = Some r \<longrightarrow>
      (\<exists>t'. r = Inr t' \<and> cuckoo_wf t' \<and> cuckoo_get t' key = Inr (Some (Some v)) \<and>
        (\<forall>k. k \<noteq> key \<longrightarrow> k \<noteq> INVALID_KEY \<longrightarrow> cuckoo_get t' k = cuckoo_get t k)))"
proof (intro conjI allI impI)
  show "\<exists>r. cuckoo_insert rand t key (Some v) is_reinsert = Some r" if "room t key"
    by (rule insert_returns [OF assms(1) that])
  fix r assume "cuckoo_insert rand t key (Some v) is_reinsert = Some r"
  from insert_right [OF this assms] obtain t' where t': "r = Inr t'" "inserted t key (Some v) t'" by auto
  then have wf: "cuckoo_wf t'" and hold: "holds t' k u \<longleftrightarrow> (if k = key then u = Some v else holds t k u)"
    if "k \<noteq> INVALID_KEY" for k u using that by (simp_all add: inserted_def)
  show "\<exists>t'. r = Inr t' \<and> cuckoo_wf t' \<and> cuckoo_get t' key = Inr (Some (Some v)) \<and>
      (\<forall>k. k \<noteq> key \<longrightarrow> k \<noteq> INVALID_KEY \<longrightarrow> cuckoo_get t' k = cuckoo_get t k)"
    using t'(1) wf [OF assms(2)] hold assms get_holds(1) [OF wf [OF assms(2)] assms(2), of "Some v"]
      get_cong [OF assms(1) wf [OF assms(2)]] by auto
qed

theorem cuckoo_insert_get_witness:
  "\<exists>t'. cuckoo_insert (\<lambda>_. 0) (cuckoo_new 16) 7 (Some 3) False = Some (Inr t') \<and>
     cuckoo_get t' 7 = Inr (Some (Some 3)) \<and> cuckoo_get t' 8 = cuckoo_get (cuckoo_new 16) 8"
proof -
  have pos: "0 < cm_num_buckets (cuckoo_new 16)" by (simp add: cuckoo_new_def BUCKET_SIZE_def)
  note wf = cuckoo_new_empty(1) [OF pos]
  let ?b = "unat (bucket1 (cm_num_buckets (cuckoo_new 16)) 7)"
  have b: "?b \<in> homes (cuckoo_new 16) 7" by (simp add: homes_def)
  have "room (cuckoo_new 16) 7"
    unfolding room_def using cuckoo_new_empty(3) [OF pos homes_less [OF wf b]] b by (intro bexI [of _ ?b]) simp_all
  moreover have "(7 :: u32) \<noteq> INVALID_KEY" "(8 :: u32) \<noteq> INVALID_KEY" by (simp_all add: INVALID_KEY_def)
  ultimately obtain r where r: "cuckoo_insert (\<lambda>_. 0) (cuckoo_new 16) 7 (Some 3) False = Some r"
    and keys: "(7 :: u32) \<noteq> INVALID_KEY" "(8 :: u32) \<noteq> INVALID_KEY"
    using cuckoo_insert_get [OF wf, of 7 "\<lambda>_. 0" 3 False] by blast
  from cuckoo_insert_get [OF wf keys(1), THEN conjunct2, rule_format, OF r] obtain t' where "r = Inr t'"
    "cuckoo_get t' 7 = Inr (Some (Some 3))"
    "\<forall>k. k \<noteq> 7 \<longrightarrow> k \<noteq> INVALID_KEY \<longrightarrow> cuckoo_get t' k = cuckoo_get (cuckoo_new 16) k" by blast
  with r keys show ?thesis by (intro exI [of _ t']) simp
qed

text \<open>
  C34. When the build of the cuckoo hash competitor returns, every present key is answered by the
  one-element bound of its last entry: an insertion of a key that is stored overwrites its
  position, so for duplicated keys the bound starts behind the other entries. Absent keys end in
  \<open>util::fail\<close>. Data of at most eight rows never need an eviction, and their build returns.
\<close>
theorem cuckoo_bound_is_last:
  assumes "index_input kvs" and "length kvs < 2 ^ 32 - 1" and "INVALID_KEY \<notin> kv_key ` set kvs"
  shows "(length kvs \<le> 8 \<longrightarrow> (\<exists>r. cuckoo_Build rand kvs = Some r)) \<and>
    (\<forall>r. cuckoo_Build rand kvs = Some r \<longrightarrow> (\<exists>t. r = Inr t \<and>
      (\<forall>k \<in> kv_key ` set kvs. \<exists>p < length kvs. kv_key (kvs ! p) = k \<and>
        (\<forall>j. p < j \<longrightarrow> j < length kvs \<longrightarrow> kv_key (kvs ! j) \<noteq> k) \<and>
        cuckoo_EqualityLookup t k = Inr \<lparr>sb_start = p, sb_stop = p + 1\<rparr>) \<and>
      (\<forall>k. k \<notin> kv_key ` set kvs \<longrightarrow> k \<noteq> INVALID_KEY \<longrightarrow>
        cuckoo_EqualityLookup t k = Inl (Fail ''Could not find key in hashmap''))))"
proof (intro conjI allI impI)
  show "\<exists>r. cuckoo_Build rand kvs = Some r" if "length kvs \<le> 8" by (rule small_build_returns [OF that assms(3)])
  fix r assume "cuckoo_Build rand kvs = Some r"
  from build_right [OF this assms(3)] obtain t where t: "r = Inr t" "cuckoo_wf t"
    "\<And>k v. k \<noteq> INVALID_KEY \<Longrightarrow> holds t k (Some v) \<longleftrightarrow> map_of (rev (cuckoo_pairs kvs)) k = Some v" by blast
  have present: "\<exists>p < length kvs. kv_key (kvs ! p) = k \<and> (\<forall>j. p < j \<longrightarrow> j < length kvs \<longrightarrow> kv_key (kvs ! j) \<noteq> k) \<and>
      cuckoo_EqualityLookup t k = Inr \<lparr>sb_start = p, sb_stop = p + 1\<rparr>" if k: "k \<in> kv_key ` set kvs" for k
  proof -
    have "k \<noteq> INVALID_KEY" using k assms(3) by metis
    moreover obtain p where p: "p < length kvs" "kv_key (kvs ! p) = k"
      "\<forall>j. p < j \<longrightarrow> j < length kvs \<longrightarrow> kv_key (kvs ! j) \<noteq> k"
      "map_of (rev (cuckoo_pairs kvs)) k = Some (ucast (kv_value (kvs ! p)))"
      using map_of_rev_last [OF k] by blast
    ultimately have "cuckoo_get t k = Inr (Some (Some (ucast (kv_value (kvs ! p)))))"
      using t(3) get_holds(1) [OF t(2)] by blast
    then have "cuckoo_EqualityLookup t k = Inr \<lparr>sb_start = p, sb_stop = p + 1\<rparr>"
      using position_bound [OF assms(1,2) p(1)] by (simp add: cuckoo_EqualityLookup_def)
    with p show ?thesis by blast
  qed
  have absent: "cuckoo_EqualityLookup t k = Inl (Fail ''Could not find key in hashmap'')"
    if "k \<notin> kv_key ` set kvs" "k \<noteq> INVALID_KEY" for k
  proof -
    have "\<not> holds t k v" for v
      using t(3) [OF that(2)] map_of_rev_none [OF that(1)] holds_value [OF t(2) that(2), of v] by (cases v) auto
    then show ?thesis using get_holds(2) [OF t(2) that(2)] by (simp add: cuckoo_EqualityLookup_def)
  qed
  show "\<exists>t. r = Inr t \<and> (\<forall>k \<in> kv_key ` set kvs. \<exists>p < length kvs. kv_key (kvs ! p) = k \<and>
      (\<forall>j. p < j \<longrightarrow> j < length kvs \<longrightarrow> kv_key (kvs ! j) \<noteq> k) \<and>
      cuckoo_EqualityLookup t k = Inr \<lparr>sb_start = p, sb_stop = p + 1\<rparr>) \<and>
    (\<forall>k. k \<notin> kv_key ` set kvs \<longrightarrow> k \<noteq> INVALID_KEY \<longrightarrow>
      cuckoo_EqualityLookup t k = Inl (Fail ''Could not find key in hashmap''))"
    using t(1) present absent by blast
qed

theorem cuckoo_bound_is_last_witness:
  "\<exists>t. cuckoo_Build (\<lambda>_. 0) ex_kvs = Some (Inr t) \<and>
    cuckoo_EqualityLookup t 5 = Inr \<lparr>sb_start = 2, sb_stop = 3\<rparr> \<and>
    cuckoo_EqualityLookup t 6 = Inl (Fail ''Could not find key in hashmap'')"
proof -
  have "INVALID_KEY \<notin> kv_key ` set ex_kvs" by (simp add: INVALID_KEY_def)
  note right = cuckoo_bound_is_last [OF ex_kvs_input(1) _ this, of "\<lambda>_. 0"]
  have len: "length ex_kvs \<le> 8" "length ex_kvs < 2 ^ 32 - 1" by simp_all
  from right [OF len(2)] len(1) obtain r where "cuckoo_Build (\<lambda>_. 0) ex_kvs = Some r" by blast
  moreover from right [OF len(2), THEN conjunct2, rule_format, OF this] obtain t where "r = Inr t"
    "\<forall>k \<in> kv_key ` set ex_kvs. \<exists>p < length ex_kvs. kv_key (ex_kvs ! p) = k \<and>
      (\<forall>j. p < j \<longrightarrow> j < length ex_kvs \<longrightarrow> kv_key (ex_kvs ! j) \<noteq> k) \<and>
      cuckoo_EqualityLookup t k = Inr \<lparr>sb_start = p, sb_stop = p + 1\<rparr>"
    "\<forall>k. k \<notin> kv_key ` set ex_kvs \<longrightarrow> k \<noteq> INVALID_KEY \<longrightarrow>
      cuckoo_EqualityLookup t k = Inl (Fail ''Could not find key in hashmap'')" by blast
  moreover have "(5 :: u32) \<in> kv_key ` set ex_kvs" "(6 :: u32) \<notin> kv_key ` set ex_kvs" "(6 :: u32) \<noteq> INVALID_KEY"
    by (simp_all add: INVALID_KEY_def)
  ultimately obtain t p where t: "cuckoo_Build (\<lambda>_. 0) ex_kvs = Some (Inr t)"
    "p < length ex_kvs" "kv_key (ex_kvs ! p) = 5" "\<forall>j. p < j \<longrightarrow> j < length ex_kvs \<longrightarrow> kv_key (ex_kvs ! j) \<noteq> 5"
    "cuckoo_EqualityLookup t 5 = Inr \<lparr>sb_start = p, sb_stop = p + 1\<rparr>"
    "cuckoo_EqualityLookup t 6 = Inl (Fail ''Could not find key in hashmap'')" by blast
  from t(2) consider "p = 0" | "p = 1" | "p = 2" | "p = 3" by fastforce
  then have "p = 2" using t(3) t(4) [rule_format, of 2] by cases simp_all
  with t(1,5,6) show ?thesis by auto
qed

text \<open>
  In a full cuckoo table an insertion of a key that is not stored does not return: whatever
  numbers the random generator draws, every entry that is placed evicts another one.
\<close>
theorem cuckoo_full_hangs:
  assumes "cuckoo_wf t" and "table_full t" and "key \<noteq> INVALID_KEY" and "cuckoo_get t key = Inr None"
  shows "cuckoo_insert rand t key (Some v) is_reinsert = None"
  using full_insert_stuck [OF _ assms(1,2) _ assms(3)] get_None_holds [OF assms(1,3)] assms(4)
  by (cases "cuckoo_insert rand t key (Some v) is_reinsert") blast+

definition full_table :: CuckooHashMap where
  "full_table = \<lparr>cm_buckets = [\<lparr>bk_keys = map word_of_nat [0..<8], bk_values = replicate 8 (Some 0)\<rparr>],
     cm_num_buckets = 1, cm_size = 8, cm_draws = 0\<rparr>"

lemma full_table_wf: "cuckoo_wf full_table" "table_full full_table" "cuckoo_get full_table 9 = Inr None"
proof -
  have keys: "key_at full_table b i = word_of_nat i \<and> val_at full_table b i = Some 0 \<and> b = 0 \<and> i < 8"
    if "slot full_table b i" for b i
    using that by (simp add: slot_def full_table_def)
  have inv: "(word_of_nat i :: u32) \<noteq> INVALID_KEY" "unat (word_of_nat i :: u32) = i"
    "(word_of_nat i :: u32) \<noteq> 9" if "i < 8" for i
  proof -
    show u: "unat (word_of_nat i :: u32) = i" using that by simp
    have less: "unat (word_of_nat i :: u32) < 8" unfolding u by (rule that)
    show "(word_of_nat i :: u32) \<noteq> INVALID_KEY"
    proof
      assume "(word_of_nat i :: u32) = INVALID_KEY"
      with less have "unat INVALID_KEY < 8" by metis
      then show False by (simp add: INVALID_KEY_def)
    qed
    show "(word_of_nat i :: u32) \<noteq> 9"
    proof
      assume "(word_of_nat i :: u32) = 9"
      with less have "unat (9 :: u32) < 8" by metis
      then show False by simp
    qed
  qed
  have home: "homes full_table k = {0}" for k
    using bucket_less [of 1 k] by (simp add: homes_def full_table_def word_less_nat_alt)
  have "i = i'" if "i < 8" "i' < 8" "(word_of_nat i :: u32) = word_of_nat i'" for i i'
    using inv(2) [OF that(1)] inv(2) [OF that(2)] that(3) by metis
  then have "b = b' \<and> i = i'"
    if "slot full_table b i" "slot full_table b' i'" "key_at full_table b i = key_at full_table b' i'" for b i b' i'
    using keys [OF that(1)] keys [OF that(2)] that(3) by metis
  moreover have "key_at full_table b i \<noteq> INVALID_KEY" if "slot full_table b i" for b i
    using keys [OF that] inv(1) [of i] by metis
  moreover have "slot full_table b j" if "slot full_table b i" "j < i" for b i j
    using that by (simp add: slot_def)
  moreover have "val_at full_table b i \<noteq> None" "b \<in> {0}" if "slot full_table b i" for b i
    using keys [OF that] by auto
  moreover have "length (bk_keys (cm_buckets full_table ! b)) = 8 \<and> length (bk_values (cm_buckets full_table ! b)) = 8"
    if "b < length (cm_buckets full_table)" for b
    using that by (simp add: full_table_def)
  moreover have "length (cm_buckets full_table) = unat (cm_num_buckets full_table)" "0 < cm_num_buckets full_table"
    by (simp_all add: full_table_def)
  ultimately show wf: "cuckoo_wf full_table" unfolding cuckoo_wf_def home by blast
  show "table_full full_table" unfolding table_full_def using keys inv(1) by metis
  have "key_at full_table b i \<noteq> 9" if "slot full_table b i" for b i
    using keys [OF that] inv(3) [of i] by metis
  then show "cuckoo_get full_table 9 = Inr None"
    using get_None_holds [OF wf, of 9] by (auto simp: holds_def INVALID_KEY_def)
qed

theorem cuckoo_full_hangs_witness: "cuckoo_insert (\<lambda>n. word_of_nat n) full_table 9 (Some 1) False = None"
  by (rule cuckoo_full_hangs [OF full_table_wf(1,2) _ full_table_wf(3)]) (simp add: INVALID_KEY_def)

end
