(* ===== verification/AdaptiveRadixTree.thy ===== *)
theory AdaptiveRadixTree
  imports ByteKeyIndexes
begin

text \<open>
  Model of \<open>src/competitors/art_primary_lb.h\<close>: the adaptive radix tree over the eight bytes of a
  key, with nodes of 4, 16, 48 and 256 children, path compression and a lower bound lookup that
  walks the tree with an explicit stack; and its competitor. The tree is a functional value: a
  \<open>Node**\<close> is the index of a child in its node, \<open>*nodeRef = n\<close> is the result of the operation.
\<close>

section \<open>Nodes\<close>

text \<open>
  \<open>node_prefix\<close> holds the bytes of the array \<open>prefix\<close> that have been written, which are the
  first \<open>min(prefixLength, maxPrefixLength)\<close>.
\<close>

record art_header =
  prefixLength :: nat
  node_count :: nat
  node_prefix :: "u8 list"

text \<open>A pseudo leaf is a tagged word; the other nodes have the arrays of the source.\<close>

datatype art =
    PseudoLeaf u64
  | Node4 art_header "u8 list" "art option list"
  | Node16 art_header "u8 list" "art option list"
  | Node48 art_header "u8 list" "art option list"
  | Node256 art_header "art option list"

definition maxPrefixLength :: nat where
  "maxPrefixLength = 9"

definition maxKeyLength :: nat where
  "maxKeyLength = 8"

definition emptyMarker :: u8 where
  "emptyMarker = 48"

definition makeLeaf :: "u64 \<Rightarrow> art" where
  "makeLeaf tid = PseudoLeaf (push_bit 1 tid OR 1)"

fun isLeaf :: "art \<Rightarrow> bool" where
  "isLeaf (PseudoLeaf w) = True"
| "isLeaf _ = False"

definition leaf_value :: "u64 \<Rightarrow> u64" where
  "leaf_value w = drop_bit 1 w"

text \<open>\<open>getLeafValue\<close> of the result of \<open>minimum\<close>; only leaves carry a value.\<close>

fun getLeafValue :: "art option \<Rightarrow> u64 res" where
  "getLeafValue (Some (PseudoLeaf w)) = Inr (leaf_value w)"
| "getLeafValue _ = Inl Undefined"

fun header :: "art \<Rightarrow> art_header" where
  "header (Node4 h ks cs) = h"
| "header (Node16 h ks cs) = h"
| "header (Node48 h ks cs) = h"
| "header (Node256 h cs) = h"
| "header (PseudoLeaf w) = \<lparr>prefixLength = 0, node_count = 0, node_prefix = []\<rparr>"

fun children :: "art \<Rightarrow> art option list" where
  "children (Node4 h ks cs) = cs"
| "children (Node16 h ks cs) = cs"
| "children (Node48 h ks cs) = cs"
| "children (Node256 h cs) = cs"
| "children (PseudoLeaf w) = []"

fun put_header :: "art \<Rightarrow> art_header \<Rightarrow> art" where
  "put_header (Node4 _ ks cs) h = Node4 h ks cs"
| "put_header (Node16 _ ks cs) h = Node16 h ks cs"
| "put_header (Node48 _ ks cs) h = Node48 h ks cs"
| "put_header (Node256 _ cs) h = Node256 h cs"
| "put_header (PseudoLeaf w) h = PseudoLeaf w"

fun put_child :: "art \<Rightarrow> nat \<Rightarrow> art option \<Rightarrow> art" where
  "put_child (Node4 h ks cs) i c = Node4 h ks (cs[i := c])"
| "put_child (Node16 h ks cs) i c = Node16 h ks (cs[i := c])"
| "put_child (Node48 h ks cs) i c = Node48 h ks (cs[i := c])"
| "put_child (Node256 h cs) i c = Node256 h (cs[i := c])"
| "put_child (PseudoLeaf w) i c = PseudoLeaf w"

text \<open>The child that a reference stands for.\<close>

definition kid :: "art \<Rightarrow> nat \<Rightarrow> art option res" where
  "kid n i = at (children n) i"

lemma size_child: "Some c \<in> set cs \<Longrightarrow> size c < Suc (size_list (size_option size) cs)"
  by (induction cs) auto

lemma size_kid: "kid n i = Inr (Some c) \<Longrightarrow> size c < size n"
  using size_child [of c "children n"] by (cases n) (auto simp: kid_def at_eq_Inr dest!: nth_mem)

section \<open>Search in a node\<close>

text \<open>The vector comparison of 16 bytes: one bit for each key, cut to the used ones.\<close>

definition byte_mask :: "nat \<Rightarrow> u8 \<Rightarrow> u8 list \<Rightarrow> u32" where
  "byte_mask cnt keyByte keys = horner_sum of_bool 2 (map (\<lambda>k. keyByte = k) keys) AND mask cnt"

text \<open>The reference to the child, or none: \<open>&nullNode\<close>.\<close>

fun findChild :: "art \<Rightarrow> u8 \<Rightarrow> nat option" where
  "findChild (Node4 h ks cs) keyByte = List.find (\<lambda>i. ks ! i = keyByte) [0..<node_count h]"
| "findChild (Node16 h ks cs) keyByte =
     (let bitfield = byte_mask (node_count h) keyByte ks
      in if bitfield \<noteq> 0 then Some (builtin_ctz bitfield) else None)"
| "findChild (Node48 h ci cs) keyByte =
     (if ci ! unat keyByte \<noteq> emptyMarker then Some (unat (ci ! unat keyByte)) else None)"
| "findChild (Node256 h cs) keyByte = Some (unat keyByte)"
| "findChild (PseudoLeaf w) keyByte = None"

definition child_of :: "art \<Rightarrow> u8 \<Rightarrow> art option res" where
  "child_of n keyByte = (case findChild n keyByte of None \<Rightarrow> Inr None | Some i \<Rightarrow> kid n i)"

lemma size_child_of: "child_of n b = Inr (Some c) \<Longrightarrow> size c < size n"
  by (auto simp: child_of_def size_kid split: option.splits)

section \<open>Keys of leaves\<close>

definition swapBytes :: "u64 \<Rightarrow> u8 list" where
  "swapBytes org_key = le_enc 8 (bswap 8 (unat org_key))"

definition loadKey :: "u64 KeyValue list \<Rightarrow> u64 \<Rightarrow> u8 list res" where
  "loadKey data tid = bind_res (at data (unat tid)) (\<lambda>kv. Inr (swapBytes (kv_key kv)))"

text \<open>The first used slot of a node of 48 or 256 children; the loops have no other end.\<close>

definition first_used :: "(nat \<Rightarrow> bool) \<Rightarrow> nat res" where
  "first_used used = (case List.find used [0..<256] of None \<Rightarrow> Inl Undefined | Some pos \<Rightarrow> Inr pos)"

definition last_used :: "(nat \<Rightarrow> bool) \<Rightarrow> nat res" where
  "last_used used = (case List.find used (rev [0..<256]) of None \<Rightarrow> Inl Undefined | Some pos \<Rightarrow> Inr pos)"

definition min_slot :: "art \<Rightarrow> nat res" where
  "min_slot n = (case n of
       Node48 h ci cs \<Rightarrow> bind_res (first_used (\<lambda>b. ci ! b \<noteq> emptyMarker)) (\<lambda>b. Inr (unat (ci ! b)))
     | Node256 h cs \<Rightarrow> first_used (\<lambda>b. cs ! b \<noteq> None)
     | _ \<Rightarrow> Inr 0)"

definition max_slot :: "art \<Rightarrow> nat res" where
  "max_slot n = (case n of
       Node48 h ci cs \<Rightarrow> bind_res (last_used (\<lambda>b. ci ! b \<noteq> emptyMarker)) (\<lambda>b. Inr (unat (ci ! b)))
     | Node256 h cs \<Rightarrow> last_used (\<lambda>b. cs ! b \<noteq> None)
     | _ \<Rightarrow> Inr (node_count (header n) - 1))"

function minimum :: "art option \<Rightarrow> art option res" where
  "minimum None = Inr None"
| "minimum (Some n) =
     (if isLeaf n then Inr (Some n)
      else bind_res (min_slot n) (\<lambda>i. bind_res (kid n i) minimum))"
  by pat_completeness auto
termination
proof (relation "measure (\<lambda>x. case x of None \<Rightarrow> 0 | Some n \<Rightarrow> Suc (size n))")
  fix n i x assume "kid n i = Inr x"
  then show "(x, Some n) \<in> measure (\<lambda>x. case x of None \<Rightarrow> 0 | Some n \<Rightarrow> Suc (size n))"
    using size_kid by (cases x) auto
qed simp

function maximum :: "art option \<Rightarrow> art option res" where
  "maximum None = Inr None"
| "maximum (Some n) =
     (if isLeaf n then Inr (Some n)
      else bind_res (max_slot n) (\<lambda>i. bind_res (kid n i) maximum))"
  by pat_completeness auto
termination
proof (relation "measure (\<lambda>x. case x of None \<Rightarrow> 0 | Some n \<Rightarrow> Suc (size n))")
  fix n i x assume "kid n i = Inr x"
  then show "(x, Some n) \<in> measure (\<lambda>x. case x of None \<Rightarrow> 0 | Some n \<Rightarrow> Suc (size n))"
    using size_kid by (cases x) auto
qed simp

section \<open>Prefixes\<close>

text \<open>The number of equal bytes among the first \<open>n\<close>; reading past an array is undefined.\<close>

fun mismatch :: "nat \<Rightarrow> u8 list \<Rightarrow> u8 list \<Rightarrow> nat res" where
  "mismatch 0 xs ys = Inr 0"
| "mismatch (Suc n) (x # xs) (y # ys) =
     (if x \<noteq> y then Inr 0 else bind_res (mismatch n xs ys) (\<lambda>pos. Inr (Suc pos)))"
| "mismatch (Suc n) _ _ = Inl Undefined"

text \<open>Both overloads: all bytes of the prefix, or those that the key has.\<close>

definition mismatch_long ::
  "u64 KeyValue list \<Rightarrow> art \<Rightarrow> u8 list \<Rightarrow> nat \<Rightarrow> nat \<Rightarrow> nat res" where
  "mismatch_long data node key depth compBytes =
     (let prefix = node_prefix (header node)
      in if compBytes > maxPrefixLength
         then bind_res (mismatch maxPrefixLength (drop depth key) prefix) (\<lambda>pos.
           if pos < maxPrefixLength then Inr pos
           else bind_res (minimum (Some node)) (\<lambda>m.
             bind_res (getLeafValue m) (\<lambda>tid.
             bind_res (loadKey data tid) (\<lambda>minKey.
             bind_res (mismatch (compBytes - pos) (drop (depth + pos) key) (drop (depth + pos) minKey)) (\<lambda>rest.
               Inr (pos + rest))))))
         else mismatch compBytes (drop depth key) prefix)"

definition prefixMismatch :: "u64 KeyValue list \<Rightarrow> art \<Rightarrow> u8 list \<Rightarrow> nat \<Rightarrow> nat res" where
  "prefixMismatch data node key depth = mismatch_long data node key depth (prefixLength (header node))"

definition prefixMismatchKey :: "u64 KeyValue list \<Rightarrow> art \<Rightarrow> u8 list \<Rightarrow> nat \<Rightarrow> nat \<Rightarrow> nat res" where
  "prefixMismatchKey data node key depth keyLength =
     mismatch_long data node key depth (min (keyLength - depth) (prefixLength (header node)))"

text \<open>Equality with the key of a leaf from \<open>depth\<close> on.\<close>

definition leafMatches :: "u64 KeyValue list \<Rightarrow> u64 \<Rightarrow> u8 list \<Rightarrow> nat \<Rightarrow> nat \<Rightarrow> bool res" where
  "leafMatches data tid key keyLength depth =
     (if depth \<noteq> keyLength
      then bind_res (loadKey data tid) (\<lambda>leafKey.
        Inr (\<forall>i \<in> set [depth..<keyLength]. leafKey ! i = key ! i))
      else Inr True)"

section \<open>Insertion\<close>

text \<open>\<open>memmove(a + dst, a + src, n)\<close> on an array.\<close>

definition memmove :: "'a list \<Rightarrow> nat \<Rightarrow> nat \<Rightarrow> nat \<Rightarrow> 'a list" where
  "memmove xs dst src n = take dst xs @ take n (drop src xs) @ drop (dst + n) xs"

text \<open>A new node with the prefix of another one: \<open>copyPrefix\<close>.\<close>

definition copyPrefix :: "art_header \<Rightarrow> nat \<Rightarrow> art_header" where
  "copyPrefix src cnt = \<lparr>prefixLength = prefixLength src, node_count = cnt,
     node_prefix = take (min (prefixLength src) maxPrefixLength) (node_prefix src)\<rparr>"

definition insertNode256 :: "art_header \<Rightarrow> art option list \<Rightarrow> u8 \<Rightarrow> art \<Rightarrow> art" where
  "insertNode256 h cs keyByte child =
     Node256 (h\<lparr>node_count := node_count h + 1\<rparr>) (cs[unat keyByte := Some child])"

text \<open>The free slot: behind the last child, or the first empty one.\<close>

definition insertNode48 :: "art_header \<Rightarrow> u8 list \<Rightarrow> art option list \<Rightarrow> u8 \<Rightarrow> art \<Rightarrow> art res" where
  "insertNode48 h ci cs keyByte child =
     (if node_count h < 48
      then bind_res (at cs (node_count h)) (\<lambda>c.
        bind_res (if c \<noteq> None
                  then (case List.find (\<lambda>i. cs ! i = None) [0..<length cs] of
                          None \<Rightarrow> Inl Undefined | Some pos \<Rightarrow> Inr pos)
                  else Inr (node_count h)) (\<lambda>pos.
          Inr (Node48 (h\<lparr>node_count := node_count h + 1\<rparr>) (ci[unat keyByte := word_of_nat pos]) (cs[pos := Some child]))))
      else let newChild = map (\<lambda>i. if ci ! i \<noteq> emptyMarker then cs ! unat (ci ! i) else None) [0..<256]
           in Inr (insertNode256 (copyPrefix h (node_count h)) newChild keyByte child))"

text \<open>The loop over the keys of a node of 16 that becomes a node of 48.\<close>

definition index_keys :: "u8 list \<Rightarrow> nat \<Rightarrow> u8 list" where
  "index_keys ks cnt = foldl (\<lambda>ci i. ci[unat (ks ! i) := word_of_nat i]) (replicate 256 emptyMarker) [0..<cnt]"

definition insert_pos :: "u8 list \<Rightarrow> nat \<Rightarrow> u8 \<Rightarrow> nat" where
  "insert_pos ks cnt keyByte = length (takeWhile (\<lambda>k. k < keyByte) (take cnt ks))"

definition insertNode16 :: "art_header \<Rightarrow> u8 list \<Rightarrow> art option list \<Rightarrow> u8 \<Rightarrow> art \<Rightarrow> art res" where
  "insertNode16 h ks cs keyByte child =
     (let cnt = node_count h
      in if cnt < 16
         then let pos = insert_pos ks cnt keyByte
              in Inr (Node16 (h\<lparr>node_count := cnt + 1\<rparr>)
                   ((memmove ks (pos + 1) pos (cnt - pos))[pos := keyByte])
                   ((memmove cs (pos + 1) pos (cnt - pos))[pos := Some child]))
         else insertNode48 (copyPrefix h cnt) (index_keys ks cnt)
                (take cnt cs @ replicate (48 - cnt) None) keyByte child)"

definition insertNode4 :: "art_header \<Rightarrow> u8 list \<Rightarrow> art option list \<Rightarrow> u8 \<Rightarrow> art \<Rightarrow> art res" where
  "insertNode4 h ks cs keyByte child =
     (let cnt = node_count h
      in if cnt < 4
         then let pos = insert_pos ks cnt keyByte
              in Inr (Node4 (h\<lparr>node_count := cnt + 1\<rparr>)
                   ((memmove ks (pos + 1) pos (cnt - pos))[pos := keyByte])
                   ((memmove cs (pos + 1) pos (cnt - pos))[pos := Some child]))
         else insertNode16 (copyPrefix h 4) (take 4 ks @ replicate 12 0)
                (take cnt cs @ replicate (16 - cnt) None) keyByte child)"

text \<open>The \<open>switch\<close> over the node types.\<close>

definition insert_child :: "art \<Rightarrow> u8 \<Rightarrow> art \<Rightarrow> art res" where
  "insert_child n keyByte child = (case n of
       Node4 h ks cs \<Rightarrow> insertNode4 h ks cs keyByte child
     | Node16 h ks cs \<Rightarrow> insertNode16 h ks cs keyByte child
     | Node48 h ci cs \<Rightarrow> insertNode48 h ci cs keyByte child
     | Node256 h cs \<Rightarrow> Inr (insertNode256 h cs keyByte child)
     | PseudoLeaf w \<Rightarrow> Inl Undefined)"

definition new_Node4 :: "nat \<Rightarrow> u8 list \<Rightarrow> art" where
  "new_Node4 len prefix =
     Node4 \<lparr>prefixLength = len, node_count = 0, node_prefix = take (min len maxPrefixLength) prefix\<rparr>
       (replicate 4 0) (replicate 4 None)"

text \<open>The number of equal bytes; without a difference the loop runs past both arrays.\<close>

definition common_prefix :: "u8 list \<Rightarrow> u8 list \<Rightarrow> nat \<Rightarrow> nat res" where
  "common_prefix existingKey key depth =
     (case List.find (\<lambda>i. existingKey ! (depth + i) \<noteq> key ! (depth + i)) [0..<maxKeyLength - depth] of
        None \<Rightarrow> Inl Undefined
      | Some newPrefixLength \<Rightarrow> Inr newPrefixLength)"

text \<open>A leaf becomes a node with both leaves.\<close>

definition split_leaf :: "u64 KeyValue list \<Rightarrow> u64 \<Rightarrow> u8 list \<Rightarrow> nat \<Rightarrow> u64 \<Rightarrow> art res" where
  "split_leaf data w key depth value =
     bind_res (loadKey data (leaf_value w)) (\<lambda>existingKey.
     bind_res (common_prefix existingKey key depth) (\<lambda>newPrefixLength.
     bind_res (insert_child (new_Node4 newPrefixLength (drop depth key))
                 (existingKey ! (depth + newPrefixLength)) (PseudoLeaf w)) (\<lambda>newNode.
       insert_child newNode (key ! (depth + newPrefixLength)) (makeLeaf value))))"

text \<open>The prefix of an inner node is broken up.\<close>

definition cut_prefix :: "art \<Rightarrow> nat \<Rightarrow> u8 list \<Rightarrow> art" where
  "cut_prefix node len bytes =
     put_header node ((header node)\<lparr>prefixLength := len, node_prefix := take (min len maxPrefixLength) bytes\<rparr>)"

definition split_prefix ::
  "u64 KeyValue list \<Rightarrow> art \<Rightarrow> u8 list \<Rightarrow> nat \<Rightarrow> u64 \<Rightarrow> nat \<Rightarrow> art res" where
  "split_prefix data node key depth value mismatchPos =
     (let plen = prefixLength (header node);
          prefix = node_prefix (header node);
          newNode = new_Node4 mismatchPos prefix;
          rest = plen - (mismatchPos + 1)
      in bind_res
           (if plen < maxPrefixLength
            then insert_child newNode (prefix ! mismatchPos) (cut_prefix node rest (drop (mismatchPos + 1) prefix))
            else bind_res (minimum (Some node)) (\<lambda>m.
              bind_res (getLeafValue m) (\<lambda>tid.
              bind_res (loadKey data tid) (\<lambda>minKey.
                insert_child newNode (minKey ! (depth + mismatchPos))
                  (cut_prefix node rest (drop (depth + mismatchPos + 1) minKey))))))
           (\<lambda>n. insert_child n (key ! (depth + mismatchPos)) (makeLeaf value)))"

text \<open>The result is the new value of \<open>*nodeRef\<close>.\<close>

function art_insert :: "u64 KeyValue list \<Rightarrow> art option \<Rightarrow> u8 list \<Rightarrow> nat \<Rightarrow> u64 \<Rightarrow> art res" where
  "art_insert data node key depth v = (case node of
       None \<Rightarrow> Inr (makeLeaf v)
     | Some n \<Rightarrow> (case n of
         PseudoLeaf w \<Rightarrow> split_leaf data w key depth v
       | _ \<Rightarrow>
           bind_res (if prefixLength (header n) \<noteq> 0 then prefixMismatch data n key depth else Inr 0) (\<lambda>mismatchPos.
             if mismatchPos \<noteq> prefixLength (header n)
             then split_prefix data n key depth v mismatchPos
             else let depth = depth + prefixLength (header n)
                  in bind_res (at key depth) (\<lambda>keyByte.
                       case findChild n keyByte of
                         None \<Rightarrow> insert_child n keyByte (makeLeaf v)
                       | Some i \<Rightarrow> bind_res (kid n i) (\<lambda>c.
                           if c = None then insert_child n keyByte (makeLeaf v)
                           else bind_res (art_insert data c key (depth + 1) v) (\<lambda>c'.
                                  Inr (put_child n i (Some c'))))))))"
  by pat_completeness auto
termination
proof (relation "measure (\<lambda>(data, x, key, depth, v). case x of None \<Rightarrow> 0 | Some n \<Rightarrow> Suc (size n))")
qed (auto dest: size_kid split: option.splits)

section \<open>The iterator\<close>

text \<open>
  The stack of an iterator, the top first, with the position in each node; the array of the
  source has 9 entries, so a tenth one would be written past it.
\<close>

type_synonym art_stack = "(art \<times> nat) list"

definition stack_size :: nat where
  "stack_size = 9"

text \<open>The child at the position or the next used one, and the position behind it.\<close>

definition next_used :: "(nat \<Rightarrow> bool) \<Rightarrow> nat \<Rightarrow> nat option" where
  "next_used used pos = List.find used [pos..<256]"

definition next_child :: "art \<Rightarrow> nat \<Rightarrow> (art option \<times> nat) res" where
  "next_child node pos = (case node of
       Node48 h ci cs \<Rightarrow> (case next_used (\<lambda>b. ci ! b \<noteq> emptyMarker) pos of
           None \<Rightarrow> Inr (None, 256)
         | Some b \<Rightarrow> bind_res (at cs (unat (ci ! b))) (\<lambda>c. Inr (c, b + 1)))
     | Node256 h cs \<Rightarrow> (case next_used (\<lambda>b. cs ! b \<noteq> None) pos of
           None \<Rightarrow> Inr (None, 256)
         | Some b \<Rightarrow> bind_res (at cs b) (\<lambda>c. Inr (c, b + 1)))
     | _ \<Rightarrow> if pos < node_count (header node)
           then bind_res (at (children node) pos) (\<lambda>c. Inr (c, pos + 1))
           else Inr (None, pos))"

text \<open>\<open>Some v\<close> is a return of \<open>true\<close> with \<open>iter.value = v\<close>, \<open>None\<close> a return of \<open>false\<close>.\<close>

partial_function (option) iterator_loop :: "art_stack \<Rightarrow> (u64 option \<times> art_stack) res option" where
  "iterator_loop stack = (case stack of
       [] \<Rightarrow> Some (Inr (None, []))
     | (node, pos) # rest \<Rightarrow> (case node of
           PseudoLeaf w \<Rightarrow> Some (Inr (Some (leaf_value w), stack))
         | _ \<Rightarrow> (case next_child node pos of
               Inl e \<Rightarrow> Some (Inl e)
             | Inr (None, pos') \<Rightarrow> iterator_loop rest
             | Inr (Some nxt, pos') \<Rightarrow>
                 if length stack < stack_size then iterator_loop ((nxt, 0) # (node, pos') # rest)
                 else Some (Inl Undefined))))"

definition iteratorNext :: "art_stack \<Rightarrow> (u64 option \<times> art_stack) res option" where
  "iteratorNext stack = iterator_loop (case stack of
       (PseudoLeaf w, pos) # rest \<Rightarrow> rest
     | _ \<Rightarrow> stack)"

text \<open>
  The iterator in the other direction. A position is a signed number and ends at -1; the
  position of a new entry is the last one of its node, and is not read for a leaf.
\<close>

definition prev_used :: "(nat \<Rightarrow> bool) \<Rightarrow> int \<Rightarrow> nat option" where
  "prev_used used pos = List.find used (rev [0..<nat (pos + 1)])"

definition prev_child :: "art \<Rightarrow> int \<Rightarrow> (art option \<times> int) res" where
  "prev_child node pos = (case node of
       Node48 h ci cs \<Rightarrow> (case prev_used (\<lambda>b. ci ! b \<noteq> emptyMarker) pos of
           None \<Rightarrow> Inr (None, min pos (- 1))
         | Some b \<Rightarrow> bind_res (at cs (unat (ci ! b))) (\<lambda>c. Inr (c, int b - 1)))
     | Node256 h cs \<Rightarrow> (case prev_used (\<lambda>b. cs ! b \<noteq> None) pos of
           None \<Rightarrow> Inr (None, min pos (- 1))
         | Some b \<Rightarrow> bind_res (at cs b) (\<lambda>c. Inr (c, int b - 1)))
     | _ \<Rightarrow> if pos \<ge> 0
           then bind_res (at (children node) (nat pos)) (\<lambda>c. Inr (c, pos - 1))
           else Inr (None, pos))"

definition last_pos :: "art \<Rightarrow> int" where
  "last_pos node = (case node of
       PseudoLeaf w \<Rightarrow> 0
     | Node48 h ci cs \<Rightarrow> 255
     | Node256 h cs \<Rightarrow> 255
     | _ \<Rightarrow> int (node_count (header node)) - 1)"

partial_function (option) iterator_prev_loop ::
  "(art \<times> int) list \<Rightarrow> (u64 option \<times> (art \<times> int) list) res option" where
  "iterator_prev_loop stack = (case stack of
       [] \<Rightarrow> Some (Inr (None, []))
     | (node, pos) # rest \<Rightarrow> (case node of
           PseudoLeaf w \<Rightarrow> Some (Inr (Some (leaf_value w), stack))
         | _ \<Rightarrow> (case prev_child node pos of
               Inl e \<Rightarrow> Some (Inl e)
             | Inr (None, pos') \<Rightarrow> iterator_prev_loop rest
             | Inr (Some nxt, pos') \<Rightarrow>
                 if length stack < stack_size then iterator_prev_loop ((nxt, last_pos nxt) # (node, pos') # rest)
                 else Some (Inl Undefined))))"

definition iteratorPrev :: "(art \<times> int) list \<Rightarrow> (u64 option \<times> (art \<times> int) list) res option" where
  "iteratorPrev stack = iterator_prev_loop (case stack of
       (PseudoLeaf w, pos) # rest \<Rightarrow> rest
     | _ \<Rightarrow> stack)"

section \<open>Lookups of a prefix\<close>

text \<open>
  The node below which all keys start with \<open>key\<close>, as the source looks for it: the depth it hands
  to the next level is the one it came with.
\<close>

function lookupPrefix ::
  "u64 KeyValue list \<Rightarrow> art option \<Rightarrow> u8 list \<Rightarrow> nat \<Rightarrow> nat \<Rightarrow> art option res" where
  "lookupPrefix data node key depth keyLength = (case node of
       None \<Rightarrow> Inr None
     | Some n \<Rightarrow> (case n of
         PseudoLeaf w \<Rightarrow> bind_res (leafMatches data (leaf_value w) key keyLength depth) (\<lambda>m.
           Inr (if m then node else None))
       | _ \<Rightarrow>
           if depth + prefixLength (header n) < keyLength
           then bind_res (at key depth) (\<lambda>keyByte.
                  bind_res (child_of n keyByte) (\<lambda>c. lookupPrefix data c key depth keyLength))
           else bind_res (prefixMismatchKey data n key depth keyLength) (\<lambda>pos.
                  Inr (if pos \<noteq> keyLength - depth then None else node))))"
  by pat_completeness auto
termination
proof (relation "measure (\<lambda>(data, x, key, depth, l). case x of None \<Rightarrow> 0 | Some n \<Rightarrow> Suc (size n))")
qed (auto dest: size_child_of split: option.splits)

definition lookupPrefixMin ::
  "u64 KeyValue list \<Rightarrow> art option \<Rightarrow> u8 list \<Rightarrow> nat \<Rightarrow> (u64 option \<times> art_stack) res option" where
  "lookupPrefixMin data root key keyLength = (case lookupPrefix data root key 0 keyLength of
       Inl e \<Rightarrow> Some (Inl e)
     | Inr None \<Rightarrow> Some (Inr (None, []))
     | Inr (Some (PseudoLeaf w)) \<Rightarrow> Some (Inr (Some (leaf_value w), [(PseudoLeaf w, 0)]))
     | Inr (Some node) \<Rightarrow> iteratorNext [(node, 0)])"

section \<open>Lower and upper bounds\<close>

text \<open>The loop over sorted keys: it stops at the key or at the first larger one.\<close>

definition sorted_child :: "u8 list \<Rightarrow> art option list \<Rightarrow> nat \<Rightarrow> u8 \<Rightarrow> (art option \<times> nat) res" where
  "sorted_child ks cs cnt keyByte =
     (let pos = insert_pos ks cnt keyByte
      in if pos < cnt \<and> ks ! pos = keyByte then bind_res (at cs pos) (\<lambda>c. Inr (c, pos)) else Inr (None, pos))"

text \<open>The child of a byte and the position that is left in the stack entry.\<close>

definition bound_child :: "art \<Rightarrow> u8 \<Rightarrow> (art option \<times> nat) res" where
  "bound_child n keyByte = (case n of
       Node48 h ci cs \<Rightarrow>
         if ci ! unat keyByte \<noteq> emptyMarker
         then bind_res (at cs (unat (ci ! unat keyByte))) (\<lambda>c. Inr (c, unat keyByte))
         else Inr (None, unat keyByte)
     | Node256 h cs \<Rightarrow> bind_res (at cs (unat keyByte)) (\<lambda>c. Inr (c, unat keyByte))
     | Node4 h ks cs \<Rightarrow> sorted_child ks cs (node_count h) keyByte
     | Node16 h ks cs \<Rightarrow> sorted_child ks cs (node_count h) keyByte
     | PseudoLeaf w \<Rightarrow> Inl Undefined)"

text \<open>The comparison of the key of a leaf with the key: less, or not less, or equal.\<close>

definition leaf_compare :: "u8 list \<Rightarrow> u8 list \<Rightarrow> nat \<Rightarrow> nat \<Rightarrow> bool option" where
  "leaf_compare leafKey key depth keyLength =
     map_option (\<lambda>i. leafKey ! i < key ! i) (List.find (\<lambda>i. leafKey ! i \<noteq> key ! i) [depth..<keyLength])"

partial_function (option) art_bound_loop ::
  "u64 KeyValue list \<Rightarrow> art \<Rightarrow> u8 list \<Rightarrow> nat \<Rightarrow> bool \<Rightarrow> nat \<Rightarrow> art_stack \<Rightarrow> (u64 option \<times> art_stack) res option" where
  "art_bound_loop data n key keyLength lower depth stack =
     (if stack_size \<le> length stack then Some (Inl Undefined)
      else case n of
       PseudoLeaf w \<Rightarrow>
         if depth = keyLength
         then (if lower then Some (Inr (Some (leaf_value w), (n, 0) # stack)) else iteratorNext ((n, 0) # stack))
         else (case loadKey data (leaf_value w) of
             Inl e \<Rightarrow> Some (Inl e)
           | Inr leafKey \<Rightarrow> (case leaf_compare leafKey key depth keyLength of
                 Some True \<Rightarrow> iteratorNext stack
               | Some False \<Rightarrow> Some (Inr (Some (leaf_value w), (n, 0) # stack))
               | None \<Rightarrow> if lower then Some (Inr (Some (leaf_value w), (n, 0) # stack))
                         else iteratorNext ((n, 0) # stack)))
     | _ \<Rightarrow> (case prefixMismatchKey data n key depth keyLength of
           Inl e \<Rightarrow> Some (Inl e)
         | Inr mismatchPos \<Rightarrow>
             if mismatchPos \<noteq> prefixLength (header n)
             then (case at (node_prefix (header n)) mismatchPos of Inl e \<Rightarrow> Some (Inl e) | Inr p \<Rightarrow>
                  (case at key (depth + mismatchPos) of Inl e \<Rightarrow> Some (Inl e) | Inr b \<Rightarrow>
                     if p < b then iteratorNext stack else iteratorNext ((n, 0) # stack)))
             else (case at key (depth + prefixLength (header n)) of Inl e \<Rightarrow> Some (Inl e) | Inr keyByte \<Rightarrow>
                  (case bound_child n keyByte of
                     Inl e \<Rightarrow> Some (Inl e)
                   | Inr (None, pos) \<Rightarrow> iteratorNext ((n, pos) # stack)
                   | Inr (Some nxt, pos) \<Rightarrow>
                       art_bound_loop data nxt key keyLength lower (depth + prefixLength (header n) + 1)
                         ((n, pos + 1) # stack)))))"

definition art_bound ::
  "u64 KeyValue list \<Rightarrow> art option \<Rightarrow> u8 list \<Rightarrow> nat \<Rightarrow> bool \<Rightarrow> (u64 option \<times> art_stack) res option" where
  "art_bound data n key keyLength lower =
     (case n of None \<Rightarrow> Some (Inr (None, []))
      | Some n \<Rightarrow> art_bound_loop data n key keyLength lower 0 [])"

section \<open>Lookups of one key\<close>

text \<open>The optimistic lookup skips long prefixes and checks the leaf at the end.\<close>

function art_lookup ::
  "u64 KeyValue list \<Rightarrow> art option \<Rightarrow> u8 list \<Rightarrow> nat \<Rightarrow> nat \<Rightarrow> bool \<Rightarrow> u64 option res" where
  "art_lookup data node key keyLength depth skippedPrefix = (case node of
       None \<Rightarrow> Inr None
     | Some n \<Rightarrow> (case n of
         PseudoLeaf w \<Rightarrow>
           if \<not> skippedPrefix \<and> depth = keyLength then Inr (Some (leaf_value w))
           else if depth \<noteq> keyLength
           then bind_res (loadKey data (leaf_value w)) (\<lambda>leafKey.
                  Inr (if \<forall>i \<in> set [(if skippedPrefix then 0 else depth)..<keyLength]. leafKey ! i = key ! i
                       then Some (leaf_value w) else None))
           else Inr (Some (leaf_value w))
       | _ \<Rightarrow>
           let plen = prefixLength (header n); prefix = node_prefix (header n)
           in bind_res (if plen < maxPrefixLength then mismatch plen (drop depth key) prefix else Inr plen) (\<lambda>pos.
             if pos \<noteq> plen then Inr None
             else bind_res (at key (depth + plen)) (\<lambda>keyByte.
               bind_res (child_of n keyByte) (\<lambda>c.
                 art_lookup data c key keyLength (depth + plen + 1)
                   (skippedPrefix \<or> \<not> plen < maxPrefixLength))))))"
  by pat_completeness auto
termination
proof (relation "measure (\<lambda>(data, x, key, l, depth, sk). case x of None \<Rightarrow> 0 | Some n \<Rightarrow> Suc (size n))")
qed (auto dest: size_child_of split: option.splits)

function art_lookupPessimistic ::
  "u64 KeyValue list \<Rightarrow> art option \<Rightarrow> u8 list \<Rightarrow> nat \<Rightarrow> nat \<Rightarrow> u64 option res" where
  "art_lookupPessimistic data node key keyLength depth = (case node of
       None \<Rightarrow> Inr None
     | Some n \<Rightarrow> (case n of
         PseudoLeaf w \<Rightarrow> bind_res (leafMatches data (leaf_value w) key keyLength depth) (\<lambda>m.
           Inr (if m then Some (leaf_value w) else None))
       | _ \<Rightarrow> bind_res (prefixMismatch data n key depth) (\<lambda>pos.
           if pos \<noteq> prefixLength (header n) then Inr None
           else bind_res (at key (depth + prefixLength (header n))) (\<lambda>keyByte.
             bind_res (child_of n keyByte) (\<lambda>c.
               art_lookupPessimistic data c key keyLength (depth + prefixLength (header n) + 1))))))"
  by pat_completeness auto
termination
proof (relation "measure (\<lambda>(data, x, key, l, depth). case x of None \<Rightarrow> 0 | Some n \<Rightarrow> Suc (size n))")
qed (auto dest: size_child_of split: option.splits)

section \<open>Deletion\<close>

definition eraseNode4 :: "art_header \<Rightarrow> u8 list \<Rightarrow> art option list \<Rightarrow> nat \<Rightarrow> art option" where
  "eraseNode4 h ks cs pos =
     (let cnt = node_count h - 1;
          ks = memmove ks pos (pos + 1) (cnt - pos);
          cs = memmove cs pos (pos + 1) (cnt - pos);
          plen = prefixLength h
      in if cnt = 1
         then case cs ! 0 of
             None \<Rightarrow> None
           | Some child \<Rightarrow>
               if isLeaf child then Some child
               else let own = node_prefix h @ (if plen < maxPrefixLength then [ks ! 0] else []);
                        l1 = (if plen < maxPrefixLength then plen + 1 else plen);
                        l2 = min (prefixLength (header child)) (maxPrefixLength - l1);
                        bytes = own @ (if l1 < maxPrefixLength then take l2 (node_prefix (header child)) else [])
                    in Some (put_header child ((header child)\<lparr>
                         prefixLength := prefixLength (header child) + (plen + 1), node_prefix := bytes\<rparr>))
         else Some (Node4 (h\<lparr>node_count := cnt\<rparr>) ks cs))"

definition eraseNode16 :: "art_header \<Rightarrow> u8 list \<Rightarrow> art option list \<Rightarrow> nat \<Rightarrow> art" where
  "eraseNode16 h ks cs pos =
     (let cnt = node_count h - 1;
          ks = memmove ks pos (pos + 1) (cnt - pos);
          cs = memmove cs pos (pos + 1) (cnt - pos)
      in if cnt = 3 then Node4 (copyPrefix h 4) (take 4 ks) (take 4 cs)
         else Node16 (h\<lparr>node_count := cnt\<rparr>) ks cs)"

definition eraseNode48 :: "art_header \<Rightarrow> u8 list \<Rightarrow> art option list \<Rightarrow> u8 \<Rightarrow> art" where
  "eraseNode48 h ci cs keyByte =
     (let cs = cs[unat (ci ! unat keyByte) := None];
          ci = ci[unat keyByte := emptyMarker];
          cnt = node_count h - 1
      in if cnt = 12
         then let used = filter (\<lambda>b. ci ! b \<noteq> emptyMarker) [0..<256]
              in Node16 (copyPrefix h (length used))
                   (map word_of_nat used @ replicate (16 - length used) 0)
                   (map (\<lambda>b. cs ! unat (ci ! b)) used @ replicate (16 - length used) None)
         else Node48 (h\<lparr>node_count := cnt\<rparr>) ci cs)"

definition eraseNode256 :: "art_header \<Rightarrow> art option list \<Rightarrow> u8 \<Rightarrow> art" where
  "eraseNode256 h cs keyByte =
     (let cs = cs[unat keyByte := None];
          cnt = node_count h - 1
      in if cnt = 37
         then let used = filter (\<lambda>b. cs ! b \<noteq> None) [0..<256]
              in Node48 (copyPrefix h (length used))
                   (foldl (\<lambda>ci i. ci[used ! i := word_of_nat i]) (replicate 256 emptyMarker) [0..<length used])
                   (map (\<lambda>b. cs ! b) used @ replicate (48 - length used) None)
         else Node256 (h\<lparr>node_count := cnt\<rparr>) cs)"

definition erase_child :: "art \<Rightarrow> nat \<Rightarrow> u8 \<Rightarrow> art option" where
  "erase_child n i keyByte = (case n of
       Node4 h ks cs \<Rightarrow> eraseNode4 h ks cs i
     | Node16 h ks cs \<Rightarrow> Some (eraseNode16 h ks cs i)
     | Node48 h ci cs \<Rightarrow> Some (eraseNode48 h ci cs keyByte)
     | Node256 h cs \<Rightarrow> Some (eraseNode256 h cs keyByte)
     | PseudoLeaf w \<Rightarrow> Some n)"

text \<open>The result is the new value of \<open>*nodeRef\<close>.\<close>

function art_erase ::
  "u64 KeyValue list \<Rightarrow> art option \<Rightarrow> u8 list \<Rightarrow> nat \<Rightarrow> nat \<Rightarrow> art option res" where
  "art_erase data node key keyLength depth = (case node of
       None \<Rightarrow> Inr None
     | Some n \<Rightarrow> (case n of
         PseudoLeaf w \<Rightarrow> bind_res (leafMatches data (leaf_value w) key keyLength depth) (\<lambda>m.
           Inr (if m then None else node))
       | _ \<Rightarrow> bind_res (if prefixLength (header n) \<noteq> 0 then prefixMismatch data n key depth else Inr 0) (\<lambda>pos.
           if pos \<noteq> prefixLength (header n) then Inr node
           else let depth = depth + prefixLength (header n)
                in bind_res (at key depth) (\<lambda>keyByte.
             case findChild n keyByte of
               None \<Rightarrow> Inr node
             | Some i \<Rightarrow> bind_res (kid n i) (\<lambda>c.
                 bind_res (case c of Some (PseudoLeaf w) \<Rightarrow> leafMatches data (leaf_value w) key keyLength depth
                             | _ \<Rightarrow> Inr False) (\<lambda>m.
                   if m then Inr (erase_child n i keyByte)
                   else bind_res (art_erase data c key keyLength (depth + 1)) (\<lambda>c'.
                          Inr (Some (put_child n i c')))))))))"
  by pat_completeness auto
termination
proof (relation "measure (\<lambda>(data, x, key, l, depth). case x of None \<Rightarrow> 0 | Some n \<Rightarrow> Suc (size n))")
qed (auto dest: size_kid split: option.splits)

section \<open>Destruction\<close>

text \<open>\<open>sizeof\<close> of the nodes.\<close>

definition node_sizeof :: "art \<Rightarrow> nat" where
  "node_sizeof n = (case n of
       PseudoLeaf w \<Rightarrow> 0 | Node4 h ks cs \<Rightarrow> 56 | Node16 h ks cs \<Rightarrow> 160 | Node48 h ci cs \<Rightarrow> 656 | Node256 h cs \<Rightarrow> 2064)"

definition destruct_slots :: "art \<Rightarrow> nat list" where
  "destruct_slots n = (case n of
       PseudoLeaf w \<Rightarrow> []
     | Node48 h ci cs \<Rightarrow> map (\<lambda>i. unat (ci ! i)) (filter (\<lambda>i. ci ! i \<noteq> emptyMarker) [0..<256])
     | Node256 h cs \<Rightarrow> filter (\<lambda>i. cs ! i \<noteq> None) [0..<256]
     | _ \<Rightarrow> [0..<node_count (header n)])"

definition inner_children :: "art \<Rightarrow> art list" where
  "inner_children n = concat (map (\<lambda>i. case kid n i of Inr (Some c) \<Rightarrow> if isLeaf c then [] else [c] | _ \<Rightarrow> [])
     (destruct_slots n))"

lemma size_inner_children: "c \<in> set (inner_children n) \<Longrightarrow> size c < size n"
  by (auto simp: inner_children_def size_kid split: sum.splits option.splits if_splits)

text \<open>
  The bytes that are given back. The root is not tested for being a pseudo leaf, whose type
  cannot be read.
\<close>

function destruct_node :: "art \<Rightarrow> nat" where
  "destruct_node n = sum_list (map destruct_node (inner_children n)) + node_sizeof n"
  by pat_completeness auto
termination by (relation "measure size") (auto dest: size_inner_children)

definition destructTree :: "art option \<Rightarrow> nat res" where
  "destructTree node = (case node of
       None \<Rightarrow> Inr 0
     | Some n \<Rightarrow> if isLeaf n then Inl Undefined else Inr (destruct_node n))"

section \<open>The competitor\<close>

record ARTPrimaryLB =
  art_tree :: "art option"
  art_data :: "u64 KeyValue list"
  art_data_size :: u64

fun art_fill :: "nat \<Rightarrow> u64 KeyValue list \<Rightarrow> nat list \<Rightarrow> u64 \<Rightarrow> art option \<Rightarrow> art option res" where
  "art_fill size_scale data [] last_key tree = Inr tree"
| "art_fill size_scale data (i # is) last_key tree =
     (if size_scale > 1 \<and> i mod size_scale \<noteq> 0 then art_fill size_scale data is last_key tree
      else let data_key = kv_key (data ! i)
           in if data_key = last_key then art_fill size_scale data is last_key tree
              else bind_res (art_insert data tree (swapBytes data_key) 0 (word_of_nat i)) (\<lambda>t.
                     art_fill size_scale data is data_key (Some t)))"

definition art_Build :: "nat \<Rightarrow> u64 KeyValue list \<Rightarrow> ARTPrimaryLB res" where
  "art_Build size_scale data =
     bind_res (art_fill size_scale data [0..<length data] (- 1) None) (\<lambda>tree.
       Inr \<lparr>art_tree = tree, art_data = data, art_data_size = word_of_nat (length data)\<rparr>)"

definition art_EqualityLookup :: "nat \<Rightarrow> ARTPrimaryLB \<Rightarrow> u64 \<Rightarrow> SearchBound res option" where
  "art_EqualityLookup size_scale st lookup_key =
     (case art_bound (art_data st) (art_tree st) (swapBytes lookup_key) 8 True of
        None \<Rightarrow> None
      | Some (Inl e) \<Rightarrow> Some (Inl e)
      | Some (Inr (found, stack)) \<Rightarrow>
          let guess = (case found of Some v \<Rightarrow> v | None \<Rightarrow> art_data_size st - 1);
              error = word_of_nat (size_scale - 1);
              start = (if guess < error then 0 else guess - error);
              stop = guess + 1
          in Some (Inr \<lparr>sb_start = unat start, sb_stop = unat stop\<rparr>))"

definition art_Insert :: "ARTPrimaryLB \<Rightarrow> u64 KeyValue \<Rightarrow> ARTPrimaryLB res" where
  "art_Insert st kv =
     bind_res (art_insert (art_data st) (art_tree st) (swapBytes (kv_key kv)) 0 (kv_value kv)) (\<lambda>t.
       Inr (st\<lparr>art_tree := Some t, art_data_size := art_data_size st + 1\<rparr>))"

end
