(* ===== verification/ArtNodes.thy ===== *)
theory ArtNodes
  imports AdaptiveRadixTree
begin

text \<open>
  The four node layouts of the adaptive radix tree seen as one: the list of the children of a
  node with their bytes, in the order of the bytes. The search of a byte, the insertion of a
  child, the replacement of a child and the steps of the iterator are related to this list.
\<close>

section \<open>Children in the order of their bytes\<close>

definition get :: "'a option list \<Rightarrow> nat \<Rightarrow> 'a option" where
  "get cs i = (if i < length cs then cs ! i else None)"

text \<open>The bytes and the slots of the children from a position of the iterator on.\<close>

fun slots_from :: "art \<Rightarrow> nat \<Rightarrow> (u8 \<times> nat) list" where
  "slots_from (Node4 h ks cs) pos = map (\<lambda>i. (ks ! i, i)) [pos..<node_count h]"
| "slots_from (Node16 h ks cs) pos = map (\<lambda>i. (ks ! i, i)) [pos..<node_count h]"
| "slots_from (Node48 h ci cs) pos =
     map (\<lambda>b. (word_of_nat b, unat (ci ! b))) (filter (\<lambda>b. ci ! b \<noteq> emptyMarker) [pos..<256])"
| "slots_from (Node256 h cs) pos = map (\<lambda>b. (word_of_nat b, b)) [pos..<256]"
| "slots_from (PseudoLeaf w) pos = []"

definition kids_from :: "art \<Rightarrow> nat \<Rightarrow> (u8 \<times> art) list" where
  "kids_from n pos = concat (map (\<lambda>(b, i). case get (children n) i of None \<Rightarrow> [] | Some c \<Rightarrow> [(b, c)]) (slots_from n pos))"

abbreviation kids :: "art \<Rightarrow> (u8 \<times> art) list" where
  "kids n \<equiv> kids_from n 0"

lemma set_kids: "(b, c) \<in> set (kids_from n pos) \<longleftrightarrow> (\<exists>i. (b, i) \<in> set (slots_from n pos) \<and> get (children n) i = Some c)"
  by (force simp: kids_from_def split: option.splits)

lemma size_kids: "(b, c) \<in> set (kids n) \<Longrightarrow> size c < size n"
proof -
  assume "(b, c) \<in> set (kids n)"
  then obtain i where "get (children n) i = Some c" by (auto simp: set_kids)
  then have "kid n i = Inr (Some c)" by (simp add: get_def kid_def split: if_splits)
  then show ?thesis by (rule size_kid)
qed

section \<open>Well formed nodes\<close>

definition sorted_ok :: "nat \<Rightarrow> art_header \<Rightarrow> u8 list \<Rightarrow> art option list \<Rightarrow> bool" where
  "sorted_ok cap h ks cs \<longleftrightarrow> length ks = cap \<and> length cs = cap \<and> node_count h \<le> cap \<and>
     (\<forall>j < node_count h. \<forall>i < j. ks ! i < ks ! j) \<and> (\<forall>i < node_count h. cs ! i \<noteq> None)"

definition index_ok :: "art_header \<Rightarrow> u8 list \<Rightarrow> art option list \<Rightarrow> bool" where
  "index_ok h ci cs \<longleftrightarrow> length ci = 256 \<and> length cs = 48 \<and> node_count h \<le> 48 \<and>
     (\<forall>b < 256. ci ! b \<noteq> emptyMarker \<longrightarrow> unat (ci ! b) < node_count h) \<and>
     (\<forall>a < 256. \<forall>b < 256. ci ! a \<noteq> emptyMarker \<longrightarrow> ci ! a = ci ! b \<longrightarrow> a = b) \<and>
     (\<forall>i < 48. cs ! i \<noteq> None \<longleftrightarrow> i < node_count h)"

fun node_ok :: "art \<Rightarrow> bool" where
  "node_ok (Node4 h ks cs) = (length (node_prefix h) = min (prefixLength h) maxPrefixLength \<and> sorted_ok 4 h ks cs)"
| "node_ok (Node16 h ks cs) = (length (node_prefix h) = min (prefixLength h) maxPrefixLength \<and> sorted_ok 16 h ks cs)"
| "node_ok (Node48 h ci cs) = (length (node_prefix h) = min (prefixLength h) maxPrefixLength \<and> index_ok h ci cs)"
| "node_ok (Node256 h cs) = (length (node_prefix h) = min (prefixLength h) maxPrefixLength \<and> length cs = 256)"
| "node_ok (PseudoLeaf w) = False"

lemma sorted_okD:
  assumes "sorted_ok cap h ks cs"
  shows "length ks = cap" "length cs = cap" "node_count h \<le> cap"
    and "i < j \<Longrightarrow> j < node_count h \<Longrightarrow> ks ! i < ks ! j"
    and "i < node_count h \<Longrightarrow> \<exists>c. cs ! i = Some c"
  using assms by (auto simp: sorted_ok_def)

lemma sorted_ok_key_eq:
  "sorted_ok cap h ks cs \<Longrightarrow> i < node_count h \<Longrightarrow> j < node_count h \<Longrightarrow> ks ! i = ks ! j \<longleftrightarrow> i = j"
  by (cases i j rule: linorder_cases) (auto dest: sorted_okD(4))

lemma sorted_ok_key_less:
  "sorted_ok cap h ks cs \<Longrightarrow> i < node_count h \<Longrightarrow> j < node_count h \<Longrightarrow> ks ! i < ks ! j \<longleftrightarrow> i < j"
  by (cases i j rule: linorder_cases) (auto dest: sorted_okD(4))

lemma index_okD:
  assumes "index_ok h ci cs"
  shows "length ci = 256" "length cs = 48" "node_count h \<le> 48"
    and "b < 256 \<Longrightarrow> ci ! b \<noteq> emptyMarker \<Longrightarrow> unat (ci ! b) < node_count h"
    and "a < 256 \<Longrightarrow> b < 256 \<Longrightarrow> ci ! a \<noteq> emptyMarker \<Longrightarrow> ci ! a = ci ! b \<Longrightarrow> a = b"
    and "i < 48 \<Longrightarrow> cs ! i \<noteq> None \<longleftrightarrow> i < node_count h"
  using assms unfolding index_ok_def by blast+

lemma unat_u8 [simp]: "b < 256 \<Longrightarrow> unat (word_of_nat b :: u8) = b"
  by simp

lemma byte_of_unat: "word_of_nat (unat b) = (b :: u8)"
  by simp

lemma byte_eq: "unat (a :: u8) = unat b \<longleftrightarrow> a = b"
  by (rule word_unat_eq_iff [symmetric])

lemma byte_less: "unat (b :: u8) < 256"
  using unat_bound [of b] by simp

text \<open>The slots have distinct bytes in increasing order.\<close>

lemma slots_sorted:
  assumes "node_ok n" shows "sorted_wrt (<) (map fst (slots_from n pos))"
proof -
  have upt: "sorted_wrt (<) (map (word_of_nat :: nat \<Rightarrow> u8) (filter P [pos..<256]))" for P
    unfolding sorted_wrt_map by (rule sorted_wrt_mono_rel [OF _ sorted_wrt_filter [OF sorted_wrt_upt]])
      (auto simp: word_less_nat_alt)
  have arr: "sorted_wrt (<) (map (\<lambda>i. ks ! i) [pos..<node_count h])" if "sorted_ok cap h ks cs" for cap h ks cs
    using sorted_okD(4) [OF that] by (simp add: sorted_wrt_iff_nth_less)
  show ?thesis
    using assms upt upt [of "\<lambda>_. True"] arr by (cases n) (auto simp: o_def)
qed

lemma filter_subseq_sorted: "sorted_wrt R (map f xs) \<Longrightarrow> sorted_wrt R (map f (filter P xs))"
  by (simp add: sorted_wrt_map sorted_wrt_filter)

lemma kids_from_fst: "map fst (kids_from n pos)
    = map fst (filter (\<lambda>(b, i). get (children n) i \<noteq> None) (slots_from n pos))"
proof -
  have "map fst (concat (map (\<lambda>(b, i). case get cs i of None \<Rightarrow> [] | Some c \<Rightarrow> [(b, c)]) xs))
      = map fst (filter (\<lambda>(b, i). get cs i \<noteq> None) xs)" for cs and xs :: "(u8 \<times> nat) list"
    by (induction xs) (auto split: option.splits)
  then show ?thesis by (simp add: kids_from_def)
qed

lemma kids_sorted: "node_ok n \<Longrightarrow> sorted_wrt (<) (map fst (kids_from n pos))"
  unfolding kids_from_fst by (rule filter_subseq_sorted [OF slots_sorted])

lemma kids_distinct: "node_ok n \<Longrightarrow> distinct (map fst (kids_from n pos))"
  using kids_sorted [of n pos] by (simp add: strict_sorted_iff)

lemma kids_unique: "node_ok n \<Longrightarrow> (b, c) \<in> set (kids n) \<Longrightarrow> (b, c') \<in> set (kids n) \<Longrightarrow> c = c'"
  using kids_distinct [of n 0] by (metis eq_key_imp_eq_value)

lemma map_of_kids: "node_ok n \<Longrightarrow> map_of (kids n) b = Some c \<longleftrightarrow> (b, c) \<in> set (kids n)"
  by (simp add: kids_distinct)

section \<open>The search of a byte\<close>

lemma find_upt_Some:
  "List.find P [m..<n] = Some i \<longleftrightarrow> m \<le> i \<and> i < n \<and> P i \<and> (\<forall>j. m \<le> j \<longrightarrow> j < i \<longrightarrow> \<not> P j)"
proof
  assume "List.find P [m..<n] = Some i"
  then obtain k where k: "k < n - m" "P (m + k)" "i = m + k" and before: "\<And>j. j < k \<Longrightarrow> \<not> P (m + j)"
    by (auto simp: find_Some_iff)
  have "\<not> P j" if "m \<le> j" "j < i" for j using before [of "j - m"] k that by simp
  with k show "m \<le> i \<and> i < n \<and> P i \<and> (\<forall>j. m \<le> j \<longrightarrow> j < i \<longrightarrow> \<not> P j)" by auto
next
  assume "m \<le> i \<and> i < n \<and> P i \<and> (\<forall>j. m \<le> j \<longrightarrow> j < i \<longrightarrow> \<not> P j)"
  then show "List.find P [m..<n] = Some i"
    unfolding find_Some_iff by (intro exI [of _ "i - m"]) auto
qed

lemma find_upt_None: "List.find P [m..<n] = None \<longleftrightarrow> (\<forall>i. m \<le> i \<longrightarrow> i < n \<longrightarrow> \<not> P i)"
  by (auto simp: find_None_iff)

lemma bit_byte_mask:
  assumes "length ks = 16" and "cnt \<le> 16"
  shows "bit (byte_mask cnt k ks) i \<longleftrightarrow> i < cnt \<and> ks ! i = k"
  using assms by (auto simp: byte_mask_def bit_and_iff bit_mask_iff bit_horner_sum_bit_word_iff)

lemma find_byte_mask:
  assumes "length ks = 16" and "cnt \<le> 16"
  shows "(if byte_mask cnt k ks \<noteq> 0 then Some (builtin_ctz (byte_mask cnt k ks)) else None)
    = List.find (\<lambda>i. ks ! i = k) [0..<cnt]"
proof (cases "List.find (\<lambda>i. ks ! i = k) [0..<cnt]")
  case None
  then have "byte_mask cnt k ks = 0"
    unfolding find_upt_None by (auto simp: bit_eq_iff bit_byte_mask [OF assms])
  with None show ?thesis by simp
next
  case (Some i)
  then have i: "i < cnt" "ks ! i = k" "\<And>j. j < i \<Longrightarrow> ks ! j \<noteq> k" by (auto simp: find_upt_Some)
  have "bit (byte_mask cnt k ks) i" using i by (simp add: bit_byte_mask [OF assms])
  then have "byte_mask cnt k ks \<noteq> 0" by auto
  moreover have "builtin_ctz (byte_mask cnt k ks) = i"
    using i assms by (intro builtin_ctz_eq) (auto simp: bit_byte_mask [OF assms])
  ultimately show ?thesis using Some by simp
qed

lemma findChild_Node16:
  "sorted_ok 16 h ks cs \<Longrightarrow> findChild (Node16 h ks cs) k = List.find (\<lambda>i. ks ! i = k) [0..<node_count h]"
  using find_byte_mask [of ks "node_count h" k] by (auto simp: sorted_ok_def Let_def)

lemma findChild_slots:
  assumes "node_ok n"
  shows "findChild n k = Some i \<longleftrightarrow> (k, i) \<in> set (slots_from n 0)"
proof (cases n)
  case (Node4 h ks cs)
  with assms sorted_ok_key_eq [of 4 h ks cs] show ?thesis by (auto simp: find_upt_Some)
next
  case (Node16 h ks cs)
  with assms findChild_Node16 [of h ks cs k] sorted_ok_key_eq [of 16 h ks cs] show ?thesis
    by (auto simp: find_upt_Some simp del: findChild.simps)
next
  case (Node48 h ci cs)
  have "(k, i) \<in> set (slots_from n 0) \<longleftrightarrow> ci ! unat k \<noteq> emptyMarker \<and> i = unat (ci ! unat k)"
    using byte_less [of k] byte_of_unat [of k] Node48 by (auto simp: image_iff)
  with Node48 show ?thesis by auto
next
  case (Node256 h cs)
  have "(k, i) \<in> set (slots_from n 0) \<longleftrightarrow> i = unat k"
    using byte_less [of k] byte_of_unat [of k] Node256 by (auto simp: image_iff)
  with Node256 show ?thesis by auto
qed (use assms in simp)

lemma slot_in_range:
  assumes "node_ok n" and "(k, i) \<in> set (slots_from n 0)"
  shows "i < length (children n)"
proof (cases n)
  case (Node48 h ci cs)
  with assms have ok: "index_ok h ci cs" by simp
  from assms(2) Node48 obtain b where "b < 256" "ci ! b \<noteq> emptyMarker" "i = unat (ci ! b)" by auto
  with index_okD(4) [OF ok] index_okD(2,3) [OF ok] Node48 show ?thesis by fastforce
qed (use assms in \<open>auto simp: sorted_ok_def\<close>)

lemma findChild_kid:
  assumes "node_ok n"
  shows "findChild n k = None \<Longrightarrow> map_of (kids n) k = None"
    and "findChild n k = Some i \<Longrightarrow> kid n i = Inr (map_of (kids n) k)"
proof -
  have slot: "i = j" if "(k, i) \<in> set (slots_from n 0)" "(k, j) \<in> set (slots_from n 0)" for i j
    using findChild_slots [OF assms] that by (metis option.inject)
  show "map_of (kids n) k = None" if "findChild n k = None"
  proof (rule ccontr)
    assume "map_of (kids n) k \<noteq> None"
    then obtain c where "(k, c) \<in> set (kids n)" using map_of_kids [OF assms] by auto
    then show False using findChild_slots [OF assms, of k] that by (auto simp: set_kids)
  qed
  show "kid n i = Inr (map_of (kids n) k)" if f: "findChild n k = Some i"
  proof -
    have s: "(k, i) \<in> set (slots_from n 0)" using f findChild_slots [OF assms] by simp
    have "map_of (kids n) k = get (children n) i"
    proof (cases "map_of (kids n) k")
      case None
      show ?thesis
      proof (rule ccontr)
        assume "map_of (kids n) k \<noteq> get (children n) i"
        with None obtain c where "get (children n) i = Some c" by (metis not_Some_eq)
        with s have "(k, c) \<in> set (kids n)" by (auto simp: set_kids)
        with None map_of_kids [OF assms, of k c] show False by simp
      qed
    next
      case (Some c)
      then obtain j where j: "(k, j) \<in> set (slots_from n 0)" "get (children n) j = Some c"
        using map_of_kids [OF assms, of k c] by (auto simp: set_kids)
      with Some slot [OF s j(1)] show ?thesis by simp
    qed
    with slot_in_range [OF assms s] show ?thesis by (simp add: kid_def get_def)
  qed
qed

lemma child_of_kids: "node_ok n \<Longrightarrow> child_of n k = Inr (map_of (kids n) k)"
  using findChild_kid [of n k] by (auto simp: child_of_def split: option.splits)

section \<open>The steps of the iterator\<close>

definition kid_list :: "art option list \<Rightarrow> (u8 \<times> nat) list \<Rightarrow> (u8 \<times> art) list" where
  "kid_list cs xs = concat (map (\<lambda>(b, i). case get cs i of None \<Rightarrow> [] | Some c \<Rightarrow> [(b, c)]) xs)"

lemma kids_from_list: "kids_from n pos = kid_list (children n) (slots_from n pos)"
  by (simp add: kids_from_def kid_list_def)

lemma kid_list_Cons:
  "kid_list cs ((b, i) # xs) = (case get cs i of None \<Rightarrow> [] | Some c \<Rightarrow> [(b, c)]) @ kid_list cs xs"
  by (simp add: kid_list_def)

lemma kid_list_skip: "\<forall>p \<in> set ys. get cs (snd p) = None \<Longrightarrow> kid_list cs (ys @ xs) = kid_list cs xs"
  by (induction ys) (auto simp: kid_list_def)

lemma upt_split: "m \<le> b \<Longrightarrow> b < (n :: nat) \<Longrightarrow> [m..<n] = [m..<b] @ b # [Suc b..<n]"
  by (metis le_add_diff_inverse upt_add_eq_append upt_conv_Cons less_imp_le)

text \<open>\<open>next_child\<close> takes the first of the remaining children.\<close>

lemma next_child_kids:
  assumes "node_ok n"
  shows "case kids_from n pos of
      [] \<Rightarrow> \<exists>p. next_child n pos = Inr (None, p)
    | (b, c) # xs \<Rightarrow> \<exists>p. next_child n pos = Inr (Some c, p) \<and> kids_from n p = xs"
proof -
  have sorted: ?thesis if n: "slots_from n = (\<lambda>pos. map (\<lambda>i. (ks ! i, i)) [pos..<node_count h])"
      "children n = cs" "header n = h" "sorted_ok cap h ks cs"
      "next_child n pos = (if pos < node_count (header n)
         then bind_res (at (children n) pos) (\<lambda>c. Inr (c, pos + 1)) else Inr (None, pos))" for cap h ks cs
  proof (cases "pos < node_count h")
    case True
    then obtain c where c: "cs ! pos = Some c" using sorted_okD(5) [OF n(4)] by blast
    have len: "pos < length cs" using True sorted_okD(2,3) [OF n(4)] by simp
    have "slots_from n pos = (ks ! pos, pos) # slots_from n (pos + 1)"
      using True by (simp add: n(1) upt_conv_Cons)
    with c len have "kids_from n pos = (ks ! pos, c) # kids_from n (pos + 1)"
      by (simp add: kids_from_list kid_list_Cons n(2) get_def)
    then show ?thesis using True c len by (simp add: n)
  next
    case False
    then show ?thesis by (simp add: kids_from_list kid_list_def n)
  qed
  show ?thesis
  proof (cases n)
    case (Node4 h ks cs)
    then show ?thesis using assms by (intro sorted [where h = h and ks = ks and cs = cs and cap = 4]) (auto simp: next_child_def)
  next
    case (Node16 h ks cs)
    then show ?thesis using assms by (intro sorted [where h = h and ks = ks and cs = cs and cap = 16]) (auto simp: next_child_def)
  next
    case (Node48 h ci cs)
    have ok: "index_ok h ci cs" using assms Node48 by simp
    show ?thesis
    proof (cases "List.find (\<lambda>b. ci ! b \<noteq> emptyMarker) [pos..<256]")
      case None
      then have "slots_from n pos = []" using Node48 by (auto simp: find_upt_None filter_empty_conv)
      then show ?thesis using None Node48 by (simp add: kids_from_list kid_list_def next_child_def next_used_def)
    next
      case (Some b)
      then have b: "pos \<le> b" "b < 256" "ci ! b \<noteq> emptyMarker" "\<And>j. pos \<le> j \<Longrightarrow> j < b \<Longrightarrow> ci ! j = emptyMarker"
        by (auto simp: find_upt_Some)
      have i: "unat (ci ! b) < 48" using index_okD(3) [OF ok] index_okD(4) [OF ok b(2,3)] by simp
      then obtain c where c: "cs ! unat (ci ! b) = Some c"
        using index_okD(6) [OF ok i] index_okD(4) [OF ok b(2,3)] by auto
      have "filter (\<lambda>b. ci ! b \<noteq> emptyMarker) [pos..<256] = b # filter (\<lambda>b. ci ! b \<noteq> emptyMarker) [Suc b..<256]"
        using b by (subst upt_split [OF b(1,2)]) (auto simp: filter_empty_conv)
      then have "kids_from n pos = (word_of_nat b, c) # kids_from n (b + 1)"
        using Node48 c i index_okD(2) [OF ok] by (simp add: kids_from_list kid_list_Cons get_def)
      moreover have "next_child n pos = Inr (Some c, b + 1)"
        using Node48 Some c i index_okD(2) [OF ok] by (simp add: next_child_def next_used_def)
      ultimately show ?thesis by simp
    qed
  next
    case (Node256 h cs)
    have len: "length cs = 256" using assms Node256 by simp
    show ?thesis
    proof (cases "List.find (\<lambda>b. cs ! b \<noteq> None) [pos..<256]")
      case None
      then have "kids_from n pos = []"
        using Node256 len by (auto simp: kids_from_list kid_list_def find_upt_None get_def)
      then show ?thesis using None Node256 by (simp add: next_child_def next_used_def)
    next
      case (Some b)
      then have b: "pos \<le> b" "b < 256" "cs ! b \<noteq> None" "\<And>j. pos \<le> j \<Longrightarrow> j < b \<Longrightarrow> cs ! j = None"
        by (auto simp: find_upt_Some)
      then obtain c where c: "cs ! b = Some c" by auto
      have "slots_from n pos = map (\<lambda>b. (word_of_nat b, b)) [pos..<b] @ (word_of_nat b, b) # slots_from n (b + 1)"
        using Node256 upt_split [OF b(1,2)] by simp
      moreover have "\<forall>p \<in> set (map (\<lambda>b. (word_of_nat b :: u8, b)) [pos..<b]). get cs (snd p) = None"
        using b(4) by (auto simp: get_def)
      ultimately have "kids_from n pos = (word_of_nat b, c) # kids_from n (b + 1)"
        using Node256 c b(2) len by (simp add: kids_from_list kid_list_skip kid_list_Cons get_def)
      moreover have "next_child n pos = Inr (Some c, b + 1)"
        using Node256 Some c b(2) len by (simp add: next_child_def next_used_def)
      ultimately show ?thesis by simp
    qed
  qed (use assms in simp)
qed

section \<open>The position of a bound\<close>

lemma kids_from_later:
  assumes "node_ok n"
  shows "p \<le> q \<Longrightarrow> set (kids_from n q) \<subseteq> set (kids_from n p)"
proof -
  assume "p \<le> q"
  then have "set (slots_from n q) \<subseteq> set (slots_from n p)" by (cases n) auto
  then show ?thesis by (force simp: kids_from_def)
qed

lemma sorted_wrt_eqI:
  fixes xs ys :: "('a::linorder \<times> 'b) list"
  assumes "sorted_wrt (<) (map fst xs)" and "sorted_wrt (<) (map fst ys)" and "set xs = set ys"
  shows "xs = ys"
  using assms map_sorted_distinct_set_unique [of fst xs ys]
  by (simp add: strict_sorted_iff inj_on_def distinct_map)

lemma bound_child_kids:
  assumes ok: "node_ok n"
  obtains c pos where "bound_child n k = Inr (c, pos)" and "c = map_of (kids n) k"
    and "kids_from n (if c = None then pos else pos + 1) = filter (\<lambda>(b, _). k < b) (kids n)"
proof -
  note result = that
  have fin: thesis if b: "bound_child n k = Inr (c, pos)" "c = map_of (kids n) k"
    and after: "\<And>b i. (b, i) \<in> set (slots_from n (if c = None then pos else pos + 1)) \<longleftrightarrow>
      (b, i) \<in> set (slots_from n 0) \<and> (k < b \<or> b = k \<and> get (children n) i = None \<and> c = None)" for c pos
  proof (rule result [OF b])
    let ?q = "if c = None then pos else pos + 1"
    have "set (kids_from n ?q) = set (filter (\<lambda>(b, _). k < b) (kids n))"
    proof (rule set_eqI)
      fix x :: "u8 \<times> art"
      obtain b d where x: "x = (b, d)" by (cases x)
      have "x \<in> set (kids_from n ?q) \<longleftrightarrow> (\<exists>i. (b, i) \<in> set (slots_from n ?q) \<and> get (children n) i = Some d)"
        unfolding x by (rule set_kids)
      also have "\<dots> \<longleftrightarrow> (\<exists>i. (b, i) \<in> set (slots_from n 0) \<and> get (children n) i = Some d) \<and> k < b"
        using after [of b] by auto
      finally show "x \<in> set (kids_from n ?q) \<longleftrightarrow> x \<in> set (filter (\<lambda>(b, _). k < b) (kids n))"
        by (simp add: x set_kids)
    qed
    then show "kids_from n ?q = filter (\<lambda>(b, _). k < b) (kids n)"
      by (intro sorted_wrt_eqI kids_sorted [OF ok] filter_subseq_sorted)
  qed
  note found = findChild_slots [OF ok, of k] findChild_kid [OF ok, of k]
  have sorted: thesis if n: "slots_from n = (\<lambda>pos. map (\<lambda>i. (ks ! i, i)) [pos..<node_count h])"
      "children n = cs" "sorted_ok cap h ks cs" "bound_child n k = sorted_child ks cs (node_count h) k" for cap h ks cs
  proof -
    let ?p = "insert_pos ks (node_count h) k"
    have p: "?p = lb (\<lambda>x. x < k) (take (node_count h) ks)" by (simp add: insert_pos_def lb_def)
    have len: "length (take (node_count h) ks) = node_count h" using sorted_okD(1,3) [OF n(3)] by simp
    have part: "partitioned (\<lambda>x. x < k) (take (node_count h) ks)"
      unfolding partitioned_def len using sorted_okD(4) [OF n(3)] by (auto simp: le_less intro: less_trans)
    have le: "?p \<le> node_count h" unfolding p using lb_le [of _ "take (node_count h) ks"] len by metis
    have less: "ks ! i < k \<longleftrightarrow> i < ?p" if "i < node_count h" for i
      using partitioned_iff [OF part, of i] that len p by simp
    show thesis
    proof (cases "?p < node_count h \<and> ks ! ?p = k")
      case True
      then obtain c where c: "cs ! ?p = Some c" using sorted_okD(5) [OF n(3)] by blast
      have lp: "?p < length cs" using True sorted_okD(2,3) [OF n(3)] by simp
      have slot: "(k, ?p) \<in> set (slots_from n 0)" using True by (force simp: n(1))
      then have "(k, c) \<in> set (kids n)" using c lp by (force simp: set_kids n(2) get_def)
      then have "Some c = map_of (kids n) k" using map_of_kids [OF ok, of k c] by metis
      moreover have "bound_child n k = Inr (Some c, ?p)" using True c lp by (simp add: n(4) sorted_child_def Let_def)
      moreover have "(b, i) \<in> set (slots_from n (?p + 1)) \<longleftrightarrow> (b, i) \<in> set (slots_from n 0) \<and> k < b" for b i
        using True less sorted_ok_key_less [OF n(3), of ?p] by (auto simp: n(1) Suc_le_eq)
      ultimately show thesis by (intro fin [of "Some c" ?p]) auto
    next
      case False
      then have none: "k \<noteq> ks ! i" if "i < node_count h" for i
        using that less [OF that] less [of ?p] sorted_ok_key_less [OF n(3), of ?p i] le
        by (metis le_neq_implies_less linorder_neqE_nat order_less_irrefl)
      have gt: "k < ks ! i \<longleftrightarrow> ?p \<le> i" if "i < node_count h" for i
        using less [OF that] none [OF that] by (metis linorder_neqE not_le less_asym)
      from none have "(k, i) \<notin> set (slots_from n 0)" for i by (auto simp: n(1) image_iff)
      then have "(k, c) \<notin> set (kids n)" for c by (simp add: set_kids)
      then have "map_of (kids n) k = None" using map_of_kids [OF ok, of k] by (metis not_Some_eq)
      moreover have "bound_child n k = Inr (None, ?p)" using False by (auto simp: n(4) sorted_child_def Let_def)
      moreover have "(b, i) \<in> set (slots_from n ?p) \<longleftrightarrow> (b, i) \<in> set (slots_from n 0) \<and> k < b" for b i
        using gt by (auto simp: n(1) image_iff)
      moreover have "(k, i) \<notin> set (slots_from n 0)" for i using none by (auto simp: n(1) image_iff)
      ultimately show thesis by (intro fin [of None ?p]) auto
    qed
  qed
  show thesis
  proof (cases n)
    case (Node4 h ks cs)
    then show ?thesis using ok by (intro sorted [where h = h and ks = ks and cs = cs and cap = 4]) (auto simp: bound_child_def)
  next
    case (Node16 h ks cs)
    then show ?thesis using ok by (intro sorted [where h = h and ks = ks and cs = cs and cap = 16]) (auto simp: bound_child_def)
  next
    case (Node48 h ci cs)
    have iok: "index_ok h ci cs" using ok Node48 by simp
    have byte: "k < word_of_nat b \<longleftrightarrow> unat k < b" if "b < 256" for b
      using that by (simp add: word_less_nat_alt)
    show ?thesis
    proof (cases "ci ! unat k = emptyMarker")
      case True
      then have f: "findChild n k = None" using Node48 by simp
      have "bound_child n k = Inr (None, unat k)" using True Node48 by (simp add: bound_child_def)
      moreover have "(k, i) \<notin> set (slots_from n 0)" for i using found(1) [of i] f by simp
      moreover have "(b, i) \<in> set (slots_from n (unat k)) \<longleftrightarrow> (b, i) \<in> set (slots_from n 0) \<and> k < b" for b i
        using Node48 True byte by (auto simp: le_less image_iff)
      ultimately show thesis using found(2) [OF f] by (intro fin [of None "unat k"]) auto
    next
      case False
      have f: "findChild n k = Some (unat (ci ! unat k))" using False Node48 by simp
      have i: "unat (ci ! unat k) < node_count h" using index_okD(4) [OF iok byte_less False] .
      then obtain c where c: "cs ! unat (ci ! unat k) = Some c"
        using index_okD(6) [OF iok, of "unat (ci ! unat k)"] index_okD(3) [OF iok] by auto
      have "bound_child n k = Inr (Some c, unat k)"
        using False Node48 c i index_okD(2,3) [OF iok] by (simp add: bound_child_def)
      moreover have "Some c = map_of (kids n) k"
        using found(3) [OF f] c i index_okD(2,3) [OF iok] Node48 by (simp add: kid_def)
      moreover have "(b, i) \<in> set (slots_from n (unat k + 1)) \<longleftrightarrow> (b, i) \<in> set (slots_from n 0) \<and> k < b" for b i
        using Node48 byte by (auto simp: Suc_le_eq image_iff)
      ultimately show thesis by (intro fin [of "Some c" "unat k"]) auto
    qed
  next
    case (Node256 h cs)
    have len: "length cs = 256" using ok Node256 by simp
    have byte: "k < word_of_nat b \<longleftrightarrow> unat k < b" if "b < 256" for b
      using that by (simp add: word_less_nat_alt)
    have "bound_child n k = Inr (cs ! unat k, unat k)" using Node256 byte_less [of k] len by (simp add: bound_child_def)
    moreover have m: "cs ! unat k = map_of (kids n) k"
      using found(3) [of "unat k"] Node256 byte_less [of k] len by (simp add: kid_def)
    moreover have "(b, i) \<in> set (slots_from n (if cs ! unat k = None then unat k else unat k + 1)) \<longleftrightarrow>
        (b, i) \<in> set (slots_from n 0) \<and> (k < b \<or> b = k \<and> get (children n) i = None \<and> cs ! unat k = None)" for b i
      using Node256 byte byte_less [of k] len by (auto simp: Suc_le_eq le_less image_iff get_def)
    ultimately show thesis by (intro fin [of "cs ! unat k" "unat k"]) auto
  qed (use ok in simp)
qed

section \<open>Replacement of a child\<close>

definition same_prefix :: "art \<Rightarrow> art \<Rightarrow> bool" where
  "same_prefix n n' \<longleftrightarrow> prefixLength (header n') = prefixLength (header n) \<and> node_prefix (header n') = node_prefix (header n)"

lemma slots_inj:
  assumes "node_ok n" and "(a, i) \<in> set (slots_from n 0)" and "(b, i) \<in> set (slots_from n 0)"
  shows "a = b"
proof (cases n)
  case (Node48 h ci cs)
  then have ok: "index_ok h ci cs" using assms(1) by simp
  from assms(2,3) Node48 obtain x y where xy: "x < 256" "ci ! x \<noteq> emptyMarker" "a = word_of_nat x" "i = unat (ci ! x)"
    "y < 256" "b = word_of_nat y" "i = unat (ci ! y)" by auto
  then have "ci ! x = ci ! y" by (metis word_unat_eq_iff)
  from index_okD(5) [OF ok xy(1,5,2) this] xy show ?thesis by simp
qed (use assms in auto)

lemma put_child_kids:
  assumes ok: "node_ok n" and f: "findChild n k = Some i" and c: "kid n i = Inr (Some c)"
  shows "node_ok (put_child n i (Some c'))" and "same_prefix n (put_child n i (Some c'))"
    and "set (kids (put_child n i (Some c'))) = insert (k, c') {(b, d) \<in> set (kids n). b \<noteq> k}"
proof -
  let ?n = "put_child n i (Some c')"
  have some: "i < length (children n)" "children n ! i \<noteq> None" using c by (auto simp: kid_def at_eq_Inr dest: sym)
  have arr: "sorted_ok cap h ks (cs[i := Some c'])" if "sorted_ok cap h ks cs" "i < length cs" for cap h ks cs
    using that by (auto simp: sorted_ok_def nth_list_update)
  have idx: "index_ok h ci (cs[i := Some c'])" if "index_ok h ci cs" "i < length cs" "cs ! i \<noteq> None" for h ci cs
    using that by (auto simp: index_ok_def nth_list_update)
  show "node_ok ?n" using ok some arr idx by (cases n) auto
  show "same_prefix n ?n" by (cases n) (simp_all add: same_prefix_def)
  have slots: "slots_from ?n = slots_from n" by (cases n) auto
  have cs: "children ?n = (children n)[i := Some c']" by (cases n) auto
  have g: "get (children ?n) j = (if j = i then Some c' else get (children n) j)" for j
    using some by (simp add: cs get_def nth_list_update)
  have ki: "(k, i) \<in> set (slots_from n 0)" using findChild_slots [OF ok] f by simp
  have only: "j = i \<longleftrightarrow> b = k" if "(b, j) \<in> set (slots_from n 0)" for b j
    using slots_inj [OF ok ki, of b] findChild_slots [OF ok, of k j] f that by auto
  show "set (kids ?n) = insert (k, c') {(b, d) \<in> set (kids n). b \<noteq> k}"
  proof (rule set_eqI)
    fix x :: "u8 \<times> art"
    obtain b d where x: "x = (b, d)" by (cases x)
    have "x \<in> set (kids ?n) \<longleftrightarrow> (\<exists>j. (b, j) \<in> set (slots_from n 0) \<and> (if b = k then d = c' else get (children n) j = Some d))"
      unfolding x set_kids slots g using only by auto
    also have "\<dots> \<longleftrightarrow> x \<in> insert (k, c') {(b, d) \<in> set (kids n). b \<noteq> k}"
      using ki by (auto simp: x set_kids)
    finally show "x \<in> set (kids ?n) \<longleftrightarrow> x \<in> insert (k, c') {(b, d) \<in> set (kids n). b \<noteq> k}" .
  qed
qed

section \<open>Insertion of a child\<close>

lemma memmove_insert_nth:
  assumes "p \<le> cnt" and "cnt < length xs" and "i \<le> cnt"
  shows "((memmove xs (p + 1) p (cnt - p))[p := x]) ! i = (if i < p then xs ! i else if i = p then x else xs ! (i - 1))"
proof -
  have len: "length (take (p + 1) xs) = p + 1" using assms by simp
  show ?thesis
  proof (cases "i \<le> p")
    case True
    then show ?thesis using assms by (auto simp: memmove_def nth_append nth_list_update)
  next
    case False
    then have "(memmove xs (p + 1) p (cnt - p)) ! i = take (cnt - p) (drop p xs) ! (i - (p + 1))"
    proof -
      have "i - (p + 1) < length (take (cnt - p) (drop p xs))" using False assms by simp
      with False len show ?thesis by (simp add: memmove_def nth_append del: length_take length_drop)
    qed
    also have "\<dots> = xs ! (i - 1)" using False assms by simp
    finally show ?thesis using False by simp
  qed
qed

lemma memmove_length:
  "dst + n \<le> length xs \<Longrightarrow> src + n \<le> length xs \<Longrightarrow> length (memmove xs dst src n) = length xs"
  by (simp add: memmove_def)

text \<open>The pairs of a node with sorted keys.\<close>

definition pairs :: "art_header \<Rightarrow> u8 list \<Rightarrow> art option list \<Rightarrow> (u8 \<times> art option) set" where
  "pairs h ks cs = {(ks ! i, cs ! i) | i. i < node_count h}"

lemma kids_pairs:
  assumes "sorted_ok cap h ks cs"
  shows "cap = 4 \<Longrightarrow> (b, c) \<in> set (kids (Node4 h ks cs)) \<longleftrightarrow> (b, Some c) \<in> pairs h ks cs"
    and "cap = 16 \<Longrightarrow> (b, c) \<in> set (kids (Node16 h ks cs)) \<longleftrightarrow> (b, Some c) \<in> pairs h ks cs"
proof -
  have "(\<exists>i. (b, i) \<in> set (map (\<lambda>i. (ks ! i, i)) [0..<node_count h]) \<and> get cs i = Some c) \<longleftrightarrow> (b, Some c) \<in> pairs h ks cs"
  proof -
    have a: "(b, i) \<in> set (map (\<lambda>i. (ks ! i, i)) [0..<node_count h]) \<longleftrightarrow> i < node_count h \<and> b = ks ! i" for i by auto
    have g: "get cs i = cs ! i" if "i < node_count h" for i
      using that sorted_okD(2,3) [OF assms] by (simp add: get_def)
    have "(\<exists>i. (b, i) \<in> set (map (\<lambda>i. (ks ! i, i)) [0..<node_count h]) \<and> get cs i = Some c) \<longleftrightarrow>
        (\<exists>i. i < node_count h \<and> b = ks ! i \<and> cs ! i = Some c)"
      unfolding a using g by (intro ex_cong1) auto
    also have "\<dots> \<longleftrightarrow> (b, Some c) \<in> pairs h ks cs" unfolding pairs_def by auto
    finally show ?thesis .
  qed
  then show "cap = 4 \<Longrightarrow> (b, c) \<in> set (kids (Node4 h ks cs)) \<longleftrightarrow> (b, Some c) \<in> pairs h ks cs"
    and "cap = 16 \<Longrightarrow> (b, c) \<in> set (kids (Node16 h ks cs)) \<longleftrightarrow> (b, Some c) \<in> pairs h ks cs"
    by (simp_all add: set_kids)
qed

lemma pairs_Some: "sorted_ok cap h ks cs \<Longrightarrow> (b, x) \<in> pairs h ks cs \<Longrightarrow> x \<noteq> None"
  by (auto simp: pairs_def dest: sorted_okD(5))

lemma sorted_insert:
  fixes c :: art and k :: u8
  assumes ok: "sorted_ok cap h ks cs" and room: "node_count h < cap"
    and new: "\<And>i. i < node_count h \<Longrightarrow> ks ! i \<noteq> k"
  defines "cnt \<equiv> node_count h"
  defines "p \<equiv> insert_pos ks cnt k"
  defines "ks' \<equiv> (memmove ks (p + 1) p (cnt - p))[p := k]"
    and "cs' \<equiv> (memmove cs (p + 1) p (cnt - p))[p := Some c]"
    and "h' \<equiv> h\<lparr>node_count := cnt + 1\<rparr>"
  shows "sorted_ok cap h' ks' cs'" and "pairs h' ks' cs' = insert (k, Some c) (pairs h ks cs)"
proof -
  have len: "length ks = cap" "length cs = cap" "cnt < cap" using sorted_okD(1,2) [OF ok] room by (simp_all add: cnt_def)
  have ptl: "p = lb (\<lambda>x. x < k) (take cnt ks)" by (simp add: p_def insert_pos_def lb_def)
  have tl: "length (take cnt ks) = cnt" using len by simp
  have part: "partitioned (\<lambda>x. x < k) (take cnt ks)"
    unfolding partitioned_def tl using sorted_okD(4) [OF ok] by (auto simp: le_less cnt_def intro: less_trans)
  have p: "p \<le> cnt" unfolding ptl using lb_le [of _ "take cnt ks"] tl by metis
  have less: "ks ! i < k \<longleftrightarrow> i < p" if "i < cnt" for i
    using partitioned_iff [OF part, of i] that tl ptl by simp
  have gt: "k < ks ! i \<longleftrightarrow> p \<le> i" if "i < cnt" for i
    using less [OF that] new [of i] that unfolding cnt_def by (metis linorder_neqE not_le less_asym)
  have nth: "ks' ! i = (if i < p then ks ! i else if i = p then k else ks ! (i - 1))"
    "cs' ! i = (if i < p then cs ! i else if i = p then Some c else cs ! (i - 1))" if "i \<le> cnt" for i
    unfolding ks'_def cs'_def by (rule memmove_insert_nth [OF p _ that]; use len in simp)+
  have cnt': "node_count h' = Suc cnt" by (simp add: h'_def)
  have inc: "ks' ! i < ks' ! j" if "i < j" "j \<le> cnt" for i j
  proof -
    have *: "ks ! a < ks ! b" if "a < b" "b < cnt" for a b using sorted_okD(4) [OF ok that(1)] that(2) by (simp add: cnt_def)
    consider "j < p" | "j = p" | "p < j" "i < p" | "p < j" "i = p" | "p < j" "p < i" by linarith
    then show ?thesis
    proof cases
      case 2
      then have "i < cnt" using that by simp
      with 2 that less [of i] nth show ?thesis by simp
    next
      case 4
      then have "k < ks ! (j - 1)" using gt [of "j - 1"] that by simp
      with 4 that nth show ?thesis by simp
    qed (use that nth * p in simp_all)
  qed
  have some: "cs' ! i \<noteq> None" if "i \<le> cnt" for i
    using sorted_okD(5) [OF ok, of i] sorted_okD(5) [OF ok, of "i - 1"] nth(2) [OF that] that p by (auto simp: cnt_def)
  have "length ks' = cap" "length cs' = cap"
    using len p by (simp_all add: ks'_def cs'_def memmove_length)
  then show "sorted_ok cap h' ks' cs'"
    using inc some len(3) by (simp add: sorted_ok_def cnt' less_Suc_eq_le)
  have "{(ks' ! i, cs' ! i) | i. i < Suc cnt} = insert (k, Some c) {(ks ! i, cs ! i) | i. i < cnt}"
  proof (intro equalityI subsetI)
    fix x assume "x \<in> {(ks' ! i, cs' ! i) | i. i < Suc cnt}"
    then obtain i where "i < Suc cnt" and i': "x = (ks' ! i, cs' ! i)" by blast
    then have i: "i \<le> cnt" "x = (ks' ! i, cs' ! i)" by simp_all
    show "x \<in> insert (k, Some c) {(ks ! i, cs ! i) | i. i < cnt}"
    proof (cases i p rule: linorder_cases)
      case greater
      then have "x = (ks ! (i - 1), cs ! (i - 1))" "i - 1 < cnt" using i nth by auto
      then show ?thesis by blast
    qed (use i nth p in auto)
  next
    fix x assume "x \<in> insert (k, Some c) {(ks ! i, cs ! i) | i. i < cnt}"
    then consider "x = (k, Some c)" | i where "i < cnt" "x = (ks ! i, cs ! i)" by auto
    then show "x \<in> {(ks' ! i, cs' ! i) | i. i < Suc cnt}"
    proof cases
      case 1
      then have "x = (ks' ! p, cs' ! p)" using nth p by simp
      then show ?thesis using p by auto
    next
      case (2 i)
      show ?thesis
      proof (cases "i < p")
        case True
        then have "x = (ks' ! i, cs' ! i)" using 2 nth by simp
        then show ?thesis using 2 by auto
      next
        case False
        then have "x = (ks' ! Suc i, cs' ! Suc i)" using 2 nth [of "Suc i"] by simp
        then show ?thesis using 2 by auto
      qed
    qed
  qed
  then show "pairs h' ks' cs' = insert (k, Some c) (pairs h ks cs)" by (simp add: pairs_def cnt' cnt_def)
qed

text \<open>The pairs of a node with an index of bytes.\<close>

lemma kids_index:
  assumes "index_ok h ci cs"
  shows "(b, c) \<in> set (kids (Node48 h ci cs)) \<longleftrightarrow> ci ! unat b \<noteq> emptyMarker \<and> cs ! unat (ci ! unat b) = Some c"
proof -
  have "(b, i) \<in> set (slots_from (Node48 h ci cs) 0) \<longleftrightarrow> ci ! unat b \<noteq> emptyMarker \<and> i = unat (ci ! unat b)" for i
    using byte_less [of b] byte_of_unat [of b] by (auto simp: image_iff)
  then have "(b, c) \<in> set (kids (Node48 h ci cs)) \<longleftrightarrow>
      ci ! unat b \<noteq> emptyMarker \<and> get cs (unat (ci ! unat b)) = Some c"
    unfolding set_kids by auto
  moreover have "get cs (unat (ci ! unat b)) = cs ! unat (ci ! unat b)" if "ci ! unat b \<noteq> emptyMarker"
    using index_okD(2,3) [OF assms] index_okD(4) [OF assms byte_less that] by (simp add: get_def)
  ultimately show ?thesis by auto
qed

lemma kids_full:
  assumes "length cs = 256"
  shows "(b, c) \<in> set (kids (Node256 h cs)) \<longleftrightarrow> cs ! unat b = Some c"
proof -
  have "(b, i) \<in> set (slots_from (Node256 h cs) 0) \<longleftrightarrow> i = unat b" for i
    using byte_less [of b] byte_of_unat [of b] by (auto simp: image_iff)
  then show ?thesis unfolding set_kids using byte_less [of b] assms by (simp add: get_def)
qed

text \<open>What an insertion into a node has to do.\<close>

definition child_inserted :: "art \<Rightarrow> u8 \<Rightarrow> art \<Rightarrow> art \<Rightarrow> bool" where
  "child_inserted n k c n' \<longleftrightarrow> node_ok n' \<and> same_prefix n n' \<and>
     (\<forall>b d. (b, d) \<in> set (kids n') \<longleftrightarrow> b = k \<and> d = c \<or> (b, d) \<in> set (kids n))"

lemma copyPrefix_simps [simp]:
  "prefixLength (copyPrefix h m) = prefixLength h" "node_count (copyPrefix h m) = m"
  by (simp_all add: copyPrefix_def)

lemma copyPrefix_prefix:
  "length (node_prefix h) = min (prefixLength h) maxPrefixLength \<Longrightarrow> node_prefix (copyPrefix h m) = node_prefix h"
  by (simp add: copyPrefix_def)

lemma insertNode256_inserts:
  assumes "node_ok (Node256 h cs)" and new: "k \<notin> fst ` set (kids (Node256 h cs))"
  shows "child_inserted (Node256 h cs) k c (insertNode256 h cs k c)"
proof -
  have len: "length cs = 256" using assms(1) by simp
  have "cs ! unat k \<noteq> Some d" for d using new kids_full [OF len, of k d h] by (force simp: image_iff)
  moreover have "(cs[unat k := Some c]) ! unat b = (if b = k then Some c else cs ! unat b)" for b
    using len byte_less [of k] by (auto simp: nth_list_update byte_eq)
  ultimately show ?thesis
    using assms(1) kids_full [of "cs[unat k := Some c]"] kids_full [OF len] len
    by (auto simp: child_inserted_def insertNode256_def same_prefix_def)
qed

lemma insertNode48_inserts:
  assumes ok: "node_ok (Node48 h ci cs)" and new: "k \<notin> fst ` set (kids (Node48 h ci cs))"
  shows "\<exists>n'. insertNode48 h ci cs k c = Inr n' \<and> child_inserted (Node48 h ci cs) k c n'"
proof -
  have iok: "index_ok h ci cs" and pre: "length (node_prefix h) = min (prefixLength h) maxPrefixLength" using ok by simp_all
  note D = index_okD [OF iok]
  have free: "ci ! unat k = emptyMarker"
  proof (rule ccontr)
    assume "ci ! unat k \<noteq> emptyMarker"
    moreover from this have "unat (ci ! unat k) < node_count h" by (rule D(4) [OF byte_less])
    ultimately obtain d where "(k, d) \<in> set (kids (Node48 h ci cs))"
      using kids_index [OF iok, of k] D(6) [of "unat (ci ! unat k)"] D(3) by fastforce
    with new show False by force
  qed
  show ?thesis
  proof (cases "node_count h < 48")
    case True
    let ?m = "node_count h"
    have none: "cs ! ?m = None" using D(6) [OF True] by simp
    let ?ci = "ci[unat k := word_of_nat ?m]" and ?cs = "cs[?m := Some c]"
    have um: "unat (word_of_nat ?m :: u8) = ?m" using True by simp
    have em: "(word_of_nat ?m :: u8) \<noteq> emptyMarker"
    proof
      assume "(word_of_nat ?m :: u8) = emptyMarker"
      then have "?m = unat emptyMarker" using um by metis
      with True show False by (simp add: emptyMarker_def)
    qed
    have ci: "?ci ! b = (if b = unat k then word_of_nat ?m else ci ! b)" if "b < 256" for b
      using D(1) byte_less [of k] by (simp add: nth_list_update)
    have cs: "?cs ! i = (if i = ?m then Some c else cs ! i)" if "i < 48" for i
      using D(2) True by (simp add: nth_list_update)
    have iok': "index_ok (h\<lparr>node_count := ?m + 1\<rparr>) ?ci ?cs"
      unfolding index_ok_def
    proof (intro conjI allI impI)
      show "unat (?ci ! b) < node_count (h\<lparr>node_count := ?m + 1\<rparr>)" if "b < 256" "?ci ! b \<noteq> emptyMarker" for b
        using ci [OF that(1)] D(4) [OF that(1)] that(2) um by (auto split: if_splits)
      show "a = b" if "a < 256" "b < 256" "?ci ! a \<noteq> emptyMarker" "?ci ! a = ?ci ! b" for a b
      proof (rule ccontr)
        assume ne: "a \<noteq> b"
        have other: False if "x < 256" "ci ! x = word_of_nat ?m" for x
          using D(4) [OF that(1)] that(2) um em by simp
        consider "a = unat k" | "b = unat k" | "a \<noteq> unat k" "b \<noteq> unat k" by blast
        then show False
        proof cases
          case 1
          with ne ci [OF that(1)] ci [OF that(2)] that(4) have "ci ! b = word_of_nat ?m" by simp
          with other that(2) show False by blast
        next
          case 2
          with ne ci [OF that(1)] ci [OF that(2)] that(4) have "ci ! a = word_of_nat ?m" by simp
          with other that(1) show False by blast
        next
          case 3
          then have "ci ! a \<noteq> emptyMarker" "ci ! a = ci ! b"
            using ci [OF that(1)] ci [OF that(2)] that(3,4) by metis+
          from D(5) [OF that(1,2) this] ne show False by blast
        qed
      qed
      show "?cs ! i \<noteq> None \<longleftrightarrow> i < node_count (h\<lparr>node_count := ?m + 1\<rparr>)" if "i < 48" for i
        using cs [OF that] D(6) [OF that] by (auto simp: less_Suc_eq)
    qed (use D True in simp_all)
    have "(b, d) \<in> set (kids (Node48 (h\<lparr>node_count := ?m + 1\<rparr>) ?ci ?cs)) \<longleftrightarrow>
        b = k \<and> d = c \<or> (b, d) \<in> set (kids (Node48 h ci cs))" for b d
      unfolding kids_index [OF iok] kids_index [OF iok']
      using ci [OF byte_less, of b] cs [of ?m] cs [of "unat (ci ! unat b)"] D(4) [OF byte_less, of b] D(3) True um em free
      by (auto simp: byte_eq)
    moreover have "insertNode48 h ci cs k c = Inr (Node48 (h\<lparr>node_count := ?m + 1\<rparr>) ?ci ?cs)"
      using True none D(2) by (simp add: insertNode48_def)
    ultimately show ?thesis using pre iok' by (simp add: child_inserted_def same_prefix_def)
  next
    case False
    let ?m = "node_count h"
    let ?cs = "map (\<lambda>i. if ci ! i \<noteq> emptyMarker then cs ! unat (ci ! i) else None) [0..<256]"
    let ?n = "Node256 (copyPrefix h ?m) ?cs"
    have nok: "node_ok ?n" using pre by (simp add: copyPrefix_prefix)
    have "(b, d) \<in> set (kids ?n) \<longleftrightarrow> (b, d) \<in> set (kids (Node48 h ci cs))" for b d
      using kids_full [of ?cs b d "copyPrefix h ?m"] byte_less [of b] by (simp add: kids_index [OF iok])
    then have kids: "set (kids ?n) = set (kids (Node48 h ci cs))" by auto
    have "child_inserted ?n k c (insertNode256 (copyPrefix h ?m) ?cs k c)"
      by (rule insertNode256_inserts [OF nok]) (use new kids in simp)
    then have "child_inserted (Node48 h ci cs) k c (insertNode256 (copyPrefix h ?m) ?cs k c)"
      using kids pre by (simp add: child_inserted_def same_prefix_def copyPrefix_prefix)
    then show ?thesis using False by (simp add: insertNode48_def)
  qed
qed

text \<open>The index that is made from the keys of a node of 16.\<close>

lemma index_keys_nth:
  assumes "\<And>i j. i < cnt \<Longrightarrow> j < cnt \<Longrightarrow> ks ! i = ks ! j \<Longrightarrow> i = j"
  shows "length (index_keys ks cnt) = 256 \<and>
    (\<forall>i < cnt. index_keys ks cnt ! unat (ks ! i) = word_of_nat i) \<and>
    (\<forall>b. (\<forall>i < cnt. ks ! i \<noteq> b) \<longrightarrow> index_keys ks cnt ! unat b = emptyMarker)"
  using assms
proof (induction cnt)
  case 0
  then show ?case using byte_less by (simp add: index_keys_def)
next
  case (Suc cnt)
  have IH: "length (index_keys ks cnt) = 256" "\<And>i. i < cnt \<Longrightarrow> index_keys ks cnt ! unat (ks ! i) = word_of_nat i"
    "\<And>b. (\<And>i. i < cnt \<Longrightarrow> ks ! i \<noteq> b) \<Longrightarrow> index_keys ks cnt ! unat b = emptyMarker"
    using Suc.IH Suc.prems by (metis less_SucI)+
  have step: "index_keys ks (Suc cnt) = (index_keys ks cnt)[unat (ks ! cnt) := word_of_nat cnt]"
    by (simp add: index_keys_def)
  have nth: "index_keys ks (Suc cnt) ! unat b = (if b = ks ! cnt then word_of_nat cnt else index_keys ks cnt ! unat b)" for b
    using IH(1) byte_less [of "ks ! cnt"] by (auto simp: step nth_list_update byte_eq)
  show ?case
  proof (intro conjI allI impI)
    show "length (index_keys ks (Suc cnt)) = 256" using IH(1) by (simp add: step)
    show "index_keys ks (Suc cnt) ! unat (ks ! i) = word_of_nat i" if "i < Suc cnt" for i
      unfolding nth using Suc.prems [of i cnt] IH(2) [of i] that by (auto simp: less_Suc_eq)
    show "index_keys ks (Suc cnt) ! unat b = emptyMarker" if "\<forall>i < Suc cnt. ks ! i \<noteq> b" for b
      unfolding nth using IH(3) [of b] that by auto
  qed
qed

lemma keys_not_kids:
  assumes "sorted_ok cap h ks cs" and "cap = 4 \<and> n = Node4 h ks cs \<or> cap = 16 \<and> n = Node16 h ks cs"
    and "k \<notin> fst ` set (kids n)" and "i < node_count h"
  shows "ks ! i \<noteq> k"
proof -
  obtain d where d: "cs ! i = Some d" using sorted_okD(5) [OF assms(1,4)] by blast
  then have "(ks ! i, Some d) \<in> pairs h ks cs" using assms(4) by (force simp: pairs_def)
  then have "(ks ! i, d) \<in> set (kids n)" using assms(2) kids_pairs [OF assms(1)] by auto
  then show ?thesis using assms(3) by force
qed

lemma insertNode16_inserts:
  assumes ok: "node_ok (Node16 h ks cs)" and new: "k \<notin> fst ` set (kids (Node16 h ks cs))"
  shows "\<exists>n'. insertNode16 h ks cs k c = Inr n' \<and> child_inserted (Node16 h ks cs) k c n'"
proof -
  have sok: "sorted_ok 16 h ks cs" and pre: "length (node_prefix h) = min (prefixLength h) maxPrefixLength" using ok by simp_all
  have nk: "ks ! i \<noteq> k" if "i < node_count h" for i using keys_not_kids [OF sok _ new that] by simp
  show ?thesis
  proof (cases "node_count h < 16")
    case True
    show ?thesis
      using True pre sorted_insert [OF sok True nk, of c] kids_pairs(2) [OF sok] kids_pairs(2) [OF sorted_insert(1) [OF sok True nk, of c]]
      by (auto simp: insertNode16_def Let_def child_inserted_def same_prefix_def)
  next
    case False
    let ?m = "node_count h"
    have m: "?m = 16" using False sorted_okD(3) [OF sok] by simp
    let ?ci = "index_keys ks ?m" and ?cs = "take ?m cs @ replicate (48 - ?m) None"
    let ?n = "Node48 (copyPrefix h ?m) ?ci ?cs"
    have I: "length ?ci = 256" "\<And>i. i < ?m \<Longrightarrow> ?ci ! unat (ks ! i) = word_of_nat i"
      "\<And>b. (\<And>i. i < ?m \<Longrightarrow> ks ! i \<noteq> b) \<Longrightarrow> ?ci ! unat b = emptyMarker"
      using index_keys_nth [of ?m ks] sorted_ok_key_eq [OF sok] by blast+
    have um: "unat (word_of_nat i :: u8) = i" "(word_of_nat i :: u8) \<noteq> emptyMarker" if "i < ?m" for i
    proof -
      show u: "unat (word_of_nat i :: u8) = i" using that m by simp
      have "unat emptyMarker = 48" by (simp add: emptyMarker_def)
      then show "(word_of_nat i :: u8) \<noteq> emptyMarker" using u that m by (metis numeral_less_iff order_less_trans
        semiring_norm(76) semiring_norm(78) semiring_norm(81) order_less_irrefl)
    qed
    have hit: "\<exists>i < ?m. ks ! i = b" if "?ci ! unat b \<noteq> emptyMarker" for b using I(3) that by blast
    have cs: "?cs ! i = (if i < ?m then cs ! i else None)" if "i < 48" for i
      using that sorted_okD(2) [OF sok] m by (simp add: nth_append)
    have "index_ok (copyPrefix h ?m) ?ci ?cs"
      unfolding index_ok_def
    proof (intro conjI allI impI)
      have nat: "\<exists>i < ?m. ?ci ! b = word_of_nat i \<and> b = unat (ks ! i)" if b: "b < 256" "?ci ! b \<noteq> emptyMarker" for b
      proof -
        obtain i where i: "i < ?m" "ks ! i = word_of_nat b"
          using hit [of "word_of_nat b", unfolded unat_u8 [OF b(1)], OF b(2)] by blast
        then have "unat (ks ! i) = b" using b(1) by simp
        with i(1) I(2) [OF i(1)] show ?thesis by auto
      qed
      show "unat (?ci ! b) < node_count (copyPrefix h ?m)" if "b < 256" "?ci ! b \<noteq> emptyMarker" for b
        using nat [OF that] um by auto
      show "a = b" if ab: "a < 256" "b < 256" "?ci ! a \<noteq> emptyMarker" "?ci ! a = ?ci ! b" for a b
      proof -
        obtain i where i: "i < ?m" "?ci ! a = word_of_nat i" "a = unat (ks ! i)" using nat [OF ab(1,3)] by blast
        have "?ci ! b \<noteq> emptyMarker" using ab(3,4) by metis
        from nat [OF ab(2) this] obtain j where j: "j < ?m" "?ci ! b = word_of_nat j" "b = unat (ks ! j)" by blast
        from i(2) j(2) ab(4) have "i = j" using um(1) [OF i(1)] um(1) [OF j(1)] by metis
        with i(3) j(3) show ?thesis by metis
      qed
      show "?cs ! i \<noteq> None \<longleftrightarrow> i < node_count (copyPrefix h ?m)" if "i < 48" for i
        using cs [OF that] sorted_okD(5) [OF sok, of i] by auto
    qed (use I m sorted_okD(2) [OF sok] in simp_all)
    then have nok: "node_ok ?n" and iok: "index_ok (copyPrefix h ?m) ?ci ?cs" using pre by (simp_all add: copyPrefix_prefix)
    have "(b, d) \<in> set (kids ?n) \<longleftrightarrow> (b, d) \<in> set (kids (Node16 h ks cs))" for b d
    proof -
      have "(b, d) \<in> set (kids ?n) \<longleftrightarrow> (\<exists>i < ?m. ks ! i = b \<and> cs ! i = Some d)"
      proof (cases "?ci ! unat b = emptyMarker")
        case True
        then have "ks ! i \<noteq> b" if "i < ?m" for i using I(2) [OF that] um(2) [OF that] by metis
        with True show ?thesis unfolding kids_index [OF iok] by blast
      next
        case False
        then obtain i where i: "i < ?m" "ks ! i = b" using hit by blast
        then have ci: "?ci ! unat b = word_of_nat i" using I(2) by metis
        have only: "j = i" if "j < ?m" "ks ! j = b" for j using sorted_ok_key_eq [OF sok that(1) i(1)] i that by simp
        have "?cs ! i = cs ! i" using cs [of i] i(1) m by simp
        then show ?thesis unfolding kids_index [OF iok] ci um(1) [OF i(1)] using um(2) [OF i(1)] i only by metis
      qed
      then show ?thesis using kids_pairs(2) [OF sok] by (auto simp: pairs_def)
    qed
    then have kids: "set (kids ?n) = set (kids (Node16 h ks cs))" by auto
    obtain n' where "insertNode48 (copyPrefix h ?m) ?ci ?cs k c = Inr n'" "child_inserted ?n k c n'"
      using insertNode48_inserts [OF nok, of k c] new kids by auto
    then show ?thesis
      using False kids pre by (auto simp: insertNode16_def Let_def child_inserted_def same_prefix_def copyPrefix_prefix)
  qed
qed

lemma insertNode4_inserts:
  assumes ok: "node_ok (Node4 h ks cs)" and new: "k \<notin> fst ` set (kids (Node4 h ks cs))"
  shows "\<exists>n'. insertNode4 h ks cs k c = Inr n' \<and> child_inserted (Node4 h ks cs) k c n'"
proof -
  have sok: "sorted_ok 4 h ks cs" and pre: "length (node_prefix h) = min (prefixLength h) maxPrefixLength" using ok by simp_all
  have nk: "ks ! i \<noteq> k" if "i < node_count h" for i using keys_not_kids [OF sok _ new that] by simp
  show ?thesis
  proof (cases "node_count h < 4")
    case True
    show ?thesis
      using True pre sorted_insert [OF sok True nk, of c] kids_pairs(1) [OF sok] kids_pairs(1) [OF sorted_insert(1) [OF sok True nk, of c]]
      by (auto simp: insertNode4_def Let_def child_inserted_def same_prefix_def)
  next
    case False
    let ?m = "node_count h"
    have m: "?m = 4" using False sorted_okD(3) [OF sok] by simp
    let ?ks = "take 4 ks @ replicate 12 0" and ?cs = "take ?m cs @ replicate (16 - ?m) None"
    let ?n = "Node16 (copyPrefix h 4) ?ks ?cs"
    have nth: "?ks ! i = ks ! i" "?cs ! i = cs ! i" if "i < 4" for i
      using that m sorted_okD(1,2) [OF sok] by (simp_all add: nth_append)
    have sok': "sorted_ok 16 (copyPrefix h 4) ?ks ?cs"
      unfolding sorted_ok_def using m sorted_okD [OF sok] nth by (auto simp del: append_take_drop_id)
    then have nok: "node_ok ?n" using pre by (simp add: copyPrefix_prefix)
    have "pairs (copyPrefix h 4) ?ks ?cs = pairs h ks cs" using nth m by (force simp: pairs_def)
    then have "(b, d) \<in> set (kids ?n) \<longleftrightarrow> (b, d) \<in> set (kids (Node4 h ks cs))" for b d
      using kids_pairs(2) [OF sok'] kids_pairs(1) [OF sok] by simp
    then have kids: "set (kids ?n) = set (kids (Node4 h ks cs))" by auto
    obtain n' where "insertNode16 (copyPrefix h 4) ?ks ?cs k c = Inr n'" "child_inserted ?n k c n'"
      using insertNode16_inserts [OF nok, of k c] new kids by auto
    then show ?thesis
      using False kids pre by (auto simp: insertNode4_def Let_def child_inserted_def same_prefix_def copyPrefix_prefix)
  qed
qed

lemma insert_child_inserts:
  assumes "node_ok n" and "k \<notin> fst ` set (kids n)"
  shows "\<exists>n'. insert_child n k c = Inr n' \<and> child_inserted n k c n'"
  using assms insertNode4_inserts insertNode16_inserts insertNode48_inserts insertNode256_inserts
  by (cases n) (auto simp: insert_child_def)

end
