(* ===== verification/ArtTree.thy ===== *)
theory ArtTree
  imports ArtNodes
begin

text \<open>
  The adaptive radix tree as a whole: its invariant, the leaves it holds, and the proofs that an
  insertion adds one leaf and that the lower bound finds the first leaf that is not below the
  key; then the competitor over it.
\<close>

section \<open>Leaves and the invariant of the tree\<close>

abbreviation tid_key :: "u64 KeyValue list \<Rightarrow> u64 \<Rightarrow> u8 list" where
  "tid_key data t \<equiv> swapBytes (kv_key (data ! unat t))"

function leaves :: "art \<Rightarrow> u64 list" where
  "leaves n = (case n of
       PseudoLeaf w \<Rightarrow> [leaf_value w]
     | _ \<Rightarrow> concat (map (\<lambda>x. leaves (snd x)) (kids n)))"
  by pat_completeness auto
termination by (relation "measure size") (auto dest: size_kids)

declare leaves.simps [simp del]

text \<open>
  At depth \<open>d\<close>: a leaf holds the position of a row; the keys below an inner node go on with the
  prefix of the node and the byte of the child they are in.
\<close>

function art_wf :: "u64 KeyValue list \<Rightarrow> nat \<Rightarrow> art \<Rightarrow> bool" where
  "art_wf data d n = (case n of
       PseudoLeaf w \<Rightarrow> d \<le> 8 \<and> unat (leaf_value w) < length data
     | _ \<Rightarrow> node_ok n \<and> kids n \<noteq> [] \<and> d + prefixLength (header n) < 8 \<and>
         (\<forall>x \<in> set (kids n). art_wf data (d + prefixLength (header n) + 1) (snd x) \<and>
           (\<forall>t \<in> set (leaves (snd x)).
              take (prefixLength (header n) + 1) (drop d (tid_key data t)) = node_prefix (header n) @ [fst x])))"
  by pat_completeness auto
termination by (relation "measure (\<lambda>(data, d, n). size n)") (auto dest: size_kids)

declare art_wf.simps [simp del]

lemma leaves_leaf [simp]: "leaves (PseudoLeaf w) = [leaf_value w]"
  by (simp add: leaves.simps)

lemma leaves_inner: "\<not> isLeaf n \<Longrightarrow> leaves n = concat (map (\<lambda>x. leaves (snd x)) (kids n))"
  by (cases n) (simp_all add: leaves.simps)

lemma wf_leaf [simp]: "art_wf data d (PseudoLeaf w) \<longleftrightarrow> d \<le> 8 \<and> unat (leaf_value w) < length data"
  by (simp add: art_wf.simps)

lemma wf_inner:
  "\<not> isLeaf n \<Longrightarrow> art_wf data d n \<longleftrightarrow> node_ok n \<and> kids n \<noteq> [] \<and> d + prefixLength (header n) < 8 \<and>
     (\<forall>b c. (b, c) \<in> set (kids n) \<longrightarrow> art_wf data (d + prefixLength (header n) + 1) c \<and>
       (\<forall>t \<in> set (leaves c).
          take (prefixLength (header n) + 1) (drop d (tid_key data t)) = node_prefix (header n) @ [b]))"
  by (cases n; subst art_wf.simps) (auto simp: Ball_def)

lemma node_ok_inner: "node_ok n \<Longrightarrow> \<not> isLeaf n"
  by (cases n) simp_all

lemma node_ok_prefix: "node_ok n \<Longrightarrow> length (node_prefix (header n)) = min (prefixLength (header n)) maxPrefixLength"
  by (cases n) simp_all

lemma wf_innerD:
  assumes "art_wf data d n" and "\<not> isLeaf n"
  shows "node_ok n" "kids n \<noteq> []" "d + prefixLength (header n) < 8"
    and "length (node_prefix (header n)) = prefixLength (header n)"
    and "(b, c) \<in> set (kids n) \<Longrightarrow> art_wf data (d + prefixLength (header n) + 1) c"
    and "(b, c) \<in> set (kids n) \<Longrightarrow> t \<in> set (leaves c) \<Longrightarrow>
      take (prefixLength (header n) + 1) (drop d (tid_key data t)) = node_prefix (header n) @ [b]"
  using assms(1) node_ok_prefix [of n] unfolding wf_inner [OF assms(2)] by (auto simp: maxPrefixLength_def)

lemma set_leaves_inner: "\<not> isLeaf n \<Longrightarrow> set (leaves n) = (\<Union>(b, c) \<in> set (kids n). set (leaves c))"
  by (force simp: leaves_inner)

lemma wf_leaves: "art_wf data d n \<Longrightarrow> leaves n \<noteq> [] \<and> (\<forall>t \<in> set (leaves n). unat t < length data)"
proof (induction n arbitrary: d rule: measure_induct_rule [of size])
  case (less n)
  show ?case
  proof (cases "isLeaf n")
    case True
    with less.prems show ?thesis by (cases n) auto
  next
    case False
    note D = wf_innerD [OF less.prems False]
    have "leaves c \<noteq> [] \<and> (\<forall>t \<in> set (leaves c). unat t < length data)" if "(b, c) \<in> set (kids n)" for b c
      using less.IH [OF size_kids [OF that] D(5) [OF that]] .
    with D(2) show ?thesis unfolding leaves_inner [OF False] by (cases "kids n") force+
  qed
qed

section \<open>Byte strings\<close>

lemma swapBytes_key_bytes: "swapBytes k = key_bytes k"
  by (simp add: swapBytes_def key_bytes_def key_length_def)

lemma length_swapBytes [simp]: "length (swapBytes k) = 8"
  by (simp add: swapBytes_def)

lemma swapBytes_less: "swapBytes a < swapBytes b \<longleftrightarrow> a < b"
  unfolding swapBytes_key_bytes by (rule key_bytes_less [OF byte_key_types(2)])

lemma swapBytes_eq: "swapBytes a = swapBytes b \<longleftrightarrow> a = b"
  using swapBytes_less [of a b] swapBytes_less [of b a] by (metis less_irrefl linorder_cases)

lemma lex_less:
  fixes xs ys :: "u8 list"
  assumes "take m xs = take m ys" and "m < length xs" and "m < length ys" and "xs ! m < ys ! m"
  shows "xs < ys"
  using assms
proof (induction m arbitrary: xs ys)
  case 0
  then show ?case by (cases xs; cases ys) auto
next
  case (Suc m)
  then show ?case by (cases xs; cases ys) auto
qed

lemma mismatch_props:
  "n \<le> length xs \<Longrightarrow> n \<le> length ys \<Longrightarrow>
     \<exists>m \<le> n. mismatch n xs ys = Inr m \<and> take m xs = take m ys \<and> (m < n \<longrightarrow> xs ! m \<noteq> ys ! m)"
proof (induction n xs ys rule: mismatch.induct)
  case (2 n x xs y ys)
  show ?case
  proof (cases "x = y")
    case True
    with 2 obtain m where "m \<le> n" "mismatch n xs ys = Inr m" "take m xs = take m ys" "m < n \<longrightarrow> xs ! m \<noteq> ys ! m" by auto
    with True show ?thesis by (intro exI [of _ "Suc m"]) auto
  qed auto
qed auto

lemma take_add_eq: "take d xs = take d ys \<Longrightarrow> take m (drop d xs) = take m (drop d ys) \<Longrightarrow> take (d + m) xs = take (d + m) ys"
  by (simp add: take_add)

lemma take_Suc_nth: "m < length xs \<Longrightarrow> take (Suc m) xs = take m xs @ [xs ! m]"
  by (rule take_Suc_conv_app_nth)

lemma leaf_value_makeLeaf:
  assumes "unat v < 2 ^ 63"
  shows "\<exists>w. makeLeaf v = PseudoLeaf w \<and> leaf_value w = v"
proof -
  have "bit (unat v) 63 = bit v 63" by (simp add: bit_unsigned_iff)
  moreover have "\<not> bit (unat v) 63" using assms by (simp add: bit_iff_odd)
  ultimately have "\<not> bit v 63" by simp
  have "bit (drop_bit 1 (push_bit 1 v OR 1)) n \<longleftrightarrow> bit v n" if "n < 64" for n
    unfolding bit_drop_bit_eq o_apply bit_or_iff bit_push_bit_iff bit_1_iff
    using \<open>\<not> bit v 63\<close> that by (cases "n = 63") (auto simp: possible_bit_word)
  then have "drop_bit 1 (push_bit 1 v OR 1) = v" by (intro bit_word_eqI) simp
  then show ?thesis by (simp add: makeLeaf_def leaf_value_def)
qed

section \<open>Insertion\<close>

definition inner_ok :: "u64 KeyValue list \<Rightarrow> nat \<Rightarrow> art \<Rightarrow> bool" where
  "inner_ok data d n \<longleftrightarrow> node_ok n \<and> d + prefixLength (header n) < 8 \<and>
     (\<forall>b c. (b, c) \<in> set (kids n) \<longrightarrow> art_wf data (d + prefixLength (header n) + 1) c \<and>
       (\<forall>t \<in> set (leaves c).
          take (prefixLength (header n) + 1) (drop d (tid_key data t)) = node_prefix (header n) @ [b]))"

lemma wf_inner_ok: "\<not> isLeaf n \<Longrightarrow> art_wf data d n \<longleftrightarrow> inner_ok data d n \<and> kids n \<noteq> []"
  by (auto simp: wf_inner inner_ok_def)

lemma inserted_ok:
  assumes ok: "inner_ok data d n" and ins: "child_inserted n k c n'"
    and c: "art_wf data (d + prefixLength (header n) + 1) c"
    and keys: "\<forall>t \<in> set (leaves c).
      take (prefixLength (header n) + 1) (drop d (tid_key data t)) = node_prefix (header n) @ [k]"
  shows "inner_ok data d n'" and "art_wf data d n'" and "set (leaves n') = set (leaves n) \<union> set (leaves c)"
proof -
  have ok': "node_ok n'" and same: "prefixLength (header n') = prefixLength (header n)" "node_prefix (header n') = node_prefix (header n)"
    and kids: "\<And>b x. (b, x) \<in> set (kids n') \<longleftrightarrow> b = k \<and> x = c \<or> (b, x) \<in> set (kids n)"
    using ins by (auto simp: child_inserted_def same_prefix_def)
  have "node_ok n" using ok by (simp add: inner_ok_def)
  note inner = node_ok_inner [OF this] node_ok_inner [OF ok']
  show iok: "inner_ok data d n'"
    using ok ok' same kids c keys unfolding inner_ok_def by auto
  have "(k, c) \<in> set (kids n')" using kids by simp
  then have "kids n' \<noteq> []" by auto
  with iok show "art_wf data d n'" by (simp add: wf_inner_ok [OF inner(2)])
  have "set (kids n') = insert (k, c) (set (kids n))" using kids by auto
  then show "set (leaves n') = set (leaves n) \<union> set (leaves c)"
    unfolding set_leaves_inner [OF inner(1)] set_leaves_inner [OF inner(2)] by auto
qed

lemma new_Node4_ok:
  assumes "d + len < 8" and "len \<le> length p"
  shows "inner_ok data d (new_Node4 len p)" "prefixLength (header (new_Node4 len p)) = len"
    "node_prefix (header (new_Node4 len p)) = take len p" "kids (new_Node4 len p) = []"
    "leaves (new_Node4 len p) = []" "node_ok (new_Node4 len p)"
proof -
  show k: "kids (new_Node4 len p) = []" by (simp add: new_Node4_def kids_from_def)
  have "min len maxPrefixLength = len" using assms by (simp add: maxPrefixLength_def)
  then show "node_prefix (header (new_Node4 len p)) = take len p" "prefixLength (header (new_Node4 len p)) = len"
    by (simp_all add: new_Node4_def)
  show ok: "node_ok (new_Node4 len p)"
    using assms by (simp add: new_Node4_def sorted_ok_def maxPrefixLength_def)
  then show "inner_ok data d (new_Node4 len p)"
    using assms k by (simp add: inner_ok_def) (simp add: new_Node4_def)
  show "leaves (new_Node4 len p) = []" using k by (subst leaves_inner) (simp_all add: new_Node4_def)
qed

text \<open>Two children that differ in the byte behind the common prefix.\<close>

lemma fork_ok:
  assumes d: "d + m < 8" and p: "m \<le> length p" and ab: "a \<noteq> b"
    and x: "art_wf data (d + m + 1) x" "\<forall>t \<in> set (leaves x). take (m + 1) (drop d (tid_key data t)) = take m p @ [a]"
    and y: "art_wf data (d + m + 1) y" "\<forall>t \<in> set (leaves y). take (m + 1) (drop d (tid_key data t)) = take m p @ [b]"
  shows "\<exists>n. bind_res (insert_child (new_Node4 m p) a x) (\<lambda>n. insert_child n b y) = Inr n \<and>
    art_wf data d n \<and> set (leaves n) = set (leaves x) \<union> set (leaves y)"
proof -
  note new = new_Node4_ok [OF d p]
  obtain n1 where n1: "insert_child (new_Node4 m p) a x = Inr n1" "child_inserted (new_Node4 m p) a x n1"
    using insert_child_inserts [OF new(6), of a x] new(4) by auto
  note one = inserted_ok [OF new(1) n1(2), unfolded new(2,3), OF x]
  have h1: "prefixLength (header n1) = m" "node_prefix (header n1) = take m p" "node_ok n1"
    "\<And>c e. (c, e) \<in> set (kids n1) \<longleftrightarrow> c = a \<and> e = x"
    using n1(2) new by (auto simp: child_inserted_def same_prefix_def)
  then have "b \<notin> fst ` set (kids n1)" using ab by auto
  then obtain n2 where n2: "insert_child n1 b y = Inr n2" "child_inserted n1 b y n2"
    using insert_child_inserts [OF h1(3), of b y] by auto
  note two = inserted_ok [OF one(1) n2(2), unfolded h1(1,2), OF y]
  show ?thesis using n1(1) n2(1) two one(3) new(5) by auto
qed

lemma common_prefix_found:
  assumes "length xs = 8" and "length ys = 8" and "d \<le> 8" and "take d xs = take d ys" and "xs \<noteq> ys"
  shows "\<exists>m. common_prefix xs ys d = Inr m \<and> d + m < 8 \<and> take m (drop d xs) = take m (drop d ys) \<and> xs ! (d + m) \<noteq> ys ! (d + m)"
proof -
  have "drop d xs \<noteq> drop d ys" using assms(4,5) by (metis append_take_drop_id)
  then obtain i where i: "i < 8 - d" "xs ! (d + i) \<noteq> ys ! (d + i)"
    using assms(1-3) nth_equalityI [of "drop d xs" "drop d ys"] by auto
  then obtain m where m: "List.find (\<lambda>i. xs ! (d + i) \<noteq> ys ! (d + i)) [0..<8 - d] = Some m"
    by (cases "List.find (\<lambda>i. xs ! (d + i) \<noteq> ys ! (d + i)) [0..<8 - d]") (auto simp: find_upt_None)
  then have "m < 8 - d" "xs ! (d + m) \<noteq> ys ! (d + m)" "\<And>j. j < m \<Longrightarrow> xs ! (d + j) = ys ! (d + j)"
    by (auto simp: find_upt_Some)
  moreover from this have "take m (drop d xs) = take m (drop d ys)"
    using assms(1,2) by (intro nth_equalityI) auto
  ultimately show ?thesis using m by (auto simp: common_prefix_def maxKeyLength_def)
qed

lemma split_leaf_ok:
  assumes wf: "art_wf data d (PseudoLeaf w)" and v: "unat v < length data" "unat v < 2 ^ 63"
    and path: "take d (tid_key data (leaf_value w)) = take d (tid_key data v)"
    and new: "tid_key data v \<noteq> tid_key data (leaf_value w)"
  shows "\<exists>n. split_leaf data w (tid_key data v) d v = Inr n \<and> art_wf data d n \<and> set (leaves n) = {leaf_value w, v}"
proof -
  let ?k = "tid_key data v" and ?e = "tid_key data (leaf_value w)"
  have d: "d \<le> 8" and w: "unat (leaf_value w) < length data" using wf by simp_all
  obtain m where m: "common_prefix ?e ?k d = Inr m" "d + m < 8" "take m (drop d ?e) = take m (drop d ?k)"
    "?e ! (d + m) \<noteq> ?k ! (d + m)"
    using common_prefix_found [of ?e ?k d] d path new by auto
  obtain u where u: "makeLeaf v = PseudoLeaf u" "leaf_value u = v" using leaf_value_makeLeaf [OF v(2)] by blast
  have "take (m + 1) (drop d ?e) = take m (drop d ?k) @ [?e ! (d + m)]" "take (m + 1) (drop d ?k) = take m (drop d ?k) @ [?k ! (d + m)]"
    using m(2,3) by (simp_all add: take_Suc_nth)
  then have "\<exists>n. bind_res (insert_child (new_Node4 m (drop d ?k)) (?e ! (d + m)) (PseudoLeaf w)) (\<lambda>n. insert_child n (?k ! (d + m)) (PseudoLeaf u)) = Inr n
      \<and> art_wf data d n \<and> set (leaves n) = set (leaves (PseudoLeaf w)) \<union> set (leaves (PseudoLeaf u))"
    using m(2,4) w v(1) u by (intro fork_ok) simp_all
  then show ?thesis using m(1) w u by (auto simp: split_leaf_def loadKey_def)
qed

lemma cut_prefix_simps [simp]:
  "\<not> isLeaf n \<Longrightarrow> header (cut_prefix n len bytes) =
     (header n)\<lparr>prefixLength := len, node_prefix := take (min len maxPrefixLength) bytes\<rparr>"
  "isLeaf (cut_prefix n len bytes) = isLeaf n"
  by (cases n; simp add: cut_prefix_def)+

lemma cut_prefix_kids: "kids (cut_prefix n len bytes) = kids n"
  by (cases n) (simp_all add: cut_prefix_def kids_from_def)

lemma cut_prefix_node_ok: "node_ok n \<Longrightarrow> min len maxPrefixLength \<le> length bytes \<Longrightarrow> node_ok (cut_prefix n len bytes)"
  by (cases n) (auto simp: cut_prefix_def sorted_ok_def index_ok_def)

lemma split_prefix_ok:
  assumes wf: "art_wf data d n" and inner: "\<not> isLeaf n" and v: "unat v < length data" "unat v < 2 ^ 63"
    and m: "m < prefixLength (header n)" "take m (drop d (tid_key data v)) = take m (node_prefix (header n))"
      "tid_key data v ! (d + m) \<noteq> node_prefix (header n) ! m"
  shows "\<exists>n'. split_prefix data n (tid_key data v) d v m = Inr n' \<and> art_wf data d n' \<and> set (leaves n') = insert v (set (leaves n))"
proof -
  note D = wf_innerD [OF wf inner]
  let ?k = "tid_key data v" and ?p = "node_prefix (header n)" and ?plen = "prefixLength (header n)"
  let ?rest = "?plen - (m + 1)"
  let ?x = "cut_prefix n ?rest (drop (m + 1) ?p)"
  obtain u where u: "makeLeaf v = PseudoLeaf u" "leaf_value u = v" using leaf_value_makeLeaf [OF v(2)] by blast
  have short: "?plen < maxPrefixLength" "min ?rest maxPrefixLength = ?rest" using D(3) by (simp_all add: maxPrefixLength_def)
  have xh: "prefixLength (header ?x) = ?rest" "node_prefix (header ?x) = drop (m + 1) ?p"
    using inner short D(4) by simp_all
  have xi: "\<not> isLeaf ?x" using inner by simp
  have kids: "kids ?x = kids n" by (rule cut_prefix_kids)
  have leaves: "leaves ?x = leaves n" unfolding leaves_inner [OF xi] leaves_inner [OF inner] kids ..
  have len: "d + m + 1 + ?rest = d + ?plen" using m(1) by simp
  have "node_ok ?x" using D(1,4) short by (intro cut_prefix_node_ok) simp_all
  moreover have "take (?rest + 1) (drop (d + m + 1) (tid_key data t)) = drop (m + 1) ?p @ [b]"
    if "(b, c) \<in> set (kids n)" "t \<in> set (leaves c)" for b c t
  proof -
    have "drop (m + 1) (take (?plen + 1) (drop d (tid_key data t))) = drop (m + 1) (?p @ [b])"
      using D(6) [OF that] by simp
    moreover have "?plen + 1 - (m + 1) = ?rest + 1" "m + 1 - ?plen = 0" using m(1) by simp_all
    ultimately show ?thesis using D(4) by (simp add: drop_take add.commute add.left_commute)
  qed
  ultimately have x: "art_wf data (d + m + 1) ?x"
    unfolding wf_inner [OF xi] kids xh using D(2,3,5) len by auto
  have xkeys: "take (m + 1) (drop d (tid_key data t)) = take m ?p @ [?p ! m]" if "t \<in> set (leaves ?x)" for t
  proof -
    obtain b c where "(b, c) \<in> set (kids n)" "t \<in> set (leaves c)"
      using \<open>t \<in> set (leaves ?x)\<close> unfolding leaves set_leaves_inner [OF inner] by blast
    from D(6) [OF this] have "take (m + 1) (take (?plen + 1) (drop d (tid_key data t))) = take (m + 1) (?p @ [b])" by simp
    then have "take (m + 1) (drop d (tid_key data t)) = take (m + 1) ?p" using m(1) D(4) by (simp add: min_def)
    then show ?thesis using m(1) D(4) by (simp add: take_Suc_nth)
  qed
  have "take (m + 1) (drop d ?k) = take m ?p @ [?k ! (d + m)]"
    using m(1,2) D(3) by (simp add: take_Suc_nth)
  then have "\<exists>n'. bind_res (insert_child (new_Node4 m ?p) (?p ! m) ?x) (\<lambda>n. insert_child n (?k ! (d + m)) (PseudoLeaf u)) = Inr n'
      \<and> art_wf data d n' \<and> set (leaves n') = set (leaves ?x) \<union> set (leaves (PseudoLeaf u))"
    using m D(3,4) x xkeys u v(1) by (intro fork_ok) simp_all
  then show ?thesis using short(1) leaves u by (auto simp: split_prefix_def Let_def)
qed

lemma prefixMismatch_props:
  assumes wf: "art_wf data d n" and inner: "\<not> isLeaf n" and key: "length key = 8"
  shows "\<exists>m \<le> prefixLength (header n). prefixMismatch data n key d = Inr m \<and> prefixMismatchKey data n key d 8 = Inr m \<and>
    take m (drop d key) = take m (node_prefix (header n)) \<and>
    (m < prefixLength (header n) \<longrightarrow> key ! (d + m) \<noteq> node_prefix (header n) ! m)"
proof -
  note D = wf_innerD [OF wf inner]
  let ?plen = "prefixLength (header n)"
  have "\<not> ?plen > maxPrefixLength" "min (8 - d) ?plen = ?plen" using D(3) by (simp_all add: maxPrefixLength_def)
  moreover obtain m where "m \<le> ?plen" "mismatch ?plen (drop d key) (node_prefix (header n)) = Inr m"
    "take m (drop d key) = take m (node_prefix (header n))" "m < ?plen \<longrightarrow> drop d key ! m \<noteq> node_prefix (header n) ! m"
    using mismatch_props [of ?plen "drop d key" "node_prefix (header n)"] D(3,4) key by fastforce
  ultimately show ?thesis using key D(3)
    by (intro exI [of _ m]) (simp add: prefixMismatch_def prefixMismatchKey_def mismatch_long_def Let_def)
qed

text \<open>One unfolding of the insertion at an inner node.\<close>

lemma art_insert_leaf: "art_insert data (Some (PseudoLeaf w)) key d v = split_leaf data w key d v"
  by (simp add: art_insert.simps)

lemma art_insert_unfold:
  assumes "\<not> isLeaf n"
  shows "art_insert data (Some n) key d v =
     bind_res (if prefixLength (header n) \<noteq> 0 then prefixMismatch data n key d else Inr 0) (\<lambda>m.
       if m \<noteq> prefixLength (header n) then split_prefix data n key d v m
       else let d = d + prefixLength (header n)
            in bind_res (at key d) (\<lambda>b. case findChild n b of
                 None \<Rightarrow> insert_child n b (makeLeaf v)
               | Some i \<Rightarrow> bind_res (kid n i) (\<lambda>c.
                   if c = None then insert_child n b (makeLeaf v)
                   else bind_res (art_insert data c key (d + 1) v) (\<lambda>c'. Inr (put_child n i (Some c'))))))"
  using assms by (cases n; hypsubst; subst art_insert.simps; simp only: option.case art.case isLeaf.simps simp_thms)

lemma art_insert_inner:
  assumes "\<not> isLeaf n" and "prefixMismatch data n key d = Inr m"
    and "prefixLength (header n) = 0 \<longrightarrow> m = 0"
  shows "art_insert data (Some n) key d v =
     (if m \<noteq> prefixLength (header n) then split_prefix data n key d v m
      else let d = d + prefixLength (header n)
           in bind_res (at key d) (\<lambda>b. case findChild n b of
                None \<Rightarrow> insert_child n b (makeLeaf v)
              | Some i \<Rightarrow> bind_res (kid n i) (\<lambda>c.
                  if c = None then insert_child n b (makeLeaf v)
                  else bind_res (art_insert data c key (d + 1) v) (\<lambda>c'. Inr (put_child n i (Some c'))))))"
  unfolding art_insert_unfold [OF assms(1)] using assms(2,3) by simp

lemma art_insert_ok:
  assumes "art_wf data d n" and "unat v < length data" "unat v < 2 ^ 63"
    and "\<forall>t \<in> set (leaves n). take d (tid_key data t) = take d (tid_key data v)"
    and "\<forall>t \<in> set (leaves n). tid_key data t \<noteq> tid_key data v"
  shows "\<exists>n'. art_insert data (Some n) (tid_key data v) d v = Inr n' \<and> art_wf data d n' \<and>
    set (leaves n') = insert v (set (leaves n))"
  using assms
proof (induction n arbitrary: d rule: measure_induct_rule [of size])
  case (less n)
  note wf = less.prems(1) and v = less.prems(2,3) and path = less.prems(4) and new = less.prems(5)
  let ?k = "tid_key data v"
  show ?case
  proof (cases "isLeaf n")
    case True
    then obtain w where n: "n = PseudoLeaf w" by (cases n) auto
    have "tid_key data v \<noteq> tid_key data (leaf_value w)" using new n by force
    then show ?thesis
      using split_leaf_ok [OF wf [unfolded n] v] path n by (auto simp: art_insert_leaf insert_commute)
  next
    case False
    note D = wf_innerD [OF wf False]
    let ?plen = "prefixLength (header n)" and ?p = "node_prefix (header n)"
    obtain m where m: "m \<le> ?plen" "prefixMismatch data n ?k d = Inr m" "take m (drop d ?k) = take m ?p"
      "m < ?plen \<Longrightarrow> ?k ! (d + m) \<noteq> ?p ! m"
      using prefixMismatch_props [OF wf False, of ?k] by auto
    note step = art_insert_inner [OF False m(2)]
    show ?thesis
    proof (cases "m = ?plen")
      case False
      then have "m < ?plen" using m(1) by simp
      with split_prefix_ok [OF wf \<open>\<not> isLeaf n\<close> v this m(3,4)] step m(1) show ?thesis by simp
    next
      case True
      let ?d = "d + ?plen" and ?b = "?k ! (d + ?plen)"
      have at: "at ?k ?d = Inr ?b" using D(3) by simp
      have pre: "take ?plen (drop d ?k) = ?p" using m(3) True D(4) by simp
      then have kpath: "take (?plen + 1) (drop d ?k) = ?p @ [?b]" using D(3) by (simp add: take_Suc_nth)
      obtain u where u: "makeLeaf v = PseudoLeaf u" "leaf_value u = v" using leaf_value_makeLeaf [OF v(2)] by blast
      have iok: "inner_ok data d n" using wf wf_inner_ok [OF \<open>\<not> isLeaf n\<close>] by simp
      have leaf: "\<exists>n'. insert_child n ?b (makeLeaf v) = Inr n' \<and> art_wf data d n' \<and> set (leaves n') = insert v (set (leaves n))"
        if none: "map_of (kids n) ?b = None"
      proof -
        have "?b \<notin> fst ` set (kids n)" using none by (simp add: map_of_eq_None_iff)
        then obtain n' where n': "insert_child n ?b (PseudoLeaf u) = Inr n'" "child_inserted n ?b (PseudoLeaf u) n'"
          using insert_child_inserts [OF D(1)] by blast
        have "art_wf data (?d + 1) (PseudoLeaf u)" using D(3) v(1) u by simp
        from inserted_ok(2,3) [OF iok n'(2) this] n'(1) u kpath show ?thesis by simp
      qed
      show ?thesis
      proof (cases "findChild n ?b")
        case None
        with leaf findChild_kid(1) [OF D(1) None] step True at show ?thesis by simp
      next
        case (Some i)
        note kid = findChild_kid(2) [OF D(1) Some]
        show ?thesis
        proof (cases "map_of (kids n) ?b")
          case None
          with leaf Some kid step True at show ?thesis by simp
        next
          case (Some c)
          then have c: "(?b, c) \<in> set (kids n)" using map_of_kids [OF D(1)] by blast
          have cl: "t \<in> set (leaves n)" if "t \<in> set (leaves c)" for t
            using c that unfolding set_leaves_inner [OF \<open>\<not> isLeaf n\<close>] by blast
          have cpath: "take (?d + 1) (tid_key data t) = take (?d + 1) ?k" if "t \<in> set (leaves c)" for t
            using take_add_eq [of d "tid_key data t" ?k "?plen + 1"] path cl [OF that] D(6) [OF c that] kpath by simp
          obtain c' where c': "art_insert data (Some c) ?k (?d + 1) v = Inr c'" "art_wf data (?d + 1) c'"
            "set (leaves c') = insert v (set (leaves c))"
            using less.IH [OF size_kids [OF c] D(5) [OF c] v] cpath cl new by blast
          note put = put_child_kids [OF D(1) \<open>findChild n ?b = Some i\<close> kid [unfolded Some], of c']
          let ?n = "put_child n i (Some c')"
          have inner: "\<not> isLeaf ?n" using put(1) by (rule node_ok_inner)
          have same: "prefixLength (header ?n) = ?plen" "node_prefix (header ?n) = ?p" using put(2) by (simp_all add: same_prefix_def)
          have "take (?plen + 1) (drop d (tid_key data t)) = ?p @ [?b]" if "t \<in> set (leaves c')" for t
            using that c'(3) D(6) [OF c] kpath by auto
          then have new: "\<forall>t \<in> set (leaves c'). take (?plen + 1) (drop d (tid_key data t)) = ?p @ [?b]" by blast
          have kids: "b = ?b \<and> x = c' \<or> b \<noteq> ?b \<and> (b, x) \<in> set (kids n)" if "(b, x) \<in> set (kids ?n)" for b x
            using that unfolding put(3) by blast
          have "art_wf data d ?n"
            unfolding wf_inner [OF inner] same
          proof (intro conjI allI impI)
            have "(?b, c') \<in> set (kids ?n)" unfolding put(3) by blast
            then show "kids ?n \<noteq> []" by auto
            fix b x assume bx: "(b, x) \<in> set (kids ?n)"
            show "art_wf data (?d + 1) x" using kids [OF bx] c'(2) D(5) by blast
            show "\<forall>t \<in> set (leaves x). take (?plen + 1) (drop d (tid_key data t)) = ?p @ [b]"
              using kids [OF bx] new D(6) by blast
          qed (use put(1) D(3) in simp_all)
          moreover have "set (leaves ?n) = insert v (set (leaves n))"
          proof -
            have split: "set (kids n) = insert (?b, c) {(b, x) \<in> set (kids n). b \<noteq> ?b}"
              using c kids_unique [OF D(1) c] by blast
            have "set (leaves n) = set (leaves c) \<union> (\<Union>(b, x) \<in> {(b, x) \<in> set (kids n). b \<noteq> ?b}. set (leaves x))"
              unfolding set_leaves_inner [OF \<open>\<not> isLeaf n\<close>] by (subst split) simp
            then show ?thesis unfolding set_leaves_inner [OF inner] put(3) by (simp add: c'(3))
          qed
          ultimately show ?thesis using step True at Some \<open>findChild n ?b = Some i\<close> kid c'(1) by simp
        qed
      qed
    qed
  qed
qed

section \<open>The iterator returns the next leaf\<close>

definition entry_leaves :: "art \<times> nat \<Rightarrow> u64 list" where
  "entry_leaves = (\<lambda>(n, pos). if isLeaf n then leaves n else concat (map (\<lambda>x. leaves (snd x)) (kids_from n pos)))"

definition remaining :: "art_stack \<Rightarrow> u64 list" where
  "remaining stack = concat (map entry_leaves stack)"

definition first :: "'a list \<Rightarrow> 'a option" where
  "first xs = (case xs of [] \<Rightarrow> None | x # _ \<Rightarrow> Some x)"

lemma first_simps [simp]: "first [] = None" "first (x # xs) = Some x"
  by (simp_all add: first_def)

lemma remaining_simps [simp]: "remaining [] = []" "remaining (e # stack) = entry_leaves e @ remaining stack"
  by (simp_all add: remaining_def)

lemma entry_leaves_start: "entry_leaves (n, 0) = leaves n"
  by (simp add: entry_leaves_def leaves_inner)

text \<open>An entry lies at least as deep in the keys as in the stack, so nine entries are enough.\<close>

fun stack_ok :: "u64 KeyValue list \<Rightarrow> art_stack \<Rightarrow> bool" where
  "stack_ok data [] = True"
| "stack_ok data ((n, pos) # rest) = ((\<exists>e. art_wf data e n \<and> length rest \<le> e) \<and> stack_ok data rest)"

lemma wf_depth: "art_wf data d n \<Longrightarrow> d \<le> 8"
  using wf_innerD(3) [of data d n] by (cases "isLeaf n"; cases n) auto

lemma stack_ok_length: "stack_ok data stack \<Longrightarrow> length stack \<le> stack_size"
  using wf_depth by (cases stack) (force simp: stack_size_def)+

text \<open>A measure for the loop: every step takes a child off a node or an entry off the stack.\<close>

function weight :: "art \<Rightarrow> nat" where
  "weight n = Suc (sum_list (map (\<lambda>x. Suc (weight (snd x))) (kids n)))"
  by pat_completeness auto
termination by (relation "measure size") (auto dest: size_kids)

declare weight.simps [simp del]

definition entry_weight :: "art \<times> nat \<Rightarrow> nat" where
  "entry_weight = (\<lambda>(n, pos). Suc (sum_list (map (\<lambda>x. Suc (weight (snd x))) (kids_from n pos))))"

lemma entry_weight_start: "entry_weight (n, 0) = weight n"
  by (simp add: entry_weight_def weight.simps [of n])

lemma iterator_loop_inner:
  assumes "\<not> isLeaf n"
  shows "iterator_loop ((n, pos) # rest) = (case next_child n pos of
       Inl e \<Rightarrow> Some (Inl e)
     | Inr (None, pos') \<Rightarrow> iterator_loop rest
     | Inr (Some nxt, pos') \<Rightarrow>
         if length ((n, pos) # rest) < stack_size then iterator_loop ((nxt, 0) # (n, pos') # rest)
         else Some (Inl Undefined))"
  using assms by (cases n; hypsubst; subst iterator_loop.simps; simp only: list.case prod.case art.case isLeaf.simps simp_thms)

lemma kids_from_sub: "node_ok n \<Longrightarrow> x \<in> set (kids_from n pos) \<Longrightarrow> x \<in> set (kids n)"
  using kids_from_later [of n 0 pos] by auto

lemma iterator_loop_first:
  assumes "stack_ok data stack"
  shows "\<exists>r. iterator_loop stack = Some (Inr (first (remaining stack), r))"
  using assms
proof (induction stack rule: measure_induct_rule [of "\<lambda>st. sum_list (map entry_weight st)"])
  case (less stack)
  show ?case
  proof (cases stack)
    case Nil
    then show ?thesis by (simp add: iterator_loop.simps)
  next
    case (Cons e rest)
    obtain n pos where e: "e = (n, pos)" by (cases e)
    obtain d where d: "art_wf data d n" "length rest \<le> d" and rest: "stack_ok data rest"
      using less.prems Cons e by auto
    show ?thesis
    proof (cases "isLeaf n")
      case True
      then show ?thesis using Cons e by (cases n) (auto simp: iterator_loop.simps entry_leaves_def)
    next
      case False
      note D = wf_innerD [OF d(1) False]
      note step = iterator_loop_inner [OF False, of pos rest]
      show ?thesis
      proof (cases "kids_from n pos")
        case Nil
        then obtain p where p: "next_child n pos = Inr (None, p)" using next_child_kids [OF D(1), of pos] by auto
        have "sum_list (map entry_weight rest) < sum_list (map entry_weight stack)"
          using Cons e by (simp add: entry_weight_def)
        from less.IH [OF this rest] show ?thesis
          using step p Cons e Nil False by (simp add: entry_leaves_def)
      next
        case kids: (Cons x xs)
        obtain b c where x: "x = (b, c)" by (cases x)
        obtain p where p: "next_child n pos = Inr (Some c, p)" "kids_from n p = xs"
          using next_child_kids [OF D(1), of pos] kids x by auto
        have "(b, c) \<in> set (kids n)" using kids_from_sub [OF D(1), of x pos] kids x by simp
        note c = D(5) [OF this]
        let ?stack = "(c, 0) # (n, p) # rest"
        have "\<exists>e. art_wf data e c \<and> length ((n, p) # rest) \<le> e"
          using c d(2) by (intro exI [of _ "d + prefixLength (header n) + 1"]) simp
        then have ok: "stack_ok data ?stack" using d rest by auto
        have "sum_list (map entry_weight ?stack) < sum_list (map entry_weight stack)"
          unfolding Cons e list.map sum_list.Cons entry_weight_start using kids x p(2) by (simp add: entry_weight_def)
        note IH = less.IH [OF this ok]
        have el: "entry_leaves (n, pos) = leaves c @ entry_leaves (n, p)"
          using kids x p(2) False by (simp add: entry_leaves_def)
        have "remaining ?stack = remaining stack" by (simp add: Cons e el entry_leaves_start)
        with IH obtain r where "iterator_loop ?stack = Some (Inr (first (remaining stack), r))" by metis
        moreover have "length ((n, pos) # rest) < stack_size" using d(2) D(3) by (simp add: stack_size_def)
        ultimately have "iterator_loop stack = Some (Inr (first (remaining stack), r))"
          unfolding Cons e step using p(1) by (simp del: remaining_simps)
        then show ?thesis by blast
      qed
    qed
  qed
qed

lemma iteratorNext_first:
  assumes "stack_ok data stack"
  shows "\<exists>r. iteratorNext stack = Some (Inr (first (remaining
    (case stack of (n, pos) # rest \<Rightarrow> if isLeaf n then rest else stack | [] \<Rightarrow> [])), r))"
proof (cases stack)
  case Nil
  then show ?thesis using iterator_loop_first [OF assms] by (simp add: iteratorNext_def)
next
  case (Cons e rest)
  obtain n pos where e: "e = (n, pos)" by (cases e)
  show ?thesis
    using iterator_loop_first [OF assms] iterator_loop_first [of data rest] assms Cons e
    by (cases n) (auto simp: iteratorNext_def)
qed

section \<open>The bound\<close>

lemma leaf_compare_eq:
  assumes "length xs = 8" and "length ys = 8" and "take d xs = take d ys" and "d \<le> 8"
  shows "leaf_compare xs ys d 8 = (if xs = ys then None else Some (xs < ys))"
proof (cases "List.find (\<lambda>i. xs ! i \<noteq> ys ! i) [d..<8]")
  case None
  then have eq: "xs ! i = ys ! i" if "d \<le> i" "i < 8" for i using that by (simp add: find_upt_None)
  have "drop d xs = drop d ys" using assms(1,2) eq by (intro nth_equalityI) auto
  then have "xs = ys" using assms(3) by (metis append_take_drop_id)
  with None show ?thesis by (simp add: leaf_compare_def)
next
  case (Some i)
  then have i: "d \<le> i" "i < 8" "xs ! i \<noteq> ys ! i" "\<And>j. d \<le> j \<Longrightarrow> j < i \<Longrightarrow> xs ! j = ys ! j"
    by (auto simp: find_upt_Some)
  have tk: "take i xs = take i ys"
  proof (rule nth_equalityI)
    fix j assume j: "j < length (take i xs)"
    show "take i xs ! j = take i ys ! j"
    proof (cases "j < d")
      case True
      then have "xs ! j = take d xs ! j" "ys ! j = take d ys ! j" by simp_all
      with j assms(3) show ?thesis by simp
    qed (use j i(4) in simp)
  qed (use assms(1,2) in simp)
  have "xs < ys \<longleftrightarrow> xs ! i < ys ! i"
    using lex_less [OF tk, simplified assms(1,2)] lex_less [OF tk [symmetric], simplified assms(1,2)] i(2,3)
    by (metis linorder_neqE order_less_asym)
  then show ?thesis using Some i(3) by (auto simp: leaf_compare_def)
qed

lemma art_bound_loop_unfold:
  assumes "\<not> isLeaf n"
  shows "art_bound_loop data n key l lower d stack =
     (if stack_size \<le> length stack then Some (Inl Undefined)
      else case prefixMismatchKey data n key d l of Inl e \<Rightarrow> Some (Inl e) | Inr m \<Rightarrow>
     (if m \<noteq> prefixLength (header n)
      then (case at (node_prefix (header n)) m of Inl e \<Rightarrow> Some (Inl e) | Inr p \<Rightarrow>
           (case at key (d + m) of Inl e \<Rightarrow> Some (Inl e) | Inr b \<Rightarrow>
              if p < b then iteratorNext stack else iteratorNext ((n, 0) # stack)))
      else (case at key (d + prefixLength (header n)) of Inl e \<Rightarrow> Some (Inl e) | Inr keyByte \<Rightarrow>
           (case bound_child n keyByte of
              Inl e \<Rightarrow> Some (Inl e)
            | Inr (None, pos) \<Rightarrow> iteratorNext ((n, pos) # stack)
            | Inr (Some nxt, pos) \<Rightarrow>
                art_bound_loop data nxt key l lower (d + prefixLength (header n) + 1) ((n, pos + 1) # stack)))))"
  using assms by (cases n; hypsubst; subst art_bound_loop.simps; simp only: art.case isLeaf.simps simp_thms)

lemma art_bound_loop_inner:
  assumes "\<not> isLeaf n" and "length stack < stack_size"
    and "prefixMismatchKey data n key d 8 = Inr m"
  shows "art_bound_loop data n key 8 lower d stack =
     (if m \<noteq> prefixLength (header n)
      then (case at (node_prefix (header n)) m of Inl e \<Rightarrow> Some (Inl e) | Inr p \<Rightarrow>
           (case at key (d + m) of Inl e \<Rightarrow> Some (Inl e) | Inr b \<Rightarrow>
              if p < b then iteratorNext stack else iteratorNext ((n, 0) # stack)))
      else (case at key (d + prefixLength (header n)) of Inl e \<Rightarrow> Some (Inl e) | Inr keyByte \<Rightarrow>
           (case bound_child n keyByte of
              Inl e \<Rightarrow> Some (Inl e)
            | Inr (None, pos) \<Rightarrow> iteratorNext ((n, pos) # stack)
            | Inr (Some nxt, pos) \<Rightarrow>
                art_bound_loop data nxt key 8 lower (d + prefixLength (header n) + 1) ((n, pos + 1) # stack))))"
  using assms(2,3) by (simp add: art_bound_loop_unfold [OF assms(1)])

lemma filter_kids:
  assumes "sorted_wrt (<) (map fst xs)" and "\<And>x. x \<in> set xs \<Longrightarrow> fst x < b \<Longrightarrow> filter P (f (snd x)) = []"
    and "\<And>x. x \<in> set xs \<Longrightarrow> b < fst x \<Longrightarrow> filter P (f (snd x)) = f (snd x)"
  shows "filter P (concat (map (\<lambda>x. f (snd x)) xs)) =
    (case map_of xs b of None \<Rightarrow> [] | Some c \<Rightarrow> filter P (f c)) @
    concat (map (\<lambda>x. f (snd x)) (filter (\<lambda>(a, _). (b :: 'a::linorder) < a) xs))"
  using assms
proof (induction xs)
  case (Cons x xs)
  obtain a c where x: "x = (a, c)" by (cases x)
  have later: "a < fst y" if "y \<in> set xs" for y using Cons.prems(1) that x by auto
  have IH: "filter P (concat (map (\<lambda>x. f (snd x)) xs)) =
    (case map_of xs b of None \<Rightarrow> [] | Some c \<Rightarrow> filter P (f c)) @
    concat (map (\<lambda>x. f (snd x)) (filter (\<lambda>(a, _). b < a) xs))"
    using Cons by simp
  show ?case
  proof (cases a b rule: linorder_cases)
    case less
    then have "b \<noteq> a" "\<not> b < a" by auto
    then show ?thesis using less IH Cons.prems(2) [of x] x by simp
  next
    case equal
    have "map_of xs b = None" using later equal by (auto simp: map_of_eq_None_iff)
    then show ?thesis using IH equal x by simp
  next
    case greater
    have "map_of xs b = None" "b \<noteq> a" using later greater by (fastforce simp: map_of_eq_None_iff)+
    then show ?thesis using IH greater x Cons.prems(3) [of x] by simp
  qed
qed simp

definition wanted :: "u64 KeyValue list \<Rightarrow> u8 list \<Rightarrow> bool \<Rightarrow> u64 \<Rightarrow> bool" where
  "wanted data key lower t \<longleftrightarrow> (if lower then key \<le> tid_key data t else key < tid_key data t)"

lemma art_bound_loop_first:
  assumes "art_wf data d n" and "stack_ok data stack" and "length stack \<le> d"
    and "\<forall>e \<in> set stack. \<not> isLeaf (fst e)" and "length key = 8"
    and "\<forall>t \<in> set (leaves n). take d (tid_key data t) = take d key"
  shows "\<exists>r. art_bound_loop data n key 8 lower d stack =
    Some (Inr (first (filter (wanted data key lower) (leaves n) @ remaining stack), r))"
  using assms
proof (induction n arbitrary: d stack rule: measure_induct_rule [of size])
  case (less n)
  note wf = less.prems(1) and ok = less.prems(2) and deep = less.prems(3) and inners = less.prems(4)
    and key = less.prems(5) and path = less.prems(6)
  let ?W = "wanted data key lower"
  have room: "length stack < stack_size" using deep wf_depth [OF wf] by (simp add: stack_size_def)
  have pop: "\<exists>r. iteratorNext stack = Some (Inr (first (remaining stack), r))"
    using iteratorNext_first [OF ok] inners by (cases stack) (auto split: if_splits)
  have push: "stack_ok data ((n, pos) # stack)" for pos using ok wf deep by auto
  show ?case
  proof (cases "isLeaf n")
    case True
    then obtain w where n: "n = PseudoLeaf w" by (cases n) auto
    let ?t = "leaf_value w"
    have d: "d \<le> 8" and t: "unat ?t < length data" and p: "take d (tid_key data ?t) = take d key"
      using wf path n by auto
    have skip: "\<exists>r. iteratorNext ((n, 0) # stack) = Some (Inr (first (remaining stack), r))"
      using iteratorNext_first [OF push, of 0] True by simp
    have load: "loadKey data ?t = Inr (tid_key data ?t)" using t by (simp add: loadKey_def)
    have cmp: "leaf_compare (tid_key data ?t) key d 8 = (if tid_key data ?t = key then None else Some (tid_key data ?t < key))"
      using key p d by (intro leaf_compare_eq) simp_all
    have full: "tid_key data ?t = key" if "d = 8" using p key that by simp
    have loop: "art_bound_loop data n key 8 lower d stack =
        (if tid_key data ?t = key then (if lower then Some (Inr (Some ?t, (n, 0) # stack)) else iteratorNext ((n, 0) # stack))
         else if tid_key data ?t < key then iteratorNext stack else Some (Inr (Some ?t, (n, 0) # stack)))"
      using room full cmp load by (subst art_bound_loop.simps) (auto simp: n)
    show ?thesis
      unfolding loop using pop skip n by (auto simp: wanted_def not_less)
  next
    case False
    note D = wf_innerD [OF wf False]
    let ?plen = "prefixLength (header n)" and ?p = "node_prefix (header n)"
    obtain m where m: "m \<le> ?plen" "prefixMismatchKey data n key d 8 = Inr m" "take m (drop d key) = take m ?p"
      "m < ?plen \<Longrightarrow> key ! (d + m) \<noteq> ?p ! m"
      using prefixMismatch_props [OF wf False key] by auto
    note step = art_bound_loop_inner [OF False room m(2), of lower]
    have prefix: "take ?plen (drop d (tid_key data t)) = ?p" if t: "t \<in> set (leaves n)" for t
    proof -
      obtain b c where "(b, c) \<in> set (kids n)" "t \<in> set (leaves c)"
        using t unfolding set_leaves_inner [OF False] by blast
      from D(6) [OF this] have "take ?plen (take (?plen + 1) (drop d (tid_key data t))) = ?p" using D(4) by simp
      then show ?thesis by (simp add: min_def)
    qed
    have again: "\<exists>r. iteratorNext ((n, pos) # stack) = Some (Inr (first (entry_leaves (n, pos) @ remaining stack), r))" for pos
      using iteratorNext_first [OF push, of pos] False by simp
    show ?thesis
    proof (cases "m = ?plen")
      case mm: False
      then have lt: "m < ?plen" using m(1) by simp
      have eq: "take (d + m) (tid_key data t) = take (d + m) key" "tid_key data t ! (d + m) = ?p ! m" if "t \<in> set (leaves n)" for t
      proof -
        have "take m (take ?plen (drop d (tid_key data t))) = take m ?p" using prefix [OF that] by simp
        then have "take m (drop d (tid_key data t)) = take m (drop d key)" using m(3) lt by (simp add: min_def)
        then show "take (d + m) (tid_key data t) = take (d + m) key" using path that by (intro take_add_eq) auto
        have "take ?plen (drop d (tid_key data t)) ! m = ?p ! m" using prefix [OF that] by simp
        then show "tid_key data t ! (d + m) = ?p ! m" using lt D(3) by simp
      qed
      have at: "at ?p m = Inr (?p ! m)" "at key (d + m) = Inr (key ! (d + m))" using lt D(3,4) key by simp_all
      show ?thesis
      proof (cases "?p ! m < key ! (d + m)")
        case True
        have "tid_key data t < key" if "t \<in> set (leaves n)" for t
          using lex_less [OF eq(1) [OF that]] eq(2) [OF that] True key lt D(3) by simp
        then have "filter ?W (leaves n) = []" by (force simp: wanted_def filter_empty_conv)
        then show ?thesis using step mm at True pop by simp
      next
        case False
        then have gt: "key ! (d + m) < ?p ! m" using m(4) [OF lt] by simp
        have "key < tid_key data t" if "t \<in> set (leaves n)" for t
          using lex_less [OF eq(1) [OF that, symmetric]] eq(2) [OF that] gt key lt D(3) by simp
        then have "filter ?W (leaves n) = leaves n" by (auto simp: wanted_def filter_id_conv intro: less_imp_le)
        then show ?thesis using step mm at False again [of 0] by (simp add: entry_leaves_start)
      qed
    next
      case True
      let ?b = "key ! (d + ?plen)"
      have at: "at key (d + ?plen) = Inr ?b" using D(3) key by simp
      have kprefix: "take ?plen (drop d key) = ?p" using m(3) True D(4) by simp
      have kid: "take (d + ?plen) (tid_key data t) = take (d + ?plen) key" "tid_key data t ! (d + ?plen) = b"
        if "(b, c) \<in> set (kids n)" "t \<in> set (leaves c)" for b c t
      proof -
        have t: "t \<in> set (leaves n)" using that unfolding set_leaves_inner [OF False] by blast
        show "take (d + ?plen) (tid_key data t) = take (d + ?plen) key"
          using path t prefix [OF t] kprefix by (intro take_add_eq) auto
        have "take (?plen + 1) (drop d (tid_key data t)) ! ?plen = (?p @ [b]) ! ?plen" using D(6) [OF that] by simp
        then show "tid_key data t ! (d + ?plen) = b" using D(3,4) by (simp add: nth_append)
      qed
      have below: "filter ?W (leaves (snd x)) = []" if "x \<in> set (kids n)" "fst x < ?b" for x
      proof -
        have "tid_key data t < key" if "t \<in> set (leaves (snd x))" for t
          using kid [of "fst x" "snd x" t] that \<open>x \<in> _\<close> \<open>fst x < ?b\<close> key D(3)
          by (intro lex_less [of "d + ?plen"]) auto
        then show ?thesis by (force simp: wanted_def filter_empty_conv)
      qed
      have above: "filter ?W (leaves (snd x)) = leaves (snd x)" if "x \<in> set (kids n)" "?b < fst x" for x
      proof -
        have "key < tid_key data t" if "t \<in> set (leaves (snd x))" for t
          using kid [of "fst x" "snd x" t] that \<open>x \<in> _\<close> \<open>?b < fst x\<close> key D(3)
          by (intro lex_less [of "d + ?plen"]) auto
        then show ?thesis by (auto simp: wanted_def filter_id_conv intro: less_imp_le)
      qed
      have all: "filter ?W (leaves n) = (case map_of (kids n) ?b of None \<Rightarrow> [] | Some c \<Rightarrow> filter ?W (leaves c)) @
          concat (map (\<lambda>x. leaves (snd x)) (filter (\<lambda>(a, _). ?b < a) (kids n)))"
        unfolding leaves_inner [OF False] by (rule filter_kids [where f = leaves, OF kids_sorted [OF D(1)] below above])
      obtain c pos where c: "bound_child n ?b = Inr (c, pos)" "c = map_of (kids n) ?b"
        and after: "kids_from n (if c = None then pos else pos + 1) = filter (\<lambda>(a, _). ?b < a) (kids n)"
        by (rule bound_child_kids [OF D(1)])
      show ?thesis
      proof (cases c)
        case None
        then show ?thesis
          using step True at c all after again [of pos] False by (simp add: entry_leaves_def)
      next
        case (Some x)
        then have x: "(?b, x) \<in> set (kids n)" using c(2) map_of_kids [OF D(1), of ?b x] by simp
        let ?stack = "(n, pos + 1) # stack" and ?d = "d + ?plen + 1"
        have "\<forall>t \<in> set (leaves x). take ?d (tid_key data t) = take ?d key"
          using kid [OF x] key D(3) by (auto simp: take_Suc_nth)
        moreover have "stack_ok data ?stack" by (rule push)
        moreover have "length ?stack \<le> ?d" using deep by simp
        ultimately obtain r where "art_bound_loop data x key 8 lower ?d ?stack =
            Some (Inr (first (filter ?W (leaves x) @ remaining ?stack), r))"
          using less.IH [OF size_kids [OF x] D(5) [OF x], of ?stack] inners False key by auto
        moreover have "remaining ?stack = concat (map (\<lambda>x. leaves (snd x)) (filter (\<lambda>(a, _). ?b < a) (kids n))) @ remaining stack"
          using after Some False by (simp add: entry_leaves_def)
        ultimately show ?thesis using step True at c(1) Some all c(2) [symmetric] by simp
      qed
    qed
  qed
qed

section \<open>The leaves are in the order of their keys\<close>

lemma sorted_concat:
  assumes "\<And>x. x \<in> set xs \<Longrightarrow> sorted_wrt R (f x)"
    and "sorted_wrt (\<lambda>x y. \<forall>t \<in> set (f x). \<forall>u \<in> set (f y). R t u) xs"
  shows "sorted_wrt R (concat (map f xs))"
  using assms by (induction xs) (auto simp: sorted_wrt_append)

lemma leaves_sorted:
  assumes "art_wf data d n" and "\<forall>t \<in> set (leaves n). take d (tid_key data t) = path"
  shows "sorted_wrt (\<lambda>t u. tid_key data t < tid_key data u) (leaves n)"
  using assms
proof (induction n arbitrary: d path rule: measure_induct_rule [of size])
  case (less n)
  show ?case
  proof (cases "isLeaf n")
    case True
    then show ?thesis by (cases n) simp_all
  next
    case False
    note D = wf_innerD [OF less.prems(1) False]
    let ?plen = "prefixLength (header n)" and ?p = "node_prefix (header n)"
    have key: "take (d + (?plen + 1)) (tid_key data t) = path @ ?p @ [b]"
      if "(b, c) \<in> set (kids n)" "t \<in> set (leaves c)" for b c t
    proof -
      have "t \<in> set (leaves n)" using that unfolding set_leaves_inner [OF False] by blast
      with less.prems(2) D(6) [OF that] show ?thesis by (simp only: take_add)
    qed
    have "sorted_wrt (\<lambda>t u. tid_key data t < tid_key data u) (leaves (snd x))" if "x \<in> set (kids n)" for x
    proof -
      have x: "(fst x, snd x) \<in> set (kids n)" using that by simp
      from less.IH [OF size_kids [OF x] D(5) [OF x], of "path @ ?p @ [fst x]"] key [OF x]
      show ?thesis by (simp add: add.assoc)
    qed
    moreover have "sorted_wrt (\<lambda>x y. \<forall>t \<in> set (leaves (snd x)). \<forall>u \<in> set (leaves (snd y)).
        tid_key data t < tid_key data u) (kids n)"
    proof (rule sorted_wrt_mono_rel)
      show "sorted_wrt (\<lambda>x y. fst x < fst y) (kids n)" using kids_sorted [OF D(1), of 0] by (simp add: sorted_wrt_map)
      fix x y assume xy: "x \<in> set (kids n)" "y \<in> set (kids n)" "fst x < fst y"
      show "\<forall>t \<in> set (leaves (snd x)). \<forall>u \<in> set (leaves (snd y)). tid_key data t < tid_key data u"
      proof (intro ballI)
        fix t u assume tu: "t \<in> set (leaves (snd x))" "u \<in> set (leaves (snd y))"
        have k: "take (d + (?plen + 1)) (tid_key data t) = path @ ?p @ [fst x]"
          "take (d + (?plen + 1)) (tid_key data u) = path @ ?p @ [fst y]"
          using key [of "fst x" "snd x" t] key [of "fst y" "snd y" u] xy(1,2) tu by simp_all
        have len: "length (path @ ?p) = d + ?plen"
        proof -
          have "length (path @ ?p @ [fst x]) = d + (?plen + 1)" unfolding k(1) [symmetric] using D(3) by simp
          then show ?thesis by simp
        qed
        have tk: "take (d + ?plen) (tid_key data t) = path @ ?p" "take (d + ?plen) (tid_key data u) = path @ ?p"
          using arg_cong [OF k(1), of "take (d + ?plen)"] arg_cong [OF k(2), of "take (d + ?plen)"] len by (simp_all add: min_def)
        have behind: "(path @ ?p @ [b]) ! (d + ?plen) = b" for b by (metis append_assoc len nth_append_length)
        have nth: "tid_key data t ! (d + ?plen) = fst x" "tid_key data u ! (d + ?plen) = fst y"
          using arg_cong [OF k(1), of "\<lambda>xs. xs ! (d + ?plen)"] arg_cong [OF k(2), of "\<lambda>xs. xs ! (d + ?plen)"]
          unfolding behind by simp_all
        show "tid_key data t < tid_key data u"
          using D(3) tk nth xy(3) by (intro lex_less [of "d + ?plen"]) simp_all
      qed
    qed
    ultimately show ?thesis unfolding leaves_inner [OF False] by (rule sorted_concat)
  qed
qed

text \<open>The bound of a whole tree is the smallest leaf that is wanted.\<close>

definition art_holds :: "u64 KeyValue list \<Rightarrow> art option \<Rightarrow> u64 set \<Rightarrow> bool" where
  "art_holds data tree ts \<longleftrightarrow> (case tree of None \<Rightarrow> ts = {} | Some n \<Rightarrow> art_wf data 0 n \<and> set (leaves n) = ts)"

lemma first_filter_sorted:
  assumes "sorted_wrt (\<lambda>t u. k t < (k u :: 'b::linorder)) xs"
  shows "(first (filter P xs) = None \<longleftrightarrow> (\<forall>t \<in> set xs. \<not> P t)) \<and>
    (first (filter P xs) = Some t \<longleftrightarrow> t \<in> set xs \<and> P t \<and> (\<forall>u \<in> set xs. P u \<longrightarrow> k t \<le> k u))"
  using assms by (induction xs) (auto simp: not_less [symmetric] dest: less_asym intro: less_imp_le)

lemma art_bound_right:
  assumes "art_holds data tree ts" and "length key = 8"
  shows "\<exists>found r. art_bound data tree key 8 lower = Some (Inr (found, r)) \<and>
    (case found of
       None \<Rightarrow> \<forall>t \<in> ts. \<not> wanted data key lower t
     | Some t \<Rightarrow> t \<in> ts \<and> wanted data key lower t \<and>
         (\<forall>u \<in> ts. wanted data key lower u \<longrightarrow> tid_key data t \<le> tid_key data u))"
proof (cases tree)
  case None
  with assms show ?thesis by (auto simp: art_holds_def art_bound_def)
next
  case (Some n)
  then have wf: "art_wf data 0 n" and ts: "set (leaves n) = ts" using assms(1) by (auto simp: art_holds_def)
  obtain r where "art_bound data tree key 8 lower = Some (Inr (first (filter (wanted data key lower) (leaves n)), r))"
    using art_bound_loop_first [OF wf, of "[]" key lower] assms(2) Some by (auto simp: art_bound_def)
  then show ?thesis
    using first_filter_sorted [OF leaves_sorted [OF wf, of "[]"], of "wanted data key lower"] ts
    by (cases "first (filter (wanted data key lower) (leaves n))") auto
qed

lemma art_insert_holds:
  assumes "art_holds data tree ts" and "unat v < length data" "unat v < 2 ^ 63"
    and "\<forall>t \<in> ts. kv_key (data ! unat t) \<noteq> kv_key (data ! unat v)"
  shows "\<exists>n. art_insert data tree (tid_key data v) 0 v = Inr n \<and> art_holds data (Some n) (insert v ts)"
proof (cases tree)
  case None
  obtain u where "makeLeaf v = PseudoLeaf u" "leaf_value u = v" using leaf_value_makeLeaf [OF assms(3)] by blast
  with None assms show ?thesis by (auto simp: art_insert.simps [of data None] art_holds_def)
next
  case (Some n)
  with assms art_insert_ok [of data 0 n v] show ?thesis by (auto simp: art_holds_def swapBytes_eq)
qed

section \<open>Build\<close>

text \<open>The sampled positions with a key that no sampled position before them has.\<close>

definition art_positions :: "nat \<Rightarrow> u64 KeyValue list \<Rightarrow> nat \<Rightarrow> nat set" where
  "art_positions s data j = {i. i < j \<and> s dvd i \<and> (\<forall>i' < i. s dvd i' \<longrightarrow> kv_key (data ! i') \<noteq> kv_key (data ! i))}"

lemma art_fill_right:
  assumes input: "index_input data" and ne: "data \<noteq> []" and s: "0 < s" and first: "kv_key (data ! 0) \<noteq> - 1"
    and "j \<le> length data" and "art_holds data tree (word_of_nat ` art_positions s data j)"
    and "if j = 0 then last_key = - 1 else (\<exists>i < j. s dvd i \<and> (\<forall>i' < j. s dvd i' \<longrightarrow> i' \<le> i) \<and> last_key = kv_key (data ! i))"
  shows "\<exists>tree'. art_fill s data [j..<length data] last_key tree = Inr tree' \<and>
    art_holds data tree' (word_of_nat ` art_positions s data (length data))"
  using assms(5-7)
proof (induction "length data - j" arbitrary: j tree last_key)
  case 0
  then show ?case by simp
next
  case (Suc m)
  note holds = Suc.prems(2) and last = Suc.prems(3)
  have j: "j < length data" using Suc.hyps by simp
  have n: "length data < 2 ^ 63" and sorted: "sorted_by kv_key data" using input by (simp_all add: index_input_def)
  have upt: "[j..<length data] = j # [Suc j..<length data]" using j by (rule upt_conv_Cons)
  have IH: "\<exists>tree'. art_fill s data [Suc j..<length data] lk t = Inr tree' \<and>
      art_holds data tree' (word_of_nat ` art_positions s data (length data))"
    if "art_holds data t (word_of_nat ` art_positions s data (Suc j))"
      "\<exists>i < Suc j. s dvd i \<and> (\<forall>i' < Suc j. s dvd i' \<longrightarrow> i' \<le> i) \<and> lk = kv_key (data ! i)" for t lk
    using Suc.hyps(1) [of "Suc j" t lk] Suc.hyps(2) j that by simp
  have test: "s > 1 \<and> j mod s \<noteq> 0 \<longleftrightarrow> \<not> s dvd j" using s by (cases "s = 1") (auto simp: dvd_eq_mod_eq_0)
  show ?case
  proof (cases "s dvd j")
    case False
    then have "j \<noteq> 0" by (metis dvd_0_right)
    have pos: "art_positions s data (Suc j) = art_positions s data j"
      using False by (auto simp: art_positions_def less_Suc_eq)
    obtain i where "i < j" "s dvd i" "\<forall>i' < j. s dvd i' \<longrightarrow> i' \<le> i" "last_key = kv_key (data ! i)"
      using last \<open>j \<noteq> 0\<close> by auto
    then have "\<exists>i < Suc j. s dvd i \<and> (\<forall>i' < Suc j. s dvd i' \<longrightarrow> i' \<le> i) \<and> last_key = kv_key (data ! i)"
      using False by (intro exI [of _ i]) (auto simp: less_Suc_eq)
    with IH [of tree last_key] holds pos test False show ?thesis unfolding upt by simp
  next
    case True
    have new: "\<exists>i < Suc j. s dvd i \<and> (\<forall>i' < Suc j. s dvd i' \<longrightarrow> i' \<le> i) \<and> kv_key (data ! j) = kv_key (data ! i)"
      using True by (intro exI [of _ j]) auto
    have fresh: "kv_key (data ! j) = last_key \<longleftrightarrow> (\<exists>i' < j. s dvd i' \<and> kv_key (data ! i') = kv_key (data ! j))"
    proof (cases "j = 0")
      case True
      with last first show ?thesis by simp
    next
      case False
      then obtain i where i: "i < j" "s dvd i" "\<forall>i' < j. s dvd i' \<longrightarrow> i' \<le> i" "last_key = kv_key (data ! i)"
        using last by auto
      have later: "kv_key (data ! i') = kv_key (data ! j) \<Longrightarrow> kv_key (data ! i) = kv_key (data ! j)" if "i' < j" "s dvd i'" for i'
      proof -
        have "i' \<le> i" "i \<le> j" "i < length data" using i(1,3) that j by auto
        with sorted_by_nth [OF sorted, of i' i] sorted_by_nth [OF sorted, of i j] j
        have "kv_key (data ! i') \<le> kv_key (data ! i)" "kv_key (data ! i) \<le> kv_key (data ! j)" by simp_all
        then show "kv_key (data ! i') = kv_key (data ! j) \<Longrightarrow> kv_key (data ! i) = kv_key (data ! j)" by simp
      qed
      show ?thesis
      proof
        assume "kv_key (data ! j) = last_key"
        with i(1,2,4) show "\<exists>i' < j. s dvd i' \<and> kv_key (data ! i') = kv_key (data ! j)" by metis
      next
        assume "\<exists>i' < j. s dvd i' \<and> kv_key (data ! i') = kv_key (data ! j)"
        then obtain i' where "i' < j" "s dvd i'" "kv_key (data ! i') = kv_key (data ! j)" by blast
        from later [OF this] i(4) show "kv_key (data ! j) = last_key" by metis
      qed
    qed
    show ?thesis
    proof (cases "kv_key (data ! j) = last_key")
      case same: True
      have "art_positions s data (Suc j) = art_positions s data j"
        using fresh same by (auto simp: art_positions_def less_Suc_eq)
      with IH [of tree last_key] holds new same True test show ?thesis unfolding upt by (simp add: Let_def)
    next
      case False
      have pos: "art_positions s data (Suc j) = insert j (art_positions s data j)"
        using fresh False True by (auto simp: art_positions_def less_Suc_eq)
      have u: "unat (word_of_nat i :: u64) = i" if "i \<le> j" for i using that j n by (intro unat_word_of_nat) simp
      have "\<forall>t \<in> (word_of_nat ` art_positions s data j :: u64 set). kv_key (data ! unat t) \<noteq> kv_key (data ! unat (word_of_nat j :: u64))"
      proof
        fix t :: u64 assume "t \<in> word_of_nat ` art_positions s data j"
        then obtain i where i: "i < j" "s dvd i" "t = word_of_nat i" by (auto simp: art_positions_def)
        then have t: "unat t = i" using u [of i] by simp
        have "kv_key (data ! i) \<noteq> kv_key (data ! j)" using i(1,2) fresh False by metis
        then show "kv_key (data ! unat t) \<noteq> kv_key (data ! unat (word_of_nat j :: u64))"
          unfolding t u [OF order_refl] .
      qed
      then obtain t where t: "art_insert data tree (swapBytes (kv_key (data ! j))) 0 (word_of_nat j) = Inr t"
        "art_holds data (Some t) (insert (word_of_nat j) (word_of_nat ` art_positions s data j))"
        using art_insert_holds [OF holds, of "word_of_nat j"] u [of j] j n by auto
      with IH [of "Some t" "kv_key (data ! j)"] new False True test pos show ?thesis
        unfolding upt by (simp add: Let_def)
    qed
  qed
qed

lemma art_Build_right:
  assumes "index_input data" and "data \<noteq> []" and "0 < s" and "kv_key (data ! 0) \<noteq> - 1"
  shows "\<exists>st. art_Build s data = Inr st \<and> art_data st = data \<and> art_data_size st = word_of_nat (length data) \<and>
    art_holds data (art_tree st) (word_of_nat ` art_positions s data (length data))"
  using art_fill_right [OF assms, of 0 None "- 1"]
  by (auto simp: art_Build_def art_holds_def art_positions_def)

section \<open>The bound of the competitor\<close>

lemma last_sample:
  assumes "0 < s" and "0 < (n :: nat)"
  obtains i where "i < n" and "s dvd i" and "n \<le> i + s"
proof
  let ?i = "(n - 1) div s * s"
  have "(n - 1) div s * s \<le> n - 1" by simp
  then show "?i < n" using assms(2) by linarith
  show "s dvd ?i" by simp
  have "n - 1 < ?i + s" using dividend_less_div_times [OF assms(1), of "n - 1"] by simp
  then show "n \<le> ?i + s" by linarith
qed

lemma first_position:
  assumes "s dvd i" and "i < length data"
  shows "\<exists>p \<in> art_positions s data (length data). p \<le> i \<and> kv_key (data ! p) = kv_key (data ! i)"
proof -
  let ?P = "\<lambda>p. s dvd p \<and> kv_key (data ! p) = kv_key (data ! i)"
  have "?P i" using assms(1) by simp
  then obtain p where p: "?P p" "\<And>q. q < p \<Longrightarrow> \<not> ?P q" using exists_least_iff [of ?P] by blast
  have "p \<le> i" using p(2) [of i] \<open>?P i\<close> by (metis not_le)
  moreover from p have "p \<in> art_positions s data (length data)"
    using \<open>p \<le> i\<close> assms(2) by (auto simp: art_positions_def)
  ultimately show ?thesis using p(1) by blast
qed

lemma wanted_lower: "wanted data (swapBytes k) True t \<longleftrightarrow> k \<le> kv_key (data ! unat t)"
  using swapBytes_less [of "kv_key (data ! unat t)" k] by (simp add: wanted_def not_less [symmetric])

lemma unat_monus_if: "unat (if (a :: u64) < b then 0 else a - b) = unat a - unat b"
  by (auto simp: word_less_nat_alt unat_sub word_le_nat_alt not_less)

lemma art_lookup_encloses:
  assumes input: "index_input kvs" and ne: "kvs \<noteq> []" and s: "0 < s" "s < 2 ^ 31" and key0: "kv_key (kvs ! 0) \<noteq> - 1"
  shows "\<exists>st b. art_Build s kvs = Inr st \<and> art_EqualityLookup s st k = Some (Inr b) \<and> encloses b (kv_lb kvs k) (length kvs)"
proof -
  let ?n = "length kvs"
  have sorted: "sorted_by kv_key kvs" and n: "?n < 2 ^ 63" "0 < ?n" using input ne by (auto simp: index_input_def)
  obtain st where st: "art_Build s kvs = Inr st" "art_data st = kvs" "art_data_size st = word_of_nat ?n"
    "art_holds kvs (art_tree st) (word_of_nat ` art_positions s kvs ?n)"
    using art_Build_right [OF input ne s(1) key0] by blast
  obtain found r where bound: "art_bound kvs (art_tree st) (swapBytes k) 8 True = Some (Inr (found, r))"
    and right: "case found of
       None \<Rightarrow> \<forall>t \<in> word_of_nat ` art_positions s kvs ?n. \<not> wanted kvs (swapBytes k) True t
     | Some t \<Rightarrow> t \<in> word_of_nat ` art_positions s kvs ?n \<and> wanted kvs (swapBytes k) True t \<and>
         (\<forall>u \<in> word_of_nat ` art_positions s kvs ?n. wanted kvs (swapBytes k) True u \<longrightarrow> tid_key kvs t \<le> tid_key kvs u)"
    using art_bound_right [OF st(4), of "swapBytes k" True] by auto
  have u: "unat (word_of_nat p :: u64) = p" if "p \<le> ?n" for p using that n by (intro unat_word_of_nat) simp
  have w: "wanted kvs (swapBytes k) True (word_of_nat p) \<longleftrightarrow> k \<le> kv_key (kvs ! p)" if "p \<le> ?n" for p
    unfolding wanted_lower u [OF that] ..
  define guess where "guess = (case found of Some v \<Rightarrow> unat v | None \<Rightarrow> ?n - 1)"
  have g: "guess < ?n \<and> kv_lb kvs k \<le> guess + 1 \<and> (guess < s \<or> guess - (s - 1) \<le> kv_lb kvs k)"
  proof (cases found)
    case None
    obtain i where i: "i < ?n" "s dvd i" "?n \<le> i + s" using last_sample [OF s(1) n(2)] by blast
    obtain p where p: "p \<in> art_positions s kvs ?n" "p \<le> i" "kv_key (kvs ! p) = kv_key (kvs ! i)"
      using first_position [OF i(2,1)] by blast
    have "\<not> k \<le> kv_key (kvs ! p)" using right None p(1) w [of p] i(1) p(2) by auto
    then have "kv_key (kvs ! i) < k" using p(3) by simp
    then have "i < kv_lb kvs k" using less_key_lb_iff [OF sorted i(1), of k] by simp
    then show ?thesis using None i key_lb_le [of kv_key kvs k] n(2) by (auto simp: guess_def)
  next
    case (Some t)
    then obtain v where v: "v \<in> art_positions s kvs ?n" "t = word_of_nat v" using right by auto
    then have vn: "v < ?n" "s dvd v" by (auto simp: art_positions_def)
    then have t: "unat t = v" using u [of v] v(2) by simp
    have kv: "k \<le> kv_key (kvs ! v)" using right Some w [of v] vn(1) v(2) by auto
    have le: "kv_lb kvs k \<le> v" using lb_ge_iff [OF sorted vn(1), of k] kv by simp
    have "v - (s - 1) \<le> kv_lb kvs k" if "\<not> v < s"
    proof -
      let ?i = "v - s"
      have i: "?i < ?n" "s dvd ?i" "?i < v" using vn that s(1) by auto
      have "kv_key (kvs ! ?i) < k"
      proof (rule ccontr)
        assume neg: "\<not> kv_key (kvs ! ?i) < k"
        obtain p where p: "p \<in> art_positions s kvs ?n" "p \<le> ?i" "kv_key (kvs ! p) = kv_key (kvs ! ?i)"
          using first_position [OF i(2,1)] by blast
        have pn: "p \<le> ?n" using p(2) i(1) by simp
        have "wanted kvs (swapBytes k) True (word_of_nat p)" using neg p(3) w [OF pn] by simp
        then have "tid_key kvs t \<le> tid_key kvs (word_of_nat p)" using right Some p(1) by auto
        then have "kv_key (kvs ! v) \<le> kv_key (kvs ! p)"
          unfolding t u [OF pn] using swapBytes_less [of "kv_key (kvs ! p)" "kv_key (kvs ! v)"] by (simp add: not_less [symmetric])
        moreover have "kv_key (kvs ! p) \<le> kv_key (kvs ! v)" using sorted_by_nth [OF sorted, of p v] p(2) i(3) vn(1) by simp
        ultimately have "kv_key (kvs ! p) = kv_key (kvs ! v)" by simp
        moreover have "p < v" "s dvd p" using p(1,2) i(3) by (auto simp: art_positions_def)
        ultimately show False using v(1) by (auto simp: art_positions_def)
      qed
      then have "?i < kv_lb kvs k" using less_key_lb_iff [OF sorted i(1), of k] by simp
      then show ?thesis using s(1) by linarith
    qed
    then show ?thesis using Some t vn(1) le by (auto simp: guess_def)
  qed
  have gw: "(case found of Some v \<Rightarrow> v | None \<Rightarrow> art_data_size st - 1) = word_of_nat guess"
  proof (cases found)
    case None
    have "Suc (?n - 1) = ?n" using n(2) by simp
    then have "(word_of_nat ?n :: u64) = word_of_nat (?n - 1) + 1" by (metis of_nat_Suc add.commute)
    then have "(word_of_nat ?n :: u64) - 1 = word_of_nat (?n - 1)" by simp
    with None st(3) show ?thesis by (simp add: guess_def)
  qed (simp add: guess_def)
  have e: "unat (word_of_nat (s - 1) :: u64) = s - 1" using s(2) by (intro unat_word_of_nat) simp
  have ug: "unat (word_of_nat guess :: u64) = guess" using g u by simp
  have start: "unat (if (word_of_nat guess :: u64) < word_of_nat (s - 1) then 0 else (word_of_nat guess :: u64) - word_of_nat (s - 1))
      = guess - (s - 1)"
    by (rule trans [OF unat_monus_if]) (simp only: ug e)
  have "(word_of_nat guess :: u64) + 1 = word_of_nat (guess + 1)" by simp
  then have stop: "unat ((word_of_nat guess :: u64) + 1) = guess + 1" using u [of "guess + 1"] g by (metis Suc_eq_plus1 Suc_leI)
  have "art_EqualityLookup s st k = Some (Inr \<lparr>sb_start = guess - (s - 1), sb_stop = guess + 1\<rparr>)"
    unfolding art_EqualityLookup_def st(2) bound option.case sum.case prod.case Let_def gw start stop ..
  moreover have "encloses \<lparr>sb_start = guess - (s - 1), sb_stop = guess + 1\<rparr> (kv_lb kvs k) ?n"
    using g by (auto simp: encloses_def)
  ultimately show ?thesis using st(1) by blast
qed

section \<open>Both lookups of one key\<close>

declare art_lookup.simps [simp del]
declare art_lookupPessimistic.simps [simp del]

lemma art_lookup_inner:
  assumes "\<not> isLeaf n"
  shows "art_lookup data (Some n) key l d sk =
     (let plen = prefixLength (header n); prefix = node_prefix (header n)
      in bind_res (if plen < maxPrefixLength then mismatch plen (drop d key) prefix else Inr plen) (\<lambda>pos.
        if pos \<noteq> plen then Inr None
        else bind_res (at key (d + plen)) (\<lambda>keyByte.
          bind_res (child_of n keyByte) (\<lambda>c.
            art_lookup data c key l (d + plen + 1) (sk \<or> \<not> plen < maxPrefixLength)))))"
  using assms by (cases n; hypsubst; subst art_lookup.simps; simp only: option.case art.case isLeaf.simps simp_thms)

lemma art_lookupPessimistic_inner:
  assumes "\<not> isLeaf n"
  shows "art_lookupPessimistic data (Some n) key l d =
     bind_res (prefixMismatch data n key d) (\<lambda>pos.
       if pos \<noteq> prefixLength (header n) then Inr None
       else bind_res (at key (d + prefixLength (header n))) (\<lambda>keyByte.
         bind_res (child_of n keyByte) (\<lambda>c.
           art_lookupPessimistic data c key l (d + prefixLength (header n) + 1))))"
  using assms by (cases n; hypsubst; subst art_lookupPessimistic.simps; simp only: option.case art.case isLeaf.simps simp_thms)

lemma drop_eq_all: "length xs = 8 \<Longrightarrow> length ys = 8 \<Longrightarrow> take d xs = take d ys \<Longrightarrow>
    (\<forall>i \<in> set [d..<8]. xs ! i = ys ! i) \<longleftrightarrow> xs = ys"
proof
  assume len: "length xs = 8" "length ys = 8" and tk: "take d xs = take d ys" and all: "\<forall>i \<in> set [d..<8]. xs ! i = ys ! i"
  show "xs = ys"
  proof (rule nth_equalityI)
    fix i assume "i < length xs"
    then show "xs ! i = ys ! i"
    proof (cases "i < d")
      case True
      then have "xs ! i = take d xs ! i" "ys ! i = take d ys ! i" by simp_all
      with tk show ?thesis by simp
    qed (use all len in simp)
  qed (use len in simp)
qed simp

lemma art_lookup_leaf:
  "art_lookup data (Some (PseudoLeaf w)) key l d False =
     (if d = l then Inr (Some (leaf_value w))
      else bind_res (loadKey data (leaf_value w)) (\<lambda>leafKey.
        Inr (if \<forall>i \<in> set [d..<l]. leafKey ! i = key ! i then Some (leaf_value w) else None)))"
  by (subst art_lookup.simps) (simp del: set_upt)

lemma art_lookupPessimistic_leaf:
  "art_lookupPessimistic data (Some (PseudoLeaf w)) key l d =
     bind_res (leafMatches data (leaf_value w) key l d) (\<lambda>m. Inr (if m then Some (leaf_value w) else None))"
  by (subst art_lookupPessimistic.simps) simp

lemma art_lookups_right:
  assumes "art_wf data d n" and "length key = 8" and "\<forall>t \<in> set (leaves n). take d (tid_key data t) = take d key"
  shows "\<exists>r. art_lookup data (Some n) key 8 d False = Inr r \<and> art_lookupPessimistic data (Some n) key 8 d = Inr r \<and>
    (case r of None \<Rightarrow> \<forall>t \<in> set (leaves n). tid_key data t \<noteq> key | Some t \<Rightarrow> t \<in> set (leaves n) \<and> tid_key data t = key)"
  using assms
proof (induction n arbitrary: d rule: measure_induct_rule [of size])
  case (less n)
  note wf = less.prems(1) and key = less.prems(2) and path = less.prems(3)
  show ?case
  proof (cases "isLeaf n")
    case True
    then obtain w where n: "n = PseudoLeaf w" by (cases n) auto
    let ?t = "leaf_value w"
    have t: "loadKey data ?t = Inr (tid_key data ?t)" and p: "take d (tid_key data ?t) = take d key" and d: "d \<le> 8"
      using wf path n by (auto simp: loadKey_def)
    have eq: "(\<forall>i \<in> set [d..<8]. tid_key data ?t ! i = key ! i) \<longleftrightarrow> tid_key data ?t = key"
      using key p by (intro drop_eq_all) simp_all
    have full: "tid_key data ?t = key" if "d = 8" using p key that by simp
    show ?thesis
      using t eq full
      unfolding n art_lookup_leaf art_lookupPessimistic_leaf by (auto simp: leafMatches_def simp del: set_upt)
  next
    case False
    note D = wf_innerD [OF wf False]
    let ?plen = "prefixLength (header n)" and ?p = "node_prefix (header n)"
    have short: "?plen < maxPrefixLength" using D(3) by (simp add: maxPrefixLength_def)
    obtain m where m: "m \<le> ?plen" "prefixMismatch data n key d = Inr m" "take m (drop d key) = take m ?p"
      "m < ?plen \<Longrightarrow> key ! (d + m) \<noteq> ?p ! m"
      using prefixMismatch_props [OF wf False key] by auto
    have mm: "mismatch ?plen (drop d key) ?p = Inr m"
      using m(2) short by (simp add: prefixMismatch_def mismatch_long_def Let_def)
    have prefix: "take ?plen (drop d (tid_key data t)) = ?p" if t: "t \<in> set (leaves n)" for t
    proof -
      obtain b c where "(b, c) \<in> set (kids n)" "t \<in> set (leaves c)" using t unfolding set_leaves_inner [OF False] by blast
      from D(6) [OF this] have "take ?plen (take (?plen + 1) (drop d (tid_key data t))) = ?p" using D(4) by simp
      then show ?thesis by (simp add: min_def)
    qed
    show ?thesis
    proof (cases "m = ?plen")
      case ne: False
      have "tid_key data t \<noteq> key" if "t \<in> set (leaves n)" for t
      proof
        assume "tid_key data t = key"
        with prefix [OF that] have "take ?plen (drop d key) = ?p" by simp
        then have "take ?plen (drop d key) ! m = ?p ! m" by simp
        then show False using m(1,4) ne D(3) key by simp
      qed
      then show ?thesis
        using ne m(2) mm short by (auto simp: art_lookup_inner [OF False] art_lookupPessimistic_inner [OF False] Let_def)
    next
      case True
      let ?b = "key ! (d + ?plen)"
      have at: "at key (d + ?plen) = Inr ?b" using D(3) key by simp
      have child: "child_of n ?b = Inr (map_of (kids n) ?b)" by (rule child_of_kids [OF D(1)])
      have step: "art_lookup data (Some n) key 8 d False = art_lookup data (map_of (kids n) ?b) key 8 (d + ?plen + 1) False"
        "art_lookupPessimistic data (Some n) key 8 d = art_lookupPessimistic data (map_of (kids n) ?b) key 8 (d + ?plen + 1)"
        using True m(2) mm short at child
        by (simp_all add: art_lookup_inner [OF False] art_lookupPessimistic_inner [OF False] Let_def)
      have byte: "tid_key data t ! (d + ?plen) = b" if "(b, c) \<in> set (kids n)" "t \<in> set (leaves c)" for b c t
      proof -
        have "take (?plen + 1) (drop d (tid_key data t)) ! ?plen = (?p @ [b]) ! ?plen" using D(6) [OF that] by simp
        then show ?thesis using D(3,4) by (simp add: nth_append)
      qed
      have other: "t \<in> set (leaves c)" if t: "t \<in> set (leaves n)" "tid_key data t = key" "map_of (kids n) ?b = Some c" for t c
      proof -
        obtain b x where x: "(b, x) \<in> set (kids n)" "t \<in> set (leaves x)" using t(1) unfolding set_leaves_inner [OF False] by blast
        from byte [OF this] t(2) have "b = ?b" by simp
        with x t(3) kids_unique [OF D(1)] map_of_kids [OF D(1), of ?b c] show ?thesis by metis
      qed
      show ?thesis
      proof (cases "map_of (kids n) ?b")
        case None
        have "tid_key data t \<noteq> key" if t: "t \<in> set (leaves n)" for t
        proof
          assume eq: "tid_key data t = key"
          obtain b x where x: "(b, x) \<in> set (kids n)" "t \<in> set (leaves x)" using t unfolding set_leaves_inner [OF False] by blast
          from byte [OF this] eq have "b = ?b" by simp
          with x None show False by (force simp: map_of_eq_None_iff)
        qed
        then show ?thesis
          unfolding step None by (subst art_lookup.simps, subst art_lookupPessimistic.simps) simp
      next
        case (Some c)
        then have c: "(?b, c) \<in> set (kids n)" using map_of_kids [OF D(1), of ?b c] by simp
        have sub: "t \<in> set (leaves n)" if "t \<in> set (leaves c)" for t
          using that c unfolding set_leaves_inner [OF False] by blast
        have kb: "take (?plen + 1) (drop d key) = ?p @ [?b]"
          using m(3) True D(3,4) key by (simp add: take_Suc_nth)
        have "\<forall>t \<in> set (leaves c). take (d + ?plen + 1) (tid_key data t) = take (d + ?plen + 1) key"
        proof
          fix t assume t: "t \<in> set (leaves c)"
          have "take d (tid_key data t) = take d key" using path sub [OF t] by blast
          moreover have "take (?plen + 1) (drop d (tid_key data t)) = take (?plen + 1) (drop d key)"
            using D(6) [OF c t] kb by simp
          ultimately show "take (d + ?plen + 1) (tid_key data t) = take (d + ?plen + 1) key"
            unfolding add.assoc take_add by simp
        qed
        from less.IH [OF size_kids [OF c] D(5) [OF c] key this] obtain r where
          r: "art_lookup data (Some c) key 8 (d + ?plen + 1) False = Inr r"
            "art_lookupPessimistic data (Some c) key 8 (d + ?plen + 1) = Inr r"
          and found: "case r of None \<Rightarrow> \<forall>t \<in> set (leaves c). tid_key data t \<noteq> key
            | Some t \<Rightarrow> t \<in> set (leaves c) \<and> tid_key data t = key" by blast
        have "case r of None \<Rightarrow> \<forall>t \<in> set (leaves n). tid_key data t \<noteq> key
            | Some t \<Rightarrow> t \<in> set (leaves n) \<and> tid_key data t = key"
        proof (cases r)
          case None
          have "tid_key data t \<noteq> key" if t: "t \<in> set (leaves n)" for t
            using other [OF t _ Some] found None by auto
          then show ?thesis using None by simp
        next
          case (Some t)
          then show ?thesis using found sub [of t] by simp
        qed
        with r step Some show ?thesis by simp
      qed
    qed
  qed
qed

section \<open>Deletion and destruction\<close>

lemma erase16_last:
  assumes "node_ok (Node16 h ks cs)" and "node_count h = 4"
  shows "eraseNode16 h ks cs 3 = Node4 (copyPrefix h 4) (take 4 ks) (take 4 cs)"
  using assms by (simp add: eraseNode16_def memmove_def)

lemma erase16_finds:
  assumes "node_ok (Node16 h ks cs)" and "node_count h = 4"
  shows "child_of (eraseNode16 h ks cs 3) (ks ! 3) = Inr (cs ! 3)"
proof -
  have ok: "sorted_ok 16 h ks cs" using assms(1) by simp
  have len: "length cs = 16" and less: "ks ! i \<noteq> ks ! 3" if "i < 3" for i
    using sorted_okD(2,4) [OF ok] that assms(2) by (auto simp: less_imp_neq)
  have "[0..<4] = [0, 1, 2, 3::nat]" by (simp add: upt_rec)
  then have "List.find (\<lambda>i. take 4 ks ! i = ks ! 3) [0..<4] = Some 3" using less by simp
  then show ?thesis
    using sorted_okD(2) [OF ok]
    by (simp add: erase16_last [OF assms] child_of_def copyPrefix_def kid_def at_def)
qed

section \<open>Properties\<close>

text \<open>A node with four children.\<close>

definition four_header :: art_header where
  "four_header = \<lparr>prefixLength = 0, node_count = 4, node_prefix = []\<rparr>"

definition four_keys :: "u8 list" where
  "four_keys = [1, 2, 3, 4] @ replicate 12 0"

definition four_leaves :: "art option list" where
  "four_leaves = map Some [makeLeaf 0, makeLeaf 1, makeLeaf 2, makeLeaf 3] @ replicate 12 None"

text \<open>The rows of the witnesses; two keys share seven bytes.\<close>

definition art_rows :: "u64 KeyValue list" where
  "art_rows = [\<lparr>kv_key = 3, kv_value = 0\<rparr>, \<lparr>kv_key = 260, kv_value = 1\<rparr>, \<lparr>kv_key = 261, kv_value = 2\<rparr>,
     \<lparr>kv_key = 66000, kv_value = 3\<rparr>, \<lparr>kv_key = 70000, kv_value = 4\<rparr>]"

lemma art_rows_input: "index_input art_rows" "art_rows \<noteq> []" "kv_key (art_rows ! 0) \<noteq> - 1"
  by (simp_all add: index_input_iff art_rows_def upt_rec)

lemma art_rows_hold: "art_holds art_rows (Some (makeLeaf 1)) {1}" "art_holds art_rows None {}"
proof -
  obtain u where "makeLeaf 1 = PseudoLeaf u" "leaf_value u = 1" using leaf_value_makeLeaf [of 1] by auto
  then show "art_holds art_rows (Some (makeLeaf 1)) {1}" by (simp add: art_holds_def leaves.simps art_wf.simps art_rows_def)
qed (simp add: art_holds_def)

text \<open>
  C9. The adaptive radix tree as an index: over sorted data whose first key is not the largest
  64-bit number, \<open>Build\<close> succeeds and the lookup of every key returns a bound inside the data that
  encloses the first position whose key is not below the lookup key. The bound is one of the
  lower bound search on the tree of every \<open>size_scale\<close>-th key, duplicates left out, with 8 byte
  keys in big endian order, and covers a search that finds no leaf. No read leaves an array and
  no stack of the search grows past its nine entries.
\<close>
theorem art_bound_encloses:
  assumes "index_input kvs" and "kvs \<noteq> []" and "0 < size_scale" and "size_scale < 2 ^ 31"
    and "kv_key (kvs ! 0) \<noteq> - 1"
  shows "\<exists>st b. art_Build size_scale kvs = Inr st \<and> art_EqualityLookup size_scale st k = Some (Inr b)
    \<and> encloses b (kv_lb kvs k) (length kvs)"
  using art_lookup_encloses [OF assms] .

theorem art_bound_encloses_witness:
  "\<exists>st b. art_Build 2 art_rows = Inr st \<and> art_EqualityLookup 2 st 262 = Some (Inr b)
    \<and> encloses b (kv_lb art_rows 262) (length art_rows)"
  by (rule art_bound_encloses [OF art_rows_input(1,2)]) (simp_all add: art_rows_input)

text \<open>
  C10. Insertion into the adaptive radix tree: a row whose key is not in the tree is added as one
  more leaf, all others stay, and the tree is well-formed again, that is: every node has its
  keys in order in a layout that is wide enough, a byte index that is consistent, and a
  compressed path that all keys below it share. Empty trees, leaves that are split, prefixes
  that are broken up and nodes that grow from 4 to 16, 48 and 256 children are covered.
\<close>
theorem art_insert_adds_leaf:
  assumes "art_holds data tree ts" and "unat v < length data" and "unat v < 2 ^ 63"
    and "\<forall>t \<in> ts. kv_key (data ! unat t) \<noteq> kv_key (data ! unat v)"
  shows "\<exists>n. art_insert data tree (swapBytes (kv_key (data ! unat v))) 0 v = Inr n
    \<and> art_holds data (Some n) (insert v ts)"
  using art_insert_holds [OF assms] .

theorem art_insert_adds_leaf_witness:
  "\<exists>n. art_insert art_rows (Some (makeLeaf 1)) (swapBytes (kv_key (art_rows ! unat (2::u64)))) 0 2 = Inr n
    \<and> art_holds art_rows (Some n) (insert 2 {1})"
  by (rule art_insert_adds_leaf [OF art_rows_hold(1)]) (simp_all add: art_rows_def)

text \<open>
  C31. Lower and upper bound search in a well-formed tree: it returns for every key, finds a leaf
  when there is one whose key is at least (above, for the upper bound) the searched key, and
  the leaf it finds has the smallest such key. The search descends along the key and, where
  that path ends, goes on with the next leaf of its stack.
\<close>
theorem art_bound_smallest:
  assumes "art_holds data tree ts"
  shows "\<exists>found r. art_bound data tree (swapBytes k) 8 lower = Some (Inr (found, r)) \<and>
    (let above = (\<lambda>t. if lower then k \<le> kv_key (data ! unat t) else k < kv_key (data ! unat t))
     in case found of
       None \<Rightarrow> \<forall>t \<in> ts. \<not> above t
     | Some t \<Rightarrow> t \<in> ts \<and> above t \<and>
         (\<forall>u \<in> ts. above u \<longrightarrow> kv_key (data ! unat t) \<le> kv_key (data ! unat u)))"
  using art_bound_right [OF assms, of "swapBytes k" lower]
  unfolding wanted_def not_less [symmetric] swapBytes_less Let_def by simp

theorem art_bound_smallest_witness:
  "\<exists>found r. art_bound art_rows (Some (makeLeaf 1)) (swapBytes 5) 8 False = Some (Inr (found, r)) \<and> found \<noteq> None"
  using art_bound_smallest [OF art_rows_hold(1), of 5 False]
  by (auto simp: art_rows_def Let_def split: option.splits)

text \<open>
  C32. The optimistic and the pessimistic lookup of one key agree on every well-formed tree, and
  both decide whether the key is in the tree: the leaf returned has the key, and no leaf
  returned means that none has.
\<close>
theorem art_lookups_agree:
  assumes "art_wf data 0 n"
  shows "\<exists>r. art_lookup data (Some n) (swapBytes k) 8 0 False = Inr r
    \<and> art_lookupPessimistic data (Some n) (swapBytes k) 8 0 = Inr r
    \<and> (case r of None \<Rightarrow> \<forall>t \<in> set (leaves n). kv_key (data ! unat t) \<noteq> k
       | Some t \<Rightarrow> t \<in> set (leaves n) \<and> kv_key (data ! unat t) = k)"
  using art_lookups_right [OF assms, of "swapBytes k"] by (simp add: swapBytes_eq cong: option.case_cong)

theorem art_lookups_agree_witness:
  "\<exists>r. art_lookup art_rows (Some (makeLeaf 1)) (swapBytes 260) 8 0 False = Inr r
    \<and> art_lookupPessimistic art_rows (Some (makeLeaf 1)) (swapBytes 260) 8 0 = Inr r"
proof -
  have "art_wf art_rows 0 (makeLeaf 1)" using art_rows_hold(1) by (simp add: art_holds_def)
  from art_lookups_agree [OF this, of 260] show ?thesis by blast
qed

text \<open>
  Deletion of the largest of four children of a \<open>Node16\<close>: the node becomes a \<open>Node4\<close> whose
  count is 4 although three children are left, so the search of the deleted byte still finds
  the deleted child.
\<close>
theorem art_erase_keeps_child:
  assumes "node_ok (Node16 h ks cs)" and "node_count h = 4"
  shows "child_of (eraseNode16 h ks cs 3) (ks ! 3) = child_of (Node16 h ks cs) (ks ! 3)
    \<and> child_of (eraseNode16 h ks cs 3) (ks ! 3) = Inr (cs ! 3)"
proof -
  obtain c where c: "cs ! 3 = Some c" using sorted_okD(5) [of 16 h ks cs 3] assms by auto
  have "(ks ! 3, c) \<in> set (kids (Node16 h ks cs))" using assms c by (auto simp: set_kids get_def sorted_ok_def image_iff intro!: exI [of _ 3])
  then have "map_of (kids (Node16 h ks cs)) (ks ! 3) = Some c" using map_of_kids [OF assms(1)] by blast
  then show ?thesis
    using erase16_finds [OF assms] c by (simp only: child_of_kids [OF assms(1)])
qed

lemma four_ok: "node_ok (Node16 four_header four_keys four_leaves)"
proof -
  have "(\<forall>j < 4. \<forall>i < j. four_keys ! i < four_keys ! j)"
    by code_simp
  moreover have "\<forall>i < 4. four_leaves ! i \<noteq> None" by (auto simp: four_leaves_def less_Suc_eq numeral_eq_Suc)
  moreover have "length four_keys = 16" "length four_leaves = 16" by (simp_all add: four_keys_def four_leaves_def)
  ultimately show ?thesis by (simp add: sorted_ok_def four_header_def)
qed

theorem art_erase_keeps_child_witness:
  "child_of (eraseNode16 four_header four_keys four_leaves 3) (four_keys ! 3) = Inr (four_leaves ! 3)"
  by (rule conjunct2 [OF art_erase_keeps_child [OF four_ok]]) (simp add: four_header_def)

text \<open>
  The destructor of an index with a single key dereferences the pseudo leaf that is its root.
\<close>
theorem art_single_key_destruct:
  assumes "kv_key kv \<noteq> - 1" and "0 < size_scale"
  shows "\<exists>st. art_Build size_scale [kv] = Inr st \<and> destructTree (art_tree st) = Inl Undefined"
  using assms by (simp add: art_Build_def art_insert.simps makeLeaf_def destructTree_def)

theorem art_single_key_destruct_witness:
  "\<exists>st. art_Build 1 [\<lparr>kv_key = 7, kv_value = (0::u64)\<rparr>] = Inr st \<and> destructTree (art_tree st) = Inl Undefined"
  by (rule art_single_key_destruct) simp_all

end
