(* ===== verification/StxTree.thy ===== *)
theory StxTree
  imports SampledIndexes
begin

text \<open>
  Model of the B+ tree behind \<open>STXBTree\<close>, \<open>src/competitors/stx-btree-0.9/include/stx/btree.h\<close>
  with the traits of a map and duplicates allowed: bulk load, \<open>lower_bound\<close>, insertion with
  splits, and the checker \<open>verify_node\<close>. The tree provides the interface
  \<open>ordered_multimap\<close> of the competitors.

  A leaf holds its used slots; the leaf chain is the left to right order of the leaves, so
  \<open>m_headleaf\<close> and \<open>m_tailleaf\<close> are the first and the last one. Slots behind \<open>slotuse\<close> are not
  represented. \<open>kb\<close> is the size of a key in bytes, a value has 8.
\<close>

section \<open>Nodes\<close>

datatype ('k, 'v) stx_node =
    SLeaf "('k \<times> 'v) list"
  | SInner nat "'k list" "('k, 'v) stx_node list"

fun stx_level_of :: "('k, 'v) stx_node \<Rightarrow> nat" where
  "stx_level_of (SLeaf slots) = 0"
| "stx_level_of (SInner level keys children) = level"

definition leafslotmax :: "nat \<Rightarrow> nat" where
  "leafslotmax kb = max 8 (256 div (kb + 8))"

definition innerslotmax :: "nat \<Rightarrow> nat" where
  "innerslotmax kb = max 8 (256 div (kb + 8))"

definition minleafslots :: "nat \<Rightarrow> nat" where
  "minleafslots kb = leafslotmax kb div 2"

definition mininnerslots :: "nat \<Rightarrow> nat" where
  "mininnerslots kb = innerslotmax kb div 2"

record stx_stats =
  st_itemcount :: nat
  st_leaves :: nat
  st_innernodes :: nat

record ('k, 'v) stx_tree =
  stx_root :: "('k, 'v) stx_node option"
  stx_m_stats :: stx_stats

definition stx_empty :: "('k, 'v) stx_tree" where
  "stx_empty = \<lparr>stx_root = None,
     stx_m_stats = \<lparr>st_itemcount = 0, st_leaves = 0, st_innernodes = 0\<rparr>\<rparr>"

section \<open>Lookup\<close>

text \<open>\<open>while (lo < n->slotuse && key_less(n->slotkey[lo], key)) ++lo;\<close>\<close>

definition stx_find_lower :: "'k::linorder list \<Rightarrow> 'k \<Rightarrow> nat" where
  "stx_find_lower slotkey key = find_if (\<lambda>k. \<not> k < key) slotkey 0 (length slotkey)"

text \<open>
  The descent of \<open>lower_bound\<close>; the result is the iterator: the leaf, whether it is the tail
  leaf, and the slot.
\<close>

lemma size_nth_less [termination_simp]:
  "i < length xs \<Longrightarrow> f (xs ! i) < Suc (n + size_list f xs)"
proof -
  assume "i < length xs"
  then have "f (xs ! i) \<le> size_list f xs" by (intro size_list_estimation' [OF nth_mem]) auto
  then show ?thesis by simp
qed

fun stx_lower_node ::
  "('k::linorder, 'v) stx_node \<Rightarrow> bool \<Rightarrow> 'k \<Rightarrow> (('k \<times> 'v) list \<times> bool \<times> nat) res" where
  "stx_lower_node (SLeaf slots) tail key =
     Inr (slots, tail, stx_find_lower (map fst slots) key)"
| "stx_lower_node (SInner level keys children) tail key =
     (let slot = stx_find_lower keys key
      in if slot < length children
         then stx_lower_node (children ! slot) (tail \<and> slot = length keys) key
         else Inl Undefined)"

text \<open>
  The value at the iterator, \<open>None\<close> for \<open>end()\<close>: the slot behind the last one of the tail
  leaf. Behind the last slot of another leaf there is no value.
\<close>

definition stx_lower_bound :: "('k::linorder, 'v) stx_tree \<Rightarrow> 'k \<Rightarrow> 'v option res" where
  "stx_lower_bound t key =
     (case stx_root t of
        None \<Rightarrow> Inr None
      | Some n \<Rightarrow> bind_res (stx_lower_node n True key) (\<lambda>(slots, tail, slot).
          if slot < length slots then Inr (Some (snd (slots ! slot)))
          else if tail then Inr None else Inl Undefined))"

section \<open>Bulk load\<close>

text \<open>
  The loops over the nodes of a level: node \<open>i\<close> of \<open>num\<close> takes its share
  \<open>remaining / (num - i)\<close> of the remaining items.
\<close>

fun stx_distribute :: "nat \<Rightarrow> 'a list \<Rightarrow> 'a list list" where
  "stx_distribute 0 items = []"
| "stx_distribute (Suc r) items =
     (let slotuse = length items div Suc r
      in take slotuse items # stx_distribute r (drop slotuse items))"

text \<open>
  An inner node over its children with their maximal keys, and its own maximal key
  (an entry of \<open>nextlevel\<close>).
\<close>

definition stx_inner_over ::
  "nat \<Rightarrow> (('k, 'v) stx_node \<times> 'k) list \<Rightarrow> ('k, 'v) stx_node \<times> 'k" where
  "stx_inner_over level g = (SInner level (map snd (butlast g)) (map fst g), snd (last g))"

definition stx_build_level ::
  "nat \<Rightarrow> nat \<Rightarrow> (('k, 'v) stx_node \<times> 'k) list \<Rightarrow> (('k, 'v) stx_node \<times> 'k) list" where
  "stx_build_level kb level children =
     (let num_parents = (length children + (innerslotmax kb + 1) - 1) div (innerslotmax kb + 1)
      in map (stx_inner_over level) (stx_distribute num_parents children))"

lemma length_stx_distribute [simp]: "length (stx_distribute r xs) = r"
  by (induction r arbitrary: xs) (simp_all add: Let_def)

lemma stx_parents_less: "1 < n \<Longrightarrow> (n + (innerslotmax kb + 1) - 1) div (innerslotmax kb + 1) < n"
proof -
  assume n: "1 < n"
  obtain i where i: "innerslotmax kb = Suc i"
    by (metis gr0_implies_Suc innerslotmax_def max.strict_coboundedI1 zero_less_numeral)
  have "Suc i < 2 * Suc i" by simp
  also have "\<dots> \<le> n * Suc i" using n by (intro mult_le_mono1) simp
  finally have "n + Suc i < n + n * Suc i" by simp
  then have "n + Suc i < n * (Suc i + 1)" by simp
  then show ?thesis unfolding i by (simp add: div_less_iff_less_mult)
qed

text \<open>\<open>for (int level = 2; num_parents != 1; ++level)\<close>, with the count of the new nodes.\<close>

function stx_build_levels ::
  "nat \<Rightarrow> nat \<Rightarrow> (('k, 'v) stx_node \<times> 'k) list \<Rightarrow> nat \<Rightarrow> (('k, 'v) stx_node \<times> 'k) list \<times> nat" where
  "stx_build_levels kb level nextlevel innernodes =
     (if length nextlevel \<le> 1 then (nextlevel, innernodes)
      else let parents = stx_build_level kb level nextlevel
           in stx_build_levels kb (Suc level) parents (innernodes + length parents))"
  by pat_completeness auto
termination
  by (relation "measure (\<lambda>(kb, l, ns, c). length ns)")
    (simp_all add: stx_build_level_def Let_def stx_parents_less [simplified])

declare stx_build_levels.simps [simp del]

definition stx_bulk_load :: "nat \<Rightarrow> ('k \<times> 'v) list \<Rightarrow> ('k, 'v) stx_tree" where
  "stx_bulk_load kb items =
     (let num_leaves = (length items + leafslotmax kb - 1) div leafslotmax kb;
          leaves = stx_distribute num_leaves items
      in if num_leaves \<le> 1
         then \<lparr>stx_root = (if leaves = [] then None else Some (SLeaf (hd leaves))),
               stx_m_stats = \<lparr>st_itemcount = length items, st_leaves = num_leaves, st_innernodes = 0\<rparr>\<rparr>
         else let level1 = stx_build_level kb 1 (map (\<lambda>ps. (SLeaf ps, fst (last ps))) leaves);
                  (nextlevel, innernodes) = stx_build_levels kb 2 level1 (length level1)
              in \<lparr>stx_root = Some (fst (hd nextlevel)),
                  stx_m_stats = \<lparr>st_itemcount = length items, st_leaves = num_leaves,
                                st_innernodes = innernodes\<rparr>\<rparr>)"

section \<open>Insertion\<close>

text \<open>\<open>copy_backward\<close> by one slot and the store of the new element.\<close>

definition insert_at :: "nat \<Rightarrow> 'a \<Rightarrow> 'a list \<Rightarrow> 'a list" where
  "insert_at i x xs = take i xs @ x # drop i xs"

text \<open>The new sibling and the split key; \<open>None\<close> when the node was not split.\<close>

type_synonym ('k, 'v) split = "('k \<times> ('k, 'v) stx_node) option"

definition stx_split_leaf :: "('k \<times> 'v) list \<Rightarrow> ('k \<times> 'v) list \<times> 'k \<times> ('k \<times> 'v) list" where
  "stx_split_leaf slots =
     (let mid = length slots div 2; left = take mid slots
      in (left, fst (last left), drop mid slots))"

text \<open>Keys and children of the left node, the split key, keys and children of the right node.\<close>

definition stx_split_inner ::
  "'k list \<Rightarrow> 'c list \<Rightarrow> nat \<Rightarrow> ('k list \<times> 'c list) \<times> 'k \<times> ('k list \<times> 'c list)" where
  "stx_split_inner keys children addslot =
     (let mid0 = length keys div 2;
          mid = (if addslot \<le> mid0 \<and> mid0 > length keys - (mid0 + 1) then mid0 - 1 else mid0)
      in ((take mid keys, take (mid + 1) children), keys ! mid,
          (drop (mid + 1) keys, drop (mid + 1) children)))"

definition stx_insert_leaf ::
  "nat \<Rightarrow> stx_stats \<Rightarrow> ('k::linorder \<times> 'v) list \<Rightarrow> 'k \<Rightarrow> 'v \<Rightarrow>
   stx_stats \<times> ('k, 'v) stx_node \<times> ('k, 'v) split" where
  "stx_insert_leaf kb stats slots key val =
     (let slot = stx_find_lower (map fst slots) key
      in if length slots = leafslotmax kb
         then let (left, splitkey, right) = stx_split_leaf slots;
                  stats' = stats\<lparr>st_leaves := st_leaves stats + 1\<rparr>
              in if slot \<ge> length left
                 then (stats', SLeaf left,
                       Some (splitkey, SLeaf (insert_at (slot - length left) (key, val) right)))
                 else let left' = insert_at slot (key, val) left;
                          splitkey' = (if slot = length left' - 1 then key else splitkey)
                      in (stats', SLeaf left', Some (splitkey', SLeaf right))
         else (stats, SLeaf (insert_at slot (key, val) slots), None))"

text \<open>The part of \<open>insert_descend\<close> that puts a new child into an inner node.\<close>

definition stx_put_child ::
  "nat \<Rightarrow> stx_stats \<Rightarrow> nat \<Rightarrow> 'k list \<Rightarrow> ('k, 'v) stx_node list \<Rightarrow> nat \<Rightarrow> 'k \<Rightarrow>
   ('k, 'v) stx_node \<Rightarrow> stx_stats \<times> ('k, 'v) stx_node \<times> ('k, 'v) split" where
  "stx_put_child kb stats level keys children slot newkey newchild =
     (if length keys = innerslotmax kb
      then let ((lk, lc), splitkey, (rk, rc)) = stx_split_inner keys children slot;
               stats' = stats\<lparr>st_innernodes := st_innernodes stats + 1\<rparr>
           in if slot = length lk + 1 \<and> length lk < length rk
              then (stats', SInner level (lk @ [splitkey]) (lc @ [hd rc]),
                    Some (newkey, SInner level rk (newchild # tl rc)))
              else if slot \<ge> length lk + 1
              then let s = slot - (length lk + 1)
                   in (stats', SInner level lk lc,
                       Some (splitkey, SInner level (insert_at s newkey rk)
                                         (insert_at (s + 1) newchild rc)))
              else (stats', SInner level (insert_at slot newkey lk)
                              (insert_at (slot + 1) newchild lc),
                    Some (splitkey, SInner level rk rc))
      else (stats, SInner level (insert_at slot newkey keys)
                     (insert_at (slot + 1) newchild children), None))"

fun stx_insert_descend ::
  "nat \<Rightarrow> stx_stats \<Rightarrow> ('k::linorder, 'v) stx_node \<Rightarrow> 'k \<Rightarrow> 'v \<Rightarrow>
   (stx_stats \<times> ('k, 'v) stx_node \<times> ('k, 'v) split) res" where
  "stx_insert_descend kb stats (SLeaf slots) key val =
     Inr (stx_insert_leaf kb stats slots key val)"
| "stx_insert_descend kb stats (SInner level keys children) key val =
     (let slot = stx_find_lower keys key
      in if slot < length children
         then bind_res (stx_insert_descend kb stats (children ! slot) key val)
                (\<lambda>(stats', child, split).
                   let children' = children[slot := child]
                   in case split of
                        None \<Rightarrow> Inr (stats', SInner level keys children', None)
                      | Some (newkey, newchild) \<Rightarrow>
                          Inr (stx_put_child kb stats' level keys children' slot newkey newchild))
         else Inl Undefined)"

definition stx_insert ::
  "nat \<Rightarrow> ('k::linorder, 'v) stx_tree \<Rightarrow> 'k \<Rightarrow> 'v \<Rightarrow> ('k, 'v) stx_tree res" where
  "stx_insert kb t key val =
     (let (root, stats) = (case stx_root t of
             None \<Rightarrow> (SLeaf [], (stx_m_stats t)\<lparr>st_leaves := st_leaves (stx_m_stats t) + 1\<rparr>)
           | Some n \<Rightarrow> (n, stx_m_stats t))
      in bind_res (stx_insert_descend kb stats root key val) (\<lambda>(stats', root', split).
           let (root'', stats'') = (case split of
                  None \<Rightarrow> (root', stats')
                | Some (newkey, newchild) \<Rightarrow>
                    (SInner (stx_level_of root' + 1) [newkey] [root', newchild],
                     stats'\<lparr>st_innernodes := st_innernodes stats' + 1\<rparr>))
           in Inr \<lparr>stx_root = Some root'',
                   stx_m_stats = stats''\<lparr>st_itemcount := st_itemcount stats'' + 1\<rparr>\<rparr>))"

section \<open>The checker\<close>

text \<open>\<open>verify_node\<close>: the smallest and the largest key and the counts, or a failed assertion.\<close>

definition assertion :: "bool \<Rightarrow> unit res" where
  "assertion b = (if b then Inr () else Inl (Fail ''assert''))"

definition stx_sorted_slots :: "'k::linorder list \<Rightarrow> bool" where
  "stx_sorted_slots slotkey \<longleftrightarrow>
     (\<forall>slot < length slotkey - 1. slotkey ! slot \<le> slotkey ! (slot + 1))"

definition stats_add :: "stx_stats \<Rightarrow> stx_stats \<Rightarrow> stx_stats" where
  "stats_add a b = \<lparr>st_itemcount = st_itemcount a + st_itemcount b,
     st_leaves = st_leaves a + st_leaves b, st_innernodes = st_innernodes a + st_innernodes b\<rparr>"

text \<open>
  The loop over the children from \<open>slot\<close> on; \<open>rs\<close> are the results of the recursive calls. The
  asserts on the leaf chain hold by the representation.
\<close>

fun stx_verify_children ::
  "nat \<Rightarrow> 'k::linorder list \<Rightarrow> nat \<Rightarrow> (nat \<times> (('k \<times> 'k) \<times> stx_stats) res) list \<Rightarrow>
   (('k \<times> 'k) list \<times> stx_stats) res" where
  "stx_verify_children level keys slot [] =
     Inr ([], \<lparr>st_itemcount = 0, st_leaves = 0, st_innernodes = 0\<rparr>)"
| "stx_verify_children level keys slot ((sublevel, r) # rs) =
     bind_res (assertion (sublevel + 1 = level)) (\<lambda>_.
     bind_res r (\<lambda>((submin, submax), substats).
     bind_res (assertion (slot = 0 \<or> submin \<ge> keys ! (slot - 1))) (\<lambda>_.
     bind_res (assertion (slot = length keys \<or> keys ! slot = submax)) (\<lambda>_.
     bind_res (stx_verify_children level keys (Suc slot) rs) (\<lambda>(ms, stats).
       Inr ((submin, submax) # ms, stats_add substats stats))))))"

fun stx_verify_node ::
  "nat \<Rightarrow> bool \<Rightarrow> ('k::linorder, 'v) stx_node \<Rightarrow> (('k \<times> 'k) \<times> stx_stats) res" where
  "stx_verify_node kb is_root (SLeaf slots) =
     (let keys = map fst slots
      in bind_res (assertion (is_root \<or> \<not> length slots < minleafslots kb)) (\<lambda>_.
         bind_res (assertion (length slots > 0)) (\<lambda>_.
         bind_res (assertion (stx_sorted_slots keys)) (\<lambda>_.
           Inr ((keys ! 0, keys ! (length keys - 1)),
                \<lparr>st_itemcount = length slots, st_leaves = 1, st_innernodes = 0\<rparr>)))))"
| "stx_verify_node kb is_root (SInner level keys children) =
     bind_res (assertion (is_root \<or> \<not> length keys < mininnerslots kb)) (\<lambda>_.
     bind_res (assertion (length keys > 0)) (\<lambda>_.
     bind_res (assertion (stx_sorted_slots keys)) (\<lambda>_.
     bind_res (stx_verify_children level keys 0
         (map (\<lambda>c. (stx_level_of c, stx_verify_node kb False c)) children)) (\<lambda>(ms, stats).
       Inr ((fst (hd ms), snd (last ms)), stats\<lparr>st_innernodes := st_innernodes stats + 1\<rparr>)))))"

definition stx_verify :: "nat \<Rightarrow> ('k::linorder, 'v) stx_tree \<Rightarrow> unit res" where
  "stx_verify kb t =
     (case stx_root t of
        None \<Rightarrow> Inr ()
      | Some n \<Rightarrow> bind_res (stx_verify_node kb True n)
          (\<lambda>(mm, vstats). assertion (vstats = stx_m_stats t)))"

section \<open>Valid trees\<close>

fun stx_entries :: "('k, 'v) stx_node \<Rightarrow> ('k \<times> 'v) list" where
  "stx_entries (SLeaf slots) = slots"
| "stx_entries (SInner level keys children) = concat (map stx_entries children)"

definition stx_max :: "('k, 'v) stx_node \<Rightarrow> 'k" where
  "stx_max n = fst (last (stx_entries n))"

text \<open>
  Height \<open>h\<close>, levels, capacities, the minimal fill of the nodes below the root (\<open>strict\<close>),
  and separators that are the largest key of the child to their left.
\<close>

fun stx_ok :: "nat \<Rightarrow> bool \<Rightarrow> nat \<Rightarrow> ('k, 'v) stx_node \<Rightarrow> bool" where
  "stx_ok kb strict 0 (SLeaf slots) \<longleftrightarrow>
     slots \<noteq> [] \<and> length slots \<le> leafslotmax kb \<and> (strict \<longrightarrow> minleafslots kb \<le> length slots)"
| "stx_ok kb strict (Suc h) (SInner level keys children) \<longleftrightarrow>
     level = Suc h \<and> keys \<noteq> [] \<and> length keys \<le> innerslotmax kb
     \<and> (strict \<longrightarrow> mininnerslots kb \<le> length keys) \<and> length children = Suc (length keys)
     \<and> keys = map stx_max (butlast children) \<and> (\<forall>c \<in> set children. stx_ok kb True h c)"
| "stx_ok _ _ _ _ \<longleftrightarrow> False"

lemma stx_ok_nonempty: "stx_ok kb strict h n \<Longrightarrow> stx_entries n \<noteq> []"
proof (induction kb strict h n rule: stx_ok.induct)
  case (2 kb strict h level keys children)
  then show ?case by (cases children) auto
qed auto

lemma stx_ok_level: "stx_ok kb strict h n \<Longrightarrow> stx_level_of n = h"
  by (cases "(kb, strict, h, n)" rule: stx_ok.cases) auto

lemma stx_ok_weaken: "stx_ok kb True h n \<Longrightarrow> stx_ok kb strict h n"
  by (cases h; cases n; hypsubst; unfold stx_ok.simps; blast)

declare stx_ok.simps(2) [simp del]

lemma stx_find_lower_eq: "stx_find_lower keys key = key_lb (\<lambda>x. x) keys key"
  by (simp add: stx_find_lower_def find_if_lb key_lb_def)

text \<open>
  What every operation uses of an inner node: the keys are sorted, the slot found for a key
  is that of a child, all children before it are below the key, and the key is at most the
  maximum of the child unless the child is the last one.
\<close>

lemma stx_inner_slot:
  fixes key :: "'k::linorder"
  assumes ok: "stx_ok kb strict (Suc h) (SInner level keys children)"
    and s: "sorted_by fst (stx_entries (SInner level keys children))"
  defines "p \<equiv> stx_find_lower keys key"
  shows "p \<le> length keys" and "p < length children" and "p = length keys \<or> key \<le> stx_max (children ! p)"
    and "\<And>i. i < p \<Longrightarrow> stx_entries (children ! i) \<noteq> [] \<and> stx_max (children ! i) < key"
    and "sorted_by fst (stx_entries (children ! p))"
    and "stx_max (children ! p) \<le> stx_max (SInner level keys children)"
    and "p = length keys \<Longrightarrow> stx_max (SInner level keys children) = stx_max (children ! p)"
proof -
  let ?ess = "map stx_entries children"
  have kne: "keys \<noteq> []" and len: "length children = Suc (length keys)"
    and keys: "keys = map stx_max (butlast children)"
    and val: "\<forall>c \<in> set children. stx_ok kb True h c"
    using ok unfolding stx_ok.simps by blast+
  have sc: "sorted_by fst (concat ?ess)" using s by (simp only: stx_entries.simps)
  have ne: "[] \<notin> set ?ess" using val stx_ok_nonempty by fastforce
  have sm: "sorted (map stx_max children)"
    using sorted_lasts [OF sc ne] by (simp add: o_def stx_max_def [abs_def])
  have cne: "children \<noteq> []" using len by auto
  have ch: "children = butlast children @ [last children]" using cne by simp
  have sk: "sorted keys"
    using sm unfolding keys by (subst (asm) ch) (simp add: sorted_append del: append_butlast_last_id)
  have kn: "keys ! i = stx_max (children ! i)" if "i < length keys" for i
    using that by (subst keys) (simp add: len nth_butlast)
  have p_eq: "p = key_lb (\<lambda>x. x) keys key" by (simp add: p_def stx_find_lower_eq)
  have sk': "sorted_by (\<lambda>x. x) keys" using sk by simp
  show ple: "p \<le> length keys" unfolding p_eq by simp
  then show p: "p < length children" using len by simp
  show "p = length keys \<or> key \<le> stx_max (children ! p)"
  proof (cases "p = length keys")
    case False
    with ple have "p < length keys" by simp
    with less_key_lb_iff [OF sk' this, of key] kn show ?thesis by (auto simp: p_eq not_less)
  qed simp
  show "stx_entries (children ! i) \<noteq> [] \<and> stx_max (children ! i) < key" if "i < p" for i
  proof -
    have i: "i < length keys" "i < length children" using that ple p by simp_all
    then have "keys ! i < key" using less_key_lb_iff [OF sk' i(1), of key] that by (simp add: p_eq)
    moreover have "stx_entries (children ! i) \<noteq> []" using ne i by (metis image_eqI nth_mem set_map)
    ultimately show ?thesis using kn [OF i(1)] by simp
  qed
  show "sorted_by fst (stx_entries (children ! p))"
    using sc concat_split_nth [of p ?ess] p by (simp add: sorted_append)
  have mx: "stx_max (SInner level keys children) = stx_max (last children)"
  proof -
    have "stx_entries (last children) \<noteq> []" using ne cne by (metis image_eqI last_in_set set_map)
    then show ?thesis unfolding stx_max_def by (subst ch) (simp del: append_butlast_last_id)
  qed
  show "stx_max (children ! p) \<le> stx_max (SInner level keys children)"
    unfolding mx using sm p cne by (auto simp: last_conv_nth sorted_iff_nth_mono)
  show "stx_max (SInner level keys children) = stx_max (children ! p)" if "p = length keys"
    unfolding mx using that len cne by (simp add: last_conv_nth)
qed

section \<open>Lookup is right\<close>

lemma stx_lower_node_correct:
  fixes key :: "'k::linorder"
  assumes "stx_ok kb strict h n" and "sorted_by fst (stx_entries n)"
  shows "\<exists>slots tail' slot. stx_lower_node n tail key = Inr (slots, tail', slot)
    \<and> (if key \<le> stx_max n
       then slot < length slots \<and> slots ! slot = stx_entries n ! key_lb fst (stx_entries n) key
       else slot = length slots \<and> tail' = tail)"
  using assms
proof (induction kb strict h n arbitrary: tail rule: stx_ok.induct)
  case (1 kb strict slots)
  then have "key_lb fst slots key < length slots \<longleftrightarrow> key \<le> stx_max (SLeaf slots)"
    using key_lb_less_iff [of fst slots key] by (simp add: stx_max_def)
  moreover have "key_lb fst slots key \<le> length slots" by simp
  ultimately show ?case
    using le_neq_implies_less [of "key_lb fst slots key" "length slots"]
    by (auto simp: stx_find_lower_eq key_lb_map)
next
  case (2 kb strict h level keys children)
  let ?n = "SInner level keys children" and ?p = "stx_find_lower keys key"
  let ?ess = "map stx_entries children"
  note S = stx_inner_slot [OF "2.prems", where key = key]
  have cok: "stx_ok kb True h (children ! ?p)"
    using "2.prems"(1) nth_mem [OF S(2)] unfolding stx_ok.simps by blast
  obtain slots tail' slot where IH:
    "stx_lower_node (children ! ?p) (tail \<and> ?p = length keys) key = Inr (slots, tail', slot)"
    "if key \<le> stx_max (children ! ?p)
     then slot < length slots \<and> slots ! slot = stx_entries (children ! ?p)
       ! key_lb fst (stx_entries (children ! ?p)) key
     else slot = length slots \<and> tail' = (tail \<and> ?p = length keys)"
    using "2.IH" [OF nth_mem [OF S(2)] cok S(5)] by blast
  have step: "stx_lower_node ?n tail key = Inr (slots, tail', slot)"
    using S(2) IH(1) by (simp add: Let_def)
  show ?case
  proof (cases "key \<le> stx_max (children ! ?p)")
    case True
    then have "key \<le> stx_max ?n" using S(6) by (rule order.trans)
    moreover have "stx_entries ?n ! key_lb fst (stx_entries ?n) key
        = stx_entries (children ! ?p) ! key_lb fst (stx_entries (children ! ?p)) key"
      using key_lb_concat(3) [of fst ?ess ?p key] "2.prems"(2) S(2,4) True stx_ok_nonempty [OF cok]
      by (auto simp: stx_max_def)
    ultimately show ?thesis using step IH(2) True by simp
  next
    case False
    then have last: "?p = length keys" using S(3) by blast
    then have "\<not> key \<le> stx_max ?n" using S(7) False by simp
    with step IH(2) False last show ?thesis by simp
  qed
qed auto

definition stx_contents :: "('k, 'v) stx_tree \<Rightarrow> ('k \<times> 'v) list" where
  "stx_contents t = (case stx_root t of None \<Rightarrow> [] | Some n \<Rightarrow> stx_entries n)"

fun stx_count_leaves :: "('k, 'v) stx_node \<Rightarrow> nat" where
  "stx_count_leaves (SLeaf slots) = 1"
| "stx_count_leaves (SInner level keys children) = sum_list (map stx_count_leaves children)"

fun stx_count_inner :: "('k, 'v) stx_node \<Rightarrow> nat" where
  "stx_count_inner (SLeaf slots) = 0"
| "stx_count_inner (SInner level keys children) = Suc (sum_list (map stx_count_inner children))"

definition stx_node_stats :: "('k, 'v) stx_node \<Rightarrow> stx_stats" where
  "stx_node_stats n = \<lparr>st_itemcount = length (stx_entries n), st_leaves = stx_count_leaves n,
     st_innernodes = stx_count_inner n\<rparr>"

definition stx_valid :: "nat \<Rightarrow> ('k::linorder, 'v) stx_tree \<Rightarrow> bool" where
  "stx_valid kb t \<longleftrightarrow> (case stx_root t of
      None \<Rightarrow> stx_m_stats t = \<lparr>st_itemcount = 0, st_leaves = 0, st_innernodes = 0\<rparr>
    | Some n \<Rightarrow> (\<exists>h. stx_ok kb False h n) \<and> sorted_by fst (stx_entries n)
        \<and> stx_m_stats t = stx_node_stats n)"

lemma stx_valid_sorted: "stx_valid kb t \<Longrightarrow> sorted_by fst (stx_contents t)"
  by (auto simp: stx_valid_def stx_contents_def split: option.splits)

text \<open>On a valid tree \<open>lower_bound\<close> is the first entry that is not below the key.\<close>

lemma stx_lower_bound_correct:
  fixes key :: "'k::linorder"
  assumes "stx_valid kb t"
  shows "stx_lower_bound t key = Inr (map_option snd (find (\<lambda>e. key \<le> fst e) (stx_contents t)))"
proof (cases "stx_root t")
  case None
  then show ?thesis by (simp add: stx_lower_bound_def stx_contents_def)
next
  case (Some n)
  then obtain h where ok: "stx_ok kb False h n" and s: "sorted_by fst (stx_entries n)"
    using assms by (auto simp: stx_valid_def)
  have iff: "key_lb fst (stx_entries n) key < length (stx_entries n) \<longleftrightarrow> key \<le> stx_max n"
    using key_lb_less_iff [OF s, of key] stx_ok_nonempty [OF ok] by (simp add: stx_max_def)
  from stx_lower_node_correct [OF ok s, of True key] iff Some show ?thesis
    by (auto simp: stx_lower_bound_def stx_contents_def find_key_lb split: if_splits)
qed

section \<open>Bulk load builds a valid tree\<close>

lemma concat_stx_distribute: "0 < r \<or> xs = [] \<Longrightarrow> concat (stx_distribute r xs) = xs"
proof (induction r arbitrary: xs)
  case (Suc r)
  show ?case
  proof (cases r)
    case 0
    then show ?thesis by (simp add: Let_def)
  next
    case (Suc r')
    then have "concat (stx_distribute r (drop (length xs div Suc r) xs))
        = drop (length xs div Suc r) xs" by (intro Suc.IH) simp
    then show ?thesis by (simp only: stx_distribute.simps Let_def concat.simps append_take_drop_id)
  qed
qed simp

text \<open>The shares differ by at most one: they respect both bounds that the average respects.\<close>

lemma stx_distribute_bounds:
  "q * r \<le> length xs \<Longrightarrow> length xs \<le> r * M \<Longrightarrow> g \<in> set (stx_distribute r xs) \<Longrightarrow>
   q \<le> length g \<and> length g \<le> M"
proof (induction r arbitrary: xs)
  case (Suc r)
  let ?n = "length xs" and ?d = "length xs div Suc r"
  have split: "?n = ?d * r + ?d + ?n mod Suc r" and m: "?n mod Suc r < Suc r"
    using div_mult_mod_eq [of ?n "Suc r"] by simp_all
  have q: "q \<le> ?d" using Suc.prems(1) by (simp add: less_eq_div_iff_mult_less_eq)
  have dn: "?d \<le> ?n" by simp
  have d: "?d \<le> M"
    using Suc.prems(2) by (metis div_le_mono nonzero_mult_div_cancel_left nat.distinct(1))
  have lo: "q * r \<le> ?n - ?d"
  proof -
    have "q * r \<le> ?d * r" using q by simp
    then show ?thesis using split by linarith
  qed
  have hi: "?n - ?d \<le> r * M"
  proof (cases "?d = M")
    case True
    with Suc.prems(2) show ?thesis by simp
  next
    case False
    with d have "Suc ?d \<le> M" by simp
    then have "r * Suc ?d \<le> r * M" by (rule mult_le_mono2)
    moreover have "?n - ?d = ?d * r + ?n mod Suc r" using split by linarith
    moreover have "r * Suc ?d = ?d * r + r" by simp
    ultimately show ?thesis using m by linarith
  qed
  from Suc.prems(3) have "g = take ?d xs \<or> g \<in> set (stx_distribute r (drop ?d xs))"
    by (simp add: Let_def)
  then show ?case
  proof
    assume "g = take ?d xs"
    then have "length g = ?d" using dn by simp
    with q d show ?thesis by simp
  next
    assume g: "g \<in> set (stx_distribute r (drop ?d xs))"
    have "q * r \<le> length (drop ?d xs)" "length (drop ?d xs) \<le> r * M" using lo hi by simp_all
    from Suc.IH [OF this g] show ?thesis .
  qed
qed simp

text \<open>The number of nodes and their fill, for nodes of at most \<open>M\<close> elements.\<close>

lemma stx_shares:
  fixes n M :: nat
  assumes n: "0 < n" and M: "1 < M"
  defines "r \<equiv> (n + M - 1) div M"
  shows "0 < r" and "n \<le> r * M" and "r \<le> n" and "1 < r \<Longrightarrow> (M + 1) div 2 * r \<le> n"
    and "r = 1 \<longleftrightarrow> n \<le> M"
proof -
  have split: "n + M - 1 = r * M + (n + M - 1) mod M" unfolding r_def by (metis div_mult_mod_eq)
  have m: "(n + M - 1) mod M < M" using M by simp
  show le: "n \<le> r * M" using split m M by linarith
  show pos: "0 < r" using le n by (cases r) auto
  obtain k where k: "r = Suc k" using pos by (cases r) auto
  have low: "k * M + 1 \<le> n" using split m M n k by simp
  then show "r \<le> n"
  proof -
    have "k \<le> k * M" using M by simp
    with low k show ?thesis by linarith
  qed
  show "r = 1 \<longleftrightarrow> n \<le> M" using le low k M by (cases k) auto
  show "(M + 1) div 2 * r \<le> n" if r1: "1 < r"
  proof -
    obtain j where j: "k = Suc j" using r1 k by (cases k) auto
    have "2 * ((M + 1) div 2) \<le> M + 1" by simp
    then have "2 * ((M + 1) div 2) * r \<le> (M + 1) * r" by (rule mult_le_mono1)
    then have "2 * ((M + 1) div 2 * r) \<le> (M + 1) * r" by (simp only: mult.assoc)
    also have "(M + 1) * r = (j + 2) * M + j + 2" by (simp add: k j algebra_simps)
    also have "\<dots> \<le> 2 * ((j + 1) * M + 1)" using M by (simp add: algebra_simps)
    also have "\<dots> \<le> 2 * n" using low j by simp
    finally show ?thesis by simp
  qed
qed

lemma slotmax_ge: "8 \<le> leafslotmax kb" "8 \<le> innerslotmax kb"
  by (simp_all add: leafslotmax_def innerslotmax_def)

lemma minslots_ge: "4 \<le> minleafslots kb" "4 \<le> mininnerslots kb"
  using div_le_mono [OF slotmax_ge(1) [of kb], of 2] div_le_mono [OF slotmax_ge(2) [of kb], of 2]
  by (simp_all add: minleafslots_def mininnerslots_def)

text \<open>A level of nodes with their maximal keys.\<close>

definition stx_level_ok ::
  "nat \<Rightarrow> nat \<Rightarrow> (('k, 'v) stx_node \<times> 'k) list \<Rightarrow> bool" where
  "stx_level_ok kb h ns \<longleftrightarrow>
     (\<forall>(n, k) \<in> set ns. stx_ok kb (1 < length ns) h n \<and> k = stx_max n)"

definition stx_level_entries :: "(('k, 'v) stx_node \<times> 'k) list \<Rightarrow> ('k \<times> 'v) list" where
  "stx_level_entries ns = concat (map (\<lambda>(n, k). stx_entries n) ns)"

definition stx_level_sum :: "(('k, 'v) stx_node \<Rightarrow> nat) \<Rightarrow> (('k, 'v) stx_node \<times> 'k) list \<Rightarrow> nat" where
  "stx_level_sum f ns = sum_list (map (\<lambda>(n, k). f n) ns)"

lemma stx_max_last_child:
  assumes "children \<noteq> []" and "stx_entries (last children) \<noteq> []"
  shows "stx_max (SInner level keys children) = stx_max (last children)"
proof -
  obtain cs c where "children = cs @ [c]" using assms(1) by (cases children rule: rev_cases) auto
  with assms(2) show ?thesis by (simp add: stx_max_def)
qed

lemma stx_inner_over_ok:
  assumes g: "\<And>n k. (n, k) \<in> set g \<Longrightarrow> stx_ok kb True h n \<and> k = stx_max n"
    and len: "2 \<le> length g" "length g \<le> innerslotmax kb + 1"
    and strict: "strict \<Longrightarrow> mininnerslots kb + 1 \<le> length g"
  shows "stx_ok kb strict (Suc h) (fst (stx_inner_over (Suc h) g))"
    and "snd (stx_inner_over (Suc h) g) = stx_max (fst (stx_inner_over (Suc h) g))"
proof -
  have gne: "g \<noteq> []" using len by auto
  have keys: "map snd (butlast g) = map stx_max (butlast (map fst g))"
    using g by (auto simp: map_butlast [symmetric] dest: in_set_butlastD)
  have ne: "map snd (butlast g) \<noteq> []" using len by (cases g) auto
  show "stx_ok kb strict (Suc h) (fst (stx_inner_over (Suc h) g))"
    unfolding stx_inner_over_def fst_conv stx_ok.simps
  proof (intro conjI impI)
    show "\<forall>c \<in> set (map fst g). stx_ok kb True h c" using g by auto
    show "length (map fst g) = Suc (length (map snd (butlast g)))" using len by simp
    show "length (map snd (butlast g)) \<le> innerslotmax kb" using len by simp
    show "mininnerslots kb \<le> length (map snd (butlast g))" if strict using strict [OF that] by simp
  qed (rule refl ne keys)+
  have l: "last g \<in> set g" using gne by simp
  then have "stx_ok kb True h (fst (last g)) \<and> snd (last g) = stx_max (fst (last g))"
    using g by (metis prod.collapse)
  then show "snd (stx_inner_over (Suc h) g) = stx_max (fst (stx_inner_over (Suc h) g))"
    using gne stx_ok_nonempty [of kb True h "fst (last g)"]
    by (simp add: stx_inner_over_def stx_max_last_child last_map)
qed

lemma stx_build_level_ok:
  assumes ok: "stx_level_ok kb h ns" and n: "1 < length ns"
  defines "ps \<equiv> stx_build_level kb (Suc h) ns"
  shows "stx_level_ok kb (Suc h) ps" and "ps \<noteq> []"
    and "stx_level_entries ps = stx_level_entries ns"
    and "stx_level_sum stx_count_leaves ps = stx_level_sum stx_count_leaves ns"
    and "stx_level_sum stx_count_inner ps = length ps + stx_level_sum stx_count_inner ns"
proof -
  let ?M = "innerslotmax kb + 1" and ?n = "length ns"
  define r where "r = (?n + ?M - 1) div ?M"
  have ps: "ps = map (stx_inner_over (Suc h)) (stx_distribute r ns)"
    by (simp add: ps_def stx_build_level_def r_def Let_def)
  have M: "1 < ?M" using slotmax_ge(2) [of kb] by simp
  have n0: "0 < ?n" using n by linarith
  note R = stx_shares [OF n0 M, folded r_def]
  have cat: "concat (stx_distribute r ns) = ns" using R(1) by (simp add: concat_stx_distribute)
  have lps: "length ps = r" by (simp add: ps)
  from lps R(1) show "ps \<noteq> []" by (metis length_0_conv not_less_zero)
  have elem: "stx_ok kb True h m \<and> k = stx_max m"
    if "g \<in> set (stx_distribute r ns)" "(m, k) \<in> set g" for g m k
  proof -
    have "(m, k) \<in> set (concat (stx_distribute r ns))" using that by auto
    then show ?thesis using ok n unfolding cat by (auto simp: stx_level_ok_def)
  qed
  have size: "2 \<le> length g \<and> length g \<le> ?M \<and> (1 < r \<longrightarrow> mininnerslots kb + 1 \<le> length g)"
    if g: "g \<in> set (stx_distribute r ns)" for g
  proof (cases "1 < r")
    case True
    have "(?M + 1) div 2 = mininnerslots kb + 1" by (simp add: mininnerslots_def)
    with R(4) [OF True] have "(mininnerslots kb + 1) * r \<le> length ns" by simp
    from stx_distribute_bounds [OF this R(2) g] minslots_ge(2) [of kb] show ?thesis by simp
  next
    case False
    with R(1) have "r = 1" by simp
    then have "g = ns" using g by (simp add: Let_def)
    with n R(2) \<open>r = 1\<close> show ?thesis by simp
  qed
  show "stx_level_ok kb (Suc h) ps"
    unfolding stx_level_ok_def lps
  proof (intro ballI, clarify)
    fix m k assume "(m, k) \<in> set ps"
    then obtain g where g: "g \<in> set (stx_distribute r ns)" "(m, k) = stx_inner_over (Suc h) g"
      by (auto simp: ps)
    have "stx_ok kb (1 < r) (Suc h) (fst (stx_inner_over (Suc h) g))
      \<and> snd (stx_inner_over (Suc h) g) = stx_max (fst (stx_inner_over (Suc h) g))"
      using stx_inner_over_ok [OF elem [OF g(1)], where strict = "1 < r"] size [OF g(1)] by auto
    with g(2) show "stx_ok kb (1 < r) (Suc h) m \<and> k = stx_max m" by (metis fst_conv snd_conv)
  qed
  have ent: "stx_level_entries (map (stx_inner_over (Suc h)) gs) = stx_level_entries (concat gs)" for gs
    by (induction gs) (auto simp: stx_level_entries_def stx_inner_over_def case_prod_beta' o_def)
  show "stx_level_entries ps = stx_level_entries ns" unfolding ps ent cat ..
  have lv: "stx_level_sum stx_count_leaves (map (stx_inner_over (Suc h)) gs)
      = stx_level_sum stx_count_leaves (concat gs)" for gs
    by (induction gs) (auto simp: stx_level_sum_def stx_inner_over_def case_prod_beta' o_def)
  show "stx_level_sum stx_count_leaves ps = stx_level_sum stx_count_leaves ns"
    unfolding ps lv cat ..
  have inn: "stx_level_sum stx_count_inner (map (stx_inner_over (Suc h)) gs)
      = length gs + stx_level_sum stx_count_inner (concat gs)" for gs
    by (induction gs) (auto simp: stx_level_sum_def stx_inner_over_def case_prod_beta' o_def)
  show "stx_level_sum stx_count_inner ps = length ps + stx_level_sum stx_count_inner ns"
    unfolding ps inn cat by simp
qed

lemma stx_build_levels_ok:
  "stx_level_ok kb h ns \<Longrightarrow> ns \<noteq> [] \<Longrightarrow> c = stx_level_sum stx_count_inner ns \<Longrightarrow>
   \<exists>n k h'. stx_build_levels kb (Suc h) ns c = ([(n, k)], stx_count_inner n)
     \<and> stx_ok kb False h' n \<and> stx_entries n = stx_level_entries ns
     \<and> stx_count_leaves n = stx_level_sum stx_count_leaves ns"
proof (induction "length ns" arbitrary: h ns c rule: less_induct)
  case less
  show ?case
  proof (cases "1 < length ns")
    case False
    with less.prems(2) obtain n k where ns: "ns = [(n, k)]"
      by (metis One_nat_def Suc_lessI length_0_conv length_Suc_conv neq0_conv surj_pair)
    moreover from this have "stx_build_levels kb (Suc h) ns c = (ns, c)"
      by (subst stx_build_levels.simps) simp
    ultimately show ?thesis
      using less.prems by (auto simp: stx_level_ok_def stx_level_entries_def stx_level_sum_def)
  next
    case True
    let ?ps = "stx_build_level kb (Suc h) ns"
    note P = stx_build_level_ok [OF less.prems(1) True]
    have "length ?ps < length ns"
      using stx_parents_less [OF True, of kb] by (simp add: stx_build_level_def Let_def)
    moreover have "stx_build_levels kb (Suc h) ns c
        = stx_build_levels kb (Suc (Suc h)) ?ps (stx_level_sum stx_count_inner ?ps)"
      using True P(5) less.prems(3) by (subst stx_build_levels.simps) (simp add: Let_def add.commute)
    ultimately show ?thesis using less.hyps [OF _ P(1,2) refl] P(3,4) by simp
  qed
qed

lemma stx_bulk_load_valid:
  assumes s: "sorted_by fst items"
  shows "stx_valid kb (stx_bulk_load kb items)" and "stx_contents (stx_bulk_load kb items) = items"
proof -
  let ?L = "leafslotmax kb" and ?n = "length items"
  define r where "r = (?n + ?L - 1) div ?L"
  let ?leaves = "stx_distribute r items"
  note load = stx_bulk_load_def [of kb items, unfolded Let_def, folded r_def]
  have "stx_valid kb (stx_bulk_load kb items) \<and> stx_contents (stx_bulk_load kb items) = items"
  proof (cases "items = []")
    case True
    then have "r = 0" using slotmax_ge(1) [of kb] by (simp add: r_def)
    with True show ?thesis unfolding load by (simp add: stx_valid_def stx_contents_def)
  next
    case False
    then have n: "0 < ?n" by simp
    have L: "1 < ?L" using slotmax_ge(1) [of kb] by simp
    note R = stx_shares [OF n L, folded r_def]
    have cat: "concat ?leaves = items" using R(1) by (simp add: concat_stx_distribute)
    show ?thesis
    proof (cases "1 < r")
      case False
      with R(1) have r: "r = 1" by simp
      then have "?leaves = [items]" by (simp add: Let_def)
      moreover have "stx_ok kb False 0 (SLeaf items)" using \<open>items \<noteq> []\<close> R(5) r by simp
      ultimately show ?thesis
        using s r unfolding load
        by (auto simp: stx_valid_def stx_contents_def stx_node_stats_def intro!: exI [of _ 0])
    next
      case True
      let ?ls = "map (\<lambda>ps. (SLeaf ps, fst (last ps))) ?leaves"
      have "minleafslots kb \<le> (?L + 1) div 2" by (simp add: minleafslots_def div_le_mono)
      have size: "1 \<le> length g \<and> minleafslots kb \<le> length g \<and> length g \<le> ?L"
        if "g \<in> set ?leaves" for g
        using stx_distribute_bounds [OF R(4) [OF True] R(2) that] slotmax_ge(1) [of kb]
        by (auto simp: minleafslots_def)
      have ok: "stx_level_ok kb 0 ?ls"
        using size by (force simp: stx_level_ok_def stx_max_def)
      have ls: "1 < length ?ls" using True by simp
      have ent: "stx_level_entries ?ls = items"
        using cat by (simp add: stx_level_entries_def o_def)
      have lv: "stx_level_sum stx_count_leaves ?ls = r"
        by (simp add: stx_level_sum_def o_def sum_list_triv)
      have inn: "stx_level_sum stx_count_inner ?ls = 0" by (simp add: stx_level_sum_def o_def)
      let ?l1 = "stx_build_level kb (Suc 0) ?ls"
      note P = stx_build_level_ok [OF ok ls]
      have "length ?l1 = stx_level_sum stx_count_inner ?l1" using P(5) inn by simp
      from stx_build_levels_ok [OF P(1,2) this] P(3,4) ent lv obtain m k h' where
        m: "stx_build_levels kb (Suc (Suc 0)) ?l1 (length ?l1) = ([(m, k)], stx_count_inner m)"
          "stx_ok kb False h' m" "stx_entries m = items" "stx_count_leaves m = r" by auto
      have "stx_bulk_load kb items = \<lparr>stx_root = Some m, stx_m_stats =
          \<lparr>st_itemcount = ?n, st_leaves = r, st_innernodes = stx_count_inner m\<rparr>\<rparr>"
        using True m(1) unfolding load by (simp add: numeral_2_eq_2)
      with m s show ?thesis
        by (auto simp: stx_valid_def stx_contents_def stx_node_stats_def)
    qed
  qed
  then show "stx_valid kb (stx_bulk_load kb items)" and "stx_contents (stx_bulk_load kb items) = items"
    by simp_all
qed

section \<open>The checker accepts valid trees\<close>

lemma stx_verify_children_ok:
  assumes "\<forall>c \<in> set cs. stx_level_of c + 1 = level
      \<and> V c = Inr ((mn c, mx c), stx_node_stats c)"
    and "\<forall>i < length cs. (slot + i = 0 \<or> keys ! (slot + i - 1) \<le> mn (cs ! i))
      \<and> (slot + i = length keys \<or> keys ! (slot + i) = mx (cs ! i))"
  shows "stx_verify_children level keys slot (map (\<lambda>c. (stx_level_of c, V c)) cs)
    = Inr (map (\<lambda>c. (mn c, mx c)) cs,
        \<lparr>st_itemcount = length (concat (map stx_entries cs)),
         st_leaves = sum_list (map stx_count_leaves cs),
         st_innernodes = sum_list (map stx_count_inner cs)\<rparr>)"
  using assms
proof (induction cs arbitrary: slot)
  case (Cons c cs)
  have "\<forall>i < length cs. (Suc slot + i = 0 \<or> keys ! (Suc slot + i - 1) \<le> mn (cs ! i))
      \<and> (Suc slot + i = length keys \<or> keys ! (Suc slot + i) = mx (cs ! i))"
  proof (intro allI impI)
    fix i assume "i < length cs"
    with Cons.prems(2) [rule_format, of "Suc i"]
    show "(Suc slot + i = 0 \<or> keys ! (Suc slot + i - 1) \<le> mn (cs ! i))
      \<and> (Suc slot + i = length keys \<or> keys ! (Suc slot + i) = mx (cs ! i))" by simp
  qed
  with Cons.IH [of "Suc slot"] Cons.prems have
    "stx_verify_children level keys (Suc slot) (map (\<lambda>c. (stx_level_of c, V c)) cs)
      = Inr (map (\<lambda>c. (mn c, mx c)) cs,
        \<lparr>st_itemcount = length (concat (map stx_entries cs)),
         st_leaves = sum_list (map stx_count_leaves cs),
         st_innernodes = sum_list (map stx_count_inner cs)\<rparr>)" by simp
  moreover have "slot = 0 \<or> keys ! (slot - 1) \<le> mn c" "slot = length keys \<or> keys ! slot = mx c"
    using Cons.prems(2) [rule_format, of 0] by auto
  ultimately show ?case
    using Cons.prems(1) by (simp add: assertion_def stats_add_def stx_node_stats_def)
qed simp

lemma stx_ok_inner_facts:
  assumes ok: "stx_ok kb strict (Suc h) (SInner level keys children)"
    and s: "sorted_by fst (stx_entries (SInner level keys children))"
  shows "sorted keys"
    and "i < length keys \<Longrightarrow> keys ! i = stx_max (children ! i)"
    and "i < length keys \<Longrightarrow> keys ! i \<le> fst (hd (stx_entries (children ! Suc i)))"
    and "c \<in> set children \<Longrightarrow> sorted_by fst (stx_entries c)"
    and "children \<noteq> []" and "length children = Suc (length keys)"
    and "c \<in> set children \<Longrightarrow> stx_ok kb True h c"
proof -
  let ?ess = "map stx_entries children"
  show len: "length children = Suc (length keys)"
    and val: "\<And>c. c \<in> set children \<Longrightarrow> stx_ok kb True h c"
    using ok unfolding stx_ok.simps by blast+
  then show cne: "children \<noteq> []" by auto
  have keys: "keys = map stx_max (butlast children)" using ok unfolding stx_ok.simps by blast
  have sc: "sorted_by fst (concat ?ess)" using s by (simp only: stx_entries.simps)
  have ne: "[] \<notin> set ?ess" using val stx_ok_nonempty by fastforce
  have sm: "sorted (map stx_max children)"
    using sorted_lasts [OF sc ne] by (simp add: o_def stx_max_def [abs_def])
  have ch: "children = butlast children @ [last children]" using cne by simp
  show "sorted keys"
    using sm unfolding keys by (subst (asm) ch) (simp add: sorted_append del: append_butlast_last_id)
  have kn: "keys ! i = stx_max (children ! i)" if "i < length keys" for i
    using that by (subst keys) (simp add: len nth_butlast)
  then show "i < length keys \<Longrightarrow> keys ! i = stx_max (children ! i)" .
  show "sorted_by fst (stx_entries c)" if c: "c \<in> set children"
  proof -
    obtain i where "i < length children" "c = children ! i" using c by (auto simp: in_set_conv_nth)
    then show ?thesis using sc concat_split_nth [of i ?ess] by (simp add: sorted_append)
  qed
  show "keys ! i \<le> fst (hd (stx_entries (children ! Suc i)))" if i: "i < length keys"
  proof -
    have j: "Suc i < length ?ess" using i len by simp
    have n1: "?ess ! i \<noteq> []" "?ess ! Suc i \<noteq> []" using ne j by (metis Suc_lessD nth_mem)+
    have "?ess ! i \<in> set (take (Suc i) ?ess)" using j by (auto simp: in_set_conv_nth)
    then have "last (?ess ! i) \<in> set (concat (take (Suc i) ?ess))"
      using n1(1) unfolding set_concat by (blast intro: last_in_set)
    moreover have "hd (?ess ! Suc i) \<in> set (?ess ! Suc i)" using n1(2) by simp
    ultimately have "fst (last (?ess ! i)) \<le> fst (hd (?ess ! Suc i))"
      using sc unfolding concat_split_nth [OF j] by (auto simp: sorted_append)
    with kn [OF i] i len show ?thesis by (simp add: stx_max_def)
  qed
qed

lemma stx_sorted_slots_iff: "stx_sorted_slots keys \<longleftrightarrow> sorted keys"
  by (auto simp: stx_sorted_slots_def sorted_iff_nth_Suc less_diff_conv)

lemma stx_verify_node_ok:
  assumes "stx_ok kb strict h n" and "sorted_by fst (stx_entries n)"
  shows "stx_verify_node kb (\<not> strict) n
    = Inr ((fst (hd (stx_entries n)), stx_max n), stx_node_stats n)"
  using assms
proof (induction kb strict h n rule: stx_ok.induct)
  case (1 kb strict slots)
  then show ?case
    by (auto simp: Let_def assertion_def stx_sorted_slots_iff stx_max_def stx_node_stats_def
        hd_conv_nth last_conv_nth not_less)
next
  case (2 kb strict h level keys children)
  let ?mn = "\<lambda>c. fst (hd (stx_entries c))"
  note F = stx_ok_inner_facts [OF "2.prems"]
  have lev: "level = Suc h" "keys \<noteq> []" "strict \<longrightarrow> mininnerslots kb \<le> length keys"
    using "2.prems"(1) unfolding stx_ok.simps by blast+
  have V: "stx_level_of c + 1 = level \<and> stx_verify_node kb False c = Inr ((?mn c, stx_max c), stx_node_stats c)"
    if "c \<in> set children" for c
    using "2.IH" [OF that F(7) [OF that] F(4) [OF that]] stx_ok_level [OF F(7) [OF that]] lev by simp
  have "stx_verify_children level keys 0 (map (\<lambda>c. (stx_level_of c, stx_verify_node kb False c)) children)
    = Inr (map (\<lambda>c. (?mn c, stx_max c)) children,
        \<lparr>st_itemcount = length (concat (map stx_entries children)),
         st_leaves = sum_list (map stx_count_leaves children),
         st_innernodes = sum_list (map stx_count_inner children)\<rparr>)"
  proof (rule stx_verify_children_ok)
    show "\<forall>i < length children. (0 + i = 0 \<or> keys ! (0 + i - 1) \<le> ?mn (children ! i))
      \<and> (0 + i = length keys \<or> keys ! (0 + i) = stx_max (children ! i))"
    proof (intro allI impI conjI)
      fix i assume i: "i < length children"
      show "0 + i = 0 \<or> keys ! (0 + i - 1) \<le> ?mn (children ! i)"
        using F(3) [of "i - 1"] F(6) i by (cases i) auto
      show "0 + i = length keys \<or> keys ! (0 + i) = stx_max (children ! i)"
        using F(2) [of i] F(6) i by (cases "i < length keys") auto
    qed
  qed (use V in blast)
  moreover have "fst (hd (stx_entries (SInner level keys children))) = ?mn (hd children)"
    using F(5) stx_ok_nonempty [OF F(7)] by (cases children) auto
  moreover have "stx_max (SInner level keys children) = stx_max (last children)"
    using F(5) stx_ok_nonempty [OF F(7)] by (intro stx_max_last_child) auto
  ultimately show ?case
    using lev F(1,5) by (simp add: assertion_def stx_sorted_slots_iff hd_map last_map
        stx_node_stats_def not_less)
qed auto

lemma stx_verify_valid: "stx_valid kb t \<Longrightarrow> stx_verify kb t = Inr ()"
  using stx_verify_node_ok [of kb False]
  by (fastforce simp: stx_valid_def stx_verify_def assertion_def split: option.splits)

section \<open>Insertion keeps the tree valid\<close>

lemma length_insert_at [simp]: "length (insert_at i x xs) = Suc (length xs)"
  by (simp add: insert_at_def)

lemma insert_at_Nil [simp]: "insert_at i x xs \<noteq> []"
  by (simp add: insert_at_def)

lemma insert_at_0 [simp]: "insert_at 0 x xs = x # xs"
  by (simp add: insert_at_def)

lemma set_insert_at: "set (insert_at i x xs) = insert x (set xs)"
  unfolding insert_at_def by (metis Un_insert_right append_take_drop_id list.simps(15) set_append)

lemma take_insert_at:
  "i \<le> length xs \<Longrightarrow>
   take n (insert_at i x xs) = (if n \<le> i then take n xs else insert_at i x (take (n - 1) xs))"
  by (auto simp: insert_at_def min_def drop_take take_Cons' Suc_diff_le diff_diff_add
      simp flip: diff_Suc_1 split: nat_diff_split)

lemma drop_insert_at:
  "i \<le> length xs \<Longrightarrow>
   drop n (insert_at i x xs) = (if n \<le> i then insert_at (i - n) x (drop n xs) else drop (n - 1) xs)"
  by (auto simp: insert_at_def drop_Cons' take_drop Suc_diff_le)

lemma nth_insert_at:
  "i \<le> length xs \<Longrightarrow> j \<le> length xs \<Longrightarrow>
   insert_at i x xs ! j = (if j < i then xs ! j else if j = i then x else xs ! (j - 1))"
  by (auto simp: insert_at_def nth_append nth_Cons' min_def)

lemma insert_at_lb: "insert_at (key_lb fst xs key) (key, v) xs = insort_key fst (key, v) xs"
  by (induction xs) (auto simp: insert_at_def key_lb_def lb_def not_le)

lemma last_insort_key:
  "xs \<noteq> [] \<Longrightarrow> f a \<le> f (last xs) \<Longrightarrow> last (insort_key f a xs) = last xs"
  by (induction xs) (auto split: if_splits)

text \<open>
  What an insertion below a node leaves: one node, or two with the maximum of the left one
  as split key; the entries with the new one in its place; and the counts of the new nodes.
\<close>

definition split_nodes :: "('k, 'v) stx_node \<Rightarrow> ('k, 'v) split \<Rightarrow> ('k, 'v) stx_node list" where
  "split_nodes n split = n # (case split of None \<Rightarrow> [] | Some (splitkey, m) \<Rightarrow> [m])"

definition stx_inserted ::
  "nat \<Rightarrow> bool \<Rightarrow> nat \<Rightarrow> stx_stats \<Rightarrow> ('k::linorder, 'v) stx_node \<Rightarrow> 'k \<Rightarrow> 'v \<Rightarrow>
   stx_stats \<times> ('k, 'v) stx_node \<times> ('k, 'v) split \<Rightarrow> bool" where
  "stx_inserted kb strict h stats n key val r =
     (case r of (stats', n', split) \<Rightarrow>
        (case split of
           None \<Rightarrow> stx_ok kb strict h n'
         | Some (splitkey, m) \<Rightarrow> stx_ok kb True h n' \<and> stx_ok kb True h m \<and> splitkey = stx_max n')
        \<and> concat (map stx_entries (split_nodes n' split)) = insort_key fst (key, val) (stx_entries n)
        \<and> st_itemcount stats' = st_itemcount stats
        \<and> st_leaves stats' + stx_count_leaves n
            = st_leaves stats + sum_list (map stx_count_leaves (split_nodes n' split))
        \<and> st_innernodes stats' + stx_count_inner n
            = st_innernodes stats + sum_list (map stx_count_inner (split_nodes n' split)))"

lemma stx_insert_leaf_inserted:
  assumes len: "length slots \<le> leafslotmax kb" and strict: "strict \<Longrightarrow> minleafslots kb \<le> length slots"
  shows "stx_inserted kb strict 0 stats (SLeaf slots) key val (stx_insert_leaf kb stats slots key val)"
proof -
  let ?slot = "stx_find_lower (map fst slots) key" and ?L = "leafslotmax kb" and ?x = "(key, val)"
  have slot: "?slot = key_lb fst slots key" by (simp add: stx_find_lower_eq key_lb_map)
  have le: "?slot \<le> length slots" unfolding slot by simp
  have new: "insert_at ?slot ?x slots = insort_key fst ?x slots" unfolding slot by (rule insert_at_lb)
  show ?thesis
  proof (cases "length slots = ?L")
    case False
    with len have "length slots < ?L" by simp
    with new strict False show ?thesis
      by (auto simp: stx_inserted_def split_nodes_def stx_insert_leaf_def Let_def)
  next
    case True
    let ?mid = "length slots div 2"
    let ?left = "take ?mid slots" and ?right = "drop ?mid slots"
    have mid: "4 \<le> ?mid" "?mid = minleafslots kb" "2 * ?mid \<le> length slots"
      using minslots_ge(1) [of kb] by (simp_all add: minleafslots_def True)
    have right: "minleafslots kb \<le> length slots - ?mid" "length slots - ?mid < ?L"
      using mid True by simp_all
    show ?thesis
    proof (cases "?mid \<le> ?slot")
      case ge: True
      have "?left @ insert_at (?slot - ?mid) ?x ?right = insert_at ?slot ?x slots"
        using take_insert_at [OF le, of ?mid ?x] drop_insert_at [OF le, of ?mid ?x] ge
        by (metis append_take_drop_id)
      with new mid right True ge show ?thesis
        by (auto simp: stx_inserted_def split_nodes_def stx_insert_leaf_def stx_split_leaf_def Let_def
            stx_max_def insert_at_def [of "_ - _"])
    next
      case lt: False
      let ?left' = "insert_at ?slot ?x ?left"
      have "?left' @ ?right = insert_at ?slot ?x slots"
        using take_insert_at [OF le, of "Suc ?mid" ?x] drop_insert_at [OF le, of "Suc ?mid" ?x] lt
        by (metis append_take_drop_id diff_Suc_1 le_SucI not_less_eq_eq)
      moreover have "last ?left' = last ?left"
        using lt mid(3) by (simp add: insert_at_def)
      moreover have "?slot \<noteq> length ?left' - 1" "?left' \<noteq> []"
        using lt mid(3) by (simp_all add: insert_at_def [of _ _ "take _ _"])
      ultimately show ?thesis
        using new mid right True lt
        by (auto simp: stx_inserted_def split_nodes_def stx_insert_leaf_def stx_split_leaf_def Let_def stx_max_def)
    qed
  qed
qed

text \<open>An inner node that may exceed its capacity by one.\<close>

definition stx_raw :: "nat \<Rightarrow> nat \<Rightarrow> 'k list \<Rightarrow> ('k, 'v) stx_node list \<Rightarrow> bool" where
  "stx_raw kb h ks cs \<longleftrightarrow> length cs = Suc (length ks) \<and> (\<forall>c \<in> set cs. stx_ok kb True h c)
     \<and> (\<forall>j < length ks. ks ! j = stx_max (cs ! j))"

lemma stx_raw_ok:
  assumes raw: "stx_raw kb h ks cs" and "ks \<noteq> []" and "length ks \<le> innerslotmax kb"
    and "strict \<Longrightarrow> mininnerslots kb \<le> length ks"
  shows "stx_ok kb strict (Suc h) (SInner (Suc h) ks cs)"
proof -
  have "ks = map stx_max (butlast cs)"
    using raw by (intro nth_equalityI) (auto simp: stx_raw_def nth_butlast)
  with assms show ?thesis unfolding stx_ok.simps stx_raw_def by blast
qed

lemma stx_ok_raw:
  assumes "stx_ok kb strict (Suc h) (SInner level keys children)"
    and "sorted_by fst (stx_entries (SInner level keys children))"
  shows "stx_raw kb h keys children"
  using stx_ok_inner_facts [OF assms] by (auto simp: stx_raw_def)

lemma stx_raw_split:
  assumes raw: "stx_raw kb h ks cs" and m: "m < length ks"
  shows "stx_raw kb h (take m ks) (take (m + 1) cs)"
    and "stx_raw kb h (drop (m + 1) ks) (drop (m + 1) cs)"
    and "ks ! m = stx_max (SInner l (take m ks) (take (m + 1) cs))"
proof -
  have len: "length cs = Suc (length ks)" and mx: "\<And>j. j < length ks \<Longrightarrow> ks ! j = stx_max (cs ! j)"
    and ok: "\<And>c. c \<in> set cs \<Longrightarrow> stx_ok kb True h c"
    using raw by (auto simp: stx_raw_def)
  show "stx_raw kb h (take m ks) (take (m + 1) cs)"
    using len mx ok m by (auto simp: stx_raw_def dest: in_set_takeD)
  show "stx_raw kb h (drop (m + 1) ks) (drop (m + 1) cs)"
    using len mx ok m by (auto simp: stx_raw_def dest: in_set_dropD)
  have "last (take (m + 1) cs) = cs ! m" "take (m + 1) cs \<noteq> []"
    using m len by (auto simp: take_Suc_conv_app_nth)
  moreover have "stx_ok kb True h (cs ! m)" using ok m len by simp
  ultimately show "ks ! m = stx_max (SInner l (take m ks) (take (m + 1) cs))"
    using mx [OF m] stx_ok_nonempty by (metis stx_max_last_child)
qed

text \<open>A new child in a full node: the node is split at some position \<open>m\<close> that leaves both parts full enough.\<close>

lemma stx_put_child_full:
  fixes newkey :: 'k and newchild :: "('k, 'v) stx_node"
  assumes full: "length keys = innerslotmax kb" and len: "length children = Suc (length keys)"
    and slot: "slot \<le> length keys"
  defines "ks \<equiv> insert_at slot newkey keys" and "cs \<equiv> insert_at (Suc slot) newchild children"
  shows "\<exists>m. stx_put_child kb stats level keys children slot newkey newchild =
      (stats\<lparr>st_innernodes := st_innernodes stats + 1\<rparr>, SInner level (take m ks) (take (m + 1) cs),
       Some (ks ! m, SInner level (drop (m + 1) ks) (drop (m + 1) cs)))
    \<and> mininnerslots kb \<le> m \<and> m + mininnerslots kb \<le> length keys"
proof -
  let ?n = "length keys"
  define mid0 where "mid0 = ?n div 2"
  define mid where "mid = (if slot \<le> mid0 \<and> mid0 > ?n - (mid0 + 1) then mid0 - 1 else mid0)"
  have half: "mininnerslots kb = mid0" by (simp add: mininnerslots_def full mid0_def)
  have m4: "4 \<le> mid0" using minslots_ge(2) [of kb] half by simp
  have n: "?n = 2 * mid0 \<or> ?n = 2 * mid0 + 1" unfolding mid0_def by presburger
  have midn: "mid + 2 < ?n" "3 \<le> mid" using n m4 by (auto simp: mid_def)
  have split: "stx_split_inner keys children slot = ((take mid keys, take (mid + 1) children),
      keys ! mid, (drop (mid + 1) keys, drop (mid + 1) children))"
    unfolding stx_split_inner_def Let_def mid0_def [symmetric] mid_def [symmetric] by (rule refl)
  have lk: "length (take mid keys) = mid" using midn by simp
  have rk: "length (drop (mid + 1) keys) = ?n - (mid + 1)" by simp
  let ?stats = "stats\<lparr>st_innernodes := st_innernodes stats + 1\<rparr>"
  have put: "stx_put_child kb stats level keys children slot newkey newchild =
      (if slot = mid + 1 \<and> mid < ?n - (mid + 1)
       then (?stats, SInner level (take mid keys @ [keys ! mid])
                (take (mid + 1) children @ [hd (drop (mid + 1) children)]),
             Some (newkey, SInner level (drop (mid + 1) keys)
                (newchild # tl (drop (mid + 1) children))))
       else if slot \<ge> mid + 1
       then (?stats, SInner level (take mid keys) (take (mid + 1) children),
             Some (keys ! mid, SInner level (insert_at (slot - (mid + 1)) newkey (drop (mid + 1) keys))
                (insert_at (slot - (mid + 1) + 1) newchild (drop (mid + 1) children))))
       else (?stats, SInner level (insert_at slot newkey (take mid keys))
                (insert_at (slot + 1) newchild (take (mid + 1) children)),
             Some (keys ! mid, SInner level (drop (mid + 1) keys) (drop (mid + 1) children))))"
    unfolding stx_put_child_def full [symmetric] split Let_def prod.case lk rk by simp
  have slot': "Suc slot \<le> length children" using slot len by simp
  note K = take_insert_at [OF slot, of _ newkey] drop_insert_at [OF slot, of _ newkey]
    nth_insert_at [OF slot, of _ newkey]
  note C = take_insert_at [OF slot', of _ newchild] drop_insert_at [OF slot', of _ newchild]
  consider (special) "slot = mid + 1" "mid < ?n - (mid + 1)"
    | (right) "mid + 1 \<le> slot" "\<not> (slot = mid + 1 \<and> mid < ?n - (mid + 1))"
    | (left) "slot \<le> mid" by linarith
  then show ?thesis
  proof cases
    case special
    have sl: "slot = Suc mid" using special by simp
    note K = K [unfolded sl] and C = C [unfolded sl]
    have rc: "drop (mid + 1) children = children ! (mid + 1) # drop (mid + 2) children"
      using midn len by (simp add: Cons_nth_drop_Suc)
    have "take mid keys @ [keys ! mid] = take (mid + 1) ks"
      using midn special by (simp add: ks_def sl K take_Suc_conv_app_nth)
    moreover have "take (mid + 2) cs = take (mid + 2) children" by (simp add: cs_def sl C)
    then have "take (mid + 1) children @ [children ! (mid + 1)] = take (mid + 2) cs"
      using midn len take_Suc_conv_app_nth [of "mid + 1" children] by simp
    moreover have "drop (mid + 1) keys = drop (mid + 2) ks"
      using special by (simp add: ks_def sl K)
    moreover have "newchild # drop (mid + 2) children = drop (mid + 2) cs"
      using special by (simp add: cs_def sl C)
    moreover have "newkey = ks ! (mid + 1)" using special midn by (simp add: ks_def sl K)
    moreover have "mid0 \<le> mid + 1" "mid + 1 + mid0 \<le> ?n"
      using special n m4 by (auto simp: mid_def split: if_splits)
    ultimately show ?thesis
      using special rc unfolding put half by (intro exI [of _ "mid + 1"]) simp
  next
    case right
    have "take mid keys = take mid ks" "keys ! mid = ks ! mid"
      using right midn by (simp_all add: ks_def K)
    moreover have "insert_at (slot - (mid + 1)) newkey (drop (mid + 1) keys) = drop (mid + 1) ks"
      using right by (simp add: ks_def K)
    moreover have "take (mid + 1) children = take (mid + 1) cs" using right by (simp add: cs_def C)
    moreover have "insert_at (slot - (mid + 1) + 1) newchild (drop (mid + 1) children) = drop (mid + 1) cs"
      using right by (simp add: cs_def C Suc_diff_Suc)
    moreover have "mid0 \<le> mid" "mid + mid0 \<le> ?n"
      using right n m4 by (auto simp: mid_def split: if_splits)
    ultimately show ?thesis
      using right unfolding put half by (intro exI [of _ mid]) auto
  next
    case left
    have "insert_at slot newkey (take mid keys) = take (mid + 1) ks" "keys ! mid = ks ! (mid + 1)"
      using left midn by (simp_all add: ks_def K)
    moreover have "drop (mid + 1) keys = drop (mid + 2) ks" using left by (simp add: ks_def K)
    moreover have "insert_at (slot + 1) newchild (take (mid + 1) children) = take (mid + 2) cs"
      using left by (simp add: cs_def C)
    moreover have "drop (mid + 1) children = drop (mid + 2) cs" using left by (simp add: cs_def C)
    moreover have "mid0 \<le> mid + 1" "mid + 1 + mid0 \<le> ?n"
      using left n m4 by (auto simp: mid_def split: if_splits)
    ultimately show ?thesis
      using left unfolding put half by (intro exI [of _ "mid + 1"]) auto
  qed
qed

lemma stx_insort_children:
  fixes key :: "'k::linorder"
  assumes ok: "stx_ok kb strict (Suc h) (SInner level keys children)"
    and s: "sorted_by fst (stx_entries (SInner level keys children))"
    and p: "p = stx_find_lower keys key"
  shows "insort_key fst (key, v) (stx_entries (SInner level keys children)) =
    concat (map stx_entries (take p children)) @ insort_key fst (key, v) (stx_entries (children ! p))
    @ concat (map stx_entries (drop (Suc p) children))"
proof -
  let ?A = "concat (map stx_entries (take p children))" and ?B = "stx_entries (children ! p)"
    and ?C = "concat (map stx_entries (drop (Suc p) children))"
  note S = stx_inner_slot [OF ok s, where key = key, folded p]
  note F = stx_ok_inner_facts [OF ok s]
  have split: "stx_entries (SInner level keys children) = ?A @ ?B @ ?C"
    using concat_split_nth [of p "map stx_entries children"] S(2) by (simp add: take_map drop_map)
  have below: "fst x < key" if x: "x \<in> set ?A" for x
  proof -
    obtain i where i: "i < p" "i < length children" "x \<in> set (stx_entries (children ! i))"
      using x S(2) by (auto simp: in_set_conv_nth [of _ "take p children"])
    then have "fst x \<le> stx_max (children ! i)"
      unfolding stx_max_def using F(4) [OF nth_mem [OF i(2)]] by (intro sorted_hd_last(2))
    with S(4) [OF i(1)] show ?thesis by (meson le_less_trans)
  qed
  have "insort_key fst (key, v) (?A @ ?B @ ?C) = ?A @ insort_key fst (key, v) (?B @ ?C)"
    by (rule insort_key_append_skip) (simp only: fst_conv below)
  also have "insort_key fst (key, v) (?B @ ?C) = insort_key fst (key, v) ?B @ ?C"
  proof (cases "p = length keys")
    case True
    then have "?C = []" using F(6) by simp
    then show ?thesis by (simp only: append_Nil2)
  next
    case False
    have "?B \<noteq> []" using F(7) [OF nth_mem [OF S(2)]] by (rule stx_ok_nonempty)
    then have "last ?B \<in> set ?B" by simp
    moreover have "fst (key, v) \<le> fst (last ?B)" using S(3) False by (simp add: stx_max_def)
    ultimately show ?thesis by (rule insort_key_append_hit)
  qed
  finally show ?thesis unfolding split .
qed

text \<open>A child is replaced, or replaced by two.\<close>

lemma stx_replace_raw:
  fixes key :: "'k::linorder"
  assumes ok: "stx_ok kb strict (Suc h) (SInner level keys children)"
    and s: "sorted_by fst (stx_entries (SInner level keys children))"
    and p: "p = stx_find_lower keys key"
    and ins: "stx_inserted kb True h stats (children ! p) key val (stats', c', split)"
  shows "split = None \<Longrightarrow> stx_raw kb h keys (children[p := c'])"
    and "split = Some (k, m) \<Longrightarrow>
      stx_raw kb h (insert_at p k keys) (insert_at (Suc p) m (children[p := c']))"
proof -
  note S = stx_inner_slot [OF ok s, where key = key, folded p]
  note F = stx_ok_inner_facts [OF ok s]
  have mx: "fst (last (insort_key fst (key, val) (stx_entries (children ! p)))) = stx_max (children ! p)"
    if "p < length keys"
    using last_insort_key [of "stx_entries (children ! p)" fst "(key, val)"] that S(3)
      stx_ok_nonempty [OF F(7) [OF nth_mem [OF S(2)]]] by (simp add: stx_max_def)
  show "stx_raw kb h keys (children[p := c'])" if "split = None"
  proof -
    have c': "stx_ok kb True h c'" "stx_entries c' = insort_key fst (key, val) (stx_entries (children ! p))"
      using ins that by (auto simp: stx_inserted_def split_nodes_def)
    have "keys ! j = stx_max (children[p := c'] ! j)" if "j < length keys" for j
      using F(2) [OF that] mx c'(2) that S(2) by (auto simp: nth_list_update stx_max_def)
    with c'(1) F(6,7) show ?thesis by (auto simp: stx_raw_def dest: set_update_subset_insert [THEN subsetD])
  qed
  show "stx_raw kb h (insert_at p k keys) (insert_at (Suc p) m (children[p := c']))"
    if sp: "split = Some (k, m)"
  proof -
    have c': "stx_ok kb True h c'" "stx_ok kb True h m" "k = stx_max c'"
      and ent: "stx_entries c' @ stx_entries m = insort_key fst (key, val) (stx_entries (children ! p))"
      using ins sp by (auto simp: stx_inserted_def split_nodes_def)
    have mm: "stx_max m = stx_max (children ! p)" if "p < length keys"
    proof -
      have "stx_max m = fst (last (stx_entries c' @ stx_entries m))"
        using stx_ok_nonempty [OF c'(2)] by (simp add: stx_max_def)
      then show ?thesis using mx [OF that] ent by simp
    qed
    have ks: "insert_at p k keys ! j = stx_max (insert_at (Suc p) m (children[p := c']) ! j)"
      if j: "j < Suc (length keys)" for j
    proof -
      have a: "insert_at p k keys ! j = (if j < p then keys ! j else if j = p then k else keys ! (j - 1))"
        using j S(1) by (intro nth_insert_at) auto
      have b: "insert_at (Suc p) m (children[p := c']) ! j = (if j < Suc p then children[p := c'] ! j
          else if j = Suc p then m else children[p := c'] ! (j - 1))"
        using j S(2) F(6) by (intro nth_insert_at) auto
      consider "j < p" | "j = p" | "j = Suc p" | "Suc p < j" by linarith
      then show ?thesis
        unfolding a b using c'(3) mm F(2) [of j] F(2) [of "j - 1"] j S(1,2) by cases auto
    qed
    have "\<forall>c \<in> set (children[p := c']). stx_ok kb True h c"
      using c'(1) F(7) by (auto dest: set_update_subset_insert [THEN subsetD])
    with c'(2) ks F(6) show ?thesis by (auto simp: stx_raw_def set_insert_at)
  qed
qed

lemma sum_list_update_split:
  "p < length xs \<Longrightarrow> sum_list (map f xs)
    = sum_list (map f (take p xs)) + f (xs ! p) + sum_list (map f (drop (Suc p) xs))" for f :: "'a \<Rightarrow> nat"
  by (subst id_take_nth_drop [of p xs]) simp_all

lemma update_take_drop:
  "p < length xs \<Longrightarrow> xs[p := x] = take p xs @ x # drop (Suc p) xs"
  by (rule upd_conv_take_nth_drop)

lemma insert_at_update:
  "p < length xs \<Longrightarrow> insert_at (Suc p) y (xs[p := x]) = take p xs @ x # y # drop (Suc p) xs"
  by (simp add: insert_at_def update_take_drop)

lemma stx_put_child_inserted:
  fixes key :: "'k::linorder"
  assumes ok: "stx_ok kb strict (Suc h) (SInner level keys children)"
    and s: "sorted_by fst (stx_entries (SInner level keys children))"
    and p: "p = stx_find_lower keys key"
    and ins: "stx_inserted kb True h stats (children ! p) key val (stats', c', Some (k, m))"
  shows "stx_inserted kb strict (Suc h) stats (SInner level keys children) key val
    (stx_put_child kb stats' level keys (children[p := c']) p k m)"
proof -
  note S = stx_inner_slot [OF ok s, where key = key, folded p]
  note F = stx_ok_inner_facts [OF ok s]
  let ?ks = "insert_at p k keys" and ?cs = "insert_at (Suc p) m (children[p := c'])"
  have raw: "stx_raw kb h ?ks ?cs" using stx_replace_raw(2) [OF ok s p ins] by simp
  have lev: "level = Suc h" and kl: "keys \<noteq> []" "length keys \<le> innerslotmax kb"
    "strict \<Longrightarrow> mininnerslots kb \<le> length keys"
    using ok unfolding stx_ok.simps by blast+
  have cs: "?cs = take p children @ c' # m # drop (Suc p) children"
    using S(2) by (rule insert_at_update)
  have ent: "concat (map stx_entries ?cs)
      = insort_key fst (key, val) (stx_entries (SInner level keys children))"
    using ins unfolding stx_insort_children [OF ok s p] cs
    by (simp add: stx_inserted_def split_nodes_def)
  have lv: "st_leaves stats' + sum_list (map stx_count_leaves children)
      = st_leaves stats + sum_list (map stx_count_leaves ?cs)"
    and inn: "st_innernodes stats' + sum_list (map stx_count_inner children)
      = st_innernodes stats + sum_list (map stx_count_inner ?cs)"
    and items: "st_itemcount stats' = st_itemcount stats"
    using ins unfolding cs
    by (simp_all add: stx_inserted_def split_nodes_def sum_list_update_split [OF S(2)])
  show ?thesis
  proof (cases "length keys = innerslotmax kb")
    case False
    then have "stx_put_child kb stats' level keys (children[p := c']) p k m
        = (stats', SInner level ?ks ?cs, None)" by (simp add: stx_put_child_def)
    moreover have "stx_ok kb strict (Suc h) (SInner (Suc h) ?ks ?cs)"
    proof (rule stx_raw_ok [OF raw])
      show "?ks \<noteq> []" by (simp add: insert_at_def)
      show "length ?ks \<le> innerslotmax kb" using False kl(2) by simp
      show "strict \<Longrightarrow> mininnerslots kb \<le> length ?ks" using kl(3) by simp
    qed
    ultimately show ?thesis
      using ent lv inn items lev by (simp add: stx_inserted_def split_nodes_def)
  next
    case True
    have "length (children[p := c']) = Suc (length keys)" using F(6) by simp
    from stx_put_child_full [OF True this S(1), of stats' level k m] obtain i where put:
      "stx_put_child kb stats' level keys (children[p := c']) p k m =
        (stats'\<lparr>st_innernodes := st_innernodes stats' + 1\<rparr>, SInner level (take i ?ks) (take (i + 1) ?cs),
         Some (?ks ! i, SInner level (drop (i + 1) ?ks) (drop (i + 1) ?cs)))"
      and i: "mininnerslots kb \<le> i" "i + mininnerslots kb \<le> length keys" by blast
    have i4: "4 \<le> i" "i + 4 \<le> length keys" using i minslots_ge(2) [of kb] by linarith+
    then have ik: "i < length ?ks" by simp
    note R = stx_raw_split [OF raw ik]
    have "stx_ok kb True (Suc h) (SInner (Suc h) (take i ?ks) (take (i + 1) ?cs))"
      using i i4 kl(2) ik by (intro stx_raw_ok [OF R(1)]) (auto simp: take_eq_Nil)
    moreover have "stx_ok kb True (Suc h) (SInner (Suc h) (drop (i + 1) ?ks) (drop (i + 1) ?cs))"
      using i i4 kl(2) by (intro stx_raw_ok [OF R(2)]) auto
    moreover have "concat (map stx_entries (take (i + 1) ?cs)) @ concat (map stx_entries (drop (i + 1) ?cs))
        = concat (map stx_entries ?cs)"
      by (metis append_take_drop_id concat_append map_append)
    moreover have "sum_list (map f (take (i + 1) ?cs)) + sum_list (map f (drop (i + 1) ?cs))
        = sum_list (map f ?cs)" for f :: "('k, 'a) stx_node \<Rightarrow> nat"
      by (metis append_take_drop_id sum_list.append map_append)
    ultimately show ?thesis
      unfolding put using ent lv inn items lev R(3) [of level]
      by (simp add: stx_inserted_def split_nodes_def)
  qed
qed

lemma stx_insert_descend_inserted:
  fixes key :: "'k::linorder"
  assumes "stx_ok kb strict h n" and "sorted_by fst (stx_entries n)"
  shows "\<exists>r. stx_insert_descend kb stats n key val = Inr r
    \<and> stx_inserted kb strict h stats n key val r"
  using assms
proof (induction kb strict h n arbitrary: stats rule: stx_ok.induct)
  case (1 kb strict slots)
  then show ?case using stx_insert_leaf_inserted [of slots kb strict] by auto
next
  case (2 kb strict h level keys children)
  let ?p = "stx_find_lower keys key" and ?n = "SInner level keys children"
  note S = stx_inner_slot [OF "2.prems", where key = key]
  note F = stx_ok_inner_facts [OF "2.prems"]
  have mem: "children ! ?p \<in> set children" using S(2) by simp
  obtain stats' c' split where
    r: "stx_insert_descend kb stats (children ! ?p) key val = Inr (stats', c', split)"
    and ins: "stx_inserted kb True h stats (children ! ?p) key val (stats', c', split)"
    using "2.IH" [OF mem F(7) [OF mem] F(4) [OF mem], of stats] by auto
  show ?case
  proof (cases split)
    case None
    let ?cs = "children[?p := c']"
    have lev: "level = Suc h" and kl: "keys \<noteq> []" "length keys \<le> innerslotmax kb"
      "strict \<Longrightarrow> mininnerslots kb \<le> length keys"
      using "2.prems"(1) unfolding stx_ok.simps by blast+
    have "stx_ok kb strict (Suc h) (SInner (Suc h) keys ?cs)"
      using stx_raw_ok [OF stx_replace_raw(1) [OF "2.prems" refl ins None] kl] .
    moreover have "concat (map stx_entries ?cs) = insort_key fst (key, val) (stx_entries ?n)"
      using ins None unfolding stx_insort_children [OF "2.prems" refl] update_take_drop [OF S(2)]
      by (simp add: stx_inserted_def split_nodes_def)
    moreover have "st_leaves stats' + sum_list (map stx_count_leaves children)
        = st_leaves stats + sum_list (map stx_count_leaves ?cs)"
      "st_innernodes stats' + sum_list (map stx_count_inner children)
        = st_innernodes stats + sum_list (map stx_count_inner ?cs)"
      "st_itemcount stats' = st_itemcount stats"
      using ins None unfolding update_take_drop [OF S(2)]
      by (simp_all add: stx_inserted_def split_nodes_def sum_list_update_split [OF S(2)])
    ultimately have "stx_inserted kb strict (Suc h) stats ?n key val
        (stats', SInner level keys ?cs, None)"
      using lev by (simp add: stx_inserted_def split_nodes_def)
    with r None S(2) show ?thesis by (simp add: Let_def)
  next
    case (Some km)
    then obtain k m where km: "split = Some (k, m)" by (cases km) auto
    with stx_put_child_inserted [OF "2.prems" refl ins [unfolded km]] r S(2) show ?thesis
      by (simp add: Let_def)
  qed
qed auto

text \<open>The new entry goes before the entries with the same key.\<close>

lemma stx_insert_valid:
  fixes key :: "'k::linorder"
  assumes "stx_valid kb t"
  shows "\<exists>t'. stx_insert kb t key val = Inr t' \<and> stx_valid kb t'
    \<and> stx_contents t' = insort_key fst (key, val) (stx_contents t)"
proof -
  let ?ent = "stx_contents t"
  have sorted: "sorted_by fst (insort_key fst (key, val) ?ent)"
    using stx_valid_sorted [OF assms] by (simp add: sorted_insort_key)
  define root where "root = (case stx_root t of None \<Rightarrow> SLeaf [] | Some n \<Rightarrow> n)"
  define stats where "stats = (case stx_root t of
    None \<Rightarrow> (stx_m_stats t)\<lparr>st_leaves := st_leaves (stx_m_stats t) + 1\<rparr> | Some n \<Rightarrow> stx_m_stats t)"
  have ent: "stx_entries root = ?ent" by (simp add: root_def stx_contents_def split: option.split)
  have stats: "stats = stx_node_stats root"
    using assms by (auto simp: stx_valid_def stats_def root_def stx_node_stats_def split: option.splits)
  obtain h stats' n' split where
    r: "stx_insert_descend kb stats root key val = Inr (stats', n', split)"
    and ins: "stx_inserted kb False h stats root key val (stats', n', split)"
  proof (cases "stx_root t")
    case None
    then have "root = SLeaf []" by (simp add: root_def)
    moreover have "stx_inserted kb False 0 stats (SLeaf []) key val (stx_insert_leaf kb stats [] key val)"
      by (rule stx_insert_leaf_inserted) simp_all
    ultimately show thesis
      using that [of "fst (stx_insert_leaf kb stats [] key val)" "fst (snd (stx_insert_leaf kb stats [] key val))"
        "snd (snd (stx_insert_leaf kb stats [] key val))" 0] by simp
  next
    case (Some n)
    then obtain h where "stx_ok kb False h n" "sorted_by fst (stx_entries n)"
      using assms by (auto simp: stx_valid_def)
    from stx_insert_descend_inserted [OF this, of stats key val] that Some show thesis
      by (fastforce simp: root_def)
  qed
  have ins_eq: "stx_insert kb t key val = bind_res (stx_insert_descend kb stats root key val)
      (\<lambda>(stats', root', split).
           let (root'', stats'') = (case split of
                  None \<Rightarrow> (root', stats')
                | Some (newkey, newchild) \<Rightarrow>
                    (SInner (stx_level_of root' + 1) [newkey] [root', newchild],
                     stats'\<lparr>st_innernodes := st_innernodes stats' + 1\<rparr>))
           in Inr \<lparr>stx_root = Some root'',
                   stx_m_stats = stats''\<lparr>st_itemcount := st_itemcount stats'' + 1\<rparr>\<rparr>)"
    by (simp add: stx_insert_def root_def stats_def Let_def split: option.split)
  show ?thesis
  proof (cases split)
    case None
    then show ?thesis
      using ins r ent sorted stats
      by (auto simp: ins_eq stx_inserted_def split_nodes_def stx_valid_def stx_contents_def
          stx_node_stats_def)
  next
    case (Some km)
    then obtain k m where km: "split = Some (k, m)" by (cases km) auto
    have ok: "stx_ok kb True h n'" "stx_ok kb True h m" "k = stx_max n'"
      using ins km by (simp_all add: stx_inserted_def)
    have "stx_raw kb h [k] [n', m]" using ok by (auto simp: stx_raw_def)
    then have "stx_ok kb False (Suc h) (SInner (Suc h) [k] [n', m])"
      by (rule stx_raw_ok) (use slotmax_ge(2) [of kb] in simp_all)
    then show ?thesis
      using ins r ent sorted stats km stx_ok_level [OF ok(1)]
      by (auto simp: ins_eq stx_inserted_def split_nodes_def stx_valid_def stx_contents_def
          stx_node_stats_def)
  qed
qed

section \<open>The tree as the container of \<open>STXBTree\<close>\<close>

definition stx_ops :: "nat \<Rightarrow> ('k::linorder, ('k, u64) stx_tree) multimap_ops" where
  "stx_ops kb = \<lparr>mm_bulk_load = stx_bulk_load kb,
     mm_lower_bound = (\<lambda>t k. case stx_lower_bound t k of Inl e \<Rightarrow> None | Inr v \<Rightarrow> v),
     mm_insert = (\<lambda>t k v. case stx_insert kb t k v of Inl e \<Rightarrow> t | Inr t' \<Rightarrow> t')\<rparr>"

interpretation stx_map: ordered_multimap "stx_ops kb" stx_contents "stx_valid kb" for kb
proof unfold_locales
  fix t :: "('k::linorder, u64) stx_tree" and k :: 'k and v
  assume t: "stx_valid kb t"
  from stx_insert_valid [OF t, of k v] obtain t' where t': "stx_insert kb t k v = Inr t'"
    "stx_valid kb t'" "stx_contents t' = insort_key fst (k, v) (stx_contents t)" by blast
  then show "stx_valid kb (mm_insert (stx_ops kb) t k v)"
    and "stx_contents (mm_insert (stx_ops kb) t k v) = insort_key fst (k, v) (stx_contents t)"
    by (simp_all add: stx_ops_def)
qed (simp_all add: stx_ops_def stx_bulk_load_valid stx_valid_sorted stx_lower_bound_correct)

section \<open>Properties\<close>

definition ex_pairs :: "nat \<Rightarrow> (nat \<times> u64) list" where
  "ex_pairs n = map (\<lambda>i. (i div 2, word_of_nat i)) [0..<n]"

lemma sorted_ex_pairs: "sorted_by fst (ex_pairs n)"
  by (auto simp: ex_pairs_def sorted_iff_nth_mono div_le_mono)

text \<open>
  C26. Bulk loading the STX B+ tree with sorted pairs, duplicates included, builds a tree that
  its own checker \<open>verify()\<close> accepts (levels, fill of every node, sorted slots, separators
  equal to the maximum of the child to their left, counts) and that contains exactly the
  given pairs in their order.
\<close>
theorem stx_bulk_load_verifies:
  fixes items :: "('k::linorder \<times> 'v) list"
  assumes "sorted_by fst items"
  shows "stx_verify kb (stx_bulk_load kb items) = Inr ()
    \<and> stx_contents (stx_bulk_load kb items) = items"
  using stx_bulk_load_valid [OF assms] stx_verify_valid by blast

theorem stx_bulk_load_verifies_witness:
  "stx_verify 8 (stx_bulk_load 8 (ex_pairs 300)) = Inr ()
    \<and> stx_contents (stx_bulk_load 8 (ex_pairs 300)) = ex_pairs 300"
  by (rule stx_bulk_load_verifies) (rule sorted_ex_pairs)

text \<open>
  C11. An insertion into a valid tree succeeds, splits of leaves, inner nodes and the root
  included; the checker \<open>verify()\<close> accepts the new tree, and its contents are the old ones
  with the new pair in front of the first pair whose key is not below.
\<close>
theorem stx_insert_verifies:
  fixes key :: "'k::linorder"
  assumes "stx_valid kb t"
  shows "\<exists>t'. stx_insert kb t key val = Inr t' \<and> stx_valid kb t' \<and> stx_verify kb t' = Inr ()
    \<and> stx_contents t' = insort_key fst (key, val) (stx_contents t)"
  using stx_insert_valid [OF assms] stx_verify_valid by blast

theorem stx_insert_verifies_witness:
  "\<exists>t'. stx_insert 8 (stx_bulk_load 8 (ex_pairs 300)) 77 5 = Inr t' \<and> stx_valid 8 t'
    \<and> stx_verify 8 t' = Inr ()
    \<and> stx_contents t' = insort_key fst (77, 5) (stx_contents (stx_bulk_load 8 (ex_pairs 300)))"
  by (rule stx_insert_verifies) (rule stx_bulk_load_valid(1) [OF sorted_ex_pairs])

text \<open>
  On a valid tree \<open>lower_bound\<close> returns the first pair of the contents whose key is not
  below the key, and \<open>end()\<close> when all keys are below; it never returns an iterator behind the
  last slot of an inner leaf.
\<close>
theorem stx_lower_bound_first:
  fixes key :: "'k::linorder"
  assumes "stx_valid kb t"
  shows "stx_lower_bound t key = Inr (map_option snd (find (\<lambda>e. key \<le> fst e) (stx_contents t)))"
  using assms by (rule stx_lower_bound_correct)

theorem stx_lower_bound_first_witness:
  "stx_lower_bound (stx_bulk_load 8 (ex_pairs 4)) 1 = Inr (Some 2)"
  using stx_lower_bound_first [OF stx_bulk_load_valid(1) [OF sorted_ex_pairs [of 4]], of 8 1]
  unfolding stx_bulk_load_valid(2) [OF sorted_ex_pairs [of 4]]
  by (simp add: ex_pairs_def upt_rec)

text \<open>
  C12. The competitor \<open>STXBTree\<close> over its own tree: loaded with every \<open>size_scale\<close>-th entry of
  sorted data, each lookup returns a bound of at most \<open>size_scale\<close> positions that encloses the
  first position of the whole data whose key is not below the lookup key.
\<close>
theorem stxbtree_bound_encloses:
  fixes kvs :: "'k::linorder KeyValue list"
  assumes "index_input kvs" and "kvs \<noteq> []" and "0 < size_scale" and "size_scale < 2 ^ 31"
  shows "\<exists>st b. stx_Build (stx_ops kb) size_scale kvs = Inr st
    \<and> stx_EqualityLookup (stx_ops kb) size_scale st k = Inr b
    \<and> encloses b (kv_lb kvs k) (length kvs) \<and> sb_stop b \<le> sb_start b + size_scale"
  using assms by (rule stx_map.stx_encloses)

theorem stxbtree_bound_encloses_witness:
  "\<exists>st b. stx_Build (stx_ops 4) 2 ex_kvs = Inr st
    \<and> stx_EqualityLookup (stx_ops 4) 2 st 6 = Inr b
    \<and> encloses b (kv_lb ex_kvs 6) (length ex_kvs) \<and> sb_stop b \<le> sb_start b + 2"
  by (rule stxbtree_bound_encloses) (simp_all add: ex_kvs_input)

end
