(* ===== verification/StxErase.thy ===== *)
theory StxErase
  imports StxTree
begin

text \<open>
  Deletion from the B+ tree of \<open>src/competitors/stx-btree-0.9/include/stx/btree.h\<close>: \<open>erase_one\<close>,
  \<open>erase\<close> by key and by iterator, the merges and shifts of siblings, and the propagation of
  separators.

  The parent of a node is passed down and returned as its keys and its children
  (\<open>slotkey\<close>, \<open>childid\<close>) together with \<open>parentslot\<close>; the cell \<open>m_root\<close> is the only child of a
  parent without keys. The pointers \<open>parent\<close>, \<open>leftparent\<close> and \<open>rightparent\<close> always point to
  nodes of the path from the root and are represented by their depth on it, \<open>NULL\<close> by \<open>None\<close>.
  Where two leaves or inner nodes are merged or balanced they are slots of the same parent;
  the asserts on \<open>parentslot\<close> and on the level of the parent state this, and they are kept as
  \<open>Fail ''assert''\<close>.
\<close>

section \<open>Results and fill of nodes\<close>

text \<open>\<open>result_t\<close>: a last key is present exactly when \<open>btree_update_lastkey\<close> is set.\<close>

record 'k stx_result =
  res_not_found :: bool
  res_lastkey :: "'k option"
  res_fixmerge :: bool

definition btree_ok :: "'k stx_result" where
  "btree_ok = \<lparr>res_not_found = False, res_lastkey = None, res_fixmerge = False\<rparr>"

definition btree_not_found :: "'k stx_result" where
  "btree_not_found = btree_ok\<lparr>res_not_found := True\<rparr>"

definition btree_update_lastkey :: "'k \<Rightarrow> 'k stx_result" where
  "btree_update_lastkey k = btree_ok\<lparr>res_lastkey := Some k\<rparr>"

definition btree_fixmerge :: "'k stx_result" where
  "btree_fixmerge = btree_ok\<lparr>res_fixmerge := True\<rparr>"

text \<open>\<open>operator|=\<close>\<close>

definition merge_result :: "'k stx_result \<Rightarrow> 'k stx_result \<Rightarrow> 'k stx_result" where
  "merge_result a b = \<lparr>res_not_found = (res_not_found a \<or> res_not_found b),
     res_lastkey = (case res_lastkey b of None \<Rightarrow> res_lastkey a | Some k \<Rightarrow> Some k),
     res_fixmerge = (res_fixmerge a \<or> res_fixmerge b)\<rparr>"

definition stx_slotuse :: "('k, 'v) stx_node \<Rightarrow> nat" where
  "stx_slotuse n = (case n of SLeaf slots \<Rightarrow> length slots | SInner level keys children \<Rightarrow> length keys)"

definition stx_minslots :: "nat \<Rightarrow> ('k, 'v) stx_node \<Rightarrow> nat" where
  "stx_minslots kb n =
     (case n of SLeaf slots \<Rightarrow> minleafslots kb | SInner level keys children \<Rightarrow> mininnerslots kb)"

definition stx_isfew :: "nat \<Rightarrow> ('k, 'v) stx_node \<Rightarrow> bool" where
  "stx_isfew kb n \<longleftrightarrow> stx_slotuse n \<le> stx_minslots kb n"

definition stx_isunderflow :: "nat \<Rightarrow> ('k, 'v) stx_node \<Rightarrow> bool" where
  "stx_isunderflow kb n \<longleftrightarrow> stx_slotuse n < stx_minslots kb n"

definition stx_free_node :: "('k, 'v) stx_node \<Rightarrow> stx_stats \<Rightarrow> stx_stats" where
  "stx_free_node n stats = (case n of
       SLeaf slots \<Rightarrow> stats\<lparr>st_leaves := st_leaves stats - 1\<rparr>
     | SInner level keys children \<Rightarrow> stats\<lparr>st_innernodes := st_innernodes stats - 1\<rparr>)"

text \<open>
  \<open>if (parent && parentslot < parent->slotuse) parent->slotkey[parentslot] = k\<close>, otherwise the
  key is passed up.
\<close>

definition stx_parent_key :: "'k list \<Rightarrow> nat \<Rightarrow> 'k \<Rightarrow> 'k list \<times> 'k stx_result" where
  "stx_parent_key pkeys parentslot k =
     (if parentslot < length pkeys then (pkeys[parentslot := k], btree_ok)
      else (pkeys, btree_update_lastkey k))"

section \<open>Merging and balancing siblings\<close>

text \<open>
  The operations take the left and the right node, the keys of the parent and the slot of the
  left node in it, and return the two nodes, the keys of the parent and the result flags.
\<close>

definition merge_leaves ::
  "nat \<Rightarrow> ('k \<times> 'v) list \<Rightarrow> ('k \<times> 'v) list \<Rightarrow> 'k list \<Rightarrow>
   (('k, 'v) stx_node \<times> ('k, 'v) stx_node \<times> 'k list \<times> 'k stx_result) res" where
  "merge_leaves kb left right pkeys =
     bind_res (assertion (length left + length right < leafslotmax kb)) (\<lambda>_.
       Inr (SLeaf (left @ right), SLeaf [], pkeys, btree_fixmerge))"

text \<open>The emptied right node keeps its first child behind its zero keys until it is freed.\<close>

definition merge_inner ::
  "nat \<Rightarrow> nat \<times> 'k list \<times> ('k, 'v) stx_node list \<Rightarrow> nat \<times> 'k list \<times> ('k, 'v) stx_node list \<Rightarrow>
   'k list \<Rightarrow> nat \<Rightarrow> (('k, 'v) stx_node \<times> ('k, 'v) stx_node \<times> 'k list \<times> 'k stx_result) res" where
  "merge_inner kb left right pkeys parentslot =
     (let (llevel, lkeys, lchildren) = left; (rlevel, rkeys, rchildren) = right
      in bind_res (assertion (llevel = rlevel)) (\<lambda>_.
         bind_res (assertion (length lkeys + length rkeys < innerslotmax kb)) (\<lambda>_.
         bind_res (at pkeys parentslot) (\<lambda>sep.
           Inr (SInner llevel (lkeys @ sep # rkeys) (lchildren @ rchildren),
                SInner rlevel [] (take 1 rchildren), pkeys, btree_fixmerge)))))"

definition shift_left_leaf ::
  "nat \<Rightarrow> ('k \<times> 'v) list \<Rightarrow> ('k \<times> 'v) list \<Rightarrow> 'k list \<Rightarrow> nat \<Rightarrow>
   (('k, 'v) stx_node \<times> ('k, 'v) stx_node \<times> 'k list \<times> 'k stx_result) res" where
  "shift_left_leaf kb left right pkeys parentslot =
     bind_res (assertion (length left < length right)) (\<lambda>_.
     let shiftnum = (length right - length left) div 2
     in bind_res (assertion (length left + shiftnum < leafslotmax kb)) (\<lambda>_.
        let left' = left @ take shiftnum right
        in if left' = [] then Inl Undefined
           else let (pkeys', r) = stx_parent_key pkeys parentslot (fst (last left'))
                in Inr (SLeaf left', SLeaf (drop shiftnum right), pkeys', r)))"

definition shift_left_inner ::
  "nat \<Rightarrow> nat \<times> 'k list \<times> ('k, 'v) stx_node list \<Rightarrow> nat \<times> 'k list \<times> ('k, 'v) stx_node list \<Rightarrow>
   'k list \<Rightarrow> nat \<Rightarrow> (('k, 'v) stx_node \<times> ('k, 'v) stx_node \<times> 'k list \<times> 'k stx_result) res" where
  "shift_left_inner kb left right pkeys parentslot =
     (let (llevel, lkeys, lchildren) = left; (rlevel, rkeys, rchildren) = right
      in bind_res (assertion (llevel = rlevel)) (\<lambda>_.
         bind_res (assertion (length lkeys < length rkeys)) (\<lambda>_.
         let shiftnum = (length rkeys - length lkeys) div 2
         in bind_res (assertion (length lkeys + shiftnum < innerslotmax kb)) (\<lambda>_.
            bind_res (at pkeys parentslot) (\<lambda>sep.
            if shiftnum = 0 then Inl Undefined
            else Inr (SInner llevel (lkeys @ sep # take (shiftnum - 1) rkeys)
                        (lchildren @ take shiftnum rchildren),
                      SInner rlevel (drop shiftnum rkeys) (drop shiftnum rchildren),
                      pkeys[parentslot := rkeys ! (shiftnum - 1)], btree_ok))))))"

definition shift_right_leaf ::
  "nat \<Rightarrow> ('k \<times> 'v) list \<Rightarrow> ('k \<times> 'v) list \<Rightarrow> 'k list \<Rightarrow> nat \<Rightarrow>
   (('k, 'v) stx_node \<times> ('k, 'v) stx_node \<times> 'k list \<times> 'k stx_result) res" where
  "shift_right_leaf kb left right pkeys parentslot =
     bind_res (assertion (length left > length right)) (\<lambda>_.
     let shiftnum = (length left - length right) div 2
     in bind_res (assertion (length right + shiftnum < leafslotmax kb)) (\<lambda>_.
        let keep = length left - shiftnum; left' = take keep left
        in if left' = [] \<or> \<not> parentslot < length pkeys then Inl Undefined
           else Inr (SLeaf left', SLeaf (drop keep left @ right),
                     pkeys[parentslot := fst (last left')], btree_ok)))"

definition shift_right_inner ::
  "nat \<Rightarrow> nat \<times> 'k list \<times> ('k, 'v) stx_node list \<Rightarrow> nat \<times> 'k list \<times> ('k, 'v) stx_node list \<Rightarrow>
   'k list \<Rightarrow> nat \<Rightarrow> (('k, 'v) stx_node \<times> ('k, 'v) stx_node \<times> 'k list \<times> 'k stx_result) res" where
  "shift_right_inner kb left right pkeys parentslot =
     (let (llevel, lkeys, lchildren) = left; (rlevel, rkeys, rchildren) = right
      in bind_res (assertion (llevel = rlevel)) (\<lambda>_.
         bind_res (assertion (length lkeys > length rkeys)) (\<lambda>_.
         let shiftnum = (length lkeys - length rkeys) div 2
         in bind_res (assertion (length rkeys + shiftnum < innerslotmax kb)) (\<lambda>_.
            bind_res (at pkeys parentslot) (\<lambda>sep.
            if shiftnum = 0 then Inl Undefined
            else let keep = length lkeys - shiftnum
                 in Inr (SInner llevel (take keep lkeys) (take (keep + 1) lchildren),
                         SInner rlevel (drop (keep + 1) lkeys @ sep # rkeys)
                           (drop (keep + 1) lchildren @ rchildren),
                         pkeys[parentslot := lkeys ! keep], btree_ok))))))"

section \<open>Resolving an underflow\<close>

datatype stx_fix = Merge_Left | Merge_Right | Shift_Left | Shift_Right

text \<open>
  The cases of an underflow: merge with the left or with the right node, shift entries to the
  left (from the right node) or to the right (from the left node).
\<close>

definition stx_choose ::
  "nat \<Rightarrow> ('k, 'v) stx_node option \<Rightarrow> ('k, 'v) stx_node option \<Rightarrow>
   nat option \<Rightarrow> nat option \<Rightarrow> nat option \<Rightarrow> stx_fix res" where
  "stx_choose kb left right leftparent rightparent parent =
     (let few = (\<lambda>n. n = None \<or> stx_isfew kb (the n))
      in if few left \<and> few right
         then Inr (if leftparent = parent then Merge_Left else Merge_Right)
         else if left \<noteq> None \<and> few left \<and> right \<noteq> None \<and> \<not> few right
         then Inr (if rightparent = parent then Shift_Left else Merge_Left)
         else if left \<noteq> None \<and> \<not> few left \<and> right \<noteq> None \<and> few right
         then Inr (if leftparent = parent then Shift_Right else Merge_Right)
         else if leftparent = rightparent
         then if left = None \<or> right = None then Inl Undefined
              else Inr (if stx_slotuse (the left) \<le> stx_slotuse (the right)
                        then Shift_Left else Shift_Right)
         else Inr (if leftparent = parent then Shift_Right else Shift_Left))"

fun stx_apply ::
  "nat \<Rightarrow> stx_fix \<Rightarrow> ('k, 'v) stx_node \<Rightarrow> ('k, 'v) stx_node \<Rightarrow> 'k list \<Rightarrow> nat \<Rightarrow>
   (('k, 'v) stx_node \<times> ('k, 'v) stx_node \<times> 'k list \<times> 'k stx_result) res" where
  "stx_apply kb fix (SLeaf left) (SLeaf right) pkeys i = (case fix of
       Shift_Left \<Rightarrow> shift_left_leaf kb left right pkeys i
     | Shift_Right \<Rightarrow> shift_right_leaf kb left right pkeys i
     | _ \<Rightarrow> merge_leaves kb left right pkeys)"
| "stx_apply kb fix (SInner ll lkeys lchildren) (SInner rl rkeys rchildren) pkeys i = (case fix of
       Shift_Left \<Rightarrow> shift_left_inner kb (ll, lkeys, lchildren) (rl, rkeys, rchildren) pkeys i
     | Shift_Right \<Rightarrow> shift_right_inner kb (ll, lkeys, lchildren) (rl, rkeys, rchildren) pkeys i
     | _ \<Rightarrow> merge_inner kb (ll, lkeys, lchildren) (rl, rkeys, rchildren) pkeys i)"
| "stx_apply kb fix _ _ pkeys i = Inl Undefined"

text \<open>
  The node in \<open>parentslot\<close> and its left or right sibling. With a node of another parent the
  assert on the parent fails.
\<close>

definition stx_fix_underflow ::
  "nat \<Rightarrow> ('k, 'v) stx_node option \<Rightarrow> ('k, 'v) stx_node option \<Rightarrow>
   nat option \<Rightarrow> nat option \<Rightarrow> nat option \<Rightarrow> 'k list \<Rightarrow> ('k, 'v) stx_node list \<Rightarrow> nat \<Rightarrow>
   ('k list \<times> ('k, 'v) stx_node list \<times> 'k stx_result) res" where
  "stx_fix_underflow kb left right leftparent rightparent parent pkeys pchildren parentslot =
     bind_res (stx_choose kb left right leftparent rightparent parent) (\<lambda>fix.
     let with_left = fix \<in> {Merge_Left, Shift_Right};
         i = (if with_left then parentslot - 1 else parentslot)
     in bind_res (assertion ((if with_left then leftparent = parent \<and> 0 < parentslot
                              else rightparent = parent))) (\<lambda>_.
        bind_res (at pchildren i) (\<lambda>l.
        bind_res (at pchildren (i + 1)) (\<lambda>r.
        bind_res (stx_apply kb fix l r pkeys i) (\<lambda>(l', r', pkeys', res).
          Inr (pkeys', pchildren[i := l', i + 1 := r'], res))))))"

section \<open>Deletion below a node\<close>

definition stx_parent :: "nat \<Rightarrow> nat option" where
  "stx_parent depth = (if depth = 0 then None else Some (depth - 1))"

text \<open>The statistics, the keys and the children of the parent, and the result.\<close>

type_synonym ('k, 'v) stx_erased =
  "'k stx_result \<times> stx_stats \<times> 'k list \<times> ('k, 'v) stx_node list"

text \<open>The new last key of a leaf is stored in the parent or passed up.\<close>

definition stx_leaf_lastkey ::
  "nat \<Rightarrow> nat \<Rightarrow> ('k \<times> 'v) list \<Rightarrow> 'k list \<Rightarrow> nat \<Rightarrow> ('k list \<times> 'k stx_result) res" where
  "stx_leaf_lastkey depth slot slots pkeys parentslot =
     (if slot \<noteq> length slots then Inr (pkeys, btree_ok)
      else if parentslot < length pkeys \<and> slots = [] then Inl Undefined
      else if slots = [] then bind_res (assertion (depth = 0)) (\<lambda>_. Inr (pkeys, btree_ok))
      else Inr (stx_parent_key pkeys parentslot (fst (last slots))))"

text \<open>The two \<open>copy\<close> over the entry in \<open>slot\<close>, and \<open>slotuse--\<close>.\<close>

definition remove_slot :: "nat \<Rightarrow> 'a list \<Rightarrow> 'a list" where
  "remove_slot slot slots = take slot slots @ drop (slot + 1) slots"

text \<open>The entry in \<open>slot\<close> of a leaf is removed.\<close>

definition stx_erase_slot ::
  "nat \<Rightarrow> nat \<Rightarrow> ('k, 'v) stx_node option \<Rightarrow> ('k, 'v) stx_node option \<Rightarrow> nat option \<Rightarrow> nat option \<Rightarrow>
   stx_stats \<Rightarrow> 'k list \<Rightarrow> ('k, 'v) stx_node list \<Rightarrow> nat \<Rightarrow> ('k \<times> 'v) list \<Rightarrow> nat \<Rightarrow>
   ('k, 'v) stx_erased res" where
  "stx_erase_slot kb depth left right leftparent rightparent stats pkeys pchildren parentslot
     slots slot =
     (let slots' = remove_slot slot slots;
          leaf = SLeaf slots';
          pchildren' = pchildren[parentslot := leaf]
      in bind_res (stx_leaf_lastkey depth slot slots' pkeys parentslot) (\<lambda>(pkeys', myres).
         if stx_isunderflow kb leaf \<and> \<not> (depth = 0 \<and> slots' \<noteq> [])
         then if left = None \<and> right = None
              then bind_res (assertion (depth = 0)) (\<lambda>_.
                   bind_res (assertion (slots' = [])) (\<lambda>_.
                   let stats' = stx_free_node leaf stats
                   in bind_res (assertion (stats' = \<lparr>st_itemcount = 1, st_leaves = 0, st_innernodes = 0\<rparr>)) (\<lambda>_.
                      Inr (btree_ok, stats', pkeys', []))))
              else bind_res (stx_fix_underflow kb left right leftparent rightparent
                       (stx_parent depth) pkeys' pchildren' parentslot) (\<lambda>(pkeys'', pchildren'', r).
                   Inr (merge_result myres r, stats, pkeys'', pchildren''))
         else Inr (myres, stats, pkeys', pchildren')))"

text \<open>
  The handling of \<open>btree_fixmerge\<close>: the child emptied by the merge is freed and its slot
  removed. In the level above the leaves the key before it is set again; a store into the first
  slot behind the keys is not visible.
\<close>

definition stx_drop_child ::
  "nat \<Rightarrow> nat \<Rightarrow> stx_stats \<Rightarrow> 'k list \<Rightarrow> ('k, 'v) stx_node list \<Rightarrow>
   (stx_stats \<times> 'k list \<times> ('k, 'v) stx_node list) res" where
  "stx_drop_child level slot0 stats keys children =
     bind_res (at children slot0) (\<lambda>child0.
     let slot = (if stx_slotuse child0 \<noteq> 0 then slot0 + 1 else slot0)
     in bind_res (at children slot) (\<lambda>child.
        bind_res (assertion (stx_slotuse child = 0)) (\<lambda>_.
        if slot = 0 then Inl Undefined
        else let stats' = stx_free_node child stats;
                 keys' = take (slot - 1) keys @ drop slot keys;
                 children' = remove_slot slot children
             in if level = 1
                then (case children' ! (slot - 1) of
                        SLeaf slots \<Rightarrow>
                          if slots = [] then Inl Undefined
                          else Inr (stats', keys'[slot - 1 := fst (last slots)], children')
                      | SInner _ _ _ \<Rightarrow> Inl Undefined)
                else Inr (stats', keys', children'))))"

text \<open>What an inner node does after the deletion below its child in \<open>slot\<close>.\<close>

definition stx_erase_above ::
  "nat \<Rightarrow> nat \<Rightarrow> ('k, 'v) stx_node option \<Rightarrow> ('k, 'v) stx_node option \<Rightarrow> nat option \<Rightarrow> nat option \<Rightarrow>
   'k list \<Rightarrow> ('k, 'v) stx_node list \<Rightarrow> nat \<Rightarrow> nat \<Rightarrow> nat \<Rightarrow> ('k, 'v) stx_erased \<Rightarrow>
   ('k, 'v) stx_erased res" where
  "stx_erase_above kb depth left right leftparent rightparent pkeys pchildren parentslot
     level slot below =
     (let (result, stats, keys, children) = below;
          (pkeys', myres) = (case res_lastkey result of
              None \<Rightarrow> (pkeys, btree_ok) | Some k \<Rightarrow> stx_parent_key pkeys parentslot k)
      in bind_res (if res_fixmerge result then stx_drop_child level slot stats keys children
                   else Inr (stats, keys, children)) (\<lambda>(stats', keys', children').
         let inner = SInner level keys' children';
             pchildren' = pchildren[parentslot := inner]
         in if stx_isunderflow kb inner \<and> \<not> (depth = 0 \<and> keys' \<noteq> [])
            then if left = None \<and> right = None
                 then bind_res (assertion (depth = 0)) (\<lambda>_.
                      bind_res (assertion (keys' = [])) (\<lambda>_.
                      bind_res (at children' 0) (\<lambda>child.
                      Inr (btree_ok, stx_free_node inner stats', pkeys',
                           pchildren[parentslot := child]))))
                 else bind_res (stx_fix_underflow kb left right leftparent rightparent
                          (stx_parent depth) pkeys' pchildren' parentslot) (\<lambda>(pkeys'', pchildren'', r).
                      Inr (merge_result myres r, stats', pkeys'', pchildren''))
            else Inr (myres, stats', pkeys', pchildren')))"

text \<open>
  The neighbours of the child in \<open>slot\<close>. Next to the first child the code takes
  \<open>childid[left->slotuse - 1]\<close>, the last but one child of the left neighbour.
\<close>

definition stx_myleft ::
  "('k, 'v) stx_node option \<Rightarrow> ('k, 'v) stx_node list \<Rightarrow> nat \<Rightarrow> ('k, 'v) stx_node option res" where
  "stx_myleft left children slot =
     (if slot = 0
      then (case left of
              None \<Rightarrow> Inr None
            | Some (SInner level lkeys lchildren) \<Rightarrow>
                if lkeys = [] then Inl Undefined
                else bind_res (at lchildren (length lkeys - 1)) (\<lambda>c. Inr (Some c))
            | Some (SLeaf _) \<Rightarrow> Inl Undefined)
      else bind_res (at children (slot - 1)) (\<lambda>c. Inr (Some c)))"

definition stx_myright ::
  "('k, 'v) stx_node option \<Rightarrow> 'k list \<Rightarrow> ('k, 'v) stx_node list \<Rightarrow> nat \<Rightarrow>
   ('k, 'v) stx_node option res" where
  "stx_myright right keys children slot =
     (if slot = length keys
      then (case right of
              None \<Rightarrow> Inr None
            | Some (SInner level rkeys rchildren) \<Rightarrow> bind_res (at rchildren 0) (\<lambda>c. Inr (Some c))
            | Some (SLeaf _) \<Rightarrow> Inl Undefined)
      else bind_res (at children (slot + 1)) (\<lambda>c. Inr (Some c)))"

fun erase_one_descend ::
  "nat \<Rightarrow> 'k::linorder \<Rightarrow> nat \<Rightarrow> ('k, 'v) stx_node option \<Rightarrow> ('k, 'v) stx_node option \<Rightarrow>
   nat option \<Rightarrow> nat option \<Rightarrow> stx_stats \<Rightarrow> 'k list \<Rightarrow> ('k, 'v) stx_node list \<Rightarrow> nat \<Rightarrow>
   ('k, 'v) stx_node \<Rightarrow> ('k, 'v) stx_erased res" where
  "erase_one_descend kb key depth left right leftparent rightparent stats pkeys pchildren parentslot
     (SLeaf slots) =
     (let slot = stx_find_lower (map fst slots) key
      in if slot \<ge> length slots \<or> key \<noteq> fst (slots ! slot)
         then Inr (btree_not_found, stats, pkeys, pchildren)
         else stx_erase_slot kb depth left right leftparent rightparent stats pkeys pchildren
                parentslot slots slot)"
| "erase_one_descend kb key depth left right leftparent rightparent stats pkeys pchildren parentslot
     (SInner level keys children) =
     (let slot = stx_find_lower keys key
      in if slot < length children
         then bind_res (stx_myleft left children slot) (\<lambda>myleft.
              bind_res (stx_myright right keys children slot) (\<lambda>myright.
              bind_res (erase_one_descend kb key (depth + 1) myleft myright
                  (if slot = 0 then leftparent else Some depth)
                  (if slot = length keys then rightparent else Some depth)
                  stats keys children slot (children ! slot)) (\<lambda>below.
              if res_not_found (fst below) then Inr (btree_not_found, stats, pkeys, pchildren)
              else stx_erase_above kb depth left right leftparent rightparent pkeys pchildren
                     parentslot level slot below)))
         else Inl Undefined)"

definition erase_one ::
  "nat \<Rightarrow> ('k::linorder, 'v) stx_tree \<Rightarrow> 'k \<Rightarrow> (bool \<times> ('k, 'v) stx_tree) res" where
  "erase_one kb t key =
     (case stx_root t of
        None \<Rightarrow> Inr (False, t)
      | Some n \<Rightarrow> bind_res (erase_one_descend kb key 0 None None None None (stx_m_stats t) [] [n] 0 n)
          (\<lambda>(result, stats, _, cell).
             if res_not_found result then Inr (False, t)
             else Inr (True, \<lparr>stx_root = (if cell = [] then None else Some (hd cell)),
                              stx_m_stats = stats\<lparr>st_itemcount := st_itemcount stats - 1\<rparr>\<rparr>)))"

text \<open>\<open>while (erase_one(key)) { ++c; if (!allow_duplicates) break; }\<close>\<close>

partial_function (option) stx_erase ::
  "nat \<Rightarrow> bool \<Rightarrow> 'k::linorder \<Rightarrow> ('k, 'v) stx_tree \<Rightarrow> nat \<Rightarrow> (nat \<times> ('k, 'v) stx_tree) res option" where
  "stx_erase kb allow_duplicates key t c =
     (case erase_one kb t key of
        Inl e \<Rightarrow> Some (Inl e)
      | Inr (found, t') \<Rightarrow>
          if found
          then if \<not> allow_duplicates then Some (Inr (c + 1, t'))
               else stx_erase kb allow_duplicates key t' (c + 1)
          else Some (Inr (c, t')))"

section \<open>Deletion by iterator\<close>

text \<open>
  An iterator is a leaf and a slot; the leaf is given by its position in the chain of leaves.
  \<open>iter.key()\<close> reads the key in the slot.
\<close>

fun stx_leaves :: "('k, 'v) stx_node \<Rightarrow> ('k \<times> 'v) list list" where
  "stx_leaves (SLeaf slots) = [slots]"
| "stx_leaves (SInner level keys children) = concat (map stx_leaves children)"

type_synonym stx_iter = "nat \<times> nat"

definition stx_iter_key :: "('k, 'v) stx_node \<Rightarrow> stx_iter \<Rightarrow> 'k res" where
  "stx_iter_key root iter =
     bind_res (at (stx_leaves root) (fst iter)) (\<lambda>slots. bind_res (at slots (snd iter)) (\<lambda>e. Inr (fst e)))"

lemma size_nth_list: "i < length xs \<Longrightarrow> f (xs ! i) < size_list f xs"
  by (induction xs arbitrary: i) (auto simp: nth_Cons split: nat.split intro: less_SucI trans_less_add2)

text \<open>
  The search goes through all children from \<open>slot\<close> on until the leaf is found; \<open>first\<close> is the
  number of leaves before the node. The second function is the loop over the slots; it returns the
  slot with the result of the deletion below it.
\<close>

function (sequential) erase_iter_descend ::
  "nat \<Rightarrow> stx_iter \<Rightarrow> 'k::linorder res \<Rightarrow> nat \<Rightarrow> nat \<Rightarrow> ('k, 'v) stx_node option \<Rightarrow>
   ('k, 'v) stx_node option \<Rightarrow> nat option \<Rightarrow> nat option \<Rightarrow> stx_stats \<Rightarrow> 'k list \<Rightarrow>
   ('k, 'v) stx_node list \<Rightarrow> nat \<Rightarrow> ('k, 'v) stx_node \<Rightarrow> ('k, 'v) stx_erased res"
  and erase_iter_slots ::
  "nat \<Rightarrow> stx_iter \<Rightarrow> 'k res \<Rightarrow> 'k \<Rightarrow> nat \<Rightarrow> nat \<Rightarrow> ('k, 'v) stx_node option \<Rightarrow>
   ('k, 'v) stx_node option \<Rightarrow> nat option \<Rightarrow> nat option \<Rightarrow> stx_stats \<Rightarrow> 'k list \<Rightarrow>
   ('k, 'v) stx_node list \<Rightarrow> nat \<Rightarrow> (nat \<times> ('k, 'v) stx_erased) option res" where
  "erase_iter_descend kb iter key first depth left right leftparent rightparent stats pkeys pchildren
     parentslot (SLeaf slots) =
     (if first \<noteq> fst iter \<or> snd iter \<ge> length slots
      then Inr (btree_not_found, stats, pkeys, pchildren)
      else stx_erase_slot kb depth left right leftparent rightparent stats pkeys pchildren
             parentslot slots (snd iter))"
| "erase_iter_descend kb iter key first depth left right leftparent rightparent stats pkeys pchildren
     parentslot (SInner level keys children) =
     bind_res key (\<lambda>k.
     bind_res (erase_iter_slots kb iter key k first depth left right leftparent rightparent stats keys
         children (stx_find_lower keys k)) (\<lambda>found.
       case found of
         None \<Rightarrow> Inr (btree_not_found, stats, pkeys, pchildren)
       | Some (slot, below) \<Rightarrow>
           stx_erase_above kb depth left right leftparent rightparent pkeys pchildren parentslot level
             slot below))"
| "erase_iter_slots kb iter key k first depth left right leftparent rightparent stats keys children slot =
     (if slot \<le> length keys
      then if slot < length children
           then bind_res (stx_myleft left children slot) (\<lambda>myleft.
                bind_res (stx_myright right keys children slot) (\<lambda>myright.
                bind_res (erase_iter_descend kb iter key
                    (first + length (concat (map stx_leaves (take slot children)))) (depth + 1) myleft myright
                    (if slot = 0 then leftparent else Some depth)
                    (if slot = length keys then rightparent else Some depth)
                    stats keys children slot (children ! slot)) (\<lambda>below.
                if \<not> res_not_found (fst below) then Inr (Some (slot, below))
                else if slot < length keys \<and> keys ! slot < k then Inr None
                else erase_iter_slots kb iter key k first depth left right leftparent rightparent stats
                       keys children (slot + 1))))
           else Inl Undefined
      else Inr None)"
  by pat_completeness auto
termination
  by (relation "measures [\<lambda>x. case x of Inl (_, _, _, _, _, _, _, _, _, _, _, _, _, n) \<Rightarrow> size n
        | Inr (_, _, _, _, _, _, _, _, _, _, _, _, cs, _) \<Rightarrow> size_list size cs,
      \<lambda>x. case x of Inl _ \<Rightarrow> 0 | Inr (_, _, _, _, _, _, _, _, _, _, _, _, cs, s) \<Rightarrow> Suc (length cs) - s]")
    (auto simp: size_nth_list)

definition erase_iter ::
  "nat \<Rightarrow> ('k::linorder, 'v) stx_tree \<Rightarrow> stx_iter \<Rightarrow> ('k, 'v) stx_tree res" where
  "erase_iter kb t iter =
     (case stx_root t of
        None \<Rightarrow> Inr t
      | Some n \<Rightarrow> bind_res (erase_iter_descend kb iter (stx_iter_key n iter) 0 0 None None None None
            (stx_m_stats t) [] [n] 0 n) (\<lambda>(result, stats, _, cell).
          if res_not_found result then Inr t
          else Inr \<lparr>stx_root = (if cell = [] then None else Some (hd cell)),
                    stx_m_stats = stats\<lparr>st_itemcount := st_itemcount stats - 1\<rparr>\<rparr>))"

end
