(* ===== verification/StxSiblings.thy ===== *)
theory StxSiblings
  imports StxErase
begin

text \<open>
  Siblings of the B+ tree of \<open>src/competitors/stx-btree-0.9/include/stx/btree.h\<close>: a merge or a shift
  of two neighbours keeps their entries, the fill of the nodes, the separators of the parent and the
  counts of nodes, and the choice among them in \<open>erase_one_descend\<close> always finds a sibling that fits.
\<close>

section \<open>Siblings\<close>

text \<open>The fill of a node of height \<open>h\<close>.\<close>

definition hmin :: "nat \<Rightarrow> nat \<Rightarrow> nat" where
  "hmin kb h = (if h = 0 then minleafslots kb else mininnerslots kb)"

definition hmax :: "nat \<Rightarrow> nat \<Rightarrow> nat" where
  "hmax kb h = (if h = 0 then leafslotmax kb else innerslotmax kb)"

lemma hmin_bounds: "4 \<le> hmin kb h" "2 * hmin kb h \<le> hmax kb h"
  using minslots_ge by (simp_all add: hmin_def hmax_def minleafslots_def mininnerslots_def)

lemma stx_ok_0E:
  assumes "stx_ok kb strict 0 n"
  obtains slots where "n = SLeaf slots" "slots \<noteq> []" "length slots \<le> leafslotmax kb"
  using assms by (cases n) auto

text \<open>An inner node without reference to the order of the entries.\<close>

lemma stx_ok_inner:
  assumes "stx_ok kb strict (Suc h) (SInner level keys children)"
  shows "level = Suc h" and "stx_raw kb h keys children" and "keys \<noteq> []"
    and "length keys \<le> innerslotmax kb" and "strict \<Longrightarrow> mininnerslots kb \<le> length keys"
proof -
  have keys: "keys = map stx_max (butlast children)" and len: "length children = Suc (length keys)"
    and cs: "\<forall>c \<in> set children. stx_ok kb True h c"
    using assms unfolding stx_ok.simps by blast+
  show "level = Suc h" "keys \<noteq> []" "length keys \<le> innerslotmax kb"
    "strict \<Longrightarrow> mininnerslots kb \<le> length keys"
    using assms unfolding stx_ok.simps by blast+
  have "keys ! j = stx_max (children ! j)" if "j < length keys" for j
    using that len by (subst keys) (simp add: nth_butlast)
  with len cs show "stx_raw kb h keys children" by (simp add: stx_raw_def)
qed

lemma stx_ok_SucE:
  assumes "stx_ok kb strict (Suc h) n"
  obtains keys children where "n = SInner (Suc h) keys children" "stx_raw kb h keys children"
    "keys \<noteq> []" "length keys \<le> innerslotmax kb" "strict \<Longrightarrow> mininnerslots kb \<le> length keys"
proof (cases n)
  case (SInner level keys children)
  from stx_ok_inner [OF assms [unfolded this]] SInner that show thesis by blast
qed (use assms in simp)

lemma stx_ok_fill:
  assumes "stx_ok kb strict h n"
  shows "stx_slotuse n \<le> hmax kb h \<and> stx_minslots kb n = hmin kb h \<and> 0 < stx_slotuse n
    \<and> (strict \<longrightarrow> hmin kb h \<le> stx_slotuse n)"
proof (cases h)
  case 0
  with assms show ?thesis by (cases n) (auto simp: stx_slotuse_def stx_minslots_def hmin_def hmax_def)
next
  case (Suc h')
  with assms obtain keys children where "n = SInner (Suc h') keys children" "keys \<noteq> []"
    "length keys \<le> innerslotmax kb" "strict \<Longrightarrow> mininnerslots kb \<le> length keys"
    by (auto elim: stx_ok_SucE)
  with Suc show ?thesis by (simp add: stx_slotuse_def stx_minslots_def hmin_def hmax_def)
qed

lemma stx_ok_strict:
  assumes ok: "stx_ok kb strict h n" and fill: "hmin kb h \<le> stx_slotuse n"
  shows "stx_ok kb strict' h n"
proof (cases h)
  case 0
  with assms show ?thesis by (cases n) (auto simp: stx_slotuse_def hmin_def)
next
  case (Suc h')
  with ok obtain keys children where n: "n = SInner (Suc h') keys children"
    "stx_raw kb h' keys children" "keys \<noteq> []" "length keys \<le> innerslotmax kb"
    by (auto elim: stx_ok_SucE)
  with fill Suc show ?thesis by (auto intro!: stx_raw_ok simp: stx_slotuse_def hmin_def)
qed

lemma stx_raw_append:
  assumes "stx_raw kb h ks cs" and "stx_raw kb h ks' cs'" and "sep = stx_max (last cs)"
  shows "stx_raw kb h (ks @ sep # ks') (cs @ cs')"
proof -
  have len: "length cs = Suc (length ks)" "length cs' = Suc (length ks')" using assms by (simp_all add: stx_raw_def)
  then have "last cs = cs ! length ks" by (metis Zero_not_Suc diff_Suc_1 last_conv_nth length_0_conv)
  with assms len show ?thesis
    by (auto simp: stx_raw_def nth_append nth_Cons' less_Suc_eq Suc_diff_le not_less)
qed

lemma stx_raw_max:
  assumes "stx_raw kb h ks cs"
  shows "stx_max (SInner l ks cs) = stx_max (last cs)"
proof -
  have "cs \<noteq> []" using assms by (auto simp: stx_raw_def)
  moreover from this have "stx_ok kb True h (last cs)" using assms by (simp add: stx_raw_def)
  ultimately show ?thesis using stx_ok_nonempty by (metis stx_max_last_child)
qed

text \<open>Keys and children of two siblings put together and split at another place.\<close>

lemma stx_raw_resplit:
  assumes raw: "stx_raw kb h ks cs" and m: "m < length ks"
    and fill: "mininnerslots kb \<le> m" "m \<le> innerslotmax kb"
      "m + mininnerslots kb < length ks" "length ks \<le> m + 1 + innerslotmax kb"
  shows "stx_ok kb True (Suc h) (SInner (Suc h) (take m ks) (take (m + 1) cs))"
    and "stx_ok kb True (Suc h) (SInner (Suc h) (drop (m + 1) ks) (drop (m + 1) cs))"
    and "ks ! m = stx_max (SInner (Suc h) (take m ks) (take (m + 1) cs))"
proof -
  note R = stx_raw_split [OF raw m]
  have "0 < mininnerslots kb" using minslots_ge(2) [of kb] by simp
  then show "stx_ok kb True (Suc h) (SInner (Suc h) (take m ks) (take (m + 1) cs))"
    "stx_ok kb True (Suc h) (SInner (Suc h) (drop (m + 1) ks) (drop (m + 1) cs))"
    using fill m by (intro stx_raw_ok [OF R(1)] stx_raw_ok [OF R(2)]; force)+
  show "ks ! m = stx_max (SInner (Suc h) (take m ks) (take (m + 1) cs))" by (rule R(3))
qed

text \<open>
  Two siblings \<open>l\<close> and \<open>r\<close> of height \<open>h\<close>, at least one full enough, with the separator of \<open>l\<close>
  in slot \<open>i\<close> of their parent. A merge leaves one node with all entries, a shift two nodes that
  are full enough.
\<close>

definition stx_counts :: "('k, 'v) stx_node list \<Rightarrow> nat \<times> nat" where
  "stx_counts cs = (sum_list (map stx_count_leaves cs), sum_list (map stx_count_inner cs))"

lemma stx_merge_ok:
  assumes l: "stx_ok kb False h l" and r: "stx_ok kb False h r"
    and fill: "stx_slotuse l + stx_slotuse r < 2 * hmin kb h" "hmin kb h \<le> stx_slotuse l + stx_slotuse r"
    and i: "i < length pk" "pk ! i = stx_max l" and fx: "fx \<in> {Merge_Left, Merge_Right}"
  obtains m e where "stx_apply kb fx l r pk i = Inr (m, e, pk, btree_fixmerge)" and "stx_ok kb True h m"
    and "stx_entries m = stx_entries l @ stx_entries r" and "stx_slotuse e = 0"
    and "if h = 0 then (\<exists>xs. e = SLeaf xs) \<and> stx_counts [l, r] = (Suc (fst (stx_counts [m])), snd (stx_counts [m]))
      else (\<exists>lv ks cs. e = SInner lv ks cs) \<and> stx_counts [l, r] = (fst (stx_counts [m]), Suc (snd (stx_counts [m])))"
proof (cases h)
  case 0
  then obtain a b where ab: "l = SLeaf a" "r = SLeaf b" using l r by (auto elim!: stx_ok_0E)
  show thesis
  proof (rule that [of "SLeaf (a @ b)" "SLeaf []"])
    show "stx_apply kb fx l r pk i = Inr (SLeaf (a @ b), SLeaf [], pk, btree_fixmerge)"
      using fx fill hmin_bounds [of kb h] 0
      by (auto simp: ab merge_leaves_def assertion_def stx_slotuse_def hmax_def hmin_def)
  qed (use fill hmin_bounds [of kb h] l r 0 in
      \<open>auto simp: ab stx_slotuse_def hmax_def hmin_def stx_counts_def\<close>)
next
  case (Suc h')
  obtain lk lc where L: "l = SInner (Suc h') lk lc" "stx_raw kb h' lk lc"
    using l Suc by (auto elim: stx_ok_SucE)
  obtain rk rc where R: "r = SInner (Suc h') rk rc" "stx_raw kb h' rk rc"
    using r Suc by (auto elim: stx_ok_SucE)
  let ?m = "SInner (Suc h') (lk @ pk ! i # rk) (lc @ rc)"
  have raw: "stx_raw kb h' (lk @ pk ! i # rk) (lc @ rc)"
    using L R i(2) by (intro stx_raw_append) (simp_all add: stx_raw_max)
  have use: "length lk + length rk < 2 * mininnerslots kb" "mininnerslots kb \<le> length lk + length rk"
    using fill Suc by (simp_all add: L R stx_slotuse_def hmin_def)
  have mx: "2 * mininnerslots kb \<le> innerslotmax kb" by (simp add: mininnerslots_def)
  show thesis
  proof (rule that [of ?m "SInner (Suc h') [] (take 1 rc)"])
    show "stx_apply kb fx l r pk i = Inr (?m, SInner (Suc h') [] (take 1 rc), pk, btree_fixmerge)"
      using fx use mx i(1) by (auto simp: L R merge_inner_def assertion_def at_def)
    show "stx_ok kb True h ?m" unfolding Suc using use mx by (intro stx_raw_ok [OF raw]) auto
  qed (use Suc in \<open>auto simp: L R stx_slotuse_def stx_counts_def\<close>)
qed

text \<open>The shifts put the slots of both nodes together and split them at another place.\<close>

lemma shift_left_leaf_eq:
  assumes "length a < length b" and "a \<noteq> []" and "i < length pk"
    and m: "m = length a + (length b - length a) div 2" "m < leafslotmax kb"
  shows "shift_left_leaf kb a b pk i =
    Inr (SLeaf (take m (a @ b)), SLeaf (drop m (a @ b)), pk[i := stx_max (SLeaf (take m (a @ b)))], btree_ok)"
  using assms(1-3) m(2)
  by (simp add: shift_left_leaf_def m(1) assertion_def stx_parent_key_def stx_max_def Let_def)

lemma shift_right_leaf_eq:
  assumes "length b < length a" and "i < length pk"
    and m: "m = length a - (length a - length b) div 2" "length b + (length a - length b) div 2 < leafslotmax kb"
  shows "shift_right_leaf kb a b pk i =
    Inr (SLeaf (take m (a @ b)), SLeaf (drop m (a @ b)), pk[i := stx_max (SLeaf (take m (a @ b)))], btree_ok)"
proof -
  have "m \<le> length a" "0 < m" using assms(1) by (auto simp: m(1))
  with assms(1,2) m(2) show ?thesis
    unfolding shift_right_leaf_def m(1) [symmetric] Let_def
    by (auto simp: assertion_def stx_max_def)
qed

lemma shift_left_inner_eq:
  assumes "length lk + 1 < length rk" and "i < length pk" and len: "length lc = Suc (length lk)" "length rc = Suc (length rk)"
    and m: "m = length lk + (length rk - length lk) div 2" "m < innerslotmax kb"
  shows "shift_left_inner kb (l, lk, lc) (l, rk, rc) pk i =
    (let ks = lk @ pk ! i # rk; cs = lc @ rc
     in Inr (SInner l (take m ks) (take (m + 1) cs), SInner l (drop (m + 1) ks) (drop (m + 1) cs),
          pk[i := ks ! m], btree_ok))"
proof -
  define d where "d = (length rk - length lk) div 2"
  have d: "0 < d" "m = length lk + d" using assms(1) by (auto simp: d_def m(1))
  then show ?thesis
    using assms(1,2) m(2) len unfolding shift_left_inner_def
    by (simp flip: d_def add: assertion_def at_def Let_def nth_append take_Cons' drop_Cons' nth_Cons')
qed

lemma shift_right_inner_eq:
  assumes "length rk + 1 < length lk" and "i < length pk" and len: "length lc = Suc (length lk)" "length rc = Suc (length rk)"
    and m: "m = length lk - (length lk - length rk) div 2" "length rk + (length lk - length rk) div 2 < innerslotmax kb"
  shows "shift_right_inner kb (l, lk, lc) (l, rk, rc) pk i =
    (let ks = lk @ pk ! i # rk; cs = lc @ rc
     in Inr (SInner l (take m ks) (take (m + 1) cs), SInner l (drop (m + 1) ks) (drop (m + 1) cs),
          pk[i := ks ! m], btree_ok))"
proof -
  define d where "d = (length lk - length rk) div 2"
  have "2 * d \<le> length lk" "0 < d" using assms(1) unfolding d_def by linarith+
  then have d: "0 < d" "m = length lk - d" "m < length lk" by (auto simp: d_def m(1))
  then show ?thesis
    using assms(1,2) m(2) len unfolding shift_right_inner_def
    by (simp flip: d_def add: assertion_def at_def Let_def nth_append)
qed

lemma stx_shift_ok:
  assumes l: "stx_ok kb False h l" and r: "stx_ok kb False h r"
    and fill: "if fx = Shift_Left then Suc (stx_slotuse l) = hmin kb h \<and> hmin kb h < stx_slotuse r
      else fx = Shift_Right \<and> Suc (stx_slotuse r) = hmin kb h \<and> hmin kb h < stx_slotuse l"
    and i: "i < length pk" "pk ! i = stx_max l"
  obtains l' r' where "stx_apply kb fx l r pk i = Inr (l', r', pk[i := stx_max l'], btree_ok)"
    and "stx_ok kb True h l'" and "stx_ok kb True h r'"
    and "stx_entries l' @ stx_entries r' = stx_entries l @ stx_entries r"
    and "stx_counts [l', r'] = stx_counts [l, r]"
proof (cases h)
  case 0
  then obtain a b where ab: "l = SLeaf a" "r = SLeaf b" "length a \<le> leafslotmax kb" "length b \<le> leafslotmax kb"
    using l r by (auto elim!: stx_ok_0E)
  note bounds = hmin_bounds [of kb h, unfolded 0 hmin_def hmax_def, simplified]
  note F = fill [unfolded ab(1,2) 0, simplified, simplified stx_slotuse_def hmin_def, simplified]
  define m where "m = (if fx = Shift_Left then length a + (length b - length a) div 2
    else length a - (length a - length b) div 2)"
  have m: "minleafslots kb \<le> m" "m + minleafslots kb \<le> length a + length b" "m \<le> leafslotmax kb"
    "length a + length b \<le> m + leafslotmax kb" "0 < m"
    using F ab(3,4) bounds by (auto simp: m_def split: if_splits)
  let ?l = "SLeaf (take m (a @ b))" and ?r = "SLeaf (drop m (a @ b))"
  show thesis
  proof (rule that [of ?l ?r])
    show "stx_apply kb fx l r pk i = Inr (?l, ?r, pk[i := stx_max ?l], btree_ok)"
    proof (cases "fx = Shift_Left")
      case True
      have "a \<noteq> []" using l by (simp add: ab 0)
      with True show ?thesis
        using F m i(1) ab(3,4) unfolding ab(1,2) by (simp add: shift_left_leaf_eq m_def)
    next
      case False
      then have b: "length b < length a" using F by simp
      then have "length b + (length a - length b) div 2 < leafslotmax kb" using ab(3) by linarith
      with b False show ?thesis
        using F i(1) unfolding ab(1,2) by (simp add: shift_right_leaf_eq m_def)
    qed
    show "stx_ok kb True h ?l" "stx_ok kb True h ?r" using m bounds 0 by (auto simp: min_def)
  qed (simp_all add: ab stx_counts_def del: take_append drop_append)
next
  case (Suc h')
  obtain lk lc where L: "l = SInner (Suc h') lk lc" "stx_raw kb h' lk lc" "length lk \<le> innerslotmax kb"
    using l Suc by (auto elim: stx_ok_SucE)
  obtain rk rc where R: "r = SInner (Suc h') rk rc" "stx_raw kb h' rk rc" "length rk \<le> innerslotmax kb"
    using r Suc by (auto elim: stx_ok_SucE)
  have len: "length lc = Suc (length lk)" "length rc = Suc (length rk)" using L R by (simp_all add: stx_raw_def)
  let ?ks = "lk @ pk ! i # rk" and ?cs = "lc @ rc"
  have raw: "stx_raw kb h' ?ks ?cs"
    using L R i(2) by (intro stx_raw_append) (simp_all add: stx_raw_max)
  note bounds = hmin_bounds [of kb h, unfolded Suc hmin_def hmax_def, simplified]
  note F = fill [unfolded L(1) R(1) Suc, simplified, simplified stx_slotuse_def hmin_def, simplified]
  define m where "m = (if fx = Shift_Left then length lk + (length rk - length lk) div 2
    else length lk - (length lk - length rk) div 2)"
  have m: "m < length ?ks" "mininnerslots kb \<le> m" "m \<le> innerslotmax kb" "m + mininnerslots kb < length ?ks"
    "length ?ks \<le> m + 1 + innerslotmax kb"
    using F L(3) R(3) bounds by (auto simp: m_def split: if_splits)
  note S = stx_raw_resplit [OF raw m]
  let ?l = "SInner (Suc h') (take m ?ks) (take (m + 1) ?cs)" and ?r = "SInner (Suc h') (drop (m + 1) ?ks) (drop (m + 1) ?cs)"
  show thesis
  proof (rule that [of ?l ?r])
    have "stx_apply kb fx l r pk i = Inr (?l, ?r, pk[i := ?ks ! m], btree_ok)"
    proof (cases "fx = Shift_Left")
      case True
      then have fr: "length lk + 1 < length rk" using F bounds by simp
      then have "m < innerslotmax kb" using R(3) True unfolding m_def by auto
      from shift_left_inner_eq [OF fr i(1) len _ this, of "Suc h'"] True show ?thesis
        unfolding L(1) R(1) by (simp add: m_def Let_def del: take_append drop_append)
    next
      case False
      then have fx: "fx = Shift_Right" and fl: "length rk + 1 < length lk" using F bounds by simp_all
      then have "length rk + (length lk - length rk) div 2 < innerslotmax kb" using L(3) by linarith
      from shift_right_inner_eq [OF fl i(1) len _ this, of m "Suc h'"] fx show ?thesis
        unfolding L(1) R(1) by (simp add: m_def Let_def del: take_append drop_append)
    qed
    then show "stx_apply kb fx l r pk i = Inr (?l, ?r, pk[i := stx_max ?l], btree_ok)"
      by (simp only: S(3))
    show "stx_ok kb True h ?l" "stx_ok kb True h ?r" unfolding Suc by (rule S)+
    have "concat (map stx_entries (take (m + 1) ?cs)) @ concat (map stx_entries (drop (m + 1) ?cs))
        = concat (map stx_entries ?cs)"
      by (metis append_take_drop_id concat_append map_append)
    then show "stx_entries ?l @ stx_entries ?r = stx_entries l @ stx_entries r"
      by (simp add: L R del: take_append drop_append)
    have "sum_list (map f (take (m + 1) ?cs)) + sum_list (map f (drop (m + 1) ?cs))
        = sum_list (map f ?cs)" for f :: "('a, 'b) stx_node \<Rightarrow> nat"
      by (metis append_take_drop_id sum_list.append map_append)
    then show "stx_counts [?l, ?r] = stx_counts [l, r]"
      by (simp add: stx_counts_def L R del: take_append drop_append)
  qed
qed

section \<open>The children of one node\<close>

lemma stx_raw_iff:
  "stx_raw kb h ks cs \<longleftrightarrow> cs \<noteq> [] \<and> ks = map stx_max (butlast cs) \<and> (\<forall>c \<in> set cs. stx_ok kb True h c)"
proof
  assume raw: "stx_raw kb h ks cs"
  then have "ks = map stx_max (butlast cs)"
    by (intro nth_equalityI) (auto simp: stx_raw_def nth_butlast)
  with raw show "cs \<noteq> [] \<and> ks = map stx_max (butlast cs) \<and> (\<forall>c \<in> set cs. stx_ok kb True h c)"
    by (auto simp: stx_raw_def)
qed (auto simp: stx_raw_def nth_butlast)

text \<open>One child, in slot \<open>p\<close>, may be short of entries.\<close>

definition stx_short ::
  "nat \<Rightarrow> nat \<Rightarrow> nat \<Rightarrow> 'k::linorder list \<Rightarrow> ('k, 'v) stx_node list \<Rightarrow> bool" where
  "stx_short kb h p ks cs \<longleftrightarrow> p < length cs \<and> ks = map stx_max (butlast cs)
     \<and> (\<forall>j < length cs. stx_ok kb (j \<noteq> p) h (cs ! j))"

text \<open>The counts of a tree in which these nodes are the children of one node.\<close>

definition stx_accounts ::
  "nat \<Rightarrow> nat \<Rightarrow> nat \<Rightarrow> stx_stats \<Rightarrow> ('k, 'v) stx_node list \<Rightarrow> bool" where
  "stx_accounts items leaves inner stats cs \<longleftrightarrow> stats = \<lparr>st_itemcount = items,
     st_leaves = leaves + fst (stx_counts cs), st_innernodes = inner + snd (stx_counts cs)\<rparr>"

abbreviation stx_all_entries :: "('k, 'v) stx_node list \<Rightarrow> ('k \<times> 'v) list" where
  "stx_all_entries cs \<equiv> concat (map stx_entries cs)"

text \<open>
  The state of the children once the parent has removed an emptied child: their keys, entries
  and counts, at most one child less, and the maximum of the last child unchanged.
\<close>

definition stx_settles ::
  "nat \<Rightarrow> nat \<Rightarrow> nat \<Rightarrow> ('k::linorder, 'v) stx_node list \<Rightarrow> bool \<Rightarrow> stx_stats \<Rightarrow> 'k list \<Rightarrow>
   ('k, 'v) stx_node list \<Rightarrow> stx_stats \<Rightarrow> 'k list \<Rightarrow> ('k, 'v) stx_node list \<Rightarrow> bool" where
  "stx_settles kb h p cs fixmerge stats ks' cs' stats' ks'' cs'' \<longleftrightarrow>
     (if fixmerge then stx_drop_child (Suc h) p stats ks' cs' else Inr (stats, ks', cs')) = Inr (stats', ks'', cs'')
     \<and> stx_raw kb h ks'' cs'' \<and> stx_all_entries cs'' = stx_all_entries cs
     \<and> length cs'' \<le> length cs \<and> length cs \<le> Suc (length cs'')
     \<and> stx_max (last cs'') = stx_max (last cs)
     \<and> (\<forall>n l i. stx_accounts n l i stats cs \<longrightarrow> stx_accounts n l i stats' cs'')"

lemma stx_max_append:
  "stx_entries m = xs @ stx_entries r \<Longrightarrow> stx_entries r \<noteq> [] \<Longrightarrow> stx_max m = stx_max r"
  by (simp add: stx_max_def)

lemma stx_counts_append: "stx_counts (xs @ ys) =
    (fst (stx_counts xs) + fst (stx_counts ys), snd (stx_counts xs) + snd (stx_counts ys))"
  "stx_counts (c # ys) = (fst (stx_counts [c]) + fst (stx_counts ys), snd (stx_counts [c]) + snd (stx_counts ys))"
  by (simp_all add: stx_counts_def)

lemma list_update_pair:
  "(A @ l # r # B)[length A := x, Suc (length A) := y] = A @ x # y # B"
  by (simp add: list_update_append)

text \<open>Two neighbours \<open>l\<close> and \<open>r\<close> are merged into \<open>m\<close>, which leaves \<open>e\<close> without entries.\<close>

lemma stx_drop_merged:
  fixes m :: "('k::linorder, 'v) stx_node"
  assumes m: "stx_ok kb True h m" "stx_max m = stx_max r"
    and e: "stx_slotuse e = 0" and p: "p = length A \<or> p = Suc (length A)"
  shows "stx_drop_child (Suc h) p stats (map stx_max (butlast (A @ l # r # B))) (A @ m # e # B)
    = Inr (stx_free_node e stats, map stx_max (butlast (A @ m # B)), A @ m # B)"
proof -
  let ?keys = "map stx_max (butlast (A @ l # r # B))" and ?keys' = "map stx_max (butlast (A @ m # B))"
  have m0: "stx_slotuse m \<noteq> 0" using stx_ok_fill [OF m(1)] by simp
  have slot: "at (A @ m # e # B) p = Inr (if p = length A then m else e)"
    "(if stx_slotuse (if p = length A then m else e) \<noteq> 0 then p + 1 else p) = Suc (length A)"
    using p e m0 by (auto simp: at_def nth_append)
  have keys: "take (length A) ?keys @ drop (Suc (length A)) ?keys = ?keys'"
    using m(2) by (cases B rule: rev_cases) (simp_all add: butlast_append)
  have update: "?keys'[length A := stx_max m] = ?keys'"
    by (cases B rule: rev_cases) (simp_all add: butlast_append list_update_append list_update_beyond)
  show ?thesis
  proof (cases h)
    case 0
    then obtain slots where "m = SLeaf slots" "slots \<noteq> []" using m(1) by (auto elim: stx_ok_0E)
    then show ?thesis
      using e slot keys update 0
      by (simp add: stx_drop_child_def remove_slot_def at_def nth_append assertion_def Let_def stx_max_def)
  next
    case (Suc h')
    then show ?thesis
      using e slot keys by (simp add: stx_drop_child_def remove_slot_def at_def nth_append assertion_def Let_def)
  qed
qed

section \<open>An underflow is resolved\<close>

text \<open>
  The neighbours that are passed to a node in slot \<open>p\<close> of a parent at depth \<open>d\<close>: next to it in
  the parent they are its siblings, outside of the parent nothing is said of them.
\<close>

definition stx_family ::
  "nat \<Rightarrow> ('k, 'v) stx_node option \<Rightarrow> ('k, 'v) stx_node option \<Rightarrow> nat option \<Rightarrow> nat option \<Rightarrow>
   ('k, 'v) stx_node list \<Rightarrow> nat \<Rightarrow> bool" where
  "stx_family d left right leftparent rightparent cs p \<longleftrightarrow> p < length cs \<and> 2 \<le> length cs
     \<and> (if p = 0 then leftparent \<noteq> Some d else leftparent = Some d \<and> left = Some (cs ! (p - 1)))
     \<and> (if Suc p = length cs then rightparent \<noteq> Some d
        else rightparent = Some d \<and> right = Some (cs ! Suc p))"

lemma stx_choose_family:
  assumes "stx_family d left right leftparent rightparent cs p"
  shows "\<exists>fx. stx_choose kb left right leftparent rightparent (Some d) = Inr fx
    \<and> (fx \<in> {Merge_Left, Shift_Right} \<longrightarrow> 0 < p \<and> leftparent = Some d
      \<and> (stx_isfew kb (cs ! (p - 1)) \<longleftrightarrow> fx = Merge_Left))
    \<and> (fx \<in> {Merge_Right, Shift_Left} \<longrightarrow> Suc p < length cs \<and> rightparent = Some d
      \<and> (stx_isfew kb (cs ! Suc p) \<longleftrightarrow> fx = Merge_Right))"
proof -
  have A: "p < length cs" "2 \<le> length cs" "p = 0 \<Longrightarrow> leftparent \<noteq> Some d"
    "p \<noteq> 0 \<Longrightarrow> leftparent = Some d \<and> left = Some (cs ! (p - 1))"
    "Suc p = length cs \<Longrightarrow> rightparent \<noteq> Some d"
    "Suc p \<noteq> length cs \<Longrightarrow> rightparent = Some d \<and> right = Some (cs ! Suc p)"
    using assms by (auto simp: stx_family_def split: if_splits)
  consider (both) "p \<noteq> 0" "Suc p \<noteq> length cs" | (first) "p = 0" "Suc p \<noteq> length cs"
    | (last) "p \<noteq> 0" "Suc p = length cs" using A(2) by linarith
  then show ?thesis
  proof cases
    case both
    from A(1) both(2) have "Suc p < length cs" by simp
    with both A(4) [OF both(1)] A(6) [OF both(2)] show ?thesis
      by (cases "stx_isfew kb (cs ! (p - 1))"; cases "stx_isfew kb (cs ! Suc p)";
          cases "stx_slotuse (cs ! (p - 1)) \<le> stx_slotuse (cs ! Suc p)") (simp_all add: stx_choose_def)
  next
    case first
    from A(1) first(2) have "Suc p < length cs" by simp
    with first A(3) [OF first(1)] A(6) [OF first(2)] show ?thesis
      by (cases left; cases "stx_isfew kb (the left)"; cases "stx_isfew kb (cs ! Suc p)")
        (simp_all add: stx_choose_def)
  next
    case last
    with A(1) A(4) [OF last(1)] A(5) [OF last(2)] show ?thesis
      by (cases right; cases "stx_isfew kb (the right)"; cases "stx_isfew kb (cs ! (p - 1))")
        (simp_all add: stx_choose_def)
  qed
qed

lemma stx_settles_merge:
  fixes l :: "('k::linorder, 'v) stx_node"
  assumes cs: "cs = A @ l # r # B" and strict: "\<forall>c \<in> set A \<union> set B. stx_ok kb True h c"
    and l: "stx_ok kb False h l" and r: "stx_ok kb False h r"
    and m: "stx_ok kb True h m" "stx_entries m = stx_entries l @ stx_entries r" "stx_slotuse e = 0"
    and n: "if h = 0 then (\<exists>xs. e = SLeaf xs) \<and> stx_counts [l, r] = (Suc (fst (stx_counts [m])), snd (stx_counts [m]))
      else (\<exists>lv ks cs. e = SInner lv ks cs) \<and> stx_counts [l, r] = (fst (stx_counts [m]), Suc (snd (stx_counts [m])))"
    and p: "p = length A \<or> p = Suc (length A)"
  shows "stx_settles kb h p cs True stats (map stx_max (butlast cs)) (A @ m # e # B)
    (stx_free_node e stats) (map stx_max (butlast (A @ m # B))) (A @ m # B)"
proof -
  have mx: "stx_max m = stx_max r" using stx_max_append [OF m(2)] stx_ok_nonempty [OF r] by blast
  have "stx_counts cs = (fst (stx_counts A) + fst (stx_counts [l, r]) + fst (stx_counts B),
      snd (stx_counts A) + snd (stx_counts [l, r]) + snd (stx_counts B))"
    by (simp add: cs stx_counts_def)
  moreover have "stx_counts (A @ m # B) = (fst (stx_counts A) + fst (stx_counts [m]) + fst (stx_counts B),
      snd (stx_counts A) + snd (stx_counts [m]) + snd (stx_counts B))"
    by (simp add: stx_counts_def)
  ultimately have "stx_accounts n i j stats cs \<Longrightarrow> stx_accounts n i j (stx_free_node e stats) (A @ m # B)" for n i j
    using n by (cases "h = 0") (auto simp: stx_accounts_def stx_free_node_def)
  moreover have "stx_raw kb h (map stx_max (butlast (A @ m # B))) (A @ m # B)"
    using strict m(1) by (auto simp: stx_raw_iff)
  moreover have "stx_max (last (A @ m # B)) = stx_max (last cs)" using mx by (simp add: cs)
  ultimately show ?thesis
    using stx_drop_merged [OF m(1) mx m(3) p] m(2) by (simp add: stx_settles_def cs)
qed

lemma stx_settles_shift:
  fixes l :: "('k::linorder, 'v) stx_node"
  assumes cs: "cs = A @ l # r # B" and strict: "\<forall>c \<in> set A \<union> set B. stx_ok kb True h c"
    and r: "stx_ok kb False h r" and ok: "stx_ok kb True h l'" "stx_ok kb True h r'"
    and ent: "stx_entries l' @ stx_entries r' = stx_entries l @ stx_entries r"
    and n: "stx_counts [l', r'] = stx_counts [l, r]"
  shows "stx_settles kb h p cs False stats ((map stx_max (butlast cs))[length A := stx_max l']) (A @ l' # r' # B)
    stats ((map stx_max (butlast cs))[length A := stx_max l']) (A @ l' # r' # B)"
proof -
  have "stx_max r' = fst (last (stx_entries l' @ stx_entries r'))"
    using stx_ok_nonempty [OF ok(2)] by (simp add: stx_max_def)
  then have mx: "stx_max r' = stx_max r" using stx_ok_nonempty [OF r] by (simp add: ent stx_max_def)
  have keys: "(map stx_max (butlast cs))[length A := stx_max l'] = map stx_max (butlast (A @ l' # r' # B))"
    using mx by (cases B rule: rev_cases) (simp_all add: cs butlast_append list_update_append)
  have "stx_raw kb h (map stx_max (butlast (A @ l' # r' # B))) (A @ l' # r' # B)"
    unfolding stx_raw_iff using strict ok by auto
  moreover have "stx_all_entries (A @ l' # r' # B) = stx_all_entries cs"
    using ent by (simp add: cs)
  moreover have "stx_counts (A @ l' # r' # B) = stx_counts cs" using n by (simp add: stx_counts_def cs)
  moreover have "stx_max (last (A @ l' # r' # B)) = stx_max (last cs)" using mx by (simp add: cs)
  ultimately show ?thesis unfolding stx_settles_def keys by (simp add: stx_accounts_def cs)
qed

lemma stx_fix_settles:
  fixes cs :: "('k::linorder, 'v) stx_node list"
  assumes short: "stx_short kb h p pk cs" and fam: "stx_family d left right leftparent rightparent cs p"
    and few: "Suc (stx_slotuse (cs ! p)) = hmin kb h"
  shows "\<exists>pk' cs' res stats' ks'' cs''.
    stx_fix_underflow kb left right leftparent rightparent (Some d) pk cs p = Inr (pk', cs', res)
    \<and> \<not> res_not_found res \<and> res_lastkey res = None
    \<and> stx_settles kb h p cs (res_fixmerge res) stats pk' cs' stats' ks'' cs''"
proof -
  obtain fx where choose: "stx_choose kb left right leftparent rightparent (Some d) = Inr fx"
    and fl: "fx \<in> {Merge_Left, Shift_Right} \<longrightarrow> 0 < p \<and> leftparent = Some d
      \<and> (stx_isfew kb (cs ! (p - 1)) \<longleftrightarrow> fx = Merge_Left)"
    and fr: "fx \<in> {Merge_Right, Shift_Left} \<longrightarrow> Suc p < length cs \<and> rightparent = Some d
      \<and> (stx_isfew kb (cs ! Suc p) \<longleftrightarrow> fx = Merge_Right)"
    using stx_choose_family [OF fam] by blast
  define with_left where "with_left \<longleftrightarrow> fx \<in> {Merge_Left, Shift_Right}"
  define i where "i = (if with_left then p - 1 else p)"
  have pk: "pk = map stx_max (butlast cs)" and ok: "\<And>j. j < length cs \<Longrightarrow> stx_ok kb (j \<noteq> p) h (cs ! j)"
    and p: "p < length cs" using short by (auto simp: stx_short_def)
  have right: "\<not> with_left \<Longrightarrow> fx \<in> {Merge_Right, Shift_Left}" by (cases fx) (auto simp: with_left_def)
  have parent: "if with_left then leftparent = Some d \<and> 0 < p else rightparent = Some d"
    using fl fr right by (cases fx) (simp_all add: with_left_def)
  have i: "Suc i < length cs" and pi: "if with_left then p = Suc i else p = i"
    using fl fr right p by (cases with_left; simp add: i_def with_left_def)+
  define A where "A = take i cs"
  define B where "B = drop (Suc (Suc i)) cs"
  define l where "l = cs ! i"
  define r where "r = cs ! Suc i"
  have cs: "cs = A @ l # r # B" and A: "length A = i"
    using i by (simp_all add: A_def B_def l_def r_def Cons_nth_drop_Suc)
  have strict: "\<forall>c \<in> set A \<union> set B. stx_ok kb True h c"
  proof
    fix c assume "c \<in> set A \<union> set B"
    then obtain j where j: "j < length cs" "j \<noteq> i" "j \<noteq> Suc i" "c = cs ! j"
    proof
      assume "c \<in> set A"
      then obtain j where "j < i" "c = cs ! j" using i by (auto simp: A_def in_set_conv_nth)
      with i that [of j] show thesis by simp
    next
      assume "c \<in> set B"
      then obtain j where "j < length cs - Suc (Suc i)" "c = cs ! (Suc (Suc i) + j)"
        unfolding B_def by (auto simp: in_set_conv_nth)
      with that [of "Suc (Suc i) + j"] show thesis by simp
    qed
    with ok [of j] pi show "stx_ok kb True h c" by (simp split: if_splits)
  qed
  have lr: "stx_ok kb (\<not> with_left) h r" "stx_ok kb with_left h l"
    using ok [of i] ok [of "Suc i"] i pi by (simp_all add: l_def r_def split: if_splits)
  have weak: "stx_ok kb False h l" "stx_ok kb False h r"
    using lr stx_ok_weaken [of kb h l False] stx_ok_weaken [of kb h r False] by (cases with_left; simp)+
  let ?s = "if with_left then r else l" and ?t = "if with_left then l else r"
  have s: "Suc (stx_slotuse ?s) = hmin kb h" using few pi by (simp add: l_def r_def split: if_splits)
  have t: "hmin kb h \<le> stx_slotuse ?t" "stx_minslots kb ?t = hmin kb h"
    using stx_ok_fill [OF lr(1)] stx_ok_fill [OF lr(2)] by (auto split: if_splits)
  have tfew: "stx_isfew kb ?t \<longleftrightarrow> fx \<in> {Merge_Left, Merge_Right}"
    using fl fr right pi unfolding with_left_def l_def r_def by (auto split: if_splits)
  have key: "i < length pk" "pk ! i = stx_max l" using i by (simp_all add: pk nth_butlast l_def)
  have upd: "cs[i := x, Suc i := y] = A @ x # y # B" for x y
    unfolding cs A [symmetric] by (rule list_update_pair)
  have run: "stx_fix_underflow kb left right leftparent rightparent (Some d) pk cs p =
      bind_res (stx_apply kb fx l r pk i) (\<lambda>(l', r', pk', res). Inr (pk', A @ l' # r' # B, res))"
    unfolding stx_fix_underflow_def choose bind_res_Inr Let_def with_left_def [symmetric] i_def [symmetric]
    using parent i upd by (simp add: assertion_def at_def l_def r_def)
  show ?thesis
  proof (cases "fx \<in> {Merge_Left, Merge_Right}")
    case True
    then have "stx_slotuse ?t \<le> hmin kb h" using tfew t(2) by (simp add: stx_isfew_def)
    then have fill: "stx_slotuse l + stx_slotuse r < 2 * hmin kb h" "hmin kb h \<le> stx_slotuse l + stx_slotuse r"
      using s t(1) by (auto split: if_splits)
    obtain m e where m: "stx_apply kb fx l r pk i = Inr (m, e, pk, btree_fixmerge)" "stx_ok kb True h m"
      "stx_entries m = stx_entries l @ stx_entries r" "stx_slotuse e = 0"
      "if h = 0 then (\<exists>xs. e = SLeaf xs) \<and> stx_counts [l, r] = (Suc (fst (stx_counts [m])), snd (stx_counts [m]))
       else (\<exists>lv ks cs. e = SInner lv ks cs) \<and> stx_counts [l, r] = (fst (stx_counts [m]), Suc (snd (stx_counts [m])))"
      by (rule stx_merge_ok [OF weak fill key True]) blast
    have "p = length A \<or> p = Suc (length A)" using pi A by (auto split: if_splits)
    from stx_settles_merge [OF cs strict weak m(2-5) this, of stats]
    show ?thesis unfolding run m(1) using pk
      by (auto simp: btree_fixmerge_def btree_ok_def)
  next
    case False
    have "if fx = Shift_Left then Suc (stx_slotuse l) = hmin kb h \<and> hmin kb h < stx_slotuse r
      else fx = Shift_Right \<and> Suc (stx_slotuse r) = hmin kb h \<and> hmin kb h < stx_slotuse l"
      using False s t tfew by (cases fx) (simp_all add: with_left_def stx_isfew_def)
    from stx_shift_ok [OF weak this key] obtain l' r' where
      m: "stx_apply kb fx l r pk i = Inr (l', r', pk[i := stx_max l'], btree_ok)"
      "stx_ok kb True h l'" "stx_ok kb True h r'"
      "stx_entries l' @ stx_entries r' = stx_entries l @ stx_entries r" "stx_counts [l', r'] = stx_counts [l, r]"
      by blast
    from stx_settles_shift [OF cs strict weak(2) m(2-5), of p stats]
    show ?thesis unfolding run m(1) using pk A
      by (auto simp: btree_ok_def)
  qed
qed

end
