(* ===== verification/StxDelete.thy ===== *)
theory StxDelete
  imports StxSiblings
begin

text \<open>
  Deletion from the B+ tree of \<open>src/competitors/stx-btree-0.9/include/stx/btree.h\<close> is right: by key
  and by iterator it removes one entry, keeps the tree valid, fails no assert and reads no unused
  slot. \<open>stx_below\<close> states what a deletion below a node leaves to its parent, \<open>stx_step\<close> is the
  induction step that both descents share.
\<close>

section \<open>Deletion below the root\<close>

lemma length_remove_slot [simp]: "i < length xs \<Longrightarrow> length (remove_slot i xs) = length xs - 1"
  by (simp add: remove_slot_def)

lemma remove_slot_append: "i < length ys \<Longrightarrow>
    remove_slot (length xs + i) (xs @ ys @ zs) = xs @ remove_slot i ys @ zs"
  by (simp add: remove_slot_def)

text \<open>A child is replaced by one with an entry less.\<close>

lemma stx_entries_update:
  assumes p: "p < length cs" and c: "stx_entries c = remove_slot i (stx_entries (cs ! p))"
    and i: "i < length (stx_entries (cs ! p))"
  shows "stx_all_entries (cs[p := c]) = remove_slot (length (stx_all_entries (take p cs)) + i) (stx_all_entries cs)"
proof -
  have "stx_all_entries cs = stx_all_entries (take p cs) @ stx_entries (cs ! p) @ stx_all_entries (drop (Suc p) cs)"
    using concat_split_nth [of p "map stx_entries cs"] p by (simp add: take_map drop_map)
  then show ?thesis
    using p remove_slot_append [OF i] c by (simp add: upd_conv_take_nth_drop)
qed

lemma stx_counts_update:
  assumes "p < length cs"
  shows "fst (stx_counts (cs[p := c])) + fst (stx_counts [cs ! p]) = fst (stx_counts cs) + fst (stx_counts [c])"
    and "snd (stx_counts (cs[p := c])) + snd (stx_counts [cs ! p]) = snd (stx_counts cs) + snd (stx_counts [c])"
  using assms by (simp_all add: stx_counts_def upd_conv_take_nth_drop sum_list_update_split [OF assms])

text \<open>
  What a deletion below the child in slot \<open>p\<close> leaves to its parent: an entry less, the maximum
  of the last child as reported, and at most one child to be removed.
\<close>

definition stx_below ::
  "nat \<Rightarrow> nat \<Rightarrow> nat \<Rightarrow> ('k::linorder, 'v) stx_node list \<Rightarrow> nat \<Rightarrow> stx_stats \<Rightarrow> ('k, 'v) stx_erased \<Rightarrow> bool" where
  "stx_below kb h p cs i stats r \<longleftrightarrow> (case r of (res, stats', ks', cs') \<Rightarrow>
     \<not> res_not_found res \<and> (\<exists>cs1 st ks cs''. stx_settles kb h p cs1 (res_fixmerge res) stats' ks' cs' st ks cs''
     \<and> length cs1 = length cs
     \<and> stx_all_entries cs1 = remove_slot (length (stx_all_entries (take p cs)) + i) (stx_all_entries cs)
     \<and> (case res_lastkey res of None \<Rightarrow> stx_max (last cs1) = stx_max (last cs) | Some k \<Rightarrow> k = stx_max (last cs1))
     \<and> (\<forall>n l j. stx_accounts n l j stats cs \<longrightarrow> stx_accounts n l j stats' cs1)))"

lemma stx_belowI:
  assumes "\<not> res_not_found res" and "stx_settles kb h p cs1 (res_fixmerge res) stats' ks' cs' st ks cs''"
    and "length cs1 = length cs"
    and "stx_all_entries cs1 = remove_slot (length (stx_all_entries (take p cs)) + i) (stx_all_entries cs)"
    and "case res_lastkey res of None \<Rightarrow> stx_max (last cs1) = stx_max (last cs) | Some k \<Rightarrow> k = stx_max (last cs1)"
    and "\<forall>n l j. stx_accounts n l j stats cs \<longrightarrow> stx_accounts n l j stats' cs1"
  shows "stx_below kb h p cs i stats (res, stats', ks', cs')"
  using assms unfolding stx_below_def prod.case by blast

text \<open>The key of the child in the parent, or the report to the parent's parent.\<close>

lemma stx_key_update:
  assumes raw: "stx_raw kb h pk cs" and p: "p < length cs"
    and m: "case m of None \<Rightarrow> stx_max c = stx_max (cs ! p) | Some k \<Rightarrow> k = stx_max c"
    and upd: "(pk', my) = (case m of None \<Rightarrow> (pk, btree_ok) | Some k \<Rightarrow> stx_parent_key pk p k)"
  shows "pk' = map stx_max (butlast (cs[p := c]))" and "\<not> res_not_found my" and "\<not> res_fixmerge my"
    and "case res_lastkey my of None \<Rightarrow> stx_max (last (cs[p := c])) = stx_max (last cs)
      | Some k \<Rightarrow> k = stx_max (last (cs[p := c]))"
proof -
  have len: "length cs = Suc (length pk)" and pk: "pk = map stx_max (butlast cs)" and ne: "cs \<noteq> []"
    using raw stx_raw_iff [of kb h pk cs] by (auto simp: stx_raw_def)
  have l: "last (cs[p := c]) = (if p = length pk then c else last cs)"
    using ne len p by (auto simp: last_list_update)
  have b: "map stx_max (butlast (cs[p := c])) = (if p = length pk then pk else pk[p := stx_max c])"
    using len p by (auto simp: butlast_list_update pk map_update)
  have same: "stx_max c = stx_max (cs ! p) \<Longrightarrow> pk[p := stx_max c] = pk"
    using raw by (metis list_update_beyond list_update_id not_less stx_raw_def)
  have lp: "p = length pk \<Longrightarrow> last cs = cs ! p" using ne len by (simp add: last_conv_nth)
  show "pk' = map stx_max (butlast (cs[p := c]))"
  proof (cases m)
    case None
    then have "pk' = pk" "stx_max c = stx_max (cs ! p)" using m upd by simp_all
    then show ?thesis unfolding b using same by simp
  next
    case (Some k)
    then have "fst (pk', my) = fst (stx_parent_key pk p (stx_max c))" using m upd by simp
    then show ?thesis unfolding b using p len by (auto simp: stx_parent_key_def)
  qed
  show "\<not> res_not_found my" "\<not> res_fixmerge my"
    using upd by (auto simp: stx_parent_key_def btree_ok_def btree_update_lastkey_def split: option.splits if_splits)
  show "case res_lastkey my of None \<Rightarrow> stx_max (last (cs[p := c])) = stx_max (last cs)
      | Some k \<Rightarrow> k = stx_max (last (cs[p := c]))"
  proof (cases m)
    case None
    then have "res_lastkey my = None" "stx_max c = stx_max (cs ! p)" using m upd by (simp_all add: btree_ok_def)
    then show ?thesis unfolding l using lp by simp
  next
    case (Some k)
    then have "snd (pk', my) = snd (stx_parent_key pk p (stx_max c))" using m upd by simp
    then show ?thesis
      unfolding l using p len by (auto simp: stx_parent_key_def btree_ok_def btree_update_lastkey_def)
  qed
qed

text \<open>
  The end of both descents: a child \<open>c\<close> with an entry less is put into its slot, its parent's
  keys are updated, and an underflow of it is resolved.
\<close>

lemma stx_step:
  fixes cs :: "('k::linorder, 'v) stx_node list"
  assumes raw: "stx_raw kb h pk cs" and fam: "stx_family d left right leftparent rightparent cs p"
    and c: "stx_ok kb False h c" "hmin kb h \<le> Suc (stx_slotuse c)"
      "stx_entries c = remove_slot i (stx_entries (cs ! p))" "i < length (stx_entries (cs ! p))"
    and m: "case m of None \<Rightarrow> stx_max c = stx_max (cs ! p) | Some k \<Rightarrow> k = stx_max c"
    and upd: "(pk', my) = (case m of None \<Rightarrow> (pk, btree_ok) | Some k \<Rightarrow> stx_parent_key pk p k)"
    and counts: "\<forall>n l j. stx_accounts n l j stats cs \<longrightarrow> stx_accounts n l j stats' (cs[p := c])"
  shows "\<exists>r. (if stx_isunderflow kb c
      then bind_res (stx_fix_underflow kb left right leftparent rightparent (Some d) pk' (cs[p := c]) p)
             (\<lambda>(pk'', cs'', r). Inr (merge_result my r, stats', pk'', cs''))
      else Inr (my, stats', pk', cs[p := c])) = Inr r
    \<and> stx_below kb h p cs i stats r"
proof -
  let ?cs = "cs[p := c]"
  have p: "p < length cs" using fam by (simp add: stx_family_def)
  note K = stx_key_update [OF raw p m upd]
  note E = stx_entries_update [OF p c(3,4)]
  have ok: "stx_ok kb (j \<noteq> p) h (?cs ! j)" if "j < length ?cs" for j
    using raw c(1) that p by (cases "j = p") (simp_all add: stx_raw_def)
  show ?thesis
  proof (cases "stx_isunderflow kb c")
    case True
    then have few: "Suc (stx_slotuse (?cs ! p)) = hmin kb h"
      using c(2) p stx_ok_fill [OF c(1)] by (simp add: stx_isunderflow_def)
    have short: "stx_short kb h p pk' ?cs" using ok p K(1) by (simp add: stx_short_def)
    have fam': "stx_family d left right leftparent rightparent ?cs p"
      using fam by (auto simp: stx_family_def split: if_splits)
    obtain pk'' cs'' res st ks ds where
      run: "stx_fix_underflow kb left right leftparent rightparent (Some d) pk' ?cs p = Inr (pk'', cs'', res)"
      and res: "\<not> res_not_found res" "res_lastkey res = None"
      and set: "stx_settles kb h p ?cs (res_fixmerge res) stats' pk'' cs'' st ks ds"
      using stx_fix_settles [OF short fam' few, of stats'] by blast
    have "stx_below kb h p cs i stats (merge_result my res, stats', pk'', cs'')"
    proof (rule stx_belowI [OF _ _ _ E _ counts])
      show "stx_settles kb h p ?cs (res_fixmerge (merge_result my res)) stats' pk'' cs'' st ks ds"
        using set K(3) by (simp add: merge_result_def)
    qed (use K(2,4) res in \<open>simp_all add: merge_result_def\<close>)
    with True run show ?thesis by simp
  next
    case False
    then have full: "hmin kb h \<le> stx_slotuse c"
      using stx_ok_fill [OF c(1)] by (simp add: stx_isunderflow_def)
    have "stx_ok kb True h x" if x: "x \<in> set ?cs" for x
    proof -
      obtain j where "j < length ?cs" "x = ?cs ! j" using x unfolding in_set_conv_nth by blast
      then show ?thesis using ok [of j] stx_ok_strict [OF c(1) full] p by (cases "j = p") simp_all
    qed
    moreover have "?cs \<noteq> []" using p by auto
    ultimately have "stx_raw kb h pk' ?cs" unfolding stx_raw_iff K(1) by blast
    then have settled: "stx_settles kb h p ?cs False stats' pk' ?cs stats' pk' ?cs" by (simp add: stx_settles_def)
    have "stx_below kb h p cs i stats (my, stats', pk', ?cs)"
    proof (rule stx_belowI [OF K(2) _ _ E K(4) counts])
      show "stx_settles kb h p ?cs (res_fixmerge my) stats' pk' ?cs stats' pk' ?cs"
        using settled K(3) by simp
    qed simp
    with False show ?thesis by simp
  qed
qed

lemma stx_family_sibling: "stx_family d left right leftparent rightparent cs p \<Longrightarrow> \<not> (left = None \<and> right = None)"
  by (auto simp: stx_family_def split: if_splits)

lemma stx_erase_slot_below:
  fixes cs :: "('k::linorder, 'v) stx_node list"
  assumes raw: "stx_raw kb 0 pk cs" and fam: "stx_family d left right leftparent rightparent cs p"
    and leaf: "cs ! p = SLeaf slots" and slot: "slot < length slots"
  shows "\<exists>r. stx_erase_slot kb (Suc d) left right leftparent rightparent stats pk cs p slots slot = Inr r
    \<and> stx_below kb 0 p cs slot stats r"
proof -
  let ?s = "remove_slot slot slots"
  let ?m = "if slot = length ?s then Some (fst (last ?s)) else None"
  have p: "p < length cs" using fam by (simp add: stx_family_def)
  then have "stx_ok kb True 0 (SLeaf slots)" using raw leaf by (metis nth_mem stx_raw_def)
  then have n: "minleafslots kb \<le> length slots" "length slots \<le> leafslotmax kb" by simp_all
  have len: "length ?s = length slots - 1" using slot by simp
  then have ne: "?s \<noteq> []" using n minslots_ge(1) [of kb] by auto
  have c: "stx_ok kb False 0 (SLeaf ?s)" using ne n len by simp
  have fill: "hmin kb 0 \<le> Suc (stx_slotuse (SLeaf ?s))"
    using n len by (simp add: hmin_def stx_slotuse_def)
  have m: "case ?m of None \<Rightarrow> stx_max (SLeaf ?s) = stx_max (cs ! p) | Some k \<Rightarrow> k = stx_max (SLeaf ?s)"
    using slot by (auto simp: leaf stx_max_def remove_slot_def)
  obtain pk' my where upd: "(pk', my) = (case ?m of None \<Rightarrow> (pk, btree_ok) | Some k \<Rightarrow> stx_parent_key pk p k)"
    by (metis surj_pair)
  have lk: "stx_leaf_lastkey (Suc d) slot ?s pk p = Inr (pk', my)"
    using upd ne by (simp add: stx_leaf_lastkey_def split: if_splits)
  have acc: "\<forall>n l j. stx_accounts n l j stats cs \<longrightarrow> stx_accounts n l j stats (cs[p := SLeaf ?s])"
    using stx_counts_update [OF p, of "SLeaf ?s"] leaf by (simp add: stx_accounts_def stx_counts_def)
  have ent: "stx_entries (SLeaf ?s) = remove_slot slot (stx_entries (cs ! p))" "slot < length (stx_entries (cs ! p))"
    using slot by (simp_all add: leaf)
  have run: "stx_erase_slot kb (Suc d) left right leftparent rightparent stats pk cs p slots slot =
      (if stx_isunderflow kb (SLeaf ?s)
       then bind_res (stx_fix_underflow kb left right leftparent rightparent (Some d) pk' (cs[p := SLeaf ?s]) p)
              (\<lambda>(pk'', cs'', r). Inr (merge_result my r, stats, pk'', cs''))
       else Inr (my, stats, pk', cs[p := SLeaf ?s]))"
    using stx_family_sibling [OF fam] by (auto simp: stx_erase_slot_def Let_def lk stx_parent_def)
  show ?thesis unfolding run by (rule stx_step [OF raw fam c fill ent m upd acc])
qed

lemma stx_counts_inner: "stx_counts [SInner lv ks cs] = (fst (stx_counts cs), Suc (snd (stx_counts cs)))"
  by (simp add: stx_counts_def)

lemma stx_erase_above_below:
  fixes cs :: "('k::linorder, 'v) stx_node list"
  assumes raw: "stx_raw kb (Suc h) pk cs" and fam: "stx_family d left right leftparent rightparent cs p"
    and inner: "cs ! p = SInner level keys children" and below: "stx_below kb h s children i stats r"
    and s: "s < length children" "i < length (stx_entries (children ! s))"
  shows "\<exists>r'. stx_erase_above kb (Suc d) left right leftparent rightparent pk cs p level s r = Inr r'
    \<and> stx_below kb (Suc h) p cs (length (stx_all_entries (take s children)) + i) stats r'"
proof -
  obtain res stats1 ks1 cs1' where r: "r = (res, stats1, ks1, cs1')" by (metis surj_pair)
  obtain cs1 st ks ds where nf: "\<not> res_not_found res"
    and set: "stx_settles kb h s cs1 (res_fixmerge res) stats1 ks1 cs1' st ks ds"
    and cs1: "length cs1 = length children"
      "stx_all_entries cs1 = remove_slot (length (stx_all_entries (take s children)) + i) (stx_all_entries children)"
    and lk: "case res_lastkey res of None \<Rightarrow> stx_max (last cs1) = stx_max (last children)
      | Some k \<Rightarrow> k = stx_max (last cs1)"
    and acc: "\<And>n l j. stx_accounts n l j stats children \<Longrightarrow> stx_accounts n l j stats1 cs1"
    using below unfolding r stx_below_def prod.case by blast
  have drop: "(if res_fixmerge res then stx_drop_child (Suc h) s stats1 ks1 cs1' else Inr (stats1, ks1, cs1'))
      = Inr (st, ks, ds)"
    and raw': "stx_raw kb h ks ds" and ds: "stx_all_entries ds = stx_all_entries cs1"
      "length ds \<le> length cs1" "length cs1 \<le> Suc (length ds)" "stx_max (last ds) = stx_max (last cs1)"
    and acc': "\<And>n l j. stx_accounts n l j stats1 cs1 \<Longrightarrow> stx_accounts n l j st ds"
    using set unfolding stx_settles_def by blast+
  have p: "p < length cs" using fam by (simp add: stx_family_def)
  then have "stx_ok kb True (Suc h) (SInner level keys children)" using raw inner by (metis nth_mem stx_raw_def)
  note I = stx_ok_inner [OF this]
  let ?c = "SInner level ks ds"
  have len: "length children = Suc (length keys)" "length ds = Suc (length ks)"
    using I(2) raw' by (simp_all add: stx_raw_def)
  have n: "mininnerslots kb \<le> Suc (length ks)" "length ks \<le> innerslotmax kb"
    using I(4,5) len ds(2,3) cs1(1) by simp_all
  then have "ks \<noteq> []" using minslots_ge(2) [of kb] by auto
  then have c: "stx_ok kb False (Suc h) ?c" using n raw' unfolding I(1) by (intro stx_raw_ok) auto
  have fill: "hmin kb (Suc h) \<le> Suc (stx_slotuse ?c)" using n by (simp add: hmin_def stx_slotuse_def)
  have mx: "stx_max ?c = stx_max (last cs1)" "stx_max (cs ! p) = stx_max (last children)"
    using stx_raw_max [OF raw'] stx_raw_max [OF I(2)] ds(4) by (simp_all add: inner)
  have m: "case res_lastkey res of None \<Rightarrow> stx_max ?c = stx_max (cs ! p) | Some k \<Rightarrow> k = stx_max ?c"
    using lk by (simp add: mx split: option.splits)
  obtain pk' my where upd: "(pk', my) = (case res_lastkey res of None \<Rightarrow> (pk, btree_ok) | Some k \<Rightarrow> stx_parent_key pk p k)"
    by (metis surj_pair)
  have counts: "\<forall>n l j. stx_accounts n l j stats cs \<longrightarrow> stx_accounts n l j st (cs[p := ?c])"
  proof (intro allI impI)
    fix n l j assume a: "stx_accounts n l j stats cs"
    let ?L = "fst (stx_counts cs) - fst (stx_counts [cs ! p])" and ?J = "snd (stx_counts cs) - snd (stx_counts [cs ! p])"
    have ge: "fst (stx_counts [cs ! p]) \<le> fst (stx_counts cs)" "snd (stx_counts [cs ! p]) \<le> snd (stx_counts cs)"
      using p by (simp_all add: stx_counts_def member_le_sum_list)
    have "stx_accounts n (l + ?L) (Suc (j + ?J)) stats children"
      using a ge by (simp add: stx_accounts_def inner stx_counts_inner)
    then have "stx_accounts n (l + ?L) (Suc (j + ?J)) st ds" by (intro acc acc')
    then show "stx_accounts n l j st (cs[p := ?c])"
      using stx_counts_update [OF p, of ?c] ge by (simp add: stx_accounts_def inner stx_counts_inner) arith
  qed
  have i: "length (stx_all_entries (take s children)) + i < length (stx_entries (cs ! p))"
  proof -
    have "stx_all_entries children = stx_all_entries (take s children) @ stx_entries (children ! s)
        @ stx_all_entries (drop (Suc s) children)"
      using concat_split_nth [of s "map stx_entries children"] s(1) by (simp add: take_map drop_map)
    then show ?thesis using s(2) by (simp add: inner)
  qed
  have ent: "stx_entries ?c = remove_slot (length (stx_all_entries (take s children)) + i) (stx_entries (cs ! p))"
    using ds(1) cs1(2) by (simp add: inner)
  have run: "stx_erase_above kb (Suc d) left right leftparent rightparent pk cs p level s r =
      (if stx_isunderflow kb ?c
       then bind_res (stx_fix_underflow kb left right leftparent rightparent (Some d) pk' (cs[p := ?c]) p)
              (\<lambda>(pk'', cs'', r). Inr (merge_result my r, st, pk'', cs''))
       else Inr (my, st, pk', cs[p := ?c]))"
    using stx_family_sibling [OF fam] drop upd [symmetric]
    by (auto simp: stx_erase_above_def r I(1) Let_def stx_parent_def)
  show ?thesis unfolding run by (rule stx_step [OF raw fam c fill ent i m upd counts])
qed

section \<open>The descent\<close>

text \<open>The key is in a node exactly when it is in the child that the descent chooses.\<close>

lemma stx_child_key:
  fixes key :: "'k::linorder"
  assumes ok: "stx_ok kb strict (Suc h) (SInner level keys children)"
    and s: "sorted_by fst (stx_entries (SInner level keys children))"
  defines "p \<equiv> stx_find_lower keys key"
  defines "n \<equiv> stx_entries (SInner level keys children)" and "c \<equiv> stx_entries (children ! p)"
  shows "key \<in> fst ` set n \<longleftrightarrow> key \<in> fst ` set c"
    and "key \<in> fst ` set c \<Longrightarrow> key_lb fst n key = length (stx_all_entries (take p children)) + key_lb fst c key"
    and "key \<in> fst ` set c \<Longrightarrow> key_lb fst c key < length c"
proof -
  let ?ess = "map stx_entries children"
  note S = stx_inner_slot [OF ok s, where key = key, folded p_def]
  note F = stx_ok_inner_facts [OF ok s]
  have c: "?ess ! p = c" "c \<noteq> []" "sorted_by fst c"
    using S(2,5) stx_ok_nonempty [OF F(7) [OF nth_mem [OF S(2)]]] by (simp_all add: c_def)
  have n: "n = concat ?ess" "sorted_by fst n" using s by (simp_all add: n_def)
  note hit = key_lb_hit_iff [OF n(2), of key] key_lb_hit_iff [OF c(3), of key]
  have below: "i < p \<Longrightarrow> ?ess ! i \<noteq> [] \<and> fst (last (?ess ! i)) < key" for i
    using S(2) S(4) [of i] by (simp add: stx_max_def)
  have lb: "key_lb fst n key = length (stx_all_entries (take p children)) + key_lb fst c key"
    "n ! key_lb fst n key = c ! key_lb fst c key" "key_lb fst n key < length n"
    if le: "key \<le> fst (last c)"
  proof -
    have pl: "p < length ?ess" and ne: "?ess ! p \<noteq> []" and le': "key \<le> fst (last (?ess ! p))"
      using S(2) c le by simp_all
    note K = key_lb_concat [OF n(2) [unfolded n(1)] pl below ne le']
    show "key_lb fst n key = length (stx_all_entries (take p children)) + key_lb fst c key"
      "n ! key_lb fst n key = c ! key_lb fst c key"
      using K(1,3) c(1) by (simp_all add: n(1) take_map)
    have "c \<noteq> []" "length n = length (stx_all_entries (take p children)) + length c
        + length (stx_all_entries (drop (Suc p) children))"
      using c(2) concat_split_nth [OF pl] c(1) by (simp_all add: n(1) take_map drop_map)
    then show "key_lb fst n key < length n" using K(1,2) c(1) by (simp add: n(1) take_map)
  qed
  have clb: "key \<le> fst (last c) \<Longrightarrow> key_lb fst c key < length c" using key_lb_less_iff [OF c(3)] c(2) by simp
  have le: "key \<le> fst (last c)" if "key \<in> fst ` set n"
  proof (cases "p = length keys")
    case True
    have "key \<le> stx_max (SInner level keys children)"
      using that key_lb_less_iff [OF n(2), of key] hit(1) unfolding stx_max_def n_def by blast
    then show ?thesis using S(7) True by (simp add: stx_max_def c_def)
  next
    case False
    then show ?thesis using S(3) by (simp add: stx_max_def c_def)
  qed
  have lec: "key \<le> fst (last c)" if "key \<in> fst ` set c"
    using that key_lb_less_iff [OF c(3), of key] hit(2) by blast
  show "key \<in> fst ` set n \<longleftrightarrow> key \<in> fst ` set c" using hit lb clb le lec by metis
  show "key \<in> fst ` set c \<Longrightarrow> key_lb fst n key = length (stx_all_entries (take p children)) + key_lb fst c key"
    using lb(1) lec by blast
  show "key \<in> fst ` set c \<Longrightarrow> key_lb fst c key < length c" using hit(2) by blast
qed

text \<open>Neighbours of a node of height \<open>h\<close> at some depth: full nodes below nodes further up.\<close>

definition stx_near ::
  "nat \<Rightarrow> nat \<Rightarrow> nat \<Rightarrow> ('k, 'v) stx_node option \<Rightarrow> nat option \<Rightarrow> bool" where
  "stx_near kb h depth n parent \<longleftrightarrow> (\<forall>m. n = Some m \<longrightarrow> stx_ok kb True h m) \<and> (\<forall>x. parent = Some x \<longrightarrow> x < depth)"

lemma stx_child_family:
  assumes ok: "stx_ok kb strict (Suc h) (SInner level keys children)" and slot: "slot < length children"
    and near: "stx_near kb (Suc h) depth left leftparent" "stx_near kb (Suc h) depth right rightparent"
  defines "lp \<equiv> if slot = 0 then leftparent else Some depth"
    and "rp \<equiv> if slot = length keys then rightparent else Some depth"
  shows "\<exists>myleft myright. stx_myleft left children slot = Inr myleft
    \<and> stx_myright right keys children slot = Inr myright
    \<and> stx_family depth myleft myright lp rp children slot
    \<and> stx_near kb h (Suc depth) myleft lp \<and> stx_near kb h (Suc depth) myright rp"
proof -
  note I = stx_ok_inner [OF ok]
  have len: "length children = Suc (length keys)" and cok: "\<And>j. j < length children \<Longrightarrow> stx_ok kb True h (children ! j)"
    using I(2) by (auto simp: stx_raw_def)
  have two: "2 \<le> length children" using I(3) len by (cases keys) auto
  have up: "\<forall>x. leftparent = Some x \<longrightarrow> x < Suc depth" "\<forall>x. rightparent = Some x \<longrightarrow> x < Suc depth"
    using near by (auto simp: stx_near_def)
  obtain myleft where l: "stx_myleft left children slot = Inr myleft" "stx_near kb h (Suc depth) myleft lp"
    "slot \<noteq> 0 \<Longrightarrow> myleft = Some (children ! (slot - 1))"
  proof (cases "slot = 0")
    case True
    show thesis
    proof (cases left)
      case None
      then show thesis using True up(1) that [of None] by (auto simp: stx_myleft_def stx_near_def lp_def)
    next
      case (Some m)
      then obtain lk lc where m: "m = SInner (Suc h) lk lc" "stx_raw kb h lk lc" "lk \<noteq> []"
        using near(1) by (auto simp: stx_near_def elim: stx_ok_SucE)
      then have "length lk - 1 < length lc" "stx_ok kb True h (lc ! (length lk - 1))" by (auto simp: stx_raw_def)
      then show thesis
        using True Some m up(1) that [of "Some (lc ! (length lk - 1))"]
        by (auto simp: stx_myleft_def stx_near_def lp_def at_def)
    qed
  next
    case False
    then show thesis using slot cok [of "slot - 1"] that [of "Some (children ! (slot - 1))"]
      by (auto simp: stx_myleft_def at_def stx_near_def lp_def)
  qed
  obtain myright where r: "stx_myright right keys children slot = Inr myright" "stx_near kb h (Suc depth) myright rp"
    "slot \<noteq> length keys \<Longrightarrow> myright = Some (children ! Suc slot)"
  proof (cases "slot = length keys")
    case True
    show thesis
    proof (cases right)
      case None
      then show thesis using True up(2) that [of None] by (auto simp: stx_myright_def stx_near_def rp_def)
    next
      case (Some m)
      then obtain rk rc where m: "m = SInner (Suc h) rk rc" "stx_raw kb h rk rc"
        using near(2) by (auto simp: stx_near_def elim: stx_ok_SucE)
      then have "0 < length rc" "stx_ok kb True h (rc ! 0)" by (auto simp: stx_raw_def)
      then show thesis
        using True Some m up(2) that [of "Some (rc ! 0)"]
        by (auto simp: stx_myright_def stx_near_def rp_def at_def)
    qed
  next
    case False
    then show thesis using slot len cok [of "Suc slot"] that [of "Some (children ! Suc slot)"]
      by (auto simp: stx_myright_def at_def stx_near_def rp_def)
  qed
  have "stx_family depth myleft myright lp rp children slot"
    using slot two len l(3) r(3) near by (auto simp: stx_family_def lp_def rp_def stx_near_def)
  with l(1,2) r(1,2) show ?thesis by blast
qed

lemma stx_below_found: "stx_below kb h p cs i stats r \<Longrightarrow> \<not> res_not_found (fst r)"
  by (auto simp: stx_below_def)

lemma erase_one_descend_below:
  fixes n :: "('k::linorder, 'v) stx_node"
  assumes "stx_ok kb True h n" and "sorted_by fst (stx_entries n)"
    and "stx_raw kb h pk cs" and "stx_family d left right leftparent rightparent cs p" and "cs ! p = n"
    and "stx_near kb h (Suc d) left leftparent" and "stx_near kb h (Suc d) right rightparent"
  shows "\<exists>r. erase_one_descend kb key (Suc d) left right leftparent rightparent stats pk cs p n = Inr r
    \<and> (if key \<in> fst ` set (stx_entries n) then stx_below kb h p cs (key_lb fst (stx_entries n) key) stats r
       else r = (btree_not_found, stats, pk, cs))"
  using assms
proof (induction n arbitrary: h pk cs d left right leftparent rightparent p)
  case (SLeaf slots)
  then have h: "h = 0" by (cases h) simp_all
  let ?slot = "stx_find_lower (map fst slots) key"
  have slot: "?slot = key_lb fst slots key" by (simp add: stx_find_lower_eq key_lb_map)
  have hit: "?slot \<ge> length slots \<or> key \<noteq> fst (slots ! ?slot) \<longleftrightarrow> key \<notin> fst ` set slots"
    using key_lb_hit_iff [of fst slots key] SLeaf.prems(2) by (auto simp: slot)
  show ?case
  proof (cases "key \<in> fst ` set slots")
    case True
    then have lt: "key_lb fst slots key < length slots" using hit by (auto simp: slot)
    from stx_erase_slot_below [OF SLeaf.prems(3) [unfolded h] SLeaf.prems(4,5) lt, of stats] True hit slot h
    show ?thesis by (simp add: Let_def)
  next
    case False
    then show ?thesis using hit by (simp add: Let_def)
  qed
next
  case (SInner level keys children)
  obtain h' where h: "h = Suc h'" using SInner.prems(1) by (cases h) auto
  note ok = SInner.prems(1) [unfolded h]
  let ?slot = "stx_find_lower keys key"
  note S = stx_inner_slot [OF ok SInner.prems(2), where key = key]
  note F = stx_ok_inner_facts [OF ok SInner.prems(2)]
  note K = stx_child_key [OF ok SInner.prems(2), where key = key]
  have mem: "children ! ?slot \<in> set children" using S(2) by simp
  obtain myleft myright where my: "stx_myleft left children ?slot = Inr myleft"
    "stx_myright right keys children ?slot = Inr myright"
    "stx_family (Suc d) myleft myright (if ?slot = 0 then leftparent else Some (Suc d))
      (if ?slot = length keys then rightparent else Some (Suc d)) children ?slot"
    "stx_near kb h' (Suc (Suc d)) myleft (if ?slot = 0 then leftparent else Some (Suc d))"
    "stx_near kb h' (Suc (Suc d)) myright (if ?slot = length keys then rightparent else Some (Suc d))"
    using stx_child_family [OF ok S(2) SInner.prems(6,7) [unfolded h]] by blast
  obtain r where r: "erase_one_descend kb key (Suc (Suc d)) myleft myright
      (if ?slot = 0 then leftparent else Some (Suc d)) (if ?slot = length keys then rightparent else Some (Suc d))
      stats keys children ?slot (children ! ?slot) = Inr r"
    "if key \<in> fst ` set (stx_entries (children ! ?slot))
     then stx_below kb h' ?slot children (key_lb fst (stx_entries (children ! ?slot)) key) stats r
     else r = (btree_not_found, stats, keys, children)"
    using SInner.IH [OF mem F(7) [OF mem] F(4) [OF mem] stx_ok_inner(2) [OF ok] my(3) refl my(4,5)] by blast
  have run: "erase_one_descend kb key (Suc d) left right leftparent rightparent stats pk cs p (SInner level keys children)
      = (if res_not_found (fst r) then Inr (btree_not_found, stats, pk, cs)
         else stx_erase_above kb (Suc d) left right leftparent rightparent pk cs p level ?slot r)"
    using S(2) my(1,2) r(1) by (simp add: Let_def)
  show ?case
  proof (cases "key \<in> fst ` set (stx_entries (children ! ?slot))")
    case True
    then have below: "stx_below kb h' ?slot children (key_lb fst (stx_entries (children ! ?slot)) key) stats r"
      using r(2) by simp
    from stx_erase_above_below [OF SInner.prems(3) [unfolded h] SInner.prems(4,5) below S(2) K(3) [OF True]]
    show ?thesis
      unfolding run using stx_below_found [OF below] True K(1) K(2) [OF True] h by simp
  next
    case False
    then have "r = (btree_not_found, stats, keys, children)" using r(2) by simp
    then have "res_not_found (fst r)" by (simp add: btree_not_found_def)
    then show ?thesis unfolding run using False K(1) by simp
  qed
qed

section \<open>Deletion in the tree\<close>

lemma stx_accounts_single:
  "stx_accounts (length (stx_entries n)) 0 0 (stx_node_stats n) [n]"
  by (simp add: stx_accounts_def stx_node_stats_def stx_counts_def)

lemma sorted_remove_slot:
  assumes "sorted_by f xs" shows "sorted_by f (remove_slot i xs)"
proof -
  have "sorted_by f (take i xs @ drop i xs)" using assms by simp
  moreover have "drop (i + 1) xs = tl (drop i xs)" by (simp add: drop_Suc tl_drop)
  ultimately show ?thesis
    unfolding remove_slot_def by (cases "drop i xs") (simp_all add: sorted_append del: append_take_drop_id)
qed

text \<open>What a deletion at the root leaves in the cell \<open>m_root\<close>.\<close>

definition stx_root_erased ::
  "nat \<Rightarrow> ('k::linorder, 'v) stx_node \<Rightarrow> nat \<Rightarrow> ('k, 'v) stx_erased \<Rightarrow> bool" where
  "stx_root_erased kb n i r \<longleftrightarrow> (case r of (res, stats, ks, cell) \<Rightarrow> \<not> res_not_found res
     \<and> (case cell of
          [] \<Rightarrow> remove_slot i (stx_entries n) = [] \<and> stats = \<lparr>st_itemcount = 1, st_leaves = 0, st_innernodes = 0\<rparr>
        | n' # ns \<Rightarrow> (\<exists>h. stx_ok kb False h n') \<and> stx_entries n' = remove_slot i (stx_entries n)
            \<and> stx_accounts (length (stx_entries n)) 0 0 stats [n']))"

lemma stx_erase_slot_root:
  fixes slots :: "('k::linorder \<times> 'v) list"
  assumes ok: "stx_ok kb False 0 (SLeaf slots)" and slot: "slot < length slots"
  shows "\<exists>r. stx_erase_slot kb 0 None None None None (stx_node_stats (SLeaf slots)) [] [SLeaf slots] 0 slots slot
      = Inr r \<and> stx_root_erased kb (SLeaf slots) slot r"
proof (cases "remove_slot slot slots = []")
  case True
  then have "length slots = 1" using slot length_remove_slot [OF slot] by simp
  then show ?thesis
    using True minslots_ge(1) [of kb] slot
    by (simp add: stx_erase_slot_def stx_leaf_lastkey_def assertion_def stx_isunderflow_def stx_slotuse_def
        stx_minslots_def stx_free_node_def stx_node_stats_def stx_root_erased_def btree_ok_def)
next
  case False
  moreover have "length (remove_slot slot slots) \<le> leafslotmax kb" using ok slot by auto
  moreover have "stx_accounts (length slots) 0 0 (stx_node_stats (SLeaf slots)) [SLeaf (remove_slot slot slots)]"
    by (simp add: stx_accounts_def stx_node_stats_def stx_counts_def)
  moreover have "stx_ok kb False 0 (SLeaf (remove_slot slot slots))" using False ok slot by auto
  ultimately show ?thesis
    by (auto simp: stx_erase_slot_def stx_leaf_lastkey_def stx_parent_key_def Let_def
        stx_root_erased_def btree_ok_def btree_update_lastkey_def intro!: exI [of _ 0])
qed

lemma stx_erase_above_root:
  fixes children :: "('k::linorder, 'v) stx_node list"
  assumes ok: "stx_ok kb False (Suc h) (SInner level keys children)"
    and below: "stx_below kb h s children i (stx_node_stats (SInner level keys children)) r"
    and s: "s < length children" "i < length (stx_entries (children ! s))"
  shows "\<exists>r'. stx_erase_above kb 0 None None None None [] [SInner level keys children] 0 level s r = Inr r'
    \<and> stx_root_erased kb (SInner level keys children) (length (stx_all_entries (take s children)) + i) r'"
proof -
  let ?n = "SInner level keys children" and ?i = "length (stx_all_entries (take s children)) + i"
  obtain res stats1 ks1 cs1' where r: "r = (res, stats1, ks1, cs1')" by (metis surj_pair)
  obtain cs1 st ks ds where nf: "\<not> res_not_found res"
    and set: "stx_settles kb h s cs1 (res_fixmerge res) stats1 ks1 cs1' st ks ds"
    and cs1: "length cs1 = length children" "stx_all_entries cs1 = remove_slot ?i (stx_all_entries children)"
    and acc: "\<And>n l j. stx_accounts n l j (stx_node_stats ?n) children \<Longrightarrow> stx_accounts n l j stats1 cs1"
    using below unfolding r stx_below_def prod.case by blast
  note I = stx_ok_inner [OF ok]
  have drop: "(if res_fixmerge res then stx_drop_child level s stats1 ks1 cs1' else Inr (stats1, ks1, cs1'))
      = Inr (st, ks, ds)"
    and raw: "stx_raw kb h ks ds" and ds: "stx_all_entries ds = stx_all_entries cs1" "length ds \<le> length cs1"
    and acc': "\<And>n l j. stx_accounts n l j stats1 cs1 \<Longrightarrow> stx_accounts n l j st ds"
    using set I(1) unfolding stx_settles_def by blast+
  have len: "length children = Suc (length keys)" "length ds = Suc (length ks)"
    using I(2) raw by (simp_all add: stx_raw_def)
  let ?N = "length (stx_entries ?n)"
  have "stx_accounts ?N 0 1 (stx_node_stats ?n) children"
    by (simp add: stx_accounts_def stx_node_stats_def stx_counts_def)
  then have st: "stx_accounts ?N 0 1 st ds" by (intro acc acc')
  have under: "stx_isunderflow kb (SInner level [] ds)"
    using minslots_ge(2) [of kb] by (simp add: stx_isunderflow_def stx_slotuse_def stx_minslots_def)
  obtain lk where lk: "(case res_lastkey res of None \<Rightarrow> ([], btree_ok) | Some k \<Rightarrow> stx_parent_key [] 0 k) = ([], lk)"
    "\<not> res_not_found lk"
    by (cases "res_lastkey res") (simp_all add: stx_parent_key_def btree_ok_def btree_update_lastkey_def)
  show ?thesis
  proof (cases "ks = []")
    case True
    then obtain x where x: "ds = [x]" using len(2) by (cases ds) auto
    have "stx_ok kb False h x" using raw x stx_ok_weaken by (auto simp: stx_raw_def)
    then have "stx_root_erased kb ?n ?i (btree_ok, stx_free_node (SInner level [] ds) st, [], [x])"
      using st ds(1) cs1(2) by (auto simp: stx_root_erased_def x btree_ok_def stx_free_node_def stx_accounts_def)
    then show ?thesis
      using True under lk drop unfolding stx_erase_above_def r
      by (simp add: assertion_def at_def x)
  next
    case False
    have "length ks \<le> innerslotmax kb" using len ds(2) cs1(1) I(4) by simp
    then have "stx_ok kb False (Suc h) (SInner level ks ds)" using False raw unfolding I(1) by (intro stx_raw_ok) auto
    moreover have "stx_accounts ?N 0 0 st [SInner level ks ds]"
      using st by (simp add: stx_accounts_def stx_counts_inner)
    ultimately have "stx_root_erased kb ?n ?i (lk, st, [], [SInner level ks ds])"
      using ds(1) cs1(2) lk(2) by (auto simp: stx_root_erased_def)
    then show ?thesis
      using False lk drop unfolding stx_erase_above_def r by simp
  qed
qed

text \<open>The tree with the cell that a deletion at the root has left.\<close>

definition stx_with_cell :: "stx_stats \<Rightarrow> ('k, 'v) stx_node list \<Rightarrow> ('k, 'v) stx_tree" where
  "stx_with_cell stats cell = \<lparr>stx_root = (if cell = [] then None else Some (hd cell)),
     stx_m_stats = stats\<lparr>st_itemcount := st_itemcount stats - 1\<rparr>\<rparr>"

lemma stx_root_erased_valid:
  assumes "stx_root_erased kb n i (res, stats, ks, cell)" and "sorted_by fst (stx_entries n)"
    and "i < length (stx_entries n)"
  shows "stx_valid kb (stx_with_cell stats cell)" and "\<not> res_not_found res"
    and "stx_contents (stx_with_cell stats cell) = remove_slot i (stx_entries n)"
  using assms sorted_remove_slot [OF assms(2), of i]
  by (auto simp: stx_root_erased_def stx_with_cell_def stx_valid_def stx_contents_def stx_accounts_def
      stx_node_stats_def stx_counts_def split: list.splits)

text \<open>A deletion removes the first entry with the key, if there is one.\<close>

lemma erase_one_right:
  fixes key :: "'k::linorder"
  assumes valid: "stx_valid kb t"
  shows "\<exists>t'. erase_one kb t key = Inr (key \<in> fst ` set (stx_contents t), t') \<and> stx_valid kb t'
    \<and> stx_contents t' = (if key \<in> fst ` set (stx_contents t)
        then remove_slot (key_lb fst (stx_contents t) key) (stx_contents t) else stx_contents t)"
proof (cases "stx_root t")
  case None
  then show ?thesis using valid by (simp add: erase_one_def stx_contents_def)
next
  case (Some n)
  then obtain h where ok: "stx_ok kb False h n" and s: "sorted_by fst (stx_entries n)"
    and stats: "stx_m_stats t = stx_node_stats n"
    using valid by (auto simp: stx_valid_def)
  have con: "stx_contents t = stx_entries n" using Some by (simp add: stx_contents_def)
  let ?i = "key_lb fst (stx_entries n) key"
  have "\<exists>r. erase_one_descend kb key 0 None None None None (stx_node_stats n) [] [n] 0 n = Inr r
      \<and> (if key \<in> fst ` set (stx_entries n) then stx_root_erased kb n ?i r else res_not_found (fst r))"
  proof (cases h)
    case 0
    then obtain slots where n: "n = SLeaf slots" using ok by (auto elim: stx_ok_0E)
    let ?slot = "stx_find_lower (map fst slots) key"
    have slot: "?slot = key_lb fst slots key" by (simp add: stx_find_lower_eq key_lb_map)
    have hit: "?slot \<ge> length slots \<or> key \<noteq> fst (slots ! ?slot) \<longleftrightarrow> key \<notin> fst ` set slots"
      using key_lb_hit_iff [of fst slots key] s by (auto simp: slot n)
    show ?thesis
    proof (cases "key \<in> fst ` set slots")
      case True
      then have "key_lb fst slots key < length slots" using hit by (auto simp: slot)
      from stx_erase_slot_root [OF ok [unfolded n 0] this] True hit slot show ?thesis by (simp add: n Let_def)
    next
      case False
      then show ?thesis using hit by (simp add: n Let_def btree_not_found_def)
    qed
  next
    case (Suc h')
    then obtain level keys children where n: "n = SInner level keys children" using ok by (auto elim: stx_ok_SucE)
    note ok = ok [unfolded n Suc] and s = s [unfolded n]
    let ?slot = "stx_find_lower keys key"
    note S = stx_inner_slot [OF ok s, where key = key]
    note F = stx_ok_inner_facts [OF ok s]
    note K = stx_child_key [OF ok s, where key = key]
    have mem: "children ! ?slot \<in> set children" using S(2) by simp
    have near: "stx_near kb (Suc h') 0 None None" by (simp add: stx_near_def)
    let ?lp = "if ?slot = 0 then None else Some 0" and ?rp = "if ?slot = length keys then None else Some 0"
    obtain myleft myright where my: "stx_myleft None children ?slot = Inr myleft"
      "stx_myright None keys children ?slot = Inr myright"
      "stx_family 0 myleft myright ?lp ?rp children ?slot"
      "stx_near kb h' (Suc 0) myleft ?lp" "stx_near kb h' (Suc 0) myright ?rp"
      using stx_child_family [OF ok S(2) near near] by blast
    obtain r where r: "erase_one_descend kb key (Suc 0) myleft myright ?lp ?rp
        (stx_node_stats n) keys children ?slot (children ! ?slot) = Inr r"
      "if key \<in> fst ` set (stx_entries (children ! ?slot))
       then stx_below kb h' ?slot children (key_lb fst (stx_entries (children ! ?slot)) key) (stx_node_stats n) r
       else r = (btree_not_found, stx_node_stats n, keys, children)"
      using erase_one_descend_below [OF F(7) [OF mem] F(4) [OF mem] stx_ok_inner(2) [OF ok] my(3) refl my(4,5)]
      by blast
    have run: "erase_one_descend kb key 0 None None None None (stx_node_stats n) [] [n] 0 n
        = (if res_not_found (fst r) then Inr (btree_not_found, stx_node_stats n, [], [n])
           else stx_erase_above kb 0 None None None None [] [n] 0 level ?slot r)"
      using S(2) my(1,2) r(1) by (simp add: n Let_def)
    show ?thesis
    proof (cases "key \<in> fst ` set (stx_entries (children ! ?slot))")
      case True
      then have below: "stx_below kb h' ?slot children (key_lb fst (stx_entries (children ! ?slot)) key)
          (stx_node_stats (SInner level keys children)) r" using r(2) by (simp add: n)
      from stx_erase_above_root [OF ok below S(2) K(3) [OF True]] show ?thesis
        unfolding run using stx_below_found [OF below] True K(1) K(2) [OF True] by (simp add: n)
    next
      case False
      then have "r = (btree_not_found, stx_node_stats n, keys, children)" using r(2) by simp
      then have "res_not_found (fst r)" by (simp add: btree_not_found_def)
      then show ?thesis unfolding run using False K(1) by (simp add: n btree_not_found_def)
    qed
  qed
  then obtain r0 where r0: "erase_one_descend kb key 0 None None None None (stx_node_stats n) [] [n] 0 n = Inr r0"
    "if key \<in> fst ` set (stx_entries n) then stx_root_erased kb n ?i r0 else res_not_found (fst r0)" by blast
  obtain res st ks cell where "r0 = (res, st, ks, cell)" by (metis surj_pair)
  with r0 have
    run: "erase_one_descend kb key 0 None None None None (stx_node_stats n) [] [n] 0 n = Inr (res, st, ks, cell)"
    and r: "if key \<in> fst ` set (stx_entries n) then stx_root_erased kb n ?i (res, st, ks, cell) else res_not_found res"
    by (simp_all only: fst_conv)
  show ?thesis
  proof (cases "key \<in> fst ` set (stx_entries n)")
    case True
    then have i: "?i < length (stx_entries n)" using key_lb_hit_iff [OF s, of key] by blast
    from stx_root_erased_valid [OF _ s i, of kb res st ks cell] r True show ?thesis
      by (auto simp: erase_one_def Some run stats con stx_with_cell_def)
  next
    case False
    then show ?thesis using r valid by (auto simp: erase_one_def Some run stats con)
  qed
qed

text \<open>The first entry with a key, and what is left without it.\<close>

lemma remove_slot_first:
  fixes key :: "'k::linorder"
  assumes s: "sorted_by fst xs" and key: "key \<in> fst ` set xs"
  shows "\<exists>as v bs. xs = as @ (key, v) # bs \<and> key \<notin> fst ` set as \<and> remove_slot (key_lb fst xs key) xs = as @ bs"
proof -
  let ?i = "key_lb fst xs key"
  have i: "?i < length xs" "fst (xs ! ?i) = key" using key key_lb_hit_iff [OF s, of key] by blast+
  have "xs = take ?i xs @ (key, snd (xs ! ?i)) # drop (Suc ?i) xs"
    using i by (metis id_take_nth_drop prod.collapse)
  moreover have "key \<notin> fst ` set (take ?i xs)"
  proof
    assume "key \<in> fst ` set (take ?i xs)"
    then obtain j where "j < ?i" "fst (xs ! j) = key" using i(1) by (auto simp: in_set_conv_nth)
    with less_key_lb_iff [OF s, of j key] i(1) show False by simp
  qed
  ultimately show ?thesis unfolding remove_slot_def by (metis Suc_eq_plus1)
qed

lemma stx_erase_all:
  fixes key :: "'k::linorder"
  assumes "stx_valid kb t"
  shows "\<exists>t'. stx_erase kb True key t c = Some (Inr (c + length (filter (\<lambda>e. fst e = key) (stx_contents t)), t'))
    \<and> stx_valid kb t' \<and> stx_contents t' = filter (\<lambda>e. fst e \<noteq> key) (stx_contents t)"
  using assms
proof (induction "length (filter (\<lambda>e. fst e = key) (stx_contents t))" arbitrary: t c rule: less_induct)
  case less
  let ?xs = "stx_contents t"
  obtain t' where t': "erase_one kb t key = Inr (key \<in> fst ` set ?xs, t')" "stx_valid kb t'"
    "stx_contents t' = (if key \<in> fst ` set ?xs then remove_slot (key_lb fst ?xs key) ?xs else ?xs)"
    using erase_one_right [OF less.prems, of key] by blast
  show ?case
  proof (cases "key \<in> fst ` set ?xs")
    case True
    obtain as v bs where xs: "?xs = as @ (key, v) # bs" "key \<notin> fst ` set as" "stx_contents t' = as @ bs"
      using remove_slot_first [OF stx_valid_sorted [OF less.prems] True] t'(3) True by auto
    from less.hyps [OF _ t'(2), of "c + 1"] show ?thesis
      using t'(1) True by (subst stx_erase.simps) (simp add: xs)
  next
    case False
    then have "filter (\<lambda>e. fst e = key) ?xs = []" "filter (\<lambda>e. fst e \<noteq> key) ?xs = ?xs"
      by (auto simp: filter_empty_conv intro!: filter_True)
    then show ?thesis using t' False by (subst stx_erase.simps) simp
  qed
qed

section \<open>Deletion by iterator\<close>

lemma concat_concat_map: "concat (concat xss) = concat (map concat xss)"
  by (induction xss) simp_all

lemma concat_stx_leaves: "concat (stx_leaves n) = stx_entries n"
  by (induction n) (simp_all add: concat_concat_map o_def cong: map_cong)

text \<open>The leaf in position \<open>l\<close> below an inner node is one of a child.\<close>

abbreviation stx_leaves_before :: "('k, 'v) stx_node list \<Rightarrow> nat \<Rightarrow> nat" where
  "stx_leaves_before cs j \<equiv> length (concat (map stx_leaves (take j cs)))"

lemma concat_index:
  assumes "l < length (concat xss)"
  obtains j l' where "j < length xss" "l' < length (xss ! j)" "l = length (concat (take j xss)) + l'"
    "concat xss ! l = xss ! j ! l'" "take l (concat xss) = concat (take j xss) @ take l' (xss ! j)"
  using assms
proof (induction xss arbitrary: l thesis)
  case (Cons xs xss)
  show ?case
  proof (cases "l < length xs")
    case True
    then show ?thesis using Cons.prems(1) [of 0 l] by (simp add: nth_append)
  next
    case False
    then have "l - length xs < length (concat xss)" using Cons.prems(2) by simp
    from Cons.IH [OF _ this] obtain j l' where "j < length xss" "l' < length (xss ! j)"
      "l - length xs = length (concat (take j xss)) + l'" "concat xss ! (l - length xs) = xss ! j ! l'"
      "take (l - length xs) (concat xss) = concat (take j xss) @ take l' (xss ! j)" by blast
    with False show ?thesis using Cons.prems(1) [of "Suc j" l'] by (simp add: nth_append)
  qed
qed simp

lemma stx_leaves_before_mono:
  assumes "i < j" and "j \<le> length cs"
  shows "stx_leaves_before cs i + length (stx_leaves (cs ! i)) \<le> stx_leaves_before cs j"
proof -
  have "stx_leaves_before cs i + length (stx_leaves (cs ! i)) = stx_leaves_before cs (Suc i)"
    using assms by (simp add: take_Suc_conv_app_nth)
  moreover have "take j cs = take (Suc i) cs @ take (j - Suc i) (drop (Suc i) cs)"
    using assms take_add [of "Suc i" "j - Suc i" cs] by simp
  ultimately show ?thesis by simp
qed

text \<open>
  What the search below a child returns: nothing when the leaf is not below it, the deletion when
  the leaf has the entry of the iterator.
\<close>

definition stx_iter_search ::
  "nat \<Rightarrow> nat \<Rightarrow> nat \<Rightarrow> ('k::linorder, 'v) stx_node list \<Rightarrow> stx_stats \<Rightarrow> stx_iter \<Rightarrow> 'k \<Rightarrow> nat \<Rightarrow>
   ('k, 'v) stx_erased res \<Rightarrow> bool" where
  "stx_iter_search kb h p cs stats iter k first x \<longleftrightarrow> (let leaves = stx_leaves (cs ! p) in
     (fst iter < first \<or> first + length leaves \<le> fst iter \<longrightarrow> (\<exists>r. x = Inr r \<and> res_not_found (fst r)))
     \<and> (\<forall>l. l < length leaves \<and> fst iter = first + l \<and> snd iter < length (leaves ! l)
          \<and> fst (leaves ! l ! snd iter) = k \<longrightarrow>
        (\<exists>r. x = Inr r \<and> stx_below kb h p cs (length (concat (take l leaves)) + snd iter) stats r)))"

text \<open>The loop over the children, when the search below each child is right.\<close>

lemma erase_iter_slots_right:
  fixes children :: "('k::linorder, 'v) stx_node list"
  assumes ok: "stx_ok kb strict (Suc h) (SInner level keys children)"
    and near: "stx_near kb (Suc h) depth left leftparent" "stx_near kb (Suc h) depth right rightparent"
    and below: "\<forall>j myleft myright lp rp. j < length children
        \<and> stx_family depth myleft myright lp rp children j
        \<and> stx_near kb h (Suc depth) myleft lp \<and> stx_near kb h (Suc depth) myright rp \<longrightarrow>
      stx_iter_search kb h j children stats iter k (first + stx_leaves_before children j)
        (erase_iter_descend kb iter (Inr k) (first + stx_leaves_before children j) (Suc depth) myleft myright
           lp rp stats keys children j (children ! j))"
  defines "loop \<equiv> erase_iter_slots kb iter (Inr k) k first depth left right leftparent rightparent stats keys children"
  shows "(\<forall>j. slot \<le> j \<and> j < length children \<longrightarrow> fst iter < first + stx_leaves_before children j
        \<or> first + stx_leaves_before children j + length (stx_leaves (children ! j)) \<le> fst iter)
      \<Longrightarrow> loop slot = Inr None"
    and "slot \<le> j \<Longrightarrow> j < length children \<Longrightarrow> l < length (stx_leaves (children ! j)) \<Longrightarrow>
      fst iter = first + stx_leaves_before children j + l \<Longrightarrow> snd iter < length (stx_leaves (children ! j) ! l) \<Longrightarrow>
      fst (stx_leaves (children ! j) ! l ! snd iter) = k \<Longrightarrow>
      (\<forall>i. slot \<le> i \<and> i < length keys \<longrightarrow> k \<le> keys ! i) \<Longrightarrow>
      \<exists>r. loop slot = Inr (Some (j, r))
        \<and> stx_below kb h j children (length (concat (take l (stx_leaves (children ! j)))) + snd iter) stats r"
proof -
  have len: "length children = Suc (length keys)" using stx_ok_inner(2) [OF ok] by (simp add: stx_raw_def)
  have step: "\<exists>x. stx_iter_search kb h s children stats iter k (first + stx_leaves_before children s) x
      \<and> loop s = bind_res x (\<lambda>b. if \<not> res_not_found (fst b) then Inr (Some (s, b))
          else if s < length keys \<and> keys ! s < k then Inr None else loop (s + 1))"
    if s: "s < length children" for s
  proof -
    from stx_child_family [OF ok s near] obtain myleft myright where my:
      "stx_myleft left children s = Inr myleft" "stx_myright right keys children s = Inr myright"
      "stx_family depth myleft myright (if s = 0 then leftparent else Some depth)
         (if s = length keys then rightparent else Some depth) children s"
      "stx_near kb h (Suc depth) myleft (if s = 0 then leftparent else Some depth)"
      "stx_near kb h (Suc depth) myright (if s = length keys then rightparent else Some depth)" by blast
    from below [rule_format, OF conjI [OF s conjI [OF my(3) conjI [OF my(4,5)]]]] show ?thesis
      unfolding loop_def using s my(1,2) len by (intro exI conjI) (assumption, subst erase_iter_slots.simps, simp)
  qed
  have "loop (length children) = Inr None" unfolding loop_def by (simp add: len)
  show "loop slot = Inr None"
    if "\<forall>j. slot \<le> j \<and> j < length children \<longrightarrow> fst iter < first + stx_leaves_before children j
        \<or> first + stx_leaves_before children j + length (stx_leaves (children ! j)) \<le> fst iter"
    using that
  proof (induction "length children - slot" arbitrary: slot)
    case 0
    then show ?case unfolding loop_def using len by simp
  next
    case (Suc m)
    then have s: "slot < length children" by simp
    have "loop (Suc slot) = Inr None" using Suc.hyps(2) Suc.prems by (intro Suc.hyps(1)) auto
    moreover obtain x where "stx_iter_search kb h slot children stats iter k (first + stx_leaves_before children slot) x"
      "loop slot = bind_res x (\<lambda>b. if \<not> res_not_found (fst b) then Inr (Some (slot, b))
          else if slot < length keys \<and> keys ! slot < k then Inr None else loop (slot + 1))"
      using step [OF s] by blast
    ultimately show ?case using Suc.prems s by (auto simp: stx_iter_search_def Let_def)
  qed
  show "\<exists>r. loop slot = Inr (Some (j, r))
      \<and> stx_below kb h j children (length (concat (take l (stx_leaves (children ! j)))) + snd iter) stats r"
    if j: "slot \<le> j" "j < length children" and l: "l < length (stx_leaves (children ! j))"
      "fst iter = first + stx_leaves_before children j + l" "snd iter < length (stx_leaves (children ! j) ! l)"
      "fst (stx_leaves (children ! j) ! l ! snd iter) = k"
      and keys: "\<forall>i. slot \<le> i \<and> i < length keys \<longrightarrow> k \<le> keys ! i"
    using j(1) keys
  proof (induction "j - slot" arbitrary: slot)
    case 0
    then have "slot = j" by simp
    moreover obtain x where "stx_iter_search kb h j children stats iter k (first + stx_leaves_before children j) x"
      "loop j = bind_res x (\<lambda>b. if \<not> res_not_found (fst b) then Inr (Some (j, b))
          else if j < length keys \<and> keys ! j < k then Inr None else loop (j + 1))"
      using step [OF j(2)] by blast
    ultimately show ?case using l stx_below_found by (fastforce simp: stx_iter_search_def Let_def)
  next
    case (Suc m)
    then have s: "slot < j" by simp
    obtain x where x: "stx_iter_search kb h slot children stats iter k (first + stx_leaves_before children slot) x"
      "loop slot = bind_res x (\<lambda>b. if \<not> res_not_found (fst b) then Inr (Some (slot, b))
          else if slot < length keys \<and> keys ! slot < k then Inr None else loop (slot + 1))"
      using step [of slot] s j(2) by auto
    have "first + stx_leaves_before children slot + length (stx_leaves (children ! slot)) \<le> fst iter"
      using stx_leaves_before_mono [OF s, of children] j(2) l(2) by simp
    then obtain r where "x = Inr r" "res_not_found (fst r)" using x(1) by (auto simp: stx_iter_search_def Let_def)
    moreover have "\<not> (slot < length keys \<and> keys ! slot < k)" using Suc.prems(2) by (auto simp: not_less)
    ultimately have "loop slot = loop (Suc slot)" using x(2) by auto
    then show ?case using Suc.hyps(1) [of "Suc slot"] Suc.hyps(2) Suc.prems(2) s by simp
  qed
qed

text \<open>The leaf of the iterator below an inner node: where it is, and the keys from there on.\<close>

lemma stx_iter_child:
  fixes k :: "'k::linorder"
  assumes ok: "stx_ok kb strict (Suc h) (SInner level keys children)"
    and s: "sorted_by fst (stx_entries (SInner level keys children))"
    and l: "l < length (stx_leaves (SInner level keys children))"
      "i < length (stx_leaves (SInner level keys children) ! l)"
      "fst (stx_leaves (SInner level keys children) ! l ! i) = k"
  obtains j l' where "stx_find_lower keys k \<le> j" "j < length children" "l' < length (stx_leaves (children ! j))"
    "l = stx_leaves_before children j + l'" "i < length (stx_leaves (children ! j) ! l')"
    "fst (stx_leaves (children ! j) ! l' ! i) = k"
    "\<forall>i. stx_find_lower keys k \<le> i \<and> i < length keys \<longrightarrow> k \<le> keys ! i"
    "length (concat (take l (stx_leaves (SInner level keys children)))) + i
      = length (stx_all_entries (take j children)) + (length (concat (take l' (stx_leaves (children ! j)))) + i)"
    "length (concat (take l' (stx_leaves (children ! j)))) + i < length (stx_entries (children ! j))"
proof -
  let ?p = "stx_find_lower keys k"
  note S = stx_inner_slot [OF ok s, where key = k]
  note F = stx_ok_inner_facts [OF ok s]
  have "l < length (concat (map stx_leaves children))" using l(1) by simp
  from concat_index [OF this] obtain j l' where
    j0: "j < length (map stx_leaves children)" "l' < length (map stx_leaves children ! j)"
    "l = length (concat (take j (map stx_leaves children))) + l'"
    "concat (map stx_leaves children) ! l = map stx_leaves children ! j ! l'"
    "take l (concat (map stx_leaves children)) = concat (take j (map stx_leaves children)) @ take l' (map stx_leaves children ! j)"
    by blast
  then have j: "j < length children" "l' < length (stx_leaves (children ! j))" "l = stx_leaves_before children j + l'"
    "stx_leaves (SInner level keys children) ! l = stx_leaves (children ! j) ! l'"
    "take l (stx_leaves (SInner level keys children))
      = concat (map stx_leaves (take j children)) @ take l' (stx_leaves (children ! j))"
    by (simp_all add: take_map)
  let ?leaf = "stx_leaves (children ! j) ! l'"
  have leaf: "i < length ?leaf" "fst (?leaf ! i) = k" using l(2,3) j(4) by simp_all
  have split: "stx_entries (children ! j) = concat (take l' (stx_leaves (children ! j))) @ ?leaf
      @ concat (drop (Suc l') (stx_leaves (children ! j)))"
    using concat_split_nth [OF j(2)] by (simp add: concat_stx_leaves)
  have in_child: "length (concat (take l' (stx_leaves (children ! j)))) + i < length (stx_entries (children ! j))"
    using leaf(1) by (simp add: split)
  have mem: "?leaf ! i \<in> set (stx_entries (children ! j))" using leaf(1) by (simp add: split)
  have "k \<le> stx_max (children ! j)"
    unfolding stx_max_def leaf(2) [symmetric]
    using F(4) [OF nth_mem [OF j(1)]] mem by (rule sorted_hd_last(2))
  then have "\<not> j < ?p" using S(4) [of j] by auto
  moreover have "\<forall>i. ?p \<le> i \<and> i < length keys \<longrightarrow> k \<le> keys ! i"
  proof (intro allI impI)
    fix i assume "?p \<le> i \<and> i < length keys"
    then have "\<not> keys ! i < k"
      using less_key_lb_iff [of "\<lambda>x. x" keys i k] F(1) by (auto simp: stx_find_lower_eq)
    then show "k \<le> keys ! i" by simp
  qed
  moreover have "length (concat (take l (stx_leaves (SInner level keys children)))) + i
      = length (stx_all_entries (take j children)) + (length (concat (take l' (stx_leaves (children ! j)))) + i)"
    unfolding j(5) by (simp add: concat_concat_map o_def concat_stx_leaves)
  ultimately show thesis using that [of j l'] j(1-3) leaf in_child by simp
qed

lemma erase_iter_descend_right:
  fixes n :: "('k::linorder, 'v) stx_node"
  assumes "stx_ok kb True h n" and "sorted_by fst (stx_entries n)"
    and "stx_raw kb h pk cs" and "stx_family d left right leftparent rightparent cs p" and "cs ! p = n"
    and "stx_near kb h (Suc d) left leftparent" and "stx_near kb h (Suc d) right rightparent"
  shows "stx_iter_search kb h p cs stats iter k first
    (erase_iter_descend kb iter (Inr k) first (Suc d) left right leftparent rightparent stats pk cs p n)"
  using assms
proof (induction n arbitrary: h pk cs d left right leftparent rightparent p first)
  case (SLeaf slots)
  then have h: "h = 0" by (cases h) simp_all
  show ?case
    unfolding stx_iter_search_def Let_def SLeaf.prems(5)
  proof (intro conjI allI impI)
    fix l assume l: "l < length (stx_leaves (SLeaf slots)) \<and> fst iter = first + l
      \<and> snd iter < length (stx_leaves (SLeaf slots) ! l) \<and> fst (stx_leaves (SLeaf slots) ! l ! snd iter) = k"
    then have i: "snd iter < length slots" "l = 0" "fst iter = first" by auto
    from stx_erase_slot_below [OF SLeaf.prems(3) [unfolded h] SLeaf.prems(4,5) i(1), of stats] i h
    show "\<exists>r. erase_iter_descend kb iter (Inr k) first (Suc d) left right leftparent rightparent stats pk cs p (SLeaf slots)
        = Inr r \<and> stx_below kb h p cs (length (concat (take l (stx_leaves (SLeaf slots)))) + snd iter) stats r"
      by simp
  qed (auto simp: btree_not_found_def)
next
  case (SInner level keys children)
  obtain h' where h: "h = Suc h'" using SInner.prems(1) by (cases h) auto
  note ok = SInner.prems(1) [unfolded h]
  note near = SInner.prems(6,7) [unfolded h]
  note F = stx_ok_inner_facts [OF ok SInner.prems(2)]
  have IH: "\<forall>j myleft myright lp rp. j < length children \<and> stx_family (Suc d) myleft myright lp rp children j
      \<and> stx_near kb h' (Suc (Suc d)) myleft lp \<and> stx_near kb h' (Suc (Suc d)) myright rp \<longrightarrow>
      stx_iter_search kb h' j children stats iter k (first + stx_leaves_before children j)
        (erase_iter_descend kb iter (Inr k) (first + stx_leaves_before children j) (Suc (Suc d)) myleft myright
           lp rp stats keys children j (children ! j))"
    using SInner.IH [OF nth_mem F(7) [OF nth_mem] F(4) [OF nth_mem] stx_ok_inner(2) [OF ok] _ refl] by blast
  note loop = erase_iter_slots_right [OF ok near IH]
  let ?slot = "stx_find_lower keys k"
  show ?case
    unfolding stx_iter_search_def Let_def SInner.prems(5)
  proof (intro conjI allI impI)
    assume out: "fst iter < first \<or> first + length (stx_leaves (SInner level keys children)) \<le> fst iter"
    have "fst iter < first + stx_leaves_before children j
        \<or> first + stx_leaves_before children j + length (stx_leaves (children ! j)) \<le> fst iter"
      if "j < length children" for j
    proof -
      have "stx_leaves_before children j + length (stx_leaves (children ! j)) \<le> length (stx_leaves (SInner level keys children))"
        using stx_leaves_before_mono [of j "length children" children] that by simp
      with out show ?thesis by linarith
    qed
    then have "erase_iter_slots kb iter (Inr k) k first (Suc d) left right leftparent rightparent stats keys children ?slot = Inr None"
      by (intro loop(1)) blast
    then show "\<exists>r. erase_iter_descend kb iter (Inr k) first (Suc d) left right leftparent rightparent stats pk cs p
        (SInner level keys children) = Inr r \<and> res_not_found (fst r)"
      by (simp add: btree_not_found_def)
  next
    fix l assume l: "l < length (stx_leaves (SInner level keys children)) \<and> fst iter = first + l
      \<and> snd iter < length (stx_leaves (SInner level keys children) ! l)
      \<and> fst (stx_leaves (SInner level keys children) ! l ! snd iter) = k"
    then obtain j l' where j: "?slot \<le> j" "j < length children" "l' < length (stx_leaves (children ! j))"
      "l = stx_leaves_before children j + l'" "snd iter < length (stx_leaves (children ! j) ! l')"
      "fst (stx_leaves (children ! j) ! l' ! snd iter) = k"
      "\<forall>i. ?slot \<le> i \<and> i < length keys \<longrightarrow> k \<le> keys ! i"
      "length (concat (take l (stx_leaves (SInner level keys children)))) + snd iter
        = length (stx_all_entries (take j children)) + (length (concat (take l' (stx_leaves (children ! j)))) + snd iter)"
      "length (concat (take l' (stx_leaves (children ! j)))) + snd iter < length (stx_entries (children ! j))"
      using stx_iter_child [OF ok SInner.prems(2)] by metis
    have "fst iter = first + stx_leaves_before children j + l'" using l j(4) by simp
    from loop(2) [OF j(1,2,3) this j(5,6,7)] obtain r where
      r: "erase_iter_slots kb iter (Inr k) k first (Suc d) left right leftparent rightparent stats keys children ?slot = Inr (Some (j, r))"
      "stx_below kb h' j children (length (concat (take l' (stx_leaves (children ! j)))) + snd iter) stats r" by blast
    from stx_erase_above_below [OF SInner.prems(3) [unfolded h] SInner.prems(4,5) r(2) j(2,9)] r(1)
    show "\<exists>r. erase_iter_descend kb iter (Inr k) first (Suc d) left right leftparent rightparent stats pk cs p
        (SInner level keys children) = Inr r
        \<and> stx_below kb h p cs (length (concat (take l (stx_leaves (SInner level keys children)))) + snd iter) stats r"
      unfolding j(8) h by simp
  qed
qed

text \<open>
  An iterator that refers to an entry: its position in the contents, and the deletion of that entry
  and of no other, also among entries with the same key.
\<close>

definition stx_iter_pos :: "('k, 'v) stx_tree \<Rightarrow> stx_iter \<Rightarrow> nat option" where
  "stx_iter_pos t iter =
     (case stx_root t of
        None \<Rightarrow> None
      | Some n \<Rightarrow> let leaves = stx_leaves n
          in if fst iter < length leaves \<and> snd iter < length (leaves ! fst iter)
             then Some (length (concat (take (fst iter) leaves)) + snd iter) else None)"

lemma erase_iter_right:
  fixes t :: "('k::linorder, 'v) stx_tree"
  assumes valid: "stx_valid kb t" and pos: "stx_iter_pos t iter = Some i"
  shows "\<exists>t'. erase_iter kb t iter = Inr t' \<and> stx_valid kb t' \<and> i < length (stx_contents t)
    \<and> stx_contents t' = remove_slot i (stx_contents t)"
proof -
  obtain n where Some: "stx_root t = Some n" using pos by (auto simp: stx_iter_pos_def split: option.splits)
  then obtain h where ok: "stx_ok kb False h n" and s: "sorted_by fst (stx_entries n)"
    and stats: "stx_m_stats t = stx_node_stats n"
    using valid by (auto simp: stx_valid_def)
  have con: "stx_contents t = stx_entries n" using Some by (simp add: stx_contents_def)
  let ?l = "fst iter" and ?leaves = "stx_leaves n"
  have l: "?l < length ?leaves" "snd iter < length (?leaves ! ?l)" "i = length (concat (take ?l ?leaves)) + snd iter"
    using pos Some by (auto simp: stx_iter_pos_def Let_def split: if_splits)
  define k where "k = fst (?leaves ! ?l ! snd iter)"
  have key: "stx_iter_key n iter = Inr k" using l by (simp add: stx_iter_key_def at_def k_def)
  have i: "i < length (stx_entries n)"
  proof -
    have "stx_entries n = concat (take ?l ?leaves) @ ?leaves ! ?l @ concat (drop (Suc ?l) ?leaves)"
      using concat_split_nth [OF l(1)] by (simp add: concat_stx_leaves)
    then show ?thesis using l(2,3) by simp
  qed
  have "\<exists>r. erase_iter_descend kb iter (Inr k) 0 0 None None None None (stx_node_stats n) [] [n] 0 n = Inr r
      \<and> stx_root_erased kb n i r"
  proof (cases h)
    case 0
    then obtain slots where n: "n = SLeaf slots" using ok by (auto elim: stx_ok_0E)
    have "?l = 0" "snd iter < length slots" using l(1,2) by (simp_all add: n)
    with stx_erase_slot_root [OF ok [unfolded n 0], of "snd iter"] l(3) show ?thesis by (simp add: n)
  next
    case (Suc h')
    then obtain level keys children where n: "n = SInner level keys children" using ok by (auto elim: stx_ok_SucE)
    note ok = ok [unfolded n Suc] and s = s [unfolded n]
    note F = stx_ok_inner_facts [OF ok s]
    let ?slot = "stx_find_lower keys k"
    have near: "stx_near kb (Suc h') 0 None None" by (simp add: stx_near_def)
    have below: "\<forall>j myleft myright lp rp. j < length children \<and> stx_family 0 myleft myright lp rp children j
        \<and> stx_near kb h' (Suc 0) myleft lp \<and> stx_near kb h' (Suc 0) myright rp \<longrightarrow>
      stx_iter_search kb h' j children (stx_node_stats n) iter k (0 + stx_leaves_before children j)
        (erase_iter_descend kb iter (Inr k) (0 + stx_leaves_before children j) (Suc 0) myleft myright lp rp
           (stx_node_stats n) keys children j (children ! j))"
      using erase_iter_descend_right [OF F(7) [OF nth_mem] F(4) [OF nth_mem] stx_ok_inner(2) [OF ok] _ refl] by blast
    note loop = erase_iter_slots_right [OF ok near near below]
    obtain j l' where j: "?slot \<le> j" "j < length children" "l' < length (stx_leaves (children ! j))"
      "?l = stx_leaves_before children j + l'" "snd iter < length (stx_leaves (children ! j) ! l')"
      "fst (stx_leaves (children ! j) ! l' ! snd iter) = k"
      "\<forall>i. ?slot \<le> i \<and> i < length keys \<longrightarrow> k \<le> keys ! i"
      "length (concat (take ?l (stx_leaves n))) + snd iter
        = length (stx_all_entries (take j children)) + (length (concat (take l' (stx_leaves (children ! j)))) + snd iter)"
      "length (concat (take l' (stx_leaves (children ! j)))) + snd iter < length (stx_entries (children ! j))"
      using stx_iter_child [OF ok s l(1,2) [unfolded n] k_def [symmetric, unfolded n]] unfolding n by metis
    have "?l = 0 + stx_leaves_before children j + l'" using j(4) by simp
    from loop(2) [OF j(1,2,3) this j(5,6,7)] obtain r where
      r: "erase_iter_slots kb iter (Inr k) k 0 0 None None None None (stx_node_stats n) keys children ?slot = Inr (Some (j, r))"
      "stx_below kb h' j children (length (concat (take l' (stx_leaves (children ! j)))) + snd iter) (stx_node_stats n) r" by blast
    from stx_erase_above_root [OF ok r(2) [unfolded n] j(2,9)] r(1) show ?thesis
      unfolding l(3) j(8) by (simp add: n)
  qed
  then obtain r0 where r0: "erase_iter_descend kb iter (Inr k) 0 0 None None None None (stx_node_stats n) [] [n] 0 n = Inr r0"
    "stx_root_erased kb n i r0" by blast
  obtain res st ks cell where r: "r0 = (res, st, ks, cell)" by (metis surj_pair)
  from stx_root_erased_valid [OF r0(2) [unfolded r] s i] show ?thesis
    using r0(1) i by (auto simp: erase_iter_def Some key stats r con stx_with_cell_def)
qed

section \<open>Properties\<close>

text \<open>
  C5. Deleting by key from a valid STX B+ tree: \<open>erase_one\<close> returns whether the key is present and
  then removes its first entry, \<open>erase\<close> ends, returns the number of entries with the key and removes
  them all. No other entry moves, no assert of the debug build fails, no unused slot is read, and
  the checker \<open>verify()\<close> accepts both trees: fill, separators and counts are right after merges and
  shifts of leaves and inner nodes and after the root has shrunk.
\<close>
theorem stx_erase_refines:
  fixes key :: "'k::linorder"
  assumes "stx_valid kb t"
  shows "\<exists>t1 t2. erase_one kb t key = Inr (key \<in> fst ` set (stx_contents t), t1)
    \<and> stx_valid kb t1 \<and> stx_verify kb t1 = Inr ()
    \<and> (if key \<in> fst ` set (stx_contents t)
       then \<exists>as v bs. stx_contents t = as @ (key, v) # bs \<and> key \<notin> fst ` set as \<and> stx_contents t1 = as @ bs
       else stx_contents t1 = stx_contents t)
    \<and> stx_erase kb True key t 0 = Some (Inr (length (filter (\<lambda>e. fst e = key) (stx_contents t)), t2))
    \<and> stx_valid kb t2 \<and> stx_verify kb t2 = Inr ()
    \<and> stx_contents t2 = filter (\<lambda>e. fst e \<noteq> key) (stx_contents t)"
proof -
  obtain t1 where t1: "erase_one kb t key = Inr (key \<in> fst ` set (stx_contents t), t1)" "stx_valid kb t1"
    "stx_contents t1 = (if key \<in> fst ` set (stx_contents t)
        then remove_slot (key_lb fst (stx_contents t) key) (stx_contents t) else stx_contents t)"
    using erase_one_right [OF assms, of key] by blast
  obtain t2 where "stx_erase kb True key t 0 = Some (Inr (length (filter (\<lambda>e. fst e = key) (stx_contents t)), t2))"
    "stx_valid kb t2" "stx_contents t2 = filter (\<lambda>e. fst e \<noteq> key) (stx_contents t)"
    using stx_erase_all [OF assms, of key 0] by auto
  moreover have "key \<in> fst ` set (stx_contents t) \<Longrightarrow>
      \<exists>as v bs. stx_contents t = as @ (key, v) # bs \<and> key \<notin> fst ` set as \<and> stx_contents t1 = as @ bs"
    using remove_slot_first [OF stx_valid_sorted [OF assms]] t1(3) by auto
  ultimately show ?thesis using t1 by (intro exI [of _ t1] exI [of _ t2]) (simp add: stx_verify_valid)
qed

theorem stx_erase_refines_witness:
  "\<exists>t2. stx_erase 8 True 77 (stx_bulk_load 8 (ex_pairs 300)) 0
      = Some (Inr (length (filter (\<lambda>e. fst e = 77) (ex_pairs 300)), t2))
    \<and> stx_verify 8 t2 = Inr () \<and> stx_contents t2 = filter (\<lambda>e. fst e \<noteq> 77) (ex_pairs 300)"
  using stx_erase_refines [OF stx_bulk_load_valid(1) [OF sorted_ex_pairs [of 300]], of 8 77]
  unfolding stx_bulk_load_valid(2) [OF sorted_ex_pairs] by blast

text \<open>
  C35. Deleting by iterator from a valid STX B+ tree removes exactly the entry that the iterator
  refers to, also when many leaves hold entries with the same key: the search of \<open>erase_iter_descend\<close>
  reaches the leaf, and the tree that is left is valid and accepted by \<open>verify()\<close>.
\<close>
theorem stx_erase_iterator_refines:
  fixes t :: "('k::linorder, 'v) stx_tree"
  assumes "stx_valid kb t" and "stx_iter_pos t iter = Some i"
  shows "\<exists>t'. erase_iter kb t iter = Inr t' \<and> stx_valid kb t' \<and> stx_verify kb t' = Inr ()
    \<and> (\<exists>as e bs. stx_contents t = as @ e # bs \<and> length as = i \<and> stx_contents t' = as @ bs)"
proof -
  obtain t' where t': "erase_iter kb t iter = Inr t'" "stx_valid kb t'" "i < length (stx_contents t)"
    "stx_contents t' = remove_slot i (stx_contents t)"
    using erase_iter_right [OF assms] by blast
  have "stx_contents t = take i (stx_contents t) @ stx_contents t ! i # drop (Suc i) (stx_contents t)"
    using t'(3) by (rule id_take_nth_drop)
  with t' stx_verify_valid [OF t'(2)] show ?thesis
    unfolding remove_slot_def by (metis Suc_eq_plus1 length_take less_imp_le_nat min.absorb2)
qed

text \<open>The sixteenth of forty entries, slot 2 of the second leaf.\<close>

theorem stx_erase_iterator_refines_witness:
  "\<exists>t'. erase_iter 8 (stx_bulk_load 8 (ex_pairs 40)) (1, 2) = Inr t' \<and> stx_verify 8 t' = Inr ()
    \<and> (\<exists>as e bs. ex_pairs 40 = as @ e # bs \<and> length as = 15 \<and> stx_contents t' = as @ bs)"
proof -
  have "stx_iter_pos (stx_bulk_load 8 (ex_pairs 40)) (1, 2) = Some 15" by code_simp
  from stx_erase_iterator_refines [OF stx_bulk_load_valid(1) [OF sorted_ex_pairs] this]
  show ?thesis unfolding stx_bulk_load_valid(2) [OF sorted_ex_pairs] by blast
qed

end
