(* ===== verification/Generate.thy ===== *)
theory Generate
  imports Competitor
begin

text \<open>
  Model of \<open>src/generate.cc\<close>, the program that writes the lookup files: the generation of
  positive and negative lookups with the expected sums, the lookups of a recorded trace, the
  names of the files, and \<open>main\<close>. Floating-point numbers are a parameter (\<open>gen_float\<close>); the
  loops that draw until a condition holds need not end and are partial functions.
\<close>

section \<open>Lookups\<close>

definition max_num_qualifying :: nat where
  "max_num_qualifying = 100"

definition max_num_retries :: nat where
  "max_num_retries = 100"

text \<open>
  \<open>gf_unit r\<close> is \<open>static_cast<float>(r) / max\<close>, and \<open>gf_scale s min max\<close> the key that
  \<open>s * (max - min) + min\<close> is converted to.
\<close>

record ('f, 'k) gen_float =
  gf_unit :: "u32 \<Rightarrow> 'f"
  gf_less :: "'f \<Rightarrow> 'f \<Rightarrow> bool"
  gf_zero :: 'f
  gf_scale :: "'f \<Rightarrow> 'k \<Rightarrow> 'k \<Rightarrow> 'k"

text \<open>The inner loop: draw until a key has no qualifying row.\<close>

partial_function (option) draw_negative ::
  "('f, 'k::linorder) gen_float \<Rightarrow> 'k Row list \<Rightarrow> 'k \<Rightarrow> 'k \<Rightarrow> u64 \<Rightarrow> ('k \<times> u64) res option" where
  "draw_negative fl data min_key max_key seed =
     (let sf = ScaleFactor (gf_unit fl) seed;
          negative_lookup = gf_scale fl (fst sf) min_key max_key
      in case branching_search data negative_lookup 0 (length data) of
           Inl e \<Rightarrow> Some (Inl e)
         | Inr (result, num_qualifying) \<Rightarrow>
             if 0 < num_qualifying then draw_negative fl data min_key max_key (snd sf)
             else Some (Inr (negative_lookup, snd sf)))"

text \<open>
  The test for a negative lookup; a number is drawn only when there was no retry and the
  ratio is positive.
\<close>

definition wants_negative ::
  "('f, 'k) gen_float \<Rightarrow> 'f \<Rightarrow> nat \<Rightarrow> u64 \<Rightarrow> bool \<times> u64" where
  "wants_negative fl negative_lookup_ratio num_retries seed =
     (if num_retries = 0 \<and> gf_less fl (gf_zero fl) negative_lookup_ratio
      then let (s, seed') = ScaleFactor (gf_unit fl) seed
           in (gf_less fl s negative_lookup_ratio, seed')
      else (False, seed))"

text \<open>The draw of a positive lookup: key, sum, number of qualifying rows and next seed.\<close>

definition draw_positive ::
  "'k::linorder Row list \<Rightarrow> 'k list \<Rightarrow> u64 \<Rightarrow> ('k \<times> u64 \<times> nat \<times> u64) res" where
  "draw_positive data unique_keys seed =
     bind_res (RandUint32_range 0 (word_of_int (int (length unique_keys) - 1)) seed)
       (\<lambda>(offset, seed'). bind_res (at unique_keys (unat offset))
          (\<lambda>lookup_key. bind_res (branching_search data lookup_key 0 (length data))
             (\<lambda>(result, num_qualifying). Inr (lookup_key, result, num_qualifying, seed'))))"

partial_function (option) gen_loop ::
  "('f, 'k::linorder) gen_float \<Rightarrow> 'k Row list \<Rightarrow> 'k list \<Rightarrow> nat \<Rightarrow> 'f \<Rightarrow>
   'k EqualityLookup list \<Rightarrow> u64 \<Rightarrow> nat \<Rightarrow> nat \<Rightarrow> 'k EqualityLookup list res option" where
  "gen_loop fl data unique_keys num_lookups ratio lookups seed num_generated num_retries =
     (if num_lookups \<le> num_generated then Some (Inr lookups)
      else let wn = wants_negative fl ratio num_retries seed
      in if fst wn
         then case draw_negative fl data (row_key (hd data)) (row_key (last data)) (snd wn) of
                None \<Rightarrow> None
              | Some (Inl e) \<Rightarrow> Some (Inl e)
              | Some (Inr (k, seed')) \<Rightarrow>
                  gen_loop fl data unique_keys num_lookups ratio
                    (lookups @ [\<lparr>lk_key = k, lk_result = NOT_FOUND\<rparr>]) seed'
                    (Suc num_generated) num_retries
         else case draw_positive data unique_keys (snd wn) of
                Inl e \<Rightarrow> Some (Inl e)
              | Inr (k, result, num_qualifying, seed') \<Rightarrow>
                  if max_num_qualifying < num_qualifying
                  then if max_num_retries < Suc num_retries
                       then Some (Inl (Fail ''generate_equality_lookups: exceeded max number of retries''))
                       else gen_loop fl data unique_keys num_lookups ratio lookups seed'
                              num_generated (Suc num_retries)
                  else gen_loop fl data unique_keys num_lookups ratio
                         (lookups @ [\<lparr>lk_key = k, lk_result = result\<rparr>]) seed'
                         (Suc num_generated) 0)"

text \<open>\<open>data.front()\<close> of empty data is undefined.\<close>

definition generate_equality_lookups ::
  "('f, 'k::linorder) gen_float \<Rightarrow> 'k Row list \<Rightarrow> 'k list \<Rightarrow> nat \<Rightarrow> 'f \<Rightarrow>
   'k EqualityLookup list res option" where
  "generate_equality_lookups fl data unique_keys num_lookups negative_lookup_ratio =
     (if data = [] then Some (Inl Undefined)
      else gen_loop fl data unique_keys num_lookups negative_lookup_ratio [] 42 0 0)"

text \<open>The searches of a trace end at \<open>keys.size()\<close>, the length of the trace.\<close>

fun map_res :: "('a \<Rightarrow> 'b res) \<Rightarrow> 'a list \<Rightarrow> 'b list res" where
  "map_res f [] = Inr []"
| "map_res f (x # xs) = bind_res (f x) (\<lambda>y. bind_res (map_res f xs) (\<lambda>ys. Inr (y # ys)))"

definition generate_equality_lookups_from_trace ::
  "'k::linorder Row list \<Rightarrow> 'k list \<Rightarrow> 'k EqualityLookup list res" where
  "generate_equality_lookups_from_trace data keys =
     map_res (\<lambda>key. bind_res (branching_search data key 0 (length keys))
                      (\<lambda>(result, nq). Inr \<lparr>lk_key = key, lk_result = result\<rparr>)) keys"

section \<open>File names\<close>

definition digit :: "nat \<Rightarrow> char" where
  "digit d = char_of (48 + d)"

fun to_string :: "nat \<Rightarrow> string" where
  "to_string n = (if n < 10 then [digit n] else to_string (n div 10) @ [digit (n mod 10)])"

declare to_string.simps [simp del]

definition to_nice_number :: "u64 \<Rightarrow> string" where
  "to_nice_number num =
     (let THOUSAND = 1000; MILLION = 1000 * THOUSAND; BILLION = 1000 * MILLION
      in if num \<ge> BILLION \<and> (num div BILLION) * BILLION = num
         then to_string (unat (num div BILLION)) @ ''B''
         else if num \<ge> MILLION \<and> (num div MILLION) * MILLION = num
         then to_string (unat (num div MILLION)) @ ''M''
         else if num \<ge> THOUSAND \<and> (num div THOUSAND) * THOUSAND = num
         then to_string (unat (num div THOUSAND)) @ ''K''
         else to_string (unat num))"

definition negative_count :: "'k EqualityLookup list \<Rightarrow> nat" where
  "negative_count lookups =
     foldl (\<lambda>n l. if lk_result l = NOT_FOUND then Suc n else n) 0 lookups"

text \<open>\<open>std::string::find\<close> of a string from the start; \<open>None\<close> is \<open>npos\<close>.\<close>

fun find_str :: "string \<Rightarrow> string \<Rightarrow> nat option" where
  "find_str pat s =
     (if take (length pat) s = pat then Some 0
      else case s of [] \<Rightarrow> None | c # cs \<Rightarrow> map_option Suc (find_str pat cs))"

declare find_str.simps [simp del]

text \<open>\<open>replace(pos, len, new)\<close>: a position past the end is an exception.\<close>

definition replace_str :: "nat option \<Rightarrow> nat \<Rightarrow> string \<Rightarrow> string \<Rightarrow> string res" where
  "replace_str pos len new s =
     (case pos of
        None \<Rightarrow> Inl (Thrown ''out_of_range'')
      | Some p \<Rightarrow> Inr (take p s @ new @ drop (p + len) s))"

section \<open>The program\<close>

text \<open>
  What differs between the two cases of the \<open>switch\<close>: the element types of the files and the
  names of the trace. \<open>corp_200M_uint32\<close> has 16 characters.
\<close>

record 'k gen_type =
  gt_sz :: nat
  gt_dec :: "u8 list \<Rightarrow> 'k"
  gt_enc :: "'k EqualityLookup \<Rightarrow> u8 list"
  gt_corp :: string
  gt_trace :: string

definition gen_u32 :: "u32 gen_type" where
  "gen_u32 = \<lparr>gt_sz = 4, gt_dec = dec_u32, gt_enc = enc_lookup32 0,
     gt_corp = ''corp_200M_uint32'', gt_trace = ''corp_trace_uint32''\<rparr>"

definition gen_u64 :: "u64 gen_type" where
  "gen_u64 = \<lparr>gt_sz = 8, gt_dec = dec_u64, gt_enc = enc_lookup64,
     gt_corp = ''corp_200M_uint64'', gt_trace = ''corp_trace_uint64''\<rparr>"

text \<open>The lookups of one data file and their number; \<open>files\<close> is the file system.\<close>

definition gen_lookups ::
  "'k::linorder gen_type \<Rightarrow> ('f, 'k) gen_float \<Rightarrow> (string \<Rightarrow> u8 list option) \<Rightarrow> string \<Rightarrow> nat \<Rightarrow> 'f
   \<Rightarrow> ('k EqualityLookup list \<times> nat) res option" where
  "gen_lookups ty fl files filename num_lookups ratio =
     (case load_data (gt_sz ty) (gt_dec ty) (files filename) of
        Inl e \<Rightarrow> Some (Inl e)
      | Inr keys \<Rightarrow>
          if \<not> sorted keys then Some (Inl (Fail ''keys have to be sorted''))
          else let unique_keys = remove_duplicates keys; data = add_values keys
          in if find_str ''corp'' filename \<noteq> None
             then Some (bind_res (replace_str (find_str (gt_corp ty) filename)
                              (length (gt_corp ty)) (gt_trace ty) filename)
                    (\<lambda>trace_name. bind_res (load_data (gt_sz ty) (gt_dec ty) (files trace_name))
                    (\<lambda>trace. bind_res (generate_equality_lookups_from_trace data trace)
                    (\<lambda>ls. Inr (ls, length trace)))))
             else map_option (\<lambda>r. bind_res r (\<lambda>ls. Inr (ls, num_lookups)))
                    (generate_equality_lookups fl data unique_keys num_lookups ratio))"

text \<open>The file that is written: its name and its bytes.\<close>

definition gen_file ::
  "'k::linorder gen_type \<Rightarrow> ('f, 'k) gen_float \<Rightarrow> (string \<Rightarrow> u8 list option) \<Rightarrow> string \<Rightarrow> nat \<Rightarrow> 'f
   \<Rightarrow> bool \<Rightarrow> (string \<times> u8 list) res option" where
  "gen_file ty fl files filename num_lookups ratio is_open =
     map_option (\<lambda>r. bind_res r (\<lambda>(ls, n).
         bind_res (write_data (gt_enc ty) ls is_open) (\<lambda>bytes.
         Inr (filename @ ''_equality_lookups_'' @ to_nice_number (word_of_nat n), bytes))))
       (gen_lookups ty fl files filename num_lookups ratio)"

text \<open>The two cases of the \<open>switch\<close>.\<close>

definition gen_case_uint32 ::
  "('f, u32) gen_float \<Rightarrow> (string \<Rightarrow> u8 list option) \<Rightarrow> string \<Rightarrow> nat \<Rightarrow> 'f \<Rightarrow> bool
   \<Rightarrow> (string \<times> u8 list) res option" where
  "gen_case_uint32 = gen_file gen_u32"

definition gen_case_uint64 ::
  "('f, u64) gen_float \<Rightarrow> (string \<Rightarrow> u8 list option) \<Rightarrow> string \<Rightarrow> nat \<Rightarrow> 'f \<Rightarrow> bool
   \<Rightarrow> (string \<times> u8 list) res option" where
  "gen_case_uint64 = gen_file gen_u64"

text \<open>
  \<open>main\<close>: the arguments after the program name, with \<open>stoull\<close> and \<open>stod\<close> as parameters;
  the two conversions to \<open>float\<close> differ only in the key type.
\<close>

definition generate_main ::
  "(string \<Rightarrow> nat res) \<Rightarrow> (string \<Rightarrow> 'f res) \<Rightarrow> ('f \<Rightarrow> bool) \<Rightarrow> ('f, u32) gen_float \<Rightarrow> ('f, u64) gen_float
   \<Rightarrow> (string \<Rightarrow> u8 list option) \<Rightarrow> string list \<Rightarrow> bool \<Rightarrow> (string \<times> u8 list) res option" where
  "generate_main stoull stod in_unit fl32 fl64 files argv is_open =
     (if length argv < 2 then Some (Inl (Fail ''usage''))
      else let filename = argv ! 0
      in case resolve_type filename of
           Inl e \<Rightarrow> Some (Inl e)
         | Inr ty \<Rightarrow>
             (case bind_res (stoull (argv ! 1)) (\<lambda>n.
                     bind_res (if 3 \<le> length argv then stod (argv ! 2) else Inr (gf_zero fl32))
                       (\<lambda>ratio. Inr (n, ratio))) of
                Inl e \<Rightarrow> Some (Inl e)
              | Inr (num_lookups, ratio) \<Rightarrow>
                  if \<not> in_unit ratio
                  then Some (Inl (Fail ''negative lookup ratio must be between 0 and 1.''))
                  else (case ty of
                          UINT32 \<Rightarrow> gen_case_uint32 fl32 files filename num_lookups ratio is_open
                        | UINT64 \<Rightarrow> gen_case_uint64 fl64 files filename num_lookups ratio is_open)))"

section \<open>Every generated lookup is right\<close>

lemma full_search:
  "sorted_rows data \<Longrightarrow>
   branching_search data k 0 (length data) = Inr (lookup_sum data k, lookup_count data k)"
  by (simp add: branching_search_correct)

lemma draw_positive_right:
  assumes "sorted_rows data" and "draw_positive data uk seed = Inr (k, r, n, seed')"
  shows "k \<in> set uk \<and> r = lookup_sum data k \<and> n = lookup_count data k"
  using assms by (auto simp: draw_positive_def full_search res_simps)

lemma draw_positive_total:
  assumes s: "sorted_rows data" and "uk \<noteq> []" and "length uk < 2 ^ 32"
  obtains k seed' where "k \<in> set uk"
    "draw_positive data uk seed = Inr (k, lookup_sum data k, lookup_count data k, seed')"
proof -
  have hi: "word_of_int (int (length uk) - 1) = (word_of_nat (length uk - 1) :: u32)"
    using assms(2) by (simp add: of_nat_diff Suc_leI)
  have u: "unat (word_of_nat (length uk - 1) :: u32) = length uk - 1"
    using assms(3) by (intro unat_word_of_nat) simp
  have "(word_of_nat (length uk - 1) :: u32) \<noteq> - 1"
  proof
    assume "(word_of_nat (length uk - 1) :: u32) = - 1"
    then have "unat (- 1 :: u32) = length uk - 1" using u by simp
    with assms(3) show False by (simp add: unsigned_minus_1_eq_mask mask_eq_exp_minus_1)
  qed
  with RandUint32_range_cases [of 0 "word_of_nat (length uk - 1)" seed]
  obtain r where r: "RandUint32_range 0 (word_of_nat (length uk - 1)) seed = Inr (r, xorshift seed)"
    and le: "r \<le> word_of_nat (length uk - 1)" by auto
  have "unat r < length uk" using le u assms(2) by (cases uk) (simp_all add: word_le_nat_alt)
  then show thesis
    using r by (intro that [of "uk ! unat r" "xorshift seed"])
      (auto simp: draw_positive_def hi full_search [OF s])
qed

lemma draw_negative_right:
  assumes "draw_negative fl data mn mx seed = Some r" and s: "sorted_rows data"
  shows "\<exists>k seed'. r = Inr (k, seed') \<and> k \<notin> row_key ` set data"
  using assms
proof (induction fl data mn mx seed r rule: draw_negative.raw_induct [rotated, consumes 1, case_names 1])
  case (1 f fl data mn mx seed r)
  from 1(2-) show ?case
    by (auto simp: Let_def full_search lookup_count_0_iff split: if_splits dest: 1(1))
qed

text \<open>What a lookup of the file is to be.\<close>

definition good_lookup :: "'k::linorder Row list \<Rightarrow> 'k EqualityLookup \<Rightarrow> bool" where
  "good_lookup data l \<longleftrightarrow>
     (if lk_key l \<in> row_key ` set data
      then lk_result l = lookup_sum data (lk_key l) \<and> lookup_count data (lk_key l) \<le> max_num_qualifying
      else lk_result l = NOT_FOUND)"

lemma gen_loop_good:
  assumes "gen_loop fl data uk n ratio ls0 seed g tries = Some (Inr ls)"
    and s: "sorted_rows data" and uk: "set uk \<subseteq> row_key ` set data"
    and "\<forall>l \<in> set ls0. good_lookup data l" and "length ls0 = g" and "g \<le> n"
  shows "length ls = n \<and> (\<forall>l \<in> set ls. good_lookup data l)"
proof -
  have "sorted_rows data \<Longrightarrow> Inr ls = r \<Longrightarrow> \<forall>l \<in> set ls0. good_lookup data l \<Longrightarrow> length ls0 = g \<Longrightarrow> g \<le> n \<Longrightarrow>
      length ls = n \<and> (\<forall>l \<in> set ls. good_lookup data l)"
    if "gen_loop fl data uk n ratio ls0 seed g tries = Some r" for r
    using that s uk
  proof (induction fl data uk n ratio ls0 seed g tries r rule: gen_loop.raw_induct [rotated, consumes 1, case_names 1])
    case (1 f fl data uk n ratio ls0 seed g tries r)
    let ?P = "\<lambda>k. \<lparr>lk_key = k, lk_result = NOT_FOUND\<rparr>"
    note s' = 1(3)
    have good: "good_lookup data (?P k)"
      if "draw_negative fl data mn mx sd = Some (Inr (k, sd'))" for mn mx sd k sd'
      using draw_negative_right [OF that s'] by (auto simp: good_lookup_def)
    have pos: "good_lookup data \<lparr>lk_key = k, lk_result = res\<rparr>"
      if "draw_positive data uk sd = Inr (k, res, q, sd')" "\<not> max_num_qualifying < q" for sd k res q sd'
      using draw_positive_right [OF s' that(1)] that(2) 1 by (auto simp: good_lookup_def)
    show ?case
      using 1(2-)
      by (auto simp: Let_def split: if_splits option.splits sum.splits prod.splits)
        (drule 1(1); use good pos in auto)+
  qed
  with assms show ?thesis by blast
qed

section \<open>Positive lookups are generated in finitely many draws\<close>

lemma wants_negative_False:
  "\<not> gf_less fl (gf_zero fl) ratio \<Longrightarrow> wants_negative fl ratio tries seed = (False, seed)"
  by (simp add: wants_negative_def)

lemma gen_loop_positive:
  assumes s: "sorted_rows data" and uk: "uk \<noteq> []" "length uk < 2 ^ 32"
    and pos: "\<not> gf_less fl (gf_zero fl) ratio"
  shows "tries \<le> max_num_retries \<Longrightarrow> \<exists>r. gen_loop fl data uk n ratio ls0 seed g tries = Some r
    \<and> (\<forall>e. r = Inl e \<longrightarrow> (\<exists>m. e = Fail m) \<and> (\<exists>k \<in> set uk. max_num_qualifying < lookup_count data k))"
proof (induction "(n - g) * 102 + (101 - tries)" arbitrary: ls0 seed g tries rule: less_induct)
  case less
  show ?case
  proof (cases "n \<le> g")
    case True
    then show ?thesis by (simp add: gen_loop.simps)
  next
    case False
    obtain k seed' where k: "k \<in> set uk"
      and draw: "draw_positive data uk seed = Inr (k, lookup_sum data k, lookup_count data k, seed')"
      by (rule draw_positive_total [OF s uk])
    have next_try: "\<exists>r. gen_loop fl data uk n ratio ls0 seed' g (Suc tries) = Some r
        \<and> (\<forall>e. r = Inl e \<longrightarrow> (\<exists>m. e = Fail m) \<and> (\<exists>k \<in> set uk. max_num_qualifying < lookup_count data k))"
      if "Suc tries \<le> max_num_retries"
      using that False by (intro less.hyps) (simp_all add: max_num_retries_def)
    have next_key: "\<exists>r. gen_loop fl data uk n ratio ls1 seed' (Suc g) 0 = Some r
        \<and> (\<forall>e. r = Inl e \<longrightarrow> (\<exists>m. e = Fail m) \<and> (\<exists>k \<in> set uk. max_num_qualifying < lookup_count data k))"
      for ls1
    proof (rule less.hyps)
      have "n - g = Suc (n - Suc g)" using False by simp
      then show "(n - Suc g) * 102 + (101 - 0) < (n - g) * 102 + (101 - tries)" 
        using less.prems by (simp add: max_num_retries_def)
    qed simp
    show ?thesis
      unfolding gen_loop.simps [of fl data uk n ratio ls0 seed g tries] wants_negative_False [OF pos]
      using False k draw next_try next_key
      by (auto simp: Let_def)
  qed
qed

lemma retries_exceeded_iff [simp]: "(max_num_retries < Suc tries) = (\<not> Suc tries \<le> max_num_retries)"
  by auto

section \<open>The bound of the trace\<close>

lemma map_res_Inr: "(\<And>x. x \<in> set xs \<Longrightarrow> f x = Inr (g x)) \<Longrightarrow> map_res f xs = Inr (map g xs)"
  by (induction xs) auto

lemma search_prefix:
  assumes s: "sorted_rows data" and m: "m \<le> length data"
  shows "branching_search data k 0 m = Inr
    (if row_lb data k \<le> m then (lookup_sum data k, lookup_count data k) else (0, 0))"
proof (cases "row_lb data k \<le> m")
  case True
  then show ?thesis using branching_search_correct [OF s] m by simp
next
  case False
  have "lower_bound (\<lambda>r. row_key r < k) data 0 m = m"
    using lower_bound_eq [OF partitioned_less [OF s], of 0 m k] m False by (simp add: key_lb_def)
  moreover have "row_key (data ! m) < k"
    using False m less_key_lb_iff [OF s, of m k] by (cases "m < length data") auto
  ultimately show ?thesis using False m by (auto simp: branching_search_def)
qed

section \<open>Names\<close>

text \<open>The number that a name stands for.\<close>

definition dec_value :: "string \<Rightarrow> nat" where
  "dec_value s = foldl (\<lambda>n c. n * 10 + (of_char c - 48)) 0 s"

definition nice_value :: "string \<Rightarrow> nat" where
  "nice_value s = (let c = last s in
     if c = CHR ''B'' then dec_value (butlast s) * 1000000000
     else if c = CHR ''M'' then dec_value (butlast s) * 1000000
     else if c = CHR ''K'' then dec_value (butlast s) * 1000
     else dec_value s)"

lemma of_char_digit: "d < 10 \<Longrightarrow> (of_char (digit d) :: nat) = 48 + d"
  by (simp add: digit_def)

lemma dec_value_to_string: "dec_value (to_string n) = n"
proof (induction n rule: to_string.induct)
  case (1 n)
  then show ?case
    by (simp add: to_string.simps [of n] dec_value_def of_char_digit)
qed

lemma last_to_string: "\<exists>d < 10. last (to_string n) = digit d"
  by (subst to_string.simps) (auto intro: exI [of _ "n mod 10"])

lemma digit_not_letter: "d < 10 \<Longrightarrow> digit d \<notin> {CHR ''B'', CHR ''M'', CHR ''K''}"
proof -
  assume "d < 10"
  from of_char_digit [OF this] have "(of_char (digit d) :: nat) < 58" using \<open>d < 10\<close> by simp
  then show ?thesis by (auto simp: )
qed

lemma unit_multiple:
  assumes "(num div u) * u = (num :: u64)"
  shows "unat (num div u) * unat u = unat num"
proof -
  have "unat (num div u) * unat u \<le> unat num" by (simp add: unat_div)
  then have "unat ((num div u) * u) = unat (num div u) * unat u"
    using unat_bound [of num] by (simp add: unat_mult_lem [THEN iffD1])
  with assms show ?thesis by simp
qed

lemma nice_value_to_nice_number: "nice_value (to_nice_number num) = unat num"
proof -
  obtain d where d: "d < 10" "last (to_string (unat num)) = digit d" using last_to_string by blast
  have "last (to_string (unat num)) \<notin> {CHR ''B'', CHR ''M'', CHR ''K''}"
    unfolding d(2) by (rule digit_not_letter [OF d(1)])
  then show ?thesis
    using unit_multiple [of num 1000000000] unit_multiple [of num 1000000] unit_multiple [of num 1000]
    by (auto simp: to_nice_number_def nice_value_def Let_def dec_value_to_string)
qed

section \<open>Properties\<close>

text \<open>
  C22. Every lookup that the generator returns is right: there are as many as were asked
  for; the expected result of a key of the data is the sum over all of its rows, of which there
  are at most a hundred; and a key that is not in the data has the result \<open>NOT_FOUND\<close>.
\<close>
theorem generated_lookups_right:
  assumes "sorted_rows data" and "set unique_keys \<subseteq> row_key ` set data"
    and "generate_equality_lookups fl data unique_keys num_lookups ratio = Some (Inr lookups)"
  shows "length lookups = num_lookups \<and> (\<forall>l \<in> set lookups. good_lookup data l)"
proof -
  have "gen_loop fl data unique_keys num_lookups ratio [] 42 0 0 = Some (Inr lookups)"
    using assms(3) by (simp add: generate_equality_lookups_def split: if_splits)
  from gen_loop_good [OF this assms(1,2)] show ?thesis by simp
qed

definition ex_float :: "(unit, u64) gen_float" where
  "ex_float = \<lparr>gf_unit = \<lambda>_. (), gf_less = \<lambda>_ _. True, gf_zero = (), gf_scale = \<lambda>_ _ _. 6\<rparr>"

theorem generated_lookups_right_witness:
  "\<exists>lookups. generate_equality_lookups ex_float (add_values [4, 5, 5, 9]) [4, 5, 9] 1 () = Some (Inr lookups)
    \<and> length lookups = 1 \<and> (\<forall>l \<in> set lookups. good_lookup (add_values [4, 5, 5, 9]) l)"
proof -
  have s: "sorted_rows (add_values [4, 5, 5, 9 :: u64])"
    and keys: "row_key ` set (add_values [4, 5, 5, 9 :: u64]) = {4, 5, 9}"
    by (simp, metis list.set_map map_row_key_add_values list.set insert_absorb2)
  have ne: "add_values [4, 5, 5, 9 :: u64] \<noteq> []" by (metis length_add_values list.size(3) list.distinct(1) length_0_conv)
  have "draw_negative ex_float (add_values [4, 5, 5, 9]) mn mx sd
      = Some (Inr (6, snd (ScaleFactor (gf_unit ex_float) sd)))" for mn mx sd
    using keys full_search [OF s, of 6] by (subst draw_negative.simps)
      (simp add: Let_def ex_float_def del: length_add_values)
  then have run: "generate_equality_lookups ex_float (add_values [4, 5, 5, 9]) [4, 5, 9] 1 ()
      = Some (Inr [\<lparr>lk_key = 6, lk_result = NOT_FOUND\<rparr>])"
    using ne by (simp add: generate_equality_lookups_def gen_loop.simps [of _ _ _ "Suc 0"]
        wants_negative_def ex_float_def split: prod.splits)
  have "set [4, 5, 9] \<subseteq> row_key ` set (add_values [4, 5, 5, 9 :: u64])" using keys by simp
  from generated_lookups_right [OF s this run] run show ?thesis by blast
qed

text \<open>
  C23. Without negative lookups the generator ends: after finitely many draws it has all
  lookups, or it gives up because a key with more than a hundred rows was drawn too often. It
  never fails when no key has that many rows.
\<close>
theorem positive_lookups_terminate:
  assumes "sorted_rows data" and "data \<noteq> []"
    and "unique_keys \<noteq> []" and "length unique_keys < 2 ^ 32"
    and "\<not> gf_less fl (gf_zero fl) ratio"
  shows "\<exists>r. generate_equality_lookups fl data unique_keys num_lookups ratio = Some r
    \<and> (\<forall>e. r = Inl e \<longrightarrow> (\<exists>m. e = Fail m)
         \<and> (\<exists>k \<in> set unique_keys. max_num_qualifying < lookup_count data k))"
  using gen_loop_positive [OF assms(1,3,4,5)] assms(2)
  by (simp add: generate_equality_lookups_def)

theorem positive_lookups_terminate_witness:
  "\<exists>ls. generate_equality_lookups (ex_float\<lparr>gf_less := \<lambda>_ _. False\<rparr>) (add_values [5 :: u64]) [5] 3 ()
    = Some (Inr ls)"
proof -
  have "\<exists>r. generate_equality_lookups (ex_float\<lparr>gf_less := \<lambda>_ _. False\<rparr>) (add_values [5 :: u64]) [5] 3 () = Some r
    \<and> (\<forall>e. r = Inl e \<longrightarrow> (\<exists>m. e = Fail m)
         \<and> (\<exists>k \<in> set [5]. max_num_qualifying < lookup_count (add_values [5 :: u64]) k))"
    by (rule positive_lookups_terminate) (simp_all add: add_values_def)
  moreover have "lookup_count (add_values [5 :: u64]) 5 \<le> 1"
    by (simp add: lookup_count_def add_values_def)
  ultimately show ?thesis by (auto simp: max_num_qualifying_def not_less split: sum.splits)
    (metis sum.exhaust_sel)
qed

text \<open>
  The lookups of a trace are searched in \<open>[0, keys.size())\<close> with the size of the trace
  and not that of the data: the expected result of every key whose first row lies behind that
  position is 0 although the key has rows, and a trace that is longer than the data makes the
  search leave the data.
\<close>
theorem trace_lookup_results:
  assumes "sorted_rows data"
  shows "generate_equality_lookups_from_trace data keys =
    (if length data < length keys then Inl Undefined
     else Inr (map (\<lambda>k. \<lparr>lk_key = k,
            lk_result = (if row_lb data k \<le> length keys then lookup_sum data k else 0)\<rparr>) keys))"
proof (cases "length data < length keys")
  case True
  then show ?thesis
    by (cases keys) (auto simp: generate_equality_lookups_from_trace_def branching_search_def)
next
  case False
  then have "map_res (\<lambda>key. bind_res (branching_search data key 0 (length keys))
      (\<lambda>(result, nq). Inr \<lparr>lk_key = key, lk_result = result\<rparr>)) keys
    = Inr (map (\<lambda>k. \<lparr>lk_key = k,
        lk_result = (if row_lb data k \<le> length keys then lookup_sum data k else 0)\<rparr>) keys)"
    by (intro map_res_Inr) (simp add: search_prefix [OF assms])
  with False show ?thesis by (simp add: generate_equality_lookups_from_trace_def)
qed

theorem trace_lookup_results_witness:
  "generate_equality_lookups_from_trace (add_values [3, 5, 8 :: u64]) [8] = Inr [\<lparr>lk_key = 8, lk_result = 0\<rparr>]
    \<and> lookup_sum (add_values [3, 5, 8 :: u64]) 8 = 2"
proof -
  have lb: "row_lb (add_values [3, 5, 8 :: u64]) 8 = 2"
    by (simp add: key_lb_def lb_def add_values_def upt_rec)
  have "sorted_rows (add_values [3, 5, 8 :: u64])" by simp
  from trace_lookup_results [OF this, of "[8]"] lb show ?thesis
    by (simp add: lookup_sum_def add_values_def upt_rec)
qed

text \<open>
  The number in the name of a lookup file can be read back from it, so files for
  different numbers of lookups have different names.
\<close>
theorem nice_number_roundtrip:
  "nice_value (to_nice_number num) = unat num"
  by (rule nice_value_to_nice_number)

end
