(* ===== verification/Benchmark.thy ===== *)
theory Benchmark
  imports Generate
begin

text \<open>
  Model of \<open>src/benchmark.h\<close>, the driver: the constructor that loads data and lookups, the
  removal of the keys PGM cannot hold, the extraction of the entries that are inserted during
  the run, the loops over the lookups with and without cache clearing, in one piece or in
  batches, the error statistics and the result lines. An index is a record of operations
  (\<open>Index\<close>), the search a function. The standard library's random distributions, its
  unstable sort, the clocks and the double arithmetic are parameters.
\<close>

section \<open>State\<close>

record bench_opts =
  bo_data_filename :: string
  bo_lookups_filename :: string
  bo_num_repeats :: nat
  bo_perf :: bool
  bo_build :: bool
  bo_fence :: bool
  bo_cold_cache :: bool
  bo_track_errors :: bool
  bo_csv :: bool
  bo_num_threads :: nat
  bo_write_portion :: u16

record ('k, 'd) Benchmark =
  b_opts :: bench_opts
  b_dataset_name :: string
  b_data :: "'k Row list"
  b_index_data :: "'k KeyValue list"
  b_insertion_data :: "'k KeyValue list"
  b_unique_keys :: bool
  b_lookups :: "'k EqualityLookup list"
  b_build_ns :: u64
  b_log_sum :: 'd
  b_l1_sum :: 'd
  b_l2_sum :: 'd
  b_runs :: "u64 list"
  b_first_run :: bool
  b_random_sum :: u64
  b_individual_ns_sum :: u64
  b_memory :: "u64 list"

text \<open>What the driver calls on an index class.\<close>

record ('k, 'st) Index =
  ix_name :: string
  ix_variant :: int
  ix_applicable :: "bool \<Rightarrow> string \<Rightarrow> bool"
  ix_Build :: "'k KeyValue list \<Rightarrow> 'st res"
  ix_EqualityLookup :: "'st \<Rightarrow> 'k \<Rightarrow> SearchBound res"
  ix_Insert :: "'k KeyValue \<Rightarrow> 'st \<Rightarrow> 'st res"
  ix_size :: "'st \<Rightarrow> nat"

type_synonym 'k searcher = "'k Row list \<Rightarrow> 'k \<Rightarrow> nat \<Rightarrow> nat \<Rightarrow> (u64 \<times> nat) res option"

text \<open>The double operations of the statistics.\<close>

record 'd double_ops =
  d_zero :: 'd
  d_of_u64 :: "u64 \<Rightarrow> 'd"
  d_add :: "'d \<Rightarrow> 'd \<Rightarrow> 'd"
  d_div :: "'d \<Rightarrow> 'd \<Rightarrow> 'd"
  d_mul :: "'d \<Rightarrow> 'd \<Rightarrow> 'd"
  d_half :: 'd
  d_log2 :: "'d \<Rightarrow> 'd"
  d_abs :: "'d \<Rightarrow> 'd"
  d_square :: "'d \<Rightarrow> 'd"

text \<open>
  \<open>rnd lo hi i\<close> is the \<open>i\<close>-th number drawn from \<open>uniform_int_distribution(lo, hi)\<close> with a
  fresh \<open>default_random_engine\<close>: it lies in \<open>[lo, hi]\<close>. \<open>std::sort\<close> by key returns some
  sorted permutation.
\<close>

definition uniform :: "(int \<Rightarrow> int \<Rightarrow> nat \<Rightarrow> int) \<Rightarrow> bool" where
  "uniform rnd \<longleftrightarrow> (\<forall>lo hi i. lo \<le> hi \<longrightarrow> lo \<le> rnd lo hi i \<and> rnd lo hi i \<le> hi)"

definition sorts :: "('k::linorder KeyValue list \<Rightarrow> 'k KeyValue list) \<Rightarrow> bool" where
  "sorts std_sort \<longleftrightarrow> (\<forall>xs. sorted_by kv_key (std_sort xs) \<and> mset (std_sort xs) = mset xs)"

section \<open>Constructor\<close>

text \<open>
  The name is what follows the first \<open>data/\<close>; without one, \<open>npos\<close> is added to an iterator.
\<close>

definition strip_data_prefix :: "string \<Rightarrow> string res" where
  "strip_data_prefix filename =
     (case find_str ''data/'' filename of
        None \<Rightarrow> Inl Undefined
      | Some pos \<Rightarrow> Inr (drop (pos + length ''data/'') filename))"

text \<open>\<open>index_data_\<close>: each key with its position.\<close>

definition make_index_data :: "'k Row list \<Rightarrow> 'k KeyValue list" where
  "make_index_data data =
     map (\<lambda>pos. \<lparr>kv_key = row_key (data ! pos), kv_value = word_of_nat pos\<rparr>) [0..<length data]"

text \<open>The buffer that is read to evict the cache, \<open>26e6 / 8\<close> random words.\<close>

fun fill_memory :: "nat \<Rightarrow> u64 \<Rightarrow> u64 list" where
  "fill_memory 0 seed = []"
| "fill_memory (Suc n) seed =
     (let (r, seed') = RandUint32 seed in ucast r # fill_memory n seed')"

definition memory_words :: nat where
  "memory_words = 3250000"

text \<open>The element types of the two files.\<close>

record 'k file_type =
  ft_sz :: nat
  ft_dec :: "u8 list \<Rightarrow> 'k"
  ft_dec_lookup :: "u8 list \<Rightarrow> 'k EqualityLookup"

definition bench_init ::
  "'k::linorder file_type \<Rightarrow> 'd double_ops \<Rightarrow> (string \<Rightarrow> u8 list option) \<Rightarrow> bench_opts
   \<Rightarrow> ('k, 'd) Benchmark res" where
  "bench_init ft dops files opts =
     (if of_bool (bo_cold_cache opts) + of_bool (bo_perf opts) + of_bool (bo_fence opts) > (1 :: nat)
      then Inl (Fail ''Can only specify one of cold cache, perf counters, or fence.'')
      else if bo_write_portion opts > 100
      then Inl (Fail ''Write portion can not exceed 100% of the dataset'')
      else bind_res (strip_data_prefix (bo_data_filename opts)) (\<lambda>dataset_name.
        bind_res (load_data (ft_sz ft) (ft_dec ft) (files (bo_data_filename opts))) (\<lambda>keys.
        if \<not> sorted keys then Inl (Fail ''keys have to be sorted'')
        else let data = add_values keys
        in bind_res (load_data 16 (ft_dec_lookup ft) (files (bo_lookups_filename opts))) (\<lambda>lookups.
           Inr \<lparr>b_opts = opts, b_dataset_name = dataset_name, b_data = data,
             b_index_data = make_index_data data, b_insertion_data = [],
             b_unique_keys = is_unique keys, b_lookups = lookups, b_build_ns = 0,
             b_log_sum = d_zero dops, b_l1_sum = d_zero dops, b_l2_sum = d_zero dops,
             b_runs = [], b_first_run = True, b_random_sum = 0, b_individual_ns_sum = 0,
             b_memory = (if bo_cold_cache opts then fill_memory memory_words 8128 else [])\<rparr>))))"

section \<open>Keys that PGM cannot hold\<close>

text \<open>One \<open>while\<close> loop: erase the first lookup of the key until there is none.\<close>

function erase_lookups ::
  "u64 \<Rightarrow> 'l::len word EqualityLookup list \<Rightarrow> 'l word EqualityLookup list" where
  "erase_lookups key lookups =
     (let it = find_if (\<lambda>l. ucast (lk_key l) = key) lookups 0 (length lookups)
      in if length lookups \<le> it then lookups
         else erase_lookups key (take it lookups @ drop (Suc it) lookups))"
  by pat_completeness auto
termination
  by (relation "measure (\<lambda>(key, lookups). length lookups)") auto

declare erase_lookups.simps [simp del]

definition forbidden_keys :: "u64 list" where
  "forbidden_keys = [18446744073709551615, 4294967295]"

definition remove_forbidden :: "'l::len word EqualityLookup list \<Rightarrow> 'l word EqualityLookup list" where
  "remove_forbidden lookups = foldl (\<lambda>ls key. erase_lookups key ls) lookups forbidden_keys"

section \<open>Entries to insert during the run\<close>

text \<open>
  The loops that draw positions until the set has the wanted size; \<open>accept\<close> is the test that
  the key is not looked up, \<open>i\<close> the number of draws so far.
\<close>

partial_function (option) gather_ids ::
  "(nat \<Rightarrow> nat) \<Rightarrow> (nat \<Rightarrow> bool res) \<Rightarrow> nat \<Rightarrow> nat \<Rightarrow> nat list \<Rightarrow> nat list res option" where
  "gather_ids draw accept target i ids_set =
     (if length ids_set < target
      then case accept (draw i) of
             Inl e \<Rightarrow> Some (Inl e)
           | Inr not_in \<Rightarrow> gather_ids draw accept target (Suc i)
                           (if not_in then List.insert (draw i) ids_set else ids_set)
      else Some (Inr ids_set))"

definition insert_count :: "nat \<Rightarrow> u16 \<Rightarrow> int" where
  "insert_count num_lookups write_portion =
     to_int32 (int (num_lookups * unat write_portion div 100))"

text \<open>\<open>ids_set.size() < insertCount + extraEntries\<close> compares as \<open>size_t\<close>.\<close>

definition ids_wanted :: "nat \<Rightarrow> u16 \<Rightarrow> nat" where
  "ids_wanted num_lookups write_portion =
     (if write_portion = 100 then num_lookups
      else let extraEntries = to_int32 (int (num_lookups div 1000))
           in unat (word_of_int (insert_count num_lookups write_portion + extraEntries) :: u64))"

definition accepts_id ::
  "'k EqualityLookup list \<Rightarrow> u16 \<Rightarrow> 'k KeyValue list \<Rightarrow> nat \<Rightarrow> bool res" where
  "accepts_id lookups write_portion index_data ident =
     (if write_portion = 100 then Inr True
      else bind_res (at index_data ident) (\<lambda>kv. Inr (kv_key kv \<notin> lk_key ` set lookups)))"

text \<open>Move the entries at the positions, largest first, to \<open>insertion_data_\<close>.\<close>

fun extract_ids ::
  "nat list \<Rightarrow> 'k KeyValue list \<Rightarrow> 'k KeyValue list \<Rightarrow> ('k KeyValue list \<times> 'k KeyValue list) res" where
  "extract_ids [] index_data insertion_data = Inr (index_data, insertion_data)"
| "extract_ids (ident # ids) index_data insertion_data =
     bind_res (at index_data ident) (\<lambda>kv.
       extract_ids ids (butlast (index_data[ident := last index_data])) (insertion_data @ [kv]))"

text \<open>
  The whole block for \<open>write_portion_ > 0\<close>. A distribution over an empty range, \<open>ids[0]\<close> of no
  ids and \<open>index_data_[0]\<close> of an empty index are undefined.
\<close>

definition split_writes ::
  "(int \<Rightarrow> int \<Rightarrow> nat \<Rightarrow> int) \<Rightarrow> ('k::linorder KeyValue list \<Rightarrow> 'k KeyValue list) \<Rightarrow> u16
   \<Rightarrow> 'k EqualityLookup list \<Rightarrow> 'k KeyValue list \<Rightarrow> 'k KeyValue list
   \<Rightarrow> ('k KeyValue list \<times> 'k KeyValue list) res option" where
  "split_writes rnd std_sort write_portion lookups index_data insertion_data =
     (let hi = to_int32 (int (length index_data) - 1)
      in if hi < 0 then Some (Inl Undefined)
         else map_option (\<lambda>r. bind_res r (\<lambda>ids_set.
           let ids = rev (sort ids_set)
           in bind_res (at ids 0) (\<lambda>_.
              bind_res (extract_ids (std_unique_erase ids) index_data insertion_data) (\<lambda>(left, ins).
              bind_res (at (std_sort left) 0) (\<lambda>_. Inr (std_sort left, ins))))))
         (gather_ids (\<lambda>i. nat (rnd 0 hi i)) (accepts_id lookups write_portion index_data)
            (ids_wanted (length lookups) write_portion) 0 []))"

section \<open>The loop over the lookups\<close>

text \<open>
  What the loop works on: the template flag \<open>clear_cache\<close>, the members that it only reads,
  the draws of \<open>dist(0, 99)\<close> of this call, and the duration measured for each lookup.
\<close>

record ('k, 'st) loop_env =
  le_index :: "('k, 'st) Index"
  le_searcher :: "'k searcher"
  le_data :: "'k Row list"
  le_lookups :: "'k EqualityLookup list"
  le_memory :: "u64 list"
  le_write_portion :: u16
  le_clear_cache :: bool
  le_draw :: "nat \<Rightarrow> int"
  le_ns :: "nat \<Rightarrow> u64"

text \<open>
  What it changes. The sum of a timed lookup is computed and dropped by the code;
  \<open>ls_results\<close> keeps the sums in the order of the lookups.
\<close>

record ('k, 'st) loop_state =
  ls_index :: 'st
  ls_insertion :: "'k KeyValue list"
  ls_random_sum :: u64
  ls_individual_ns_sum :: u64
  ls_results :: "u64 list"
  ls_run_failed :: bool

definition check_results :: "u64 \<Rightarrow> u64 \<Rightarrow> bool" where
  "check_results actual expected \<longleftrightarrow> actual = expected"

text \<open>A lookup with a cleared cache; the flag tells whether the loop goes on.\<close>

definition cold_request ::
  "('k, 'st) loop_env \<Rightarrow> nat \<Rightarrow> 'k EqualityLookup \<Rightarrow> ('k, 'st) loop_state
   \<Rightarrow> (('k, 'st) loop_state \<times> bool) res option" where
  "cold_request env idx l s =
     (let s1 = s\<lparr>ls_random_sum := foldl (+) (ls_random_sum s) (le_memory env)\<rparr>
      in case ix_EqualityLookup (le_index env) (ls_index s1) (lk_key l) of
           Inl e \<Rightarrow> Some (Inl e)
         | Inr bound \<Rightarrow> map_option (\<lambda>r. bind_res r (\<lambda>(actual, qualifying).
             if \<not> check_results actual (lk_result l) then Inr (s1\<lparr>ls_run_failed := True\<rparr>, False)
             else Inr (s1\<lparr>ls_individual_ns_sum := ls_individual_ns_sum s1 + le_ns env idx,
                         ls_results := ls_results s1 @ [actual]\<rparr>, True)))
           (le_searcher env (le_data env) (lk_key l) (sb_start bound) (sb_stop bound)))"

text \<open>An insertion takes the last of the entries that are left.\<close>

definition write_request ::
  "('k, 'st) loop_env \<Rightarrow> ('k, 'st) loop_state \<Rightarrow> ('k, 'st) loop_state res" where
  "write_request env s =
     (if ls_insertion s = []
      then Inl (Fail ''More inserts happened than was expected, ran out of data to insert'')
      else bind_res (ix_Insert (le_index env) (last (ls_insertion s)) (ls_index s)) (\<lambda>st.
             Inr (s\<lparr>ls_index := st, ls_insertion := butlast (ls_insertion s)\<rparr>)))"

text \<open>The timed lookup does not call the search: it is written out, with an \<open>int\<close> end.\<close>

definition inline_search :: "'k::linorder Row list \<Rightarrow> 'k \<Rightarrow> SearchBound \<Rightarrow> u64 res" where
  "inline_search data lookup_key bound =
     (let stop = to_int32 (int (if sb_stop bound > length data then length data else sb_stop bound))
      in if int (sb_start bound) \<le> stop \<and> stop \<le> int (length data)
         then let it = lower_bound (\<lambda>r. row_key r < lookup_key) data (sb_start bound) (nat stop)
              in Inr (fst (sum_run data lookup_key it 0 0))
         else Inl Undefined)"

definition read_request ::
  "('k::linorder, 'st) loop_env \<Rightarrow> 'k EqualityLookup \<Rightarrow> ('k, 'st) loop_state
   \<Rightarrow> ('k, 'st) loop_state res" where
  "read_request env l s =
     bind_res (ix_EqualityLookup (le_index env) (ls_index s) (lk_key l)) (\<lambda>bound.
     bind_res (inline_search (le_data env) (lk_key l) bound) (\<lambda>result.
       Inr (s\<lparr>ls_results := ls_results s @ [result]\<rparr>)))"

definition request ::
  "('k::linorder, 'st) loop_env \<Rightarrow> nat \<Rightarrow> nat \<Rightarrow> ('k, 'st) loop_state
   \<Rightarrow> (('k, 'st) loop_state \<times> bool) res option" where
  "request env start idx s =
     (case at (le_lookups env) idx of
        Inl e \<Rightarrow> Some (Inl e)
      | Inr l \<Rightarrow>
          if le_clear_cache env then cold_request env idx l s
          else Some (bind_res
                 (if le_draw env (idx - start) < int (unat (le_write_portion env))
                  then write_request env s else read_request env l s)
                 (\<lambda>s'. Inr (s', True))))"

function core_loop ::
  "('k::linorder, 'st) loop_env \<Rightarrow> nat \<Rightarrow> nat \<Rightarrow> nat \<Rightarrow> ('k, 'st) loop_state
   \<Rightarrow> ('k, 'st) loop_state res option" where
  "core_loop env start limit idx s =
     (if idx < limit
      then case request env start idx s of
             None \<Rightarrow> None
           | Some (Inl e) \<Rightarrow> Some (Inl e)
           | Some (Inr (s', go_on)) \<Rightarrow>
               if go_on then core_loop env start limit (Suc idx) s' else Some (Inr s')
      else Some (Inr s))"
  by pat_completeness auto
termination
  by (relation "measure (\<lambda>(env, start, limit, idx, s). limit - idx)") auto

declare core_loop.simps [simp del]

text \<open>\<open>start\<close> and \<open>limit\<close> are \<open>unsigned int\<close>.\<close>

definition to_u32 :: "nat \<Rightarrow> nat" where
  "to_u32 n = unat (word_of_nat n :: u32)"

definition equality_lookups_core_loop ::
  "('k::linorder, 'st) loop_env \<Rightarrow> nat \<Rightarrow> nat \<Rightarrow> ('k, 'st) loop_state
   \<Rightarrow> ('k, 'st) loop_state res option" where
  "equality_lookups_core_loop env start limit s =
     core_loop env (to_u32 start) (to_u32 limit) (to_u32 start) s"

definition batch_size :: nat where
  "batch_size = 2 ^ 16"

text \<open>With more than one thread configured, one thread takes one batch after the other.\<close>

function batch_loop ::
  "('k::linorder, 'st) loop_env \<Rightarrow> nat \<Rightarrow> ('k, 'st) loop_state \<Rightarrow> ('k, 'st) loop_state res option" where
  "batch_loop env begin s =
     (if length (le_lookups env) \<le> begin then Some (Inr s)
      else case equality_lookups_core_loop env begin
                  (min (begin + batch_size) (length (le_lookups env))) s of
             None \<Rightarrow> None
           | Some (Inl e) \<Rightarrow> Some (Inl e)
           | Some (Inr s') \<Rightarrow> batch_loop env (begin + batch_size) s')"
  by pat_completeness auto
termination
  by (relation "measure (\<lambda>(env, begin, s). length (le_lookups env) - begin)")
    (auto simp: batch_size_def)

declare batch_loop.simps [simp del]

text \<open>
  The repetitions; \<open>clock i\<close> is the duration measured for repetition \<open>i\<close>. A repetition that
  failed clears all durations and ends the function.
\<close>

definition one_repeat ::
  "('k::linorder, 'st) loop_env \<Rightarrow> nat \<Rightarrow> ('k, 'st) loop_state \<Rightarrow> ('k, 'st) loop_state res option" where
  "one_repeat env num_threads s =
     (let s0 = s\<lparr>ls_random_sum := 0, ls_individual_ns_sum := 0\<rparr>
      in if num_threads = 1
         then equality_lookups_core_loop env 0 (length (le_lookups env)) s0
         else batch_loop env 0 s0)"

function repeat_loop ::
  "('k::linorder, 'st) loop_env \<Rightarrow> nat \<Rightarrow> (nat \<Rightarrow> u64) \<Rightarrow> nat \<Rightarrow> nat \<Rightarrow> u64 list
   \<Rightarrow> ('k, 'st) loop_state \<Rightarrow> (u64 list \<times> ('k, 'st) loop_state) res option" where
  "repeat_loop env num_threads clock num_repeats i runs s =
     (if i < num_repeats
      then case one_repeat env num_threads s of
             None \<Rightarrow> None
           | Some (Inl e) \<Rightarrow> Some (Inl e)
           | Some (Inr s') \<Rightarrow>
               if ls_run_failed s' then Some (Inr (replicate num_repeats 0, s'))
               else repeat_loop env num_threads clock num_repeats (Suc i) (runs[i := clock i]) s'
      else Some (Inr (runs, s)))"
  by pat_completeness auto
termination
  by (relation "measure (\<lambda>(env, t, c, n, i, runs, s). n - i)") auto

declare repeat_loop.simps [simp del]

definition resize :: "nat \<Rightarrow> u64 list \<Rightarrow> u64 list" where
  "resize n xs = take n xs @ replicate (n - length xs) 0"

definition do_equality_lookups ::
  "('k::linorder, 'st) loop_env \<Rightarrow> (nat \<Rightarrow> u64) \<Rightarrow> ('k, 'd) Benchmark \<Rightarrow> 'st
   \<Rightarrow> (('k, 'd) Benchmark \<times> u64 list \<times> 'st) res option" where
  "do_equality_lookups env clock b st =
     (if bo_build (b_opts b) then Some (Inr (b, [], st))
      else map_option (\<lambda>r. bind_res r (\<lambda>(runs, s).
             Inr (b\<lparr>b_runs := runs, b_insertion_data := ls_insertion s,
                   b_random_sum := ls_random_sum s,
                   b_individual_ns_sum := ls_individual_ns_sum s\<rparr>,
                  ls_results s, ls_index s)))
           (repeat_loop env (bo_num_threads (b_opts b)) clock (bo_num_repeats (b_opts b)) 0
              (resize (bo_num_repeats (b_opts b)) (b_runs b))
              \<lparr>ls_index = st, ls_insertion = b_insertion_data b, ls_random_sum = b_random_sum b,
                ls_individual_ns_sum = b_individual_ns_sum b, ls_results = [], ls_run_failed = False\<rparr>))"

section \<open>Error statistics\<close>

text \<open>The width of a bound is a \<open>size_t\<close>.\<close>

definition bound_width :: "SearchBound \<Rightarrow> u64" where
  "bound_width bound = word_of_int (int (sb_stop bound) - int (sb_start bound))"

definition add_error :: "'d double_ops \<Rightarrow> SearchBound \<Rightarrow> 'd \<times> 'd \<times> 'd \<Rightarrow> 'd \<times> 'd \<times> 'd" where
  "add_error dops bound sums =
     (case sums of (log_sum, l1, l2) \<Rightarrow>
        if sb_start bound \<noteq> sb_stop bound
        then let w = d_of_u64 dops (bound_width bound)
             in (d_add dops log_sum (d_log2 dops w), d_add dops l1 (d_abs dops w),
                 d_add dops l2 (d_square dops w))
        else sums)"

fun sum_errors ::
  "'d double_ops \<Rightarrow> ('k, 'st) Index \<Rightarrow> 'st \<Rightarrow> 'k EqualityLookup list \<Rightarrow> 'd \<times> 'd \<times> 'd
   \<Rightarrow> ('d \<times> 'd \<times> 'd) res" where
  "sum_errors dops index st [] sums = Inr sums"
| "sum_errors dops index st (l # ls) sums =
     bind_res (ix_EqualityLookup index st (lk_key l))
       (\<lambda>bound. sum_errors dops index st ls (add_error dops bound sums))"

definition do_lookups_with_error_tracking ::
  "'d double_ops \<Rightarrow> ('k, 'st) Index \<Rightarrow> 'st \<Rightarrow> ('k, 'd) Benchmark \<Rightarrow> ('k, 'd) Benchmark res" where
  "do_lookups_with_error_tracking dops index st b =
     (let opts = b_opts b; n = d_of_u64 dops (word_of_nat (length (b_lookups b)))
      in if bo_num_threads opts > 1 \<or> bo_perf opts \<or> bo_cold_cache opts \<or> bo_fence opts
         then Inl (Fail ''error tracking can not be used in combination with: num_threads_ > 1 || perf || cold_cache || fence'')
         else bind_res (sum_errors dops index st (b_lookups b) (b_log_sum b, b_l1_sum b, b_l2_sum b))
           (\<lambda>(log_sum, l1, l2).
              Inr (b\<lparr>b_log_sum := d_div dops log_sum n, b_l1_sum := d_div dops l1 n,
                    b_l2_sum := d_div dops l2 n\<rparr>)))"

section \<open>Results\<close>

datatype 'd field = FStr string | FInt int | FNat nat | FU64 u64 | FDouble 'd

definition ns_per_lookup :: "'d double_ops \<Rightarrow> ('k, 'd) Benchmark \<Rightarrow> u64 \<Rightarrow> 'd" where
  "ns_per_lookup dops b run =
     d_div dops (d_of_u64 dops run) (d_of_u64 dops (word_of_nat (length (b_lookups b))))"

text \<open>The fields of the \<open>RESULT\<close> line; no line for a failed first run.\<close>

definition print_result ::
  "'d double_ops \<Rightarrow> ('k, 'st) Index \<Rightarrow> string \<Rightarrow> 'st \<Rightarrow> ('k, 'd) Benchmark \<Rightarrow> 'd field list option res" where
  "print_result dops index searcher_name st b =
     (let opts = b_opts b; hdr = [FStr (ix_name index), FInt (ix_variant index)]
      in if bo_track_errors opts
         then Inr (Some (hdr @ [FDouble (b_log_sum b), FDouble (b_l1_sum b), FDouble (b_l2_sum b)]))
         else if bo_build opts
         then Inr (Some (hdr @ [FU64 (b_build_ns b), FNat (ix_size index st)]))
         else if bo_cold_cache opts
         then Inr (Some (hdr @ [FDouble (ns_per_lookup dops b (b_individual_ns_sum b)),
                                FNat (ix_size index st), FU64 (b_build_ns b), FStr searcher_name]))
         else bind_res (at (b_runs b) 0) (\<lambda>run0.
              Inr (if run0 \<noteq> 0
                   then Some (hdr @ map (\<lambda>run. FDouble (ns_per_lookup dops b run)) (b_runs b)
                          @ [FNat (ix_size index st), FU64 (b_build_ns b), FStr searcher_name,
                             FU64 run0, FNat (length (b_lookups b))])
                   else None)))"

text \<open>The median: the mean of the two middle elements for an even number of runs.\<close>

definition median_time :: "'d::linorder double_ops \<Rightarrow> 'd list \<Rightarrow> 'd res" where
  "median_time dops times0 =
     (let times = sort times0; n = length times
      in if n mod 2 = 0
         then if n = 0 then Inl Undefined
              else Inr (d_mul dops (d_half dops)
                          (d_add dops (times ! (n div 2 - 1)) (times ! (n div 2))))
         else Inr (times ! (n div 2)))"

definition print_result_csv ::
  "'d::linorder double_ops \<Rightarrow> ('k, 'st) Index \<Rightarrow> string \<Rightarrow> 'st \<Rightarrow> ('k, 'd) Benchmark \<Rightarrow> bool
   \<Rightarrow> 'd field list option res" where
  "print_result_csv dops index searcher_name st b is_open =
     (let opts = b_opts b; hdr = [FStr (ix_name index), FInt (ix_variant index)]
      in if \<not> is_open then Inr None
         else if bo_track_errors opts
         then Inr (Some (hdr @ [FDouble (b_log_sum b), FDouble (b_l1_sum b), FDouble (b_l2_sum b)]))
         else if bo_build opts
         then Inr (Some (hdr @ [FU64 (b_build_ns b), FNat (ix_size index st)]))
         else if bo_cold_cache opts
         then Inr (Some (hdr @ [FDouble (ns_per_lookup dops b (b_individual_ns_sum b)),
                                FNat (ix_size index st), FU64 (b_build_ns b), FStr searcher_name]))
         else bind_res (median_time dops (map (ns_per_lookup dops b) (b_runs b))) (\<lambda>m.
              bind_res (at (b_runs b) 0) (\<lambda>run0.
              Inr (if run0 \<noteq> 0
                   then Some (hdr @ [FDouble m, FNat (ix_size index st), FU64 (b_build_ns b),
                                     FStr searcher_name, FStr (b_dataset_name b)])
                   else None))))"

text \<open>The file that the CSV line is appended to.\<close>

definition csv_filename :: "('k, 'd) Benchmark \<Rightarrow> string" where
  "csv_filename b = ''./results/'' @ b_dataset_name b @ ''_results_table.csv''"

text \<open>
  \<open>PrintResult\<close>: the line and, only on the path of the main results, the line of the CSV file.
\<close>

definition print_results ::
  "'d::linorder double_ops \<Rightarrow> ('k, 'st) Index \<Rightarrow> string \<Rightarrow> 'st \<Rightarrow> ('k, 'd) Benchmark \<Rightarrow> bool
   \<Rightarrow> ('d field list option \<times> 'd field list option) res" where
  "print_results dops index searcher_name st b is_open =
     (let opts = b_opts b
      in bind_res (print_result dops index searcher_name st b) (\<lambda>line.
         if bo_csv opts \<and> \<not> (bo_track_errors opts \<or> bo_build opts \<or> bo_cold_cache opts)
         then bind_res (print_result_csv dops index searcher_name st b is_open) (\<lambda>csv. Inr (line, csv))
         else Inr (line, None)))"

section \<open>Run\<close>

text \<open>The environment of a run: what is not a member of the benchmark.\<close>

record ('k, 'st, 'd) run_env =
  re_index :: "('k, 'st) Index"
  re_searcher :: "'k searcher"
  re_searcher_name :: string
  re_rnd :: "int \<Rightarrow> int \<Rightarrow> nat \<Rightarrow> int"
  re_sort :: "'k KeyValue list \<Rightarrow> 'k KeyValue list"
  re_dops :: "'d double_ops"
  re_fast_mode :: bool
  re_build_ns :: u64
  re_clock :: "nat \<Rightarrow> u64"
  re_ns :: "nat \<Rightarrow> u64"
  re_csv_open :: bool

definition mk_loop_env :: "('k, 'st, 'd) run_env \<Rightarrow> ('k, 'd) Benchmark \<Rightarrow> bool \<Rightarrow> ('k, 'st) loop_env" where
  "mk_loop_env re b clear_cache =
     \<lparr>le_index = re_index re, le_searcher = re_searcher re, le_data = b_data b,
      le_lookups = b_lookups b, le_memory = b_memory b,
      le_write_portion = bo_write_portion (b_opts b), le_clear_cache = clear_cache,
      le_draw = re_rnd re 0 99, le_ns = re_ns re\<rparr>"

text \<open>The lookups and the result of an index that is built: members, results and lines.\<close>

definition run_built ::
  "('k::linorder, 'st, 'd::linorder) run_env \<Rightarrow> 'st \<Rightarrow> ('k, 'd) Benchmark
   \<Rightarrow> (('k, 'd) Benchmark \<times> u64 list \<times> ('d field list option \<times> 'd field list option)) res option" where
  "run_built re st b =
     (let opts = b_opts b;
          lookups = (\<lambda>clear_cache. do_equality_lookups (mk_loop_env re b clear_cache) (re_clock re) b st);
          finish = (\<lambda>(b', rs, st'). bind_res (print_results (re_dops re) (re_index re)
                         (re_searcher_name re) st' b' (re_csv_open re))
                       (\<lambda>lines. Inr (b'\<lparr>b_first_run := False\<rparr>, rs, lines)))
      in if \<not> re_fast_mode re
         then if bo_track_errors opts
              then Some (bind_res (do_lookups_with_error_tracking (re_dops re) (re_index re) st b)
                           (\<lambda>b'. Inr (b', [], (None, None))))
              else if bo_perf opts
              then map_option (\<lambda>r. bind_res r (\<lambda>(b', rs, st'). Inr (b'\<lparr>b_first_run := False\<rparr>, rs, (None, None))))
                     (lookups False)
              else if bo_cold_cache opts
              then if bo_num_threads opts > 1
                   then Some (Inl (Fail ''cold cache not supported with multiple threads''))
                   else map_option (\<lambda>r. bind_res r finish) (lookups True)
              else map_option (\<lambda>r. bind_res r finish) (lookups False)
         else if bo_perf opts \<or> bo_cold_cache opts \<or> bo_fence opts
         then Some (Inl (Fail ''Perf, cold cache, and fence mode require full builds. Disable fast mode.''))
         else map_option (\<lambda>r. bind_res r finish) (lookups False))"

definition bench_run ::
  "('l::len word, 'st, 'd::linorder) run_env \<Rightarrow> ('l word, 'd) Benchmark
   \<Rightarrow> (('l word, 'd) Benchmark \<times> u64 list \<times> ('d field list option \<times> 'd field list option)) res option" where
  "bench_run re b =
     (if \<not> ix_applicable (re_index re) (b_unique_keys b) (bo_data_filename (b_opts b))
      then Some (Inr (b, [], (None, None)))
      else let b1 = (if ix_name (re_index re) = ''PGM''
                     then b\<lparr>b_lookups := remove_forbidden (b_lookups b)\<rparr> else b);
               wp = bo_write_portion (b_opts b)
      in case (if wp > 0
               then map_option (\<lambda>r. bind_res r (\<lambda>(ix, ins).
                      Inr (b1\<lparr>b_index_data := ix, b_insertion_data := ins\<rparr>)))
                      (split_writes (re_rnd re) (re_sort re) wp (b_lookups b1) (b_index_data b1)
                         (b_insertion_data b1))
               else Some (Inr b1)) of
           None \<Rightarrow> None
         | Some (Inl e) \<Rightarrow> Some (Inl e)
         | Some (Inr b2) \<Rightarrow>
             (case ix_Build (re_index re) (b_index_data b2) of
                Inl e \<Rightarrow> Some (Inl e)
              | Inr st \<Rightarrow> run_built re st (b2\<lparr>b_build_ns := re_build_ns re\<rparr>)))"

definition uses_binary_search :: "string \<Rightarrow> bool" where
  "uses_binary_search searcher_name \<longleftrightarrow>
     searcher_name = ''BinarySearch'' \<or> searcher_name = ''BranchlessBinarySearch''"

definition uses_lienar_search :: "string \<Rightarrow> bool" where
  "uses_lienar_search searcher_name \<longleftrightarrow> searcher_name = ''LinearSearch''"

end
