(* ===== verification/Workloads.thy ===== *)
theory Workloads
  imports Benchmark StxTree
begin

text \<open>
  What the driver guarantees: the state the constructor establishes, the runs without writes
  (timed and with a cold cache, in one piece and in batches), the extraction of the entries
  to insert, and the mixed runs over an ordered multimap. The lemmas about the loop are
  stated once for a request whose effect is a function on the state.
\<close>

section \<open>The constructor\<close>

definition bench_ok :: "('k::linorder, 'd) Benchmark \<Rightarrow> bool" where
  "bench_ok b \<longleftrightarrow> sorted_rows (b_data b)
     \<and> b_data b = add_values (map row_key (b_data b))
     \<and> b_index_data b = make_index_data (b_data b) \<and> b_insertion_data b = []
     \<and> b_unique_keys b = distinct (map row_key (b_data b))
     \<and> bo_write_portion (b_opts b) \<le> 100"

lemma length_make_index_data [simp]: "length (make_index_data data) = length data"
  by (simp add: make_index_data_def)

lemma nth_make_index_data:
  "i < length data \<Longrightarrow>
   make_index_data data ! i = \<lparr>kv_key = row_key (data ! i), kv_value = word_of_nat i\<rparr>"
  by (simp add: make_index_data_def)

lemma map_kv_key_make_index_data [simp]: "map kv_key (make_index_data data) = map row_key data"
  by (rule nth_equalityI) (simp_all add: nth_make_index_data)

lemma index_input_make_index_data:
  "sorted_rows data \<Longrightarrow> length data < 2 ^ 63 \<Longrightarrow> index_input (make_index_data data)"
  by (simp add: index_input_def nth_make_index_data)

lemma bench_init_ok:
  assumes "bench_init ft dops files opts = Inr b"
  shows "bench_ok b"
  using assms
  by (auto simp: bench_init_def bench_ok_def res_simps Let_def is_unique_iff_distinct not_less
      split: if_splits)

section \<open>The loop\<close>

text \<open>\<open>f i s\<close> is the effect of request \<open>i\<close>; \<open>P\<close> is kept by every request.\<close>

lemma core_loop_fold:
  assumes "\<And>i s. idx \<le> i \<Longrightarrow> i < limit \<Longrightarrow> P s \<Longrightarrow>
      request env start i s = Some (Inr (f i s, True)) \<and> P (f i s)"
    and "P s"
  shows "core_loop env start limit idx s = Some (Inr (fold f [idx..<limit] s))
    \<and> P (fold f [idx..<limit] s)"
  using assms
proof (induction env start limit idx s rule: core_loop.induct)
  case (1 env start limit idx s)
  show ?case
  proof (cases "idx < limit")
    case True
    with "1.prems" have r: "request env start idx s = Some (Inr (f idx s, True))" "P (f idx s)"
      by simp_all
    have "core_loop env start limit (Suc idx) (f idx s)
        = Some (Inr (fold f [Suc idx..<limit] (f idx s))) \<and> P (fold f [Suc idx..<limit] (f idx s))"
      by (rule "1.IH" [OF True r(1)]) (use "1.prems" r(2) in auto)
    with True r show ?thesis
      by (simp add: core_loop.simps [of env start limit idx s] upt_conv_Cons)
  qed (use "1.prems" in \<open>simp add: core_loop.simps\<close>)
qed

lemma to_u32_id [simp]: "n < 2 ^ 32 \<Longrightarrow> to_u32 n = n"
  by (simp add: to_u32_def)

lemma batch_loop_fold:
  assumes "\<And>start i s. i < length (le_lookups env) \<Longrightarrow> P s \<Longrightarrow>
      request env start i s = Some (Inr (f i s, True)) \<and> P (f i s)"
    and "length (le_lookups env) < 2 ^ 32" and "P s"
  shows "batch_loop env b0 s = Some (Inr (fold f [b0..<length (le_lookups env)] s))
    \<and> P (fold f [b0..<length (le_lookups env)] s)"
  using assms(3)
proof (induction "length (le_lookups env) - b0" arbitrary: b0 s rule: less_induct)
  case less
  let ?n = "length (le_lookups env)"
  show ?case
  proof (cases "?n \<le> b0")
    case True
    then show ?thesis using less.prems by (simp add: batch_loop.simps [of env b0])
  next
    case False
    let ?limit = "min (b0 + batch_size) ?n"
    have upt: "[b0..<?n] = [b0..<?limit] @ [?limit..<?n]"
      using False upt_add_eq_append [of b0 ?limit "?n - ?limit"] by (simp add: batch_size_def)
    have u: "to_u32 b0 = b0" "to_u32 ?limit = ?limit"
      using False assms(2) by (simp_all add: min_def)
    have core: "core_loop env b0 ?limit b0 s = Some (Inr (fold f [b0..<?limit] s))
        \<and> P (fold f [b0..<?limit] s)"
      by (rule core_loop_fold) (use assms(1) less.prems in auto)
    have "?n - (b0 + batch_size) < ?n - b0" using False by (simp add: batch_size_def)
    from less.hyps [OF this] core
    have rest: "batch_loop env (b0 + batch_size) (fold f [b0..<?limit] s)
          = Some (Inr (fold f [b0 + batch_size..<?n] (fold f [b0..<?limit] s)))
        \<and> P (fold f [b0 + batch_size..<?n] (fold f [b0..<?limit] s))" by blast
    have "[?limit..<?n] = [b0 + batch_size..<?n]" by (auto simp: min_def)
    with core rest False show ?thesis
      unfolding upt by (simp add: batch_loop.simps [of env b0] equality_lookups_core_loop_def u)
  qed
qed

lemma one_repeat_fold:
  assumes "\<And>start i s. i < length (le_lookups env) \<Longrightarrow> P s \<Longrightarrow>
      request env start i s = Some (Inr (f i s, True)) \<and> P (f i s)"
    and n: "length (le_lookups env) < 2 ^ 32"
    and "P (s\<lparr>ls_random_sum := 0, ls_individual_ns_sum := 0\<rparr>)"
  shows "one_repeat env t s = Some (Inr (fold f [0..<length (le_lookups env)]
      (s\<lparr>ls_random_sum := 0, ls_individual_ns_sum := 0\<rparr>)))
    \<and> P (fold f [0..<length (le_lookups env)] (s\<lparr>ls_random_sum := 0, ls_individual_ns_sum := 0\<rparr>))"
proof -
  let ?s = "s\<lparr>ls_random_sum := 0, ls_individual_ns_sum := 0\<rparr>"
  have "core_loop env 0 (length (le_lookups env)) 0 ?s
      = Some (Inr (fold f [0..<length (le_lookups env)] ?s))
    \<and> P (fold f [0..<length (le_lookups env)] ?s)"
    by (rule core_loop_fold) (use assms in auto)
  moreover have "batch_loop env 0 ?s = Some (Inr (fold f [0..<length (le_lookups env)] ?s))
    \<and> P (fold f [0..<length (le_lookups env)] ?s)"
    by (rule batch_loop_fold) (use assms in auto)
  ultimately show ?thesis
    using n by (simp add: one_repeat_def Let_def equality_lookups_core_loop_def)
qed

text \<open>
  The repetitions, when each request of the run appends the result \<open>r i\<close> and keeps \<open>P\<close>,
  which does not depend on the sums and excludes a failure.
\<close>

definition steady ::
  "('k::linorder, 'st) loop_env \<Rightarrow> (nat \<Rightarrow> ('k, 'st) loop_state \<Rightarrow> ('k, 'st) loop_state)
   \<Rightarrow> (nat \<Rightarrow> u64) \<Rightarrow> (('k, 'st) loop_state \<Rightarrow> bool) \<Rightarrow> bool" where
  "steady env f r P \<longleftrightarrow> length (le_lookups env) < 2 ^ 32
     \<and> (\<forall>start i s. i < length (le_lookups env) \<longrightarrow> P s \<longrightarrow>
          request env start i s = Some (Inr (f i s, True)) \<and> P (f i s))
     \<and> (\<forall>i s. ls_results (f i s) = ls_results s @ [r i])
     \<and> (\<forall>s. P s \<longrightarrow> \<not> ls_run_failed s
          \<and> P (s\<lparr>ls_random_sum := 0, ls_individual_ns_sum := 0\<rparr>))"

lemma fold_results:
  "(\<And>i s. ls_results (f i s) = ls_results s @ [r i]) \<Longrightarrow>
   ls_results (fold f is s) = ls_results s @ map r is"
  by (induction "is" arbitrary: s) auto

lemma steady_one_repeat:
  assumes "steady env f r P" and "P s"
  obtains s' where "one_repeat env t s = Some (Inr s')" and "P s'"
    and "ls_results s' = ls_results s @ map r [0..<length (le_lookups env)]"
proof -
  let ?s = "s\<lparr>ls_random_sum := 0, ls_individual_ns_sum := 0\<rparr>"
  let ?f = "fold f [0..<length (le_lookups env)] ?s"
  have "one_repeat env t s = Some (Inr ?f) \<and> P ?f"
    by (rule one_repeat_fold) (use assms in \<open>auto simp: steady_def\<close>)
  moreover have "ls_results ?f = ls_results s @ map r [0..<length (le_lookups env)]"
    using assms(1) fold_results [of f r "[0..<length (le_lookups env)]" ?s] by (simp add: steady_def)
  ultimately show thesis using that by blast
qed

lemma steady_repeat_loop:
  assumes steady: "steady env f r P"
  shows "P s \<Longrightarrow> length runs = n \<Longrightarrow> i \<le> n \<Longrightarrow>
    \<exists>s'. repeat_loop env t clock n i runs s = Some (Inr (take i runs @ map clock [i..<n], s')) \<and> P s'
      \<and> ls_results s' = ls_results s @ concat (replicate (n - i) (map r [0..<length (le_lookups env)]))"
proof (induction "n - i" arbitrary: i runs s)
  case 0
  then have i: "i = n" by simp
  have "repeat_loop env t clock n n runs s = Some (Inr (runs, s))" by (simp add: repeat_loop.simps)
  with 0 show ?case unfolding i by simp
next
  case (Suc m)
  obtain s1 where s1: "one_repeat env t s = Some (Inr s1)" "P s1"
    and r1: "ls_results s1 = ls_results s @ map r [0..<length (le_lookups env)]"
    using steady_one_repeat [OF steady Suc.prems(1)] .
  have ok: "\<not> ls_run_failed s1" using steady s1(2) by (simp add: steady_def)
  have i: "i < n" and m: "m = n - Suc i" using Suc.hyps(2) by simp_all
  obtain s' where s': "repeat_loop env t clock n (Suc i) (runs[i := clock i]) s1
      = Some (Inr (take (Suc i) (runs[i := clock i]) @ map clock [Suc i..<n], s'))" "P s'"
    and r': "ls_results s' = ls_results s1 @ concat (replicate (n - Suc i) (map r [0..<length (le_lookups env)]))"
    using Suc.hyps(1) [OF m s1(2), of "runs[i := clock i]"] Suc.prems i by auto
  have "take (Suc i) (runs[i := clock i]) @ map clock [Suc i..<n] = take i runs @ map clock [i..<n]"
    using i Suc.prems(2) by (simp add: take_Suc_conv_app_nth upt_conv_Cons)
  moreover have "n - i = Suc (n - Suc i)" using i by simp
  ultimately show ?case
    using s1(1) ok i s' r' r1 by (simp add: repeat_loop.simps [of env t clock n i])
qed

lemma steady_do_lookups:
  assumes "steady env f r P" and "\<not> bo_build (b_opts b)"
    and "P \<lparr>ls_index = st, ls_insertion = b_insertion_data b, ls_random_sum = b_random_sum b,
           ls_individual_ns_sum = b_individual_ns_sum b, ls_results = [], ls_run_failed = False\<rparr>"
    and n: "n = bo_num_repeats (b_opts b)"
  shows "\<exists>b' st'. do_equality_lookups env clock b st
      = Some (Inr (b', concat (replicate n (map r [0..<length (le_lookups env)])), st'))
    \<and> b_runs b' = map clock [0..<n] \<and> b_opts b' = b_opts b"
proof -
  have "length (resize n (b_runs b)) = n" by (simp add: resize_def)
  from steady_repeat_loop [OF assms(1,3) this, of 0 "bo_num_threads (b_opts b)" clock]
  show ?thesis using assms(2) n by (auto simp: do_equality_lookups_def)
qed

section \<open>Lookups that are served\<close>

definition served :: "('k::linorder, 'st) Index \<Rightarrow> 'st \<Rightarrow> 'k Row list \<Rightarrow> 'k \<Rightarrow> bool" where
  "served ix st data k \<longleftrightarrow>
     (\<exists>b. ix_EqualityLookup ix st k = Inr b \<and> encloses b (row_lb data k) (length data))"

lemma inline_search_right:
  assumes s: "sorted_rows data" and n: "length data < 2 ^ 31"
    and b: "encloses bound (row_lb data k) (length data)"
  shows "inline_search data k bound = Inr (lookup_sum data k)"
proof -
  have stop: "to_int32 (int (if length data < sb_stop bound then length data else sb_stop bound))
      = int (sb_stop bound)"
    using b n by (simp add: encloses_def to_int32_nat)
  have "lower_bound (\<lambda>r. row_key r < k) data (sb_start bound) (sb_stop bound) = row_lb data k"
    using b by (simp add: encloses_def lower_bound_key [OF s])
  then show ?thesis
    unfolding inline_search_def Let_def stop
    using b by (simp add: encloses_def sum_run_lb [OF s])
qed

text \<open>The effect of a timed lookup and of a lookup with a cold cache.\<close>

definition read_effect ::
  "('k, 'st) loop_env \<Rightarrow> nat \<Rightarrow> ('k, 'st) loop_state \<Rightarrow> ('k, 'st) loop_state" where
  "read_effect env i s =
     s\<lparr>ls_results := ls_results s @ [lookup_sum (le_data env) (lk_key (le_lookups env ! i))]\<rparr>"

definition cold_effect ::
  "('k, 'st) loop_env \<Rightarrow> nat \<Rightarrow> ('k, 'st) loop_state \<Rightarrow> ('k, 'st) loop_state" where
  "cold_effect env i s =
     s\<lparr>ls_random_sum := foldl (+) (ls_random_sum s) (le_memory env),
       ls_individual_ns_sum := ls_individual_ns_sum s + le_ns env i,
       ls_results := ls_results s @ [lookup_sum (le_data env) (lk_key (le_lookups env ! i))]\<rparr>"

lemma read_request_right:
  assumes "sorted_rows (le_data env)" and "length (le_data env) < 2 ^ 31"
    and "served (le_index env) (ls_index s) (le_data env) (lk_key (le_lookups env ! i))"
  shows "read_request env (le_lookups env ! i) s = Inr (read_effect env i s)"
  using assms by (auto simp: served_def read_request_def read_effect_def inline_search_right)

lemma steady_read:
  fixes env :: "('a::linorder, 'b) loop_env"
  assumes "sorted_rows (le_data env)" and "length (le_data env) < 2 ^ 31"
    and "length (le_lookups env) < 2 ^ 32"
    and served: "\<And>l. l \<in> set (le_lookups env) \<Longrightarrow> served (le_index env) st (le_data env) (lk_key l)"
    and wp: "le_write_portion env = 0" "\<And>i. 0 \<le> le_draw env i" and "\<not> le_clear_cache env"
  shows "steady env (read_effect env)
    (\<lambda>i. lookup_sum (le_data env) (lk_key (le_lookups env ! i)))
    (\<lambda>s. ls_index s = st \<and> \<not> ls_run_failed s)"
  unfolding steady_def
proof (intro conjI allI impI)
  fix start i and s :: "('a, 'b) loop_state" assume i: "i < length (le_lookups env)" and s: "ls_index s = st \<and> \<not> ls_run_failed s"
  have "served (le_index env) (ls_index s) (le_data env) (lk_key (le_lookups env ! i))"
    using served i s by simp
  from read_request_right [OF assms(1,2) this] i wp(1) wp(2) [of "i - start"] assms(7)
  show "request env start i s = Some (Inr (read_effect env i s, True))"
    by (simp add: request_def not_less)
qed (use assms in \<open>auto simp: read_effect_def\<close>)

definition found :: "('k, 'st) loop_env \<Rightarrow> 'st \<Rightarrow> 'k \<Rightarrow> bool" where
  "found env st k \<longleftrightarrow> (\<exists>b q. ix_EqualityLookup (le_index env) st k = Inr b
     \<and> le_searcher env (le_data env) k (sb_start b) (sb_stop b)
         = Some (Inr (lookup_sum (le_data env) k, q)))"

lemma steady_cold:
  fixes env :: "('a::linorder, 'b) loop_env"
  assumes "length (le_lookups env) < 2 ^ 32" and clear: "le_clear_cache env"
    and found: "\<And>l. l \<in> set (le_lookups env) \<Longrightarrow>
      found env st (lk_key l) \<and> lk_result l = lookup_sum (le_data env) (lk_key l)"
  shows "steady env (cold_effect env)
    (\<lambda>i. lookup_sum (le_data env) (lk_key (le_lookups env ! i)))
    (\<lambda>s. ls_index s = st \<and> \<not> ls_run_failed s)"
  unfolding steady_def
proof (intro conjI allI impI)
  fix start i and s :: "('a, 'b) loop_state" assume i: "i < length (le_lookups env)" and s: "ls_index s = st \<and> \<not> ls_run_failed s"
  let ?l = "le_lookups env ! i"
  have "found env st (lk_key ?l)" and "lk_result ?l = lookup_sum (le_data env) (lk_key ?l)"
    using found [of ?l] i by auto
  then show "request env start i s = Some (Inr (cold_effect env i s, True))"
    using i s clear
    by (auto simp: request_def cold_request_def found_def cold_effect_def check_results_def Let_def)
qed (use assms in \<open>auto simp: cold_effect_def\<close>)

section \<open>Forbidden keys\<close>

lemma erase_lookups_eq: "erase_lookups key ls = filter (\<lambda>l. ucast (lk_key l) \<noteq> key) ls"
proof (induction key ls rule: erase_lookups.induct)
  case (1 key ls)
  let ?p = "\<lambda>l. ucast (lk_key l) = key"
  define i where "i = find_if ?p ls 0 (length ls)"
  have i: "i = lb (\<lambda>l. \<not> ?p l) ls"
    using find_if_lb [of "\<lambda>l. \<not> ?p l" ls] by (simp add: i_def)
  have before: "ucast (lk_key l) \<noteq> key" if "l \<in> set (take i ls)" for l
    using that lb_nth [of _ "\<lambda>l. \<not> ?p l" ls] unfolding i by (auto simp: in_set_conv_nth)
  show ?case
  proof (cases "length ls \<le> i")
    case True
    then have "\<forall>l \<in> set ls. ucast (lk_key l) \<noteq> key" using before by simp
    with True show ?thesis by (simp add: erase_lookups.simps [of key ls] i_def [symmetric])
  next
    case False
    then have hit: "ucast (lk_key (ls ! i)) = key"
      using lb_at [of "\<lambda>l. \<not> ?p l" ls] unfolding i by simp
    have "ls = take i ls @ ls ! i # drop (Suc i) ls" using False by (simp add: id_take_nth_drop)
    from arg_cong [OF this, of "filter (\<lambda>l. ucast (lk_key l) \<noteq> key)"] hit
    have "filter (\<lambda>l. ucast (lk_key l) \<noteq> key) ls
        = filter (\<lambda>l. ucast (lk_key l) \<noteq> key) (take i ls @ drop (Suc i) ls)" by simp
    with "1.IH" [OF i_def False] have "erase_lookups key (take i ls @ drop (Suc i) ls)
        = filter (\<lambda>l. ucast (lk_key l) \<noteq> key) ls" by simp
    then show ?thesis
      unfolding erase_lookups.simps [of key ls] Let_def i_def [symmetric] using False by simp
  qed
qed

lemma remove_forbidden_eq:
  "remove_forbidden ls = filter (\<lambda>l. ucast (lk_key l) \<notin> set forbidden_keys) ls"
  unfolding remove_forbidden_def forbidden_keys_def foldl.simps erase_lookups_eq filter_filter
  by (rule filter_cong) auto

section \<open>Runs without writes\<close>

lemma print_result_total:
  "b_runs b \<noteq> [] \<or> bo_track_errors (b_opts b) \<or> bo_build (b_opts b) \<or> bo_cold_cache (b_opts b) \<Longrightarrow>
   \<exists>line. print_result dops ix name st b = Inr line"
  by (cases "b_runs b") (auto simp: print_result_def Let_def)

lemma median_time_total: "ts \<noteq> [] \<Longrightarrow> \<exists>m. median_time dops ts = Inr m"
  by (simp add: median_time_def Let_def)

lemma print_result_csv_total:
  assumes "b_runs b \<noteq> []"
  shows "\<exists>line. print_result_csv dops ix name st b is_open = Inr line"
proof -
  obtain m where "median_time dops (map (ns_per_lookup dops b) (b_runs b)) = Inr m"
    using median_time_total [of "map (ns_per_lookup dops b) (b_runs b)"] assms by auto
  moreover obtain r where "at (b_runs b) 0 = Inr r" using assms by simp
  ultimately show ?thesis unfolding print_result_csv_def Let_def by simp
qed

lemma print_results_total:
  assumes "b_runs b \<noteq> [] \<or> bo_track_errors (b_opts b) \<or> bo_build (b_opts b) \<or> bo_cold_cache (b_opts b)"
  obtains lines where "print_results dops ix name st b is_open = Inr lines"
proof -
  obtain l where l: "print_result dops ix name st b = Inr l" 
    using print_result_total [OF assms, of dops ix name st] by blast
  show thesis
  proof (cases "bo_csv (b_opts b) \<and> \<not> (bo_track_errors (b_opts b) \<or> bo_build (b_opts b) \<or> bo_cold_cache (b_opts b))")
    case True
    with assms have "b_runs b \<noteq> []" by blast
    then obtain c where "print_result_csv dops ix name st b is_open = Inr c"
      using print_result_csv_total [of b dops ix name st is_open] by blast
    with l True have "print_results dops ix name st b is_open = Inr (l, c)"
      unfolding print_results_def Let_def by simp
    then show thesis by (rule that)
  next
    case False
    with l have "print_results dops ix name st b is_open = Inr (l, None)"
      unfolding print_results_def Let_def by auto
    then show thesis by (rule that)
  qed
qed

definition run_lookups :: "('l::len word, 'st, 'd) run_env \<Rightarrow> ('l word, 'd) Benchmark \<Rightarrow> 'l word EqualityLookup list" where
  "run_lookups re b = (if ix_name (re_index re) = ''PGM'' then remove_forbidden (b_lookups b) else b_lookups b)"

lemma run_lookups_subset: "set (run_lookups re b) \<subseteq> set (b_lookups b)"
  and length_run_lookups: "length (run_lookups re b) \<le> length (b_lookups b)"
  by (auto simp: run_lookups_def remove_forbidden_eq)

text \<open>A run without writes builds the index on \<open>index_data_\<close> and goes on.\<close>

lemma bench_run_read_only:
  assumes "ix_applicable (re_index re) (b_unique_keys b) (bo_data_filename (b_opts b))"
    and "bo_write_portion (b_opts b) = 0"
    and "ix_Build (re_index re) (b_index_data b) = Inr st"
  shows "bench_run re b = run_built re st (b\<lparr>b_lookups := run_lookups re b, b_build_ns := re_build_ns re\<rparr>)"
  using assms by (simp add: bench_run_def run_lookups_def Let_def)

lemma map_nth_lookups: "map (\<lambda>i. g (xs ! i)) [0..<length xs] = map g xs"
  by (rule nth_equalityI) simp_all

lemma timed_run_built:
  assumes sorted: "sorted_rows (b_data b)" and n: "length (b_data b) < 2 ^ 31" "length (b_lookups b) < 2 ^ 32"
    and opts: "bo_write_portion (b_opts b) = 0" "\<not> bo_build (b_opts b)" "\<not> bo_track_errors (b_opts b)"
      "\<not> bo_perf (b_opts b)" "\<not> bo_cold_cache (b_opts b)" "\<not> bo_fence (b_opts b)"
      "0 < bo_num_repeats (b_opts b)"
    and rnd: "uniform (re_rnd re)"
    and served: "\<And>l. l \<in> set (b_lookups b) \<Longrightarrow> served (re_index re) st (b_data b) (lk_key l)"
  shows "\<exists>b' lines. run_built re st b = Some (Inr (b',
      concat (replicate (bo_num_repeats (b_opts b)) (map (\<lambda>l. lookup_sum (b_data b) (lk_key l)) (b_lookups b))), lines))
    \<and> b_runs b' = map (re_clock re) [0..<bo_num_repeats (b_opts b)]"
proof -
  let ?env = "mk_loop_env re b False" and ?n = "bo_num_repeats (b_opts b)"
  have "steady ?env (read_effect ?env) (\<lambda>i. lookup_sum (le_data ?env) (lk_key (le_lookups ?env ! i)))
      (\<lambda>s. ls_index s = st \<and> \<not> ls_run_failed s)"
    by (rule steady_read) (use assms in \<open>auto simp: mk_loop_env_def uniform_def\<close>)
  from steady_do_lookups [OF this opts(2) _ refl, of st "re_clock re"]
  obtain b' st' where b': "do_equality_lookups ?env (re_clock re) b st = Some (Inr (b', concat (replicate ?n
        (map (\<lambda>l. lookup_sum (b_data b) (lk_key l)) (b_lookups b))), st'))"
      "b_runs b' = map (re_clock re) [0..<?n]" "b_opts b' = b_opts b"
    using map_nth_lookups [of "\<lambda>l. lookup_sum (b_data b) (lk_key l)" "b_lookups b"]
    by (auto simp: mk_loop_env_def)
  have "b_runs b' \<noteq> []" using b'(2) opts(7) by simp
  then obtain lines where "print_results (re_dops re) (re_index re) (re_searcher_name re) st' b' (re_csv_open re) = Inr lines"
    using print_results_total [of b' "re_dops re" "re_index re" "re_searcher_name re" st' "re_csv_open re"]
    by blast
  with b' opts show ?thesis by (simp add: run_built_def Let_def)
qed

lemma cold_run_built:
  assumes n: "length (b_lookups b) < 2 ^ 32"
    and opts: "\<not> bo_build (b_opts b)" "\<not> bo_track_errors (b_opts b)" "\<not> bo_perf (b_opts b)"
      "bo_cold_cache (b_opts b)" "bo_num_threads (b_opts b) \<le> 1" "\<not> re_fast_mode re"
    and found: "\<And>l. l \<in> set (b_lookups b) \<Longrightarrow>
      found (mk_loop_env re b True) st (lk_key l) \<and> lk_result l = lookup_sum (b_data b) (lk_key l)"
  shows "\<exists>b' lines. run_built re st b = Some (Inr (b',
      concat (replicate (bo_num_repeats (b_opts b)) (map (\<lambda>l. lookup_sum (b_data b) (lk_key l)) (b_lookups b))), lines))
    \<and> b_runs b' = map (re_clock re) [0..<bo_num_repeats (b_opts b)]"
proof -
  let ?env = "mk_loop_env re b True" and ?n = "bo_num_repeats (b_opts b)"
  have "steady ?env (cold_effect ?env) (\<lambda>i. lookup_sum (le_data ?env) (lk_key (le_lookups ?env ! i)))
      (\<lambda>s. ls_index s = st \<and> \<not> ls_run_failed s)"
    by (rule steady_cold) (use n found in \<open>auto simp: mk_loop_env_def\<close>)
  from steady_do_lookups [OF this opts(1) _ refl, of st "re_clock re"]
  obtain b' st' where b': "do_equality_lookups ?env (re_clock re) b st = Some (Inr (b', concat (replicate ?n
        (map (\<lambda>l. lookup_sum (b_data b) (lk_key l)) (b_lookups b))), st'))"
      "b_runs b' = map (re_clock re) [0..<?n]" "b_opts b' = b_opts b"
    using map_nth_lookups [of "\<lambda>l. lookup_sum (b_data b) (lk_key l)" "b_lookups b"]
    by (auto simp: mk_loop_env_def)
  have "bo_cold_cache (b_opts b')" using b'(3) opts(4) by simp
  then obtain lines where "print_results (re_dops re) (re_index re) (re_searcher_name re) st' b' (re_csv_open re) = Inr lines"
    using print_results_total [of b' "re_dops re" "re_index re" "re_searcher_name re" st' "re_csv_open re"]
    by blast
  with b' opts show ?thesis by (simp add: run_built_def Let_def not_less)
qed

lemma contract_serves:
  assumes "index_contract (ix_Build ix) (ix_EqualityLookup ix) supports answers"
    and ok: "bench_ok b" "length (b_data b) < 2 ^ 31" and sup: "supports (b_index_data b)"
  obtains st where "ix_Build ix (b_index_data b) = Inr st"
    and "\<And>k. answers (b_index_data b) k \<Longrightarrow> served ix st (b_data b) k"
proof -
  have input: "index_input (b_index_data b)"
    using ok by (simp add: bench_ok_def index_input_make_index_data)
  obtain st where st: "ix_Build ix (b_index_data b) = Inr st"
    using index_contract.build_total [OF assms(1) input sup] by blast
  have keys: "map kv_key (b_index_data b) = map row_key (b_data b)"
    using ok by (simp add: bench_ok_def)
  have "served ix st (b_data b) k" if "answers (b_index_data b) k" for k
    using index_contract.lookup_encloses [OF assms(1) input sup st that] kv_lb_of_rows [OF keys, of k]
      arg_cong [OF keys, of length] by (simp add: served_def)
  with st that show thesis by blast
qed

section \<open>Negative lookups with a cold cache\<close>

text \<open>The first lookup whose expected result is not the sum ends the loop.\<close>

lemma core_loop_rejects:
  assumes clear: "le_clear_cache env" and limit: "limit \<le> length (le_lookups env)"
    and found: "\<And>l. l \<in> set (le_lookups env) \<Longrightarrow> found env st (lk_key l)"
  shows "ls_index s = st \<Longrightarrow> idx \<le> i \<Longrightarrow> i < limit \<Longrightarrow>
    lk_result (le_lookups env ! i) \<noteq> lookup_sum (le_data env) (lk_key (le_lookups env ! i)) \<Longrightarrow>
    \<exists>s'. core_loop env start limit idx s = Some (Inr s') \<and> ls_run_failed s'"
proof (induction "limit - idx" arbitrary: idx s)
  case (Suc m)
  let ?l = "le_lookups env ! idx"
  have idx: "idx < limit" "idx < length (le_lookups env)" using Suc limit by simp_all
  then have "found env st (lk_key ?l)" by (intro found) simp
  then obtain bd q where look: "ix_EqualityLookup (le_index env) st (lk_key ?l) = Inr bd"
    "le_searcher env (le_data env) (lk_key ?l) (sb_start bd) (sb_stop bd)
       = Some (Inr (lookup_sum (le_data env) (lk_key ?l), q))" by (auto simp: found_def)
  show ?case
  proof (cases "lk_result ?l = lookup_sum (le_data env) (lk_key ?l)")
    case True
    then have r: "request env start idx s = Some (Inr (cold_effect env idx s, True))"
      using look idx clear Suc.prems(1)
      by (simp add: request_def cold_request_def cold_effect_def check_results_def Let_def)
    have "idx \<noteq> i" using True Suc.prems(4) by blast
    then have "\<exists>s'. core_loop env start limit (Suc idx) (cold_effect env idx s) = Some (Inr s') \<and> ls_run_failed s'"
      by (intro Suc.hyps(1)) (use Suc in \<open>auto simp: cold_effect_def\<close>)
    with r idx show ?thesis by (simp add: core_loop.simps [of env start limit idx])
  next
    case False
    then have "\<exists>s'. request env start idx s = Some (Inr (s', False)) \<and> ls_run_failed s'"
      using look idx clear Suc.prems(1)
      by (auto simp: request_def cold_request_def check_results_def Let_def)
    with idx show ?thesis by (auto simp: core_loop.simps [of env start limit idx])
  qed
qed simp

section \<open>Extraction of the entries to insert\<close>

lemma mset_remove_swap:
  assumes "p < length xs"
  shows "mset (butlast (xs[p := last xs])) = mset xs - {#xs ! p#}"
proof -
  have ne: "xs \<noteq> []" using assms by auto
  show ?thesis
  proof (cases "p = length xs - 1")
    case True
    then have "xs[p := last xs] = xs" using ne by (simp add: last_conv_nth)
    moreover have "mset xs = mset (butlast xs) + {#last xs#}"
      using ne by (metis append_butlast_last_id mset_append mset_single_iff_right)
    ultimately show ?thesis using True ne by (simp add: last_conv_nth)
  next
    case False
    with assms have p: "p < length (butlast xs)" by simp
    have "xs[p := last xs] = (butlast xs)[p := last xs] @ [last xs]"
      using ne p by (metis append_butlast_last_id list_update_append1)
    then have "butlast (xs[p := last xs]) = (butlast xs)[p := last xs]" by simp
    moreover have "mset xs = mset (butlast xs) + {#last xs#}"
      using ne by (metis append_butlast_last_id mset_append mset_single_iff_right)
    moreover have "butlast xs ! p = xs ! p" using p by (simp add: nth_butlast)
    moreover obtain M where "mset (butlast xs) = add_mset (butlast xs ! p) M"
      using p nth_mem_mset [OF p] by (meson multi_member_split)
    ultimately show ?thesis using p by (simp add: mset_update)
  qed
qed

lemma extract_ids_right:
  assumes "sorted (rev ids)" and "distinct ids" and "\<forall>p \<in> set ids. p < length ix"
  shows "\<exists>left. extract_ids ids ix ins = Inr (left, ins @ map (\<lambda>p. ix ! p) ids)
    \<and> mset left + mset (map (\<lambda>p. ix ! p) ids) = mset ix"
  using assms
proof (induction ids arbitrary: ix ins)
  case (Cons p ids)
  let ?ix = "butlast (ix[p := last ix])"
  have p: "p < length ix" using Cons.prems by simp
  have below: "q < p" if "q \<in> set ids" for q
    using Cons.prems that by (auto simp: sorted_append order_less_le)
  have keep: "?ix ! q = ix ! q" if "q \<in> set ids" for q
    using below [OF that] p by (simp add: nth_butlast)
  have bounds: "\<forall>q \<in> set ids. q < length ?ix" using below p by fastforce
  obtain left where left: "extract_ids ids ?ix (ins @ [ix ! p])
      = Inr (left, (ins @ [ix ! p]) @ map (\<lambda>q. ?ix ! q) ids)"
    "mset left + mset (map (\<lambda>q. ?ix ! q) ids) = mset ?ix"
    using Cons.IH [of ?ix "ins @ [ix ! p]"] Cons.prems bounds by (auto simp: sorted_append)
  have same: "map (\<lambda>q. ?ix ! q) ids = map (\<lambda>q. ix ! q) ids" using keep by simp
  have "mset left + mset (map (\<lambda>q. ix ! q) ids) = mset ix - {#ix ! p#}"
    using left(2) mset_remove_swap [OF p] unfolding same by simp
  then have "mset left + mset (map (\<lambda>q. ix ! q) (p # ids)) = mset ix"
    using p by (simp add: nth_mem_mset)
  with left(1) p show ?case unfolding same by simp
qed simp

lemma gather_ids_right:
  assumes "gather_ids draw accept target i S = Some (Inr T)"
    and "distinct S" and "\<forall>p \<in> set S. accept p = Inr True \<and> p \<in> range draw" and "length S \<le> target"
  shows "distinct T \<and> (\<forall>p \<in> set T. accept p = Inr True \<and> p \<in> range draw) \<and> length T = target"
proof -
  have "Inr T = r \<Longrightarrow> distinct S \<Longrightarrow> \<forall>p \<in> set S. accept p = Inr True \<and> p \<in> range draw \<Longrightarrow> length S \<le> target
      \<Longrightarrow> distinct T \<and> (\<forall>p \<in> set T. accept p = Inr True \<and> p \<in> range draw) \<and> length T = target"
    if "gather_ids draw accept target i S = Some r" for r
    using that
  proof (induction draw accept target i S r rule: gather_ids.raw_induct [rotated, consumes 1, case_names 1])
    case (1 f draw accept target i S r)
    from 1(2-) show ?case
      by (auto split: if_splits sum.splits) (drule 1(1); auto simp: List.insert_def split: if_splits)+
  qed
  with assms show ?thesis by blast
qed

lemma std_unique_erase_distinct: "distinct xs \<Longrightarrow> std_unique_erase xs = xs"
  unfolding std_unique_erase_remdups_adj
  by (induction xs rule: remdups_adj.induct) auto

lemma gather_ids_no_error:
  assumes "gather_ids draw accept target i S = Some (Inl e)" and "\<forall>j. \<exists>b. accept (draw j) = Inr b"
  shows False
proof -
  have "r = Inl e \<Longrightarrow> \<forall>j. \<exists>b. accept (draw j) = Inr b \<Longrightarrow> False"
    if "gather_ids draw accept target i S = Some r" for r
    using that
  proof (induction draw accept target i S r rule: gather_ids.raw_induct [rotated, consumes 1, case_names 1])
    case (1 f draw accept target i S r)
    from 1(4) obtain b where "accept (draw i) = Inr b" by blast
    with 1(2-) show ?case by (auto split: if_splits) (drule 1(1); blast)+
  qed
  with assms show False by blast
qed

lemma uniform_draw:
  assumes "uniform rnd" and "0 < n" and "n < 2 ^ 31"
  shows "to_int32 (int n - 1) = int n - 1" and "nat (rnd 0 (int n - 1) i) < n"
proof -
  have eq: "int n - 1 = int (n - 1)" using assms(2) by linarith
  show "to_int32 (int n - 1) = int n - 1"
    unfolding eq by (rule to_int32_nat) (use assms(3) in linarith)
  have "0 \<le> rnd 0 (int n - 1) i \<and> rnd 0 (int n - 1) i \<le> int n - 1"
    using assms(1) [unfolded uniform_def, rule_format, of 0 "int n - 1" i] assms(2) by linarith
  then show "nat (rnd 0 (int n - 1) i) < n" by linarith
qed

lemma split_writes_right:
  assumes run: "split_writes rnd srt wp lookups ix ins0 = Some (Inr (ix', ins))"
    and "sorts srt" and u: "uniform rnd" and n: "length ix < 2 ^ 31"
  shows "\<exists>new. ins = ins0 @ new \<and> length new = ids_wanted (length lookups) wp \<and> new \<noteq> []
    \<and> sorted_by kv_key ix' \<and> ix' \<noteq> [] \<and> mset ix' + mset new = mset ix
    \<and> (wp \<noteq> 100 \<longrightarrow> (\<forall>kv \<in> set new. kv_key kv \<notin> lk_key ` set lookups))"
proof -
  let ?t = "ids_wanted (length lookups) wp" and ?acc = "accepts_id lookups wp ix"
  have pos: "0 < length ix"
  proof (rule ccontr)
    assume "\<not> 0 < length ix"
    moreover have "to_int32 (- 1) = - 1" by (simp add: to_int32_def)
    ultimately show False using run by (simp add: split_writes_def)
  qed
  note hi = uniform_draw(1) [OF u pos n] and draw = uniform_draw(2) [OF u pos n]
  let ?draw = "\<lambda>i. nat (rnd 0 (int (length ix) - 1) i)"
  obtain S left where S: "gather_ids ?draw ?acc ?t 0 [] = Some (Inr S)"
    and ne: "S \<noteq> []"
    and ext: "extract_ids (std_unique_erase (rev (sort S))) ix ins0 = Inr (left, ins)"
    and srt: "ix' = srt left" "srt left \<noteq> []"
    using run pos by (auto simp: split_writes_def Let_def hi res_simps split: if_splits)
  from gather_ids_right [OF S] have T: "distinct S" "length S = ?t"
    "\<And>p. p \<in> set S \<Longrightarrow> ?acc p = Inr True" "\<And>p. p \<in> set S \<Longrightarrow> p \<in> range ?draw" by auto
  let ?ids = "rev (sort S)"
  have d: "distinct ?ids" using T(1) by simp
  have range: "\<forall>p \<in> set ?ids. p < length ix" using T(4) draw by fastforce
  obtain left' where "extract_ids ?ids ix ins0 = Inr (left', ins0 @ map (\<lambda>p. ix ! p) ?ids)"
    and ms: "mset left' + mset (map (\<lambda>p. ix ! p) ?ids) = mset ix"
    using extract_ids_right [OF _ d range, of ins0] by auto
  with ext d have left: "left' = left" "ins = ins0 @ map (\<lambda>p. ix ! p) ?ids"
    by (simp_all add: std_unique_erase_distinct)
  have "kv_key (ix ! p) \<notin> lk_key ` set lookups" if "p \<in> set S" "wp \<noteq> 100" for p
    using T(3) [OF that(1)] that range by (auto simp: accepts_id_def)
  moreover have "sorted_by kv_key ix'" "mset ix' = mset left"
    using assms(2) srt by (simp_all add: sorts_def)
  moreover have "?ids \<noteq> []" using ne by (metis rev_is_Nil_conv set_empty set_sort)
  ultimately show ?thesis
    using left ms T(2) srt by (intro exI [of _ "map (\<lambda>p. ix ! p) ?ids"]) auto
qed

section \<open>Mixed runs over an ordered multimap\<close>

text \<open>The index class of the STX B-tree as the driver sees it.\<close>

definition stx_Index ::
  "('k::linorder, 'm) multimap_ops \<Rightarrow> nat \<Rightarrow> ('m \<Rightarrow> nat) \<Rightarrow> ('k, 'm MultimapIndex) Index" where
  "stx_Index ops size_scale sz =
     \<lparr>ix_name = ''BTree'', ix_variant = int size_scale, ix_applicable = base_applicable,
      ix_Build = stx_Build ops size_scale, ix_EqualityLookup = stx_EqualityLookup ops size_scale,
      ix_Insert = (\<lambda>kv st. Inr (stx_Insert ops st kv)), ix_size = (\<lambda>st. sz (mi_map st))\<rparr>"

lemma find_key_iff:
  assumes s: "sorted_by f xs"
  shows "k \<in> f ` set xs \<longleftrightarrow> (\<exists>e. find (\<lambda>e. k \<le> f e) xs = Some e \<and> f e = k)"
proof
  assume "k \<in> f ` set xs"
  with key_lb_hit_iff [OF s, of k] have hit: "key_lb f xs k < length xs" "f (xs ! key_lb f xs k) = k"
    by auto
  moreover have "\<not> k \<le> f (xs ! j)" if "j < key_lb f xs k" for j
    using less_key_lb_iff [OF s, of j k] that hit(1) by auto
  ultimately have "find (\<lambda>e. k \<le> f e) xs = Some (xs ! key_lb f xs k)"
    by (auto simp: find_Some_iff intro!: exI [of _ "key_lb f xs k"])
  with hit show "\<exists>e. find (\<lambda>e. k \<le> f e) xs = Some e \<and> f e = k" by blast
qed (auto simp: find_Some_iff)

lemma find_mem: "find p xs = Some e \<Longrightarrow> e \<in> set xs"
  by (induction xs) (auto split: if_splits)

lemma find_insort:
  "find (\<lambda>e. k \<le> f e) (insort_key f x xs) = Some e \<Longrightarrow> e = x \<or> find (\<lambda>e. k \<le> f e) xs = Some e"
  by (induction xs) (auto split: if_splits)

lemma guess_bound_0:
  assumes "p < 2 ^ 31"
  shows "guess_bound 0 (word_of_nat p) = \<lparr>sb_start = p, sb_stop = p + 1\<rparr>"
proof -
  have "unat (word_of_nat p + 1 :: u64) = unat (word_of_nat (Suc p) :: u64)" by (simp add: add.commute)
  also have "\<dots> = p + 1" using assms by (simp del: of_nat_Suc)
  finally show ?thesis using assms by (simp add: guess_bound_def)
qed

lemma inline_search_absent:
  assumes "k \<notin> row_key ` set data" and "length data < 2 ^ 31"
    and "sb_start bd \<le> sb_stop bd" and "sb_stop bd \<le> length data"
  shows "inline_search data k bd = Inr (lookup_sum data k)"
proof -
  have stop: "to_int32 (int (if length data < sb_stop bd then length data else sb_stop bd)) = int (sb_stop bd)"
    using assms by (simp add: to_int32_nat)
  have "takeWhile (\<lambda>r. row_key r = k) (drop i data) = []" for i
  proof (cases "drop i data")
    case (Cons r rs)
    then have "r \<in> set data" by (metis in_set_dropD list.set_intros(1))
    with assms(1) Cons show ?thesis by auto
  qed simp
  then have "sum_run data k i 0 0 = (0, 0)" for i by (simp add: sum_run_eq)
  then show ?thesis
    unfolding inline_search_def Let_def stop using assms by simp
qed

text \<open>
  The invariant of a mixed run: what \<open>lower_bound\<close> can find are entries of the data with
  their position, every key that is looked up is in the index, the entries that are left are
  not, and \<open>data_size_\<close> does not exceed the data.
\<close>

definition data_entry :: "'k Row list \<Rightarrow> 'k \<Rightarrow> u64 \<Rightarrow> bool" where
  "data_entry data k v \<longleftrightarrow> (\<exists>p < length data. k = row_key (data ! p) \<and> v = word_of_nat p)"

definition mixed_inv ::
  "('m \<Rightarrow> ('k::linorder \<times> u64) list) \<Rightarrow> ('m \<Rightarrow> bool) \<Rightarrow> 'k Row list \<Rightarrow> 'k set
   \<Rightarrow> 'm MultimapIndex \<Rightarrow> 'k KeyValue list \<Rightarrow> bool" where
  "mixed_inv entries valid data keys st ins \<longleftrightarrow> valid (mi_map st)
     \<and> (\<forall>k e. find (\<lambda>e. k \<le> fst e) (entries (mi_map st)) = Some e \<longrightarrow> data_entry data (fst e) (snd e))
     \<and> keys \<inter> row_key ` set data \<subseteq> fst ` set (entries (mi_map st))
     \<and> distinct (map kv_key ins) \<and> kv_key ` set ins \<inter> fst ` set (entries (mi_map st)) = {}
     \<and> (\<forall>kv \<in> set ins. data_entry data (kv_key kv) (kv_value kv))
     \<and> (\<exists>m. 0 < m \<and> mi_data_size st = word_of_nat m \<and> m + length ins \<le> length data)"

context ordered_multimap
begin

lemma mixed_lookup:
  assumes inv: "mixed_inv entries valid data keys st ins" and s: "sorted_rows data"
    and d: "distinct (map row_key data)" and n: "length data < 2 ^ 31" and k: "k \<in> keys"
  shows "\<exists>bd. stx_EqualityLookup ops 1 st k = Inr bd \<and> inline_search data k bd = Inr (lookup_sum data k)"
proof -
  let ?E = "entries (mi_map st)"
  have valid: "valid (mi_map st)" using inv by (simp add: mixed_inv_def)
  note lb = lower_bound_find [OF valid, of k]
  show ?thesis
  proof (cases "find (\<lambda>e. k \<le> fst e) ?E")
    case None
    have "k \<notin> fst ` set ?E" using None by (auto simp: find_None_iff)
    then have absent: "k \<notin> row_key ` set data" using inv k by (auto simp: mixed_inv_def)
    obtain m where m: "0 < m" "mi_data_size st = word_of_nat m" "m \<le> length data"
      using inv by (auto simp: mixed_inv_def)
    have "(word_of_nat m :: u64) - 1 = word_of_nat (m - 1)" using m(1) by (simp add: of_nat_diff)
    then have look: "stx_EqualityLookup ops 1 st k = Inr \<lparr>sb_start = m - 1, sb_stop = m\<rparr>"
      using lb None m n guess_bound_0 [of "m - 1"] by (simp add: stx_EqualityLookup_def Let_def)
    show ?thesis
      using inline_search_absent [OF absent n, of "\<lparr>sb_start = m - 1, sb_stop = m\<rparr>"] m(3) look by simp
  next
    case (Some e)
    then have "data_entry data (fst e) (snd e)" using inv unfolding mixed_inv_def by blast
    then obtain p where p: "p < length data" "e = (row_key (data ! p), word_of_nat p)"
      by (cases e) (auto simp: data_entry_def)
    have look: "stx_EqualityLookup ops 1 st k = Inr \<lparr>sb_start = p, sb_stop = p + 1\<rparr>"
      using lb Some p n guess_bound_0 [of p] by (simp add: stx_EqualityLookup_def Let_def)
    show ?thesis
    proof (cases "k \<in> row_key ` set data")
      case True
      with inv k have "k \<in> fst ` set ?E" by (auto simp: mixed_inv_def)
      with find_key_iff [OF entries_sorted [OF valid], of k] Some p
      have key: "row_key (data ! p) = k" by auto
      have "row_lb data k = p"
      proof -
        from key_lb_hit_iff [OF s, of k] True
        have hit: "row_lb data k < length data" "row_key (data ! row_lb data k) = k" by auto
        with d p(1) key show ?thesis
          by (metis length_map nth_eq_iff_index_eq nth_map)
      qed
      then have "encloses \<lparr>sb_start = p, sb_stop = p + 1\<rparr> (row_lb data k) (length data)"
        using p(1) by (simp add: encloses_def)
      with inline_search_right [OF s n] look show ?thesis by blast
    next
      case False
      with inline_search_absent [OF False n, of "\<lparr>sb_start = p, sb_stop = p + 1\<rparr>"] p(1) look
      show ?thesis by simp
    qed
  qed
qed

lemma mixed_insert:
  assumes inv: "mixed_inv entries valid data keys st ins" and ne: "ins \<noteq> []"
  shows "mixed_inv entries valid data keys (stx_Insert ops st (last ins)) (butlast ins)"
proof -
  let ?kv = "last ins"
  have split: "ins = butlast ins @ [?kv]" using ne by simp
  have valid: "valid (mi_map st)" using inv by (simp add: mixed_inv_def)
  have mem: "?kv \<in> set ins" using ne by simp
  then have new: "kv_key ?kv \<notin> fst ` set (entries (mi_map st))"
    and entry: "data_entry data (kv_key ?kv) (kv_value ?kv)"
    using inv unfolding mixed_inv_def by blast+
  have E: "entries (mm_insert ops (mi_map st) (kv_key ?kv) (kv_value ?kv))
      = insort_key fst (kv_key ?kv, kv_value ?kv) (entries (mi_map st))"
    by (rule insert_entries [OF valid new])
  have d: "kv_key ?kv \<notin> kv_key ` set (butlast ins)" "distinct (map kv_key (butlast ins))"
  proof -
    have "map kv_key ins = map kv_key (butlast ins) @ [kv_key ?kv]"
      by (subst split) (simp only: map_append list.map)
    moreover have "distinct (map kv_key ins)" using inv by (simp add: mixed_inv_def)
    ultimately show "kv_key ?kv \<notin> kv_key ` set (butlast ins)" "distinct (map kv_key (butlast ins))"
      by simp_all
  qed
  obtain m where m: "0 < m" "mi_data_size st = word_of_nat m" "m + length ins \<le> length data"
    using inv by (auto simp: mixed_inv_def)
  have sub: "set (butlast ins) \<subseteq> set ins" by (auto dest: in_set_butlastD)
  have "length ins = Suc (length (butlast ins))" using ne by (cases ins rule: rev_cases) simp_all
  then have "\<exists>m. 0 < m \<and> mi_data_size st + 1 = word_of_nat m \<and> m + length (butlast ins) \<le> length data"
    using m by (intro exI [of _ "Suc m"]) (simp add: add.commute)
  moreover have "kv_key ` set (butlast ins) \<inter> fst ` set (entries (mi_map st)) = {}"
    "\<forall>kv \<in> set (butlast ins). data_entry data (kv_key kv) (kv_value kv)"
    "keys \<inter> row_key ` set data \<subseteq> fst ` set (entries (mi_map st))"
    using inv sub unfolding mixed_inv_def by blast+
  moreover have "data_entry data (fst e) (snd e)"
    if "find (\<lambda>e. k \<le> fst e) (insort_key fst (kv_key ?kv, kv_value ?kv) (entries (mi_map st))) = Some e" for k e
    using find_insort [OF that] entry inv unfolding mixed_inv_def by auto
  ultimately show ?thesis
    unfolding mixed_inv_def stx_Insert_def MultimapIndex.simps E
    using insert_valid [OF valid] d by (auto simp: set_insort_key)
qed

end

text \<open>The requests of a mixed run that are lookups.\<close>

definition read_requests :: "('k, 'st) loop_env \<Rightarrow> nat \<Rightarrow> nat \<Rightarrow> nat \<Rightarrow> nat list" where
  "read_requests env start idx limit =
     filter (\<lambda>i. \<not> le_draw env (i - start) < int (unat (le_write_portion env))) [idx..<limit]"

context ordered_multimap
begin

lemma mixed_core_loop:
  assumes env: "le_index env = stx_Index ops 1 sz" "\<not> le_clear_cache env"
    and s: "sorted_rows (le_data env)" and d: "distinct (map row_key (le_data env))"
    and n: "length (le_data env) < 2 ^ 31" and limit: "limit \<le> length (le_lookups env)"
  shows "mixed_inv entries valid (le_data env) (lk_key ` set (le_lookups env)) (ls_index s) (ls_insertion s) \<Longrightarrow>
    core_loop env start limit idx s
      = Some (Inl (Fail ''More inserts happened than was expected, ran out of data to insert''))
    \<or> (\<exists>s'. core_loop env start limit idx s = Some (Inr s')
         \<and> mixed_inv entries valid (le_data env) (lk_key ` set (le_lookups env)) (ls_index s') (ls_insertion s')
         \<and> ls_results s' = ls_results s @ map (\<lambda>i. lookup_sum (le_data env) (lk_key (le_lookups env ! i)))
             (read_requests env start idx limit))"
proof (induction "limit - idx" arbitrary: idx s)
  case 0
  then show ?case by (simp add: core_loop.simps [of env start limit idx] read_requests_def)
next
  case (Suc m)
  let ?inv = "mixed_inv entries valid (le_data env) (lk_key ` set (le_lookups env))"
  have idx: "idx < limit" "idx < length (le_lookups env)" using Suc limit by simp_all
  have m: "m = limit - Suc idx" using Suc.hyps(2) by simp
  have upt: "[idx..<limit] = idx # [Suc idx..<limit]" using idx(1) by (rule upt_conv_Cons)
  show ?case
  proof (cases "le_draw env (idx - start) < int (unat (le_write_portion env))")
    case True
    show ?thesis
    proof (cases "ls_insertion s = []")
      case True
      with \<open>le_draw env (idx - start) < _\<close> idx env show ?thesis
        by (simp add: core_loop.simps [of env start limit idx] request_def write_request_def)
    next
      case False
      let ?s = "s\<lparr>ls_index := stx_Insert ops (ls_index s) (last (ls_insertion s)),
        ls_insertion := butlast (ls_insertion s)\<rparr>"
      have r: "request env start idx s = Some (Inr (?s, True))"
        using True False idx env by (simp add: request_def write_request_def stx_Index_def)
      have "?inv (ls_index ?s) (ls_insertion ?s)" using mixed_insert [OF Suc.prems False] by simp
      from Suc.hyps(1) [OF m this] r idx True show ?thesis
        unfolding core_loop.simps [of env start limit idx s] read_requests_def upt by simp
    qed
  next
    case False
    let ?k = "lk_key (le_lookups env ! idx)"
    have "?k \<in> lk_key ` set (le_lookups env)" using idx(2) by simp
    from mixed_lookup [OF Suc.prems s d n this] obtain bd where bd:
      "stx_EqualityLookup ops 1 (ls_index s) ?k = Inr bd"
      "inline_search (le_data env) ?k bd = Inr (lookup_sum (le_data env) ?k)" by blast
    let ?s = "s\<lparr>ls_results := ls_results s @ [lookup_sum (le_data env) ?k]\<rparr>"
    have r: "request env start idx s = Some (Inr (?s, True))"
      using False idx env bd by (simp add: request_def read_request_def stx_Index_def)
    have "?inv (ls_index ?s) (ls_insertion ?s)" using Suc.prems by simp
    from Suc.hyps(1) [OF m this] r idx False show ?thesis
      unfolding core_loop.simps [of env start limit idx s] read_requests_def upt by simp
  qed
qed

text \<open>The invariant holds of the index that is built on the entries that are left.\<close>

lemma mixed_inv_init:
  assumes d: "distinct (map row_key data)" and n: "length data < 2 ^ 31"
    and ms: "mset ix + mset new = mset (make_index_data data)" and s: "sorted_by kv_key ix"
    and ne: "ix \<noteq> []" and keys: "\<forall>kv \<in> set new. kv_key kv \<notin> keys"
    and st: "stx_Build ops 1 ix = Inr st"
  shows "mixed_inv entries valid data keys st new"
proof -
  let ?xs = "map (\<lambda>kv. (kv_key kv, kv_value kv)) ix"
  have st_eq: "st = \<lparr>mi_data_size = word_of_nat (length ix), mi_map = mm_bulk_load ops ?xs\<rparr>"
    using st by (simp add: stx_Build_def stx_alex_data alex_loading_data_eq)
  have sx: "sorted_by fst ?xs" using s by (simp add: o_def)
  note find = bulk_find [OF sx]
  have mapkeys: "mset (map kv_key (ix @ new)) = mset (map row_key data)"
    using arg_cong [OF ms, of "image_mset kv_key"] by (simp flip: mset_map)
  then have dist: "distinct (map kv_key (ix @ new))" using d by (metis mset_eq_imp_distinct_iff)
  have entry: "data_entry data (kv_key kv) (kv_value kv)" if "kv \<in> set ix \<union> set new" for kv
  proof -
    have "kv \<in> set (make_index_data data)"
      using that arg_cong [OF ms, of set_mset] by auto
    then show ?thesis by (auto simp: make_index_data_def data_entry_def)
  qed
  have mem: "k \<in> fst ` set (entries (mm_bulk_load ops ?xs)) \<longleftrightarrow> k \<in> kv_key ` set ix" for k
  proof -
    have "k \<in> fst ` set (entries (mm_bulk_load ops ?xs)) \<longleftrightarrow> k \<in> fst ` set ?xs"
      unfolding find_key_iff [OF entries_sorted [OF bulk_valid [OF sx]], of k] find_key_iff [OF sx, of k] find ..
    then show ?thesis by (simp add: image_image)
  qed
  have keyset: "fst ` set (entries (mm_bulk_load ops ?xs)) = kv_key ` set ix" using mem by blast
  have found: "\<forall>k e. find (\<lambda>e. k \<le> fst e) (entries (mm_bulk_load ops ?xs)) = Some e
      \<longrightarrow> data_entry data (fst e) (snd e)"
  proof (intro allI impI)
    fix k e assume "find (\<lambda>e. k \<le> fst e) (entries (mm_bulk_load ops ?xs)) = Some e"
    then have "e \<in> set ?xs" unfolding find by (rule find_mem)
    then show "data_entry data (fst e) (snd e)" using entry by auto
  qed
  have present: "keys \<inter> row_key ` set data \<subseteq> kv_key ` set ix"
  proof
    fix k assume k: "k \<in> keys \<inter> row_key ` set data"
    then have "k \<in> set (map kv_key (ix @ new))" using mset_eq_setD [OF mapkeys] by simp
    with k keys show "k \<in> kv_key ` set ix" by auto
  qed
  have len: "length ix + length new = length data"
    using mset_eq_length [OF mapkeys] by simp
  have size: "\<exists>m. 0 < m \<and> (word_of_nat (length ix) :: u64) = word_of_nat m \<and> m + length new \<le> length data"
    using ne len by (intro exI [of _ "length ix"]) simp
  have disj: "distinct (map kv_key new)" "kv_key ` set new \<inter> kv_key ` set ix = {}"
    using dist by auto
  show ?thesis
    unfolding mixed_inv_def st_eq MultimapIndex.simps keyset
    by (intro conjI bulk_valid [OF sx] found present disj size) (use entry in blast)
qed

end

section \<open>Batches\<close>

text \<open>Without cache clearing the loop never stops early, so it can be cut anywhere.\<close>

lemma request_goes_on:
  "\<not> le_clear_cache env \<Longrightarrow> (\<exists>e. request env start idx s = Some (Inl e))
     \<or> (\<exists>s'. request env start idx s = Some (Inr (s', True)))"
  by (simp add: request_def bind_res_def split: sum.split)

lemma core_loop_split:
  assumes "\<not> le_clear_cache env" and "idx \<le> m" and "m \<le> limit"
  shows "core_loop env start limit idx s =
    (case core_loop env start m idx s of None \<Rightarrow> None | Some (Inl e) \<Rightarrow> Some (Inl e)
     | Some (Inr s') \<Rightarrow> core_loop env start limit m s')"
  using assms
proof (induction "m - idx" arbitrary: idx s)
  case 0
  then have "m = idx" by simp
  then show ?case by (simp add: core_loop.simps [of env start idx idx])
next
  case (Suc n)
  then have idx: "idx < m" "idx < limit" and n: "n = m - Suc idx" by simp_all
  from request_goes_on [OF Suc.prems(1), of start idx s]
  consider e where "request env start idx s = Some (Inl e)"
    | s' where "request env start idx s = Some (Inr (s', True))" by blast
  then show ?case
  proof cases
    case 1
    with idx show ?thesis by (simp add: core_loop.simps [of env start _ idx])
  next
    case 2
    have "Suc idx \<le> m" using idx(1) by simp
    from Suc.hyps(1) [OF n Suc.prems(1) this Suc.prems(3), of s'] 2 idx show ?thesis
      by (simp add: core_loop.simps [of env start _ idx])
  qed
qed

text \<open>Without writes the start of a call does not matter: no number that is drawn is used.\<close>

lemma core_loop_start:
  assumes "\<not> le_clear_cache env" and "le_write_portion env = 0" and "\<And>i. 0 \<le> le_draw env i"
  shows "core_loop env start limit idx s = core_loop env start' limit idx s"
proof (induction "limit - idx" arbitrary: idx s)
  case 0
  then show ?case by (simp add: core_loop.simps [of env _ limit idx])
next
  case (Suc n)
  have "request env start idx s = request env start' idx s"
    using assms(1,2) assms(3) [of "idx - start"] assms(3) [of "idx - start'"]
    by (simp add: request_def split: sum.split)
  with Suc.hyps(1) [of "Suc idx"] Suc.hyps(2) show ?case
    by (auto simp: core_loop.simps [of env _ limit idx] split: option.split sum.split)
qed

lemma batch_loop_eq:
  assumes env: "\<not> le_clear_cache env" "le_write_portion env = 0" "\<And>i. 0 \<le> le_draw env i"
    and n: "length (le_lookups env) < 2 ^ 32"
  shows "b0 \<le> length (le_lookups env) \<Longrightarrow>
    batch_loop env b0 s = core_loop env 0 (length (le_lookups env)) b0 s"
proof (induction "length (le_lookups env) - b0" arbitrary: b0 s rule: less_induct)
  case less
  let ?n = "length (le_lookups env)"
  show ?case
  proof (cases "?n \<le> b0")
    case True
    then show ?thesis by (simp add: batch_loop.simps [of env b0] core_loop.simps [of env 0 ?n b0])
  next
    case False
    let ?m = "min (b0 + batch_size) ?n"
    have m: "b0 \<le> ?m" "?m \<le> ?n" and u: "to_u32 b0 = b0" "to_u32 ?m = ?m"
      using False n by (simp_all add: min_def)
    have rest: "batch_loop env (b0 + batch_size) s' = core_loop env 0 ?n ?m s'" for s'
    proof (cases "b0 + batch_size \<le> ?n")
      case True
      have "?n - (b0 + batch_size) < ?n - b0" using False by (simp add: batch_size_def)
      from less.hyps [OF this True] True show ?thesis by (simp add: min_def)
    next
      case big: False
      then show ?thesis
        by (simp add: batch_loop.simps [of env "b0 + batch_size"] core_loop.simps [of env 0 ?n ?n] min_def)
    qed
    show ?thesis
      unfolding core_loop_split [OF env(1) m, of 0 s] batch_loop.simps [of env b0]
        equality_lookups_core_loop_def u core_loop_start [OF env, of b0 ?m b0 s 0] rest
      using False by simp
  qed
qed

section \<open>Properties\<close>

definition ex_double :: "nat double_ops" where
  "ex_double = \<lparr>d_zero = 0, d_of_u64 = unat, d_add = (+), d_div = (div), d_mul = (*), d_half = 0,
     d_log2 = (\<lambda>x. x), d_abs = (\<lambda>x. x), d_square = (\<lambda>x. x * x)\<rparr>"

text \<open>The index class of the plain binary search.\<close>

definition bs_Index :: "('k, nat) Index" where
  "bs_Index = \<lparr>ix_name = ''BinarySearch'', ix_variant = base_variant, ix_applicable = base_applicable,
     ix_Build = bs_build, ix_EqualityLookup = bs_lookup, ix_Insert = insert_unsupported,
     ix_size = (\<lambda>_. 0)\<rparr>"

text \<open>A small benchmark for the witnesses: keys 3, 5, 5 and 9, whose rows have the values 0 to 3.\<close>

definition ex_opts :: bench_opts where
  "ex_opts = \<lparr>bo_data_filename = ''data/small_uint32'', bo_lookups_filename = ''data/lookups'',
     bo_num_repeats = 2, bo_perf = False, bo_build = False, bo_fence = False, bo_cold_cache = False,
     bo_track_errors = False, bo_csv = True, bo_num_threads = 1, bo_write_portion = 0\<rparr>"

abbreviation ex_rows :: "u32 Row list" where
  "ex_rows \<equiv> add_values [3, 5, 5, 9]"

definition ex_bench :: "bench_opts \<Rightarrow> u32 EqualityLookup list \<Rightarrow> (u32, nat) Benchmark" where
  "ex_bench opts lookups = \<lparr>b_opts = opts, b_dataset_name = ''small_uint32'', b_data = ex_rows,
     b_index_data = make_index_data ex_rows, b_insertion_data = [], b_unique_keys = False,
     b_lookups = lookups, b_build_ns = 0, b_log_sum = 0, b_l1_sum = 0, b_l2_sum = 0, b_runs = [],
     b_first_run = True, b_random_sum = 0, b_individual_ns_sum = 0, b_memory = []\<rparr>"

definition ex_run :: "(u32, nat, nat) run_env" where
  "ex_run = \<lparr>re_index = bs_Index, re_searcher = \<lambda>d k a b. Some (branching_search d k a b),
     re_searcher_name = ''BinarySearch'', re_rnd = \<lambda>lo hi i. lo, re_sort = sort_key kv_key,
     re_dops = ex_double, re_fast_mode = False, re_build_ns = 1, re_clock = (\<lambda>i. 7),
     re_ns = (\<lambda>i. 1), re_csv_open = True\<rparr>"

lemma ex_bench_ok:
  "bo_write_portion opts \<le> 100 \<Longrightarrow> bench_ok (ex_bench opts ls)"
  "length (b_data (ex_bench opts ls)) = 4"
  by (simp_all add: bench_ok_def ex_bench_def)

lemma ex_rows_keys: "row_key ` set ex_rows = {3, 5, 9}"
  by (metis list.set_map map_row_key_add_values list.set insert_absorb2)

lemma ex_lookup_sum: "lookup_sum ex_rows 5 = 3" "lookup_sum ex_rows 9 = 3" "lookup_sum ex_rows 7 = 0"
  by (simp_all add: lookup_sum_def add_values_def upt_rec)

lemma uniform_ex: "uniform (re_rnd ex_run)"
  by (simp add: uniform_def ex_run_def)

text \<open>
  C30. What the constructor establishes when it returns: sorted rows with their positions as
  payloads, an index entry with its position for every row, the uniqueness flag of the keys,
  and a write portion of at most 100.
\<close>
theorem bench_init_establishes:
  assumes "bench_init ft dops files opts = Inr b"
  shows "bench_ok b"
  using assms by (rule bench_init_ok)

definition ex_files :: "string \<Rightarrow> u8 list option" where
  "ex_files name = (if name = ''data/small_uint32'' then Some (le_enc 8 2 @ enc_u32 3 @ enc_u32 5)
     else Some (le_enc 8 0))"

theorem bench_init_establishes_witness:
  "\<exists>b. bench_init \<lparr>ft_sz = 4, ft_dec = dec_u32, ft_dec_lookup = dec_lookup32\<rparr> ex_double ex_files ex_opts
      = Inr b \<and> bench_ok b"
proof -
  have keys: "load_data 4 dec_u32 (ex_files ''data/small_uint32'') = Inr [3, 5]"
    unfolding ex_files_def
    by (simp, rule tc_u32.load_written) (simp add: max_size_def, simp add: write_data_def numeral_2_eq_2)
  have lookups: "load_data 16 dec_lookup32 (ex_files ''data/lookups'') = Inr []"
    unfolding ex_files_def
    by (simp, rule tc_lookup32.load_written) (simp_all add: max_size_def write_data_def)
  have name: "strip_data_prefix ''data/small_uint32'' = Inr ''small_uint32''"
    by code_simp
  obtain b where "bench_init \<lparr>ft_sz = 4, ft_dec = dec_u32, ft_dec_lookup = dec_lookup32\<rparr> ex_double
      ex_files ex_opts = Inr b"
    using keys lookups name by (simp add: bench_init_def ex_opts_def Let_def)
  with bench_init_establishes show ?thesis by blast
qed

text \<open>
  C1. A timed run without writes on fewer than \<open>2^31\<close> rows and fewer than \<open>2^32\<close> lookups, over
  every index that fulfils \<open>index_contract\<close>: it returns,
  each repetition computes for every lookup the sum over all rows of the data that have the
  key, with one thread and in batches alike, and the durations of all repetitions are recorded.
\<close>
theorem timed_run_results:
  fixes b :: "('l::len word, 'd::linorder) Benchmark"
  assumes contract: "index_contract (ix_Build (re_index re)) (ix_EqualityLookup (re_index re)) supports answers"
    and ok: "bench_ok b" "length (b_data b) < 2 ^ 31" "length (b_lookups b) < 2 ^ 32"
    and opts: "bo_write_portion (b_opts b) = 0" "\<not> bo_build (b_opts b)" "\<not> bo_track_errors (b_opts b)"
      "\<not> bo_perf (b_opts b)" "\<not> bo_cold_cache (b_opts b)" "\<not> bo_fence (b_opts b)"
      "0 < bo_num_repeats (b_opts b)"
    and rnd: "uniform (re_rnd re)"
    and app: "ix_applicable (re_index re) (b_unique_keys b) (bo_data_filename (b_opts b))"
    and sup: "supports (b_index_data b)"
    and ans: "\<forall>l \<in> set (b_lookups b). answers (b_index_data b) (lk_key l)"
  shows "\<exists>b' lines. bench_run re b = Some (Inr (b', concat (replicate (bo_num_repeats (b_opts b))
      (map (\<lambda>l. lookup_sum (b_data b) (lk_key l)) (run_lookups re b))), lines))
    \<and> b_runs b' = map (re_clock re) [0..<bo_num_repeats (b_opts b)]"
proof -
  obtain st where st: "ix_Build (re_index re) (b_index_data b) = Inr st"
    and served: "\<And>k. answers (b_index_data b) k \<Longrightarrow> served (re_index re) st (b_data b) k"
    using contract_serves [OF contract ok(1,2) sup] by blast
  let ?b = "b\<lparr>b_lookups := run_lookups re b, b_build_ns := re_build_ns re\<rparr>"
  have "served (re_index re) st (b_data ?b) (lk_key l)" if "l \<in> set (b_lookups ?b)" for l
    using that run_lookups_subset [of re b] ans served by auto
  with timed_run_built [of ?b re st] ok opts rnd length_run_lookups [of re b]
  show ?thesis unfolding bench_run_read_only [OF app opts(1) st] by (simp add: bench_ok_def)
qed

theorem timed_run_results_witness:
  "\<exists>b' lines. bench_run ex_run (ex_bench ex_opts [\<lparr>lk_key = 5, lk_result = 3\<rparr>, \<lparr>lk_key = 7, lk_result = 0\<rparr>])
      = Some (Inr (b', [3, 0, 3, 0], lines)) \<and> b_runs b' = [7, 7]"
proof -
  let ?b = "ex_bench ex_opts [\<lparr>lk_key = 5, lk_result = 3\<rparr>, \<lparr>lk_key = 7, lk_result = 0\<rparr>]"
  have "\<exists>b' lines. bench_run ex_run ?b = Some (Inr (b', concat (replicate (bo_num_repeats (b_opts ?b))
      (map (\<lambda>l. lookup_sum (b_data ?b) (lk_key l)) (run_lookups ex_run ?b))), lines))
    \<and> b_runs b' = map (re_clock ex_run) [0..<bo_num_repeats (b_opts ?b)]"
    by (rule timed_run_results [where supports = "\<lambda>_. True" and answers = "\<lambda>_ _. True"])
      (use bs.index_contract_axioms ex_bench_ok uniform_ex in
        \<open>simp_all add: ex_run_def bs_Index_def base_applicable_def, simp_all add: ex_bench_def ex_opts_def\<close>)
  then show ?thesis
    by (simp add: run_lookups_def ex_run_def bs_Index_def ex_bench_def ex_opts_def ex_lookup_sum
        numeral_2_eq_2)
qed

text \<open>
  C3. A run with a cleared cache checks every sum against the lookup file. When the expected
  results are the sums of the rows, no check fails, for every index that fulfils its contract
  and every search that fulfils its own: all durations are recorded.
\<close>
theorem cold_run_accepts:
  fixes b :: "('l::len word, 'd::linorder) Benchmark"
  assumes contract: "index_contract (ix_Build (re_index re)) (ix_EqualityLookup (re_index re)) supports answers"
    and search: "search_algorithm (re_searcher re) search_ok"
    and ok: "bench_ok b" "length (b_data b) < 2 ^ 31" "length (b_lookups b) < 2 ^ 32"
    and opts: "bo_write_portion (b_opts b) = 0" "\<not> bo_build (b_opts b)" "\<not> bo_track_errors (b_opts b)"
      "\<not> bo_perf (b_opts b)" "bo_cold_cache (b_opts b)" "bo_num_threads (b_opts b) \<le> 1"
      "\<not> re_fast_mode re"
    and app: "ix_applicable (re_index re) (b_unique_keys b) (bo_data_filename (b_opts b))"
    and sup: "supports (b_index_data b)"
    and ans: "\<forall>l \<in> set (b_lookups b). answers (b_index_data b) (lk_key l)
      \<and> lk_result l = lookup_sum (b_data b) (lk_key l)
      \<and> (\<forall>start stop. start \<le> row_lb (b_data b) (lk_key l) \<longrightarrow> search_ok (b_data b) (lk_key l) start stop)"
  shows "\<exists>b' lines. bench_run re b = Some (Inr (b', concat (replicate (bo_num_repeats (b_opts b))
      (map (\<lambda>l. lookup_sum (b_data b) (lk_key l)) (run_lookups re b))), lines))
    \<and> b_runs b' = map (re_clock re) [0..<bo_num_repeats (b_opts b)]"
proof -
  obtain st where st: "ix_Build (re_index re) (b_index_data b) = Inr st"
    and served: "\<And>k. answers (b_index_data b) k \<Longrightarrow> served (re_index re) st (b_data b) k"
    using contract_serves [OF contract ok(1,2) sup] by blast
  let ?b = "b\<lparr>b_lookups := run_lookups re b, b_build_ns := re_build_ns re\<rparr>"
  have "found (mk_loop_env re ?b True) st (lk_key l) \<and> lk_result l = lookup_sum (b_data ?b) (lk_key l)"
    if "l \<in> set (b_lookups ?b)" for l
  proof -
    from that run_lookups_subset [of re b] ans
    have l: "answers (b_index_data b) (lk_key l)" "lk_result l = lookup_sum (b_data b) (lk_key l)"
      "\<And>start stop. start \<le> row_lb (b_data b) (lk_key l) \<Longrightarrow> search_ok (b_data b) (lk_key l) start stop"
      by auto
    obtain bd where bd: "ix_EqualityLookup (re_index re) st (lk_key l) = Inr bd"
      "encloses bd (row_lb (b_data b) (lk_key l)) (length (b_data b))"
      using served [OF l(1)] by (auto simp: served_def)
    then have "re_searcher re (b_data b) (lk_key l) (sb_start bd) (sb_stop bd)
        = Some (Inr (lookup_sum (b_data b) (lk_key l), lookup_count (b_data b) (lk_key l)))"
      using ok(1) l(3) by (intro search_algorithm.search_correct [OF search]) (auto simp: encloses_def bench_ok_def)
    with bd l(2) show ?thesis by (auto simp: found_def mk_loop_env_def)
  qed
  with cold_run_built [of ?b re st] ok opts length_run_lookups [of re b]
  show ?thesis unfolding bench_run_read_only [OF app opts(1) st] by simp
qed

theorem cold_run_accepts_witness:
  "\<exists>b' lines. bench_run ex_run (ex_bench (ex_opts\<lparr>bo_cold_cache := True\<rparr>) [\<lparr>lk_key = 5, lk_result = 3\<rparr>])
      = Some (Inr (b', [3, 3], lines)) \<and> b_runs b' = [7, 7]"
proof -
  let ?b = "ex_bench (ex_opts\<lparr>bo_cold_cache := True\<rparr>) [\<lparr>lk_key = 5, lk_result = 3\<rparr>]"
  have "\<exists>b' lines. bench_run ex_run ?b = Some (Inr (b', concat (replicate (bo_num_repeats (b_opts ?b))
      (map (\<lambda>l. lookup_sum (b_data ?b) (lk_key l)) (run_lookups ex_run ?b))), lines))
    \<and> b_runs b' = map (re_clock ex_run) [0..<bo_num_repeats (b_opts ?b)]"
    by (rule cold_run_accepts [where supports = "\<lambda>_. True" and answers = "\<lambda>_ _. True"
          and search_ok = "\<lambda>_ _ _ _. True"])
      (use bs.index_contract_axioms branching.search_algorithm_axioms ex_bench_ok in
        \<open>simp_all add: ex_run_def bs_Index_def base_applicable_def,
         simp_all add: ex_bench_def ex_opts_def ex_lookup_sum\<close>)
  then show ?thesis
    by (simp add: run_lookups_def ex_run_def bs_Index_def ex_bench_def ex_opts_def ex_lookup_sum
        numeral_2_eq_2)
qed

text \<open>
  C39. With a write portion other than 100 percent the selection of the entries to insert does
  not end when fewer entries than wanted have keys that are not looked up: the loop draws
  positions for ever, whatever the generator draws. The data is not empty and has fewer than
  \<open>2^31\<close> rows. At 100 percent every drawn entry is accepted.
\<close>
theorem split_writes_hangs:
  assumes "uniform rnd" and "wp \<noteq> 100" and "ix \<noteq> []" and "length ix < 2 ^ 31"
    and few: "length (filter (\<lambda>kv. kv_key kv \<notin> lk_key ` set lookups) ix) < ids_wanted (length lookups) wp"
  shows "split_writes rnd srt wp lookups ix ins0 = None"
proof -
  let ?t = "ids_wanted (length lookups) wp" and ?acc = "accepts_id lookups wp ix"
  have pos: "0 < length ix" using assms(3) by simp
  note hi = uniform_draw(1) [OF assms(1) pos assms(4)] and draw = uniform_draw(2) [OF assms(1) pos assms(4)]
  let ?draw = "\<lambda>i. nat (rnd 0 (int (length ix) - 1) i)"
  have "gather_ids ?draw ?acc ?t 0 [] = None"
  proof (rule ccontr)
    assume "gather_ids ?draw ?acc ?t 0 [] \<noteq> None"
    then obtain r where r: "gather_ids ?draw ?acc ?t 0 [] = Some r" by blast
    have "\<forall>j. \<exists>b. ?acc (?draw j) = Inr b" using draw assms(2) by (simp add: accepts_id_def)
    with gather_ids_no_error r obtain S where S: "gather_ids ?draw ?acc ?t 0 [] = Some (Inr S)"
      by (cases r) blast+
    from gather_ids_right [OF S] have T: "distinct S" "length S = ?t"
      "\<And>p. p \<in> set S \<Longrightarrow> ?acc p = Inr True \<and> p \<in> range ?draw" by auto
    have "p < length ix \<and> kv_key (ix ! p) \<notin> lk_key ` set lookups" if "p \<in> set S" for p
    proof -
      have p: "p < length ix" using T(3) [OF that] draw by auto
      with T(3) [OF that] assms(2) show ?thesis by (simp add: accepts_id_def)
    qed
    then have sub: "set S \<subseteq> {p. p < length ix \<and> kv_key (ix ! p) \<notin> lk_key ` set lookups}" by blast
    have "length S = card (set S)" using T(1) by (simp add: distinct_card)
    also have "\<dots> \<le> card {p. p < length ix \<and> kv_key (ix ! p) \<notin> lk_key ` set lookups}"
      using sub by (intro card_mono) auto
    also have "\<dots> = length (filter (\<lambda>kv. kv_key kv \<notin> lk_key ` set lookups) ix)"
      by (simp add: length_filter_conv_card)
    finally show False using T(2) few by simp
  qed
  then show ?thesis using pos by (simp add: split_writes_def Let_def hi)
qed

theorem split_writes_hangs_witness:
  "split_writes (\<lambda>lo hi i. lo) (sort_key kv_key) 50
     [\<lparr>lk_key = 3, lk_result = 0\<rparr>, \<lparr>lk_key = 5, lk_result = 1\<rparr>]
     (make_index_data (add_values [3, 5 :: u32])) [] = None"
  by (rule split_writes_hangs)
    (simp_all add: uniform_def make_index_data_def add_values_def upt_rec ids_wanted_def insert_count_def
      to_int32_def)

text \<open>
  C15. The selection of the entries to insert, when it ends, splits the index data: what is left
  is sorted and not empty, nothing is lost or duplicated, as many entries as wanted are set
  aside, and, unless the write portion is 100 percent, where the code ignores such conflicts on
  purpose, none of them has a key that is looked up. The data has fewer than \<open>2^31\<close> rows.
\<close>
theorem split_writes_partition:
  assumes "split_writes rnd srt wp lookups ix ins0 = Some (Inr (ix', ins))"
    and "sorts srt" and "uniform rnd" and "length ix < 2 ^ 31"
  shows "\<exists>new. ins = ins0 @ new \<and> length new = ids_wanted (length lookups) wp \<and> new \<noteq> []
    \<and> sorted_by kv_key ix' \<and> ix' \<noteq> [] \<and> mset ix' + mset new = mset ix
    \<and> (wp \<noteq> 100 \<longrightarrow> (\<forall>kv \<in> set new. kv_key kv \<notin> lk_key ` set lookups))"
  using assms by (rule split_writes_right)

text \<open>Keys 10, 20 and 30; the draw is always position 1, so that the entry of 20 is set aside.\<close>

definition ex_split_lookups :: "u32 EqualityLookup list" where
  "ex_split_lookups = [\<lparr>lk_key = 10, lk_result = 0\<rparr>, \<lparr>lk_key = 30, lk_result = 2\<rparr>]"

abbreviation ex_split_rows :: "u32 Row list" where
  "ex_split_rows \<equiv> add_values [10, 20, 30]"

definition ex_draw :: "int \<Rightarrow> int \<Rightarrow> nat \<Rightarrow> int" where
  "ex_draw lo hi i = (if lo \<le> 1 \<and> 1 \<le> hi then 1 else lo)"

lemma uniform_ex_draw: "uniform ex_draw"
  by (simp add: uniform_def ex_draw_def)

lemma sorts_sort_key: "sorts (sort_key kv_key)"
  by (simp add: sorts_def)

abbreviation ex_split_left :: "u32 KeyValue list" where
  "ex_split_left \<equiv> [\<lparr>kv_key = 10, kv_value = 0\<rparr>, \<lparr>kv_key = 30, kv_value = 2\<rparr>]"

abbreviation ex_split_ins :: "u32 KeyValue list" where
  "ex_split_ins \<equiv> [\<lparr>kv_key = 20, kv_value = 1\<rparr>]"

lemma ex_split_run:
  "split_writes ex_draw (sort_key kv_key) 50 ex_split_lookups (make_index_data ex_split_rows) []
   = Some (Inr (ex_split_left, ex_split_ins))"
proof -
  let ?ix = "[\<lparr>kv_key = 10, kv_value = 0\<rparr>, \<lparr>kv_key = 20, kv_value = 1\<rparr>, \<lparr>kv_key = 30, kv_value = 2\<rparr>] :: u32 KeyValue list"
  have ix: "make_index_data ex_split_rows = ?ix"
    by (simp add: make_index_data_def add_values_def upt_rec)
  have wanted: "ids_wanted (length ex_split_lookups) 50 = 1"
    by (simp add: ids_wanted_def insert_count_def to_int32_def ex_split_lookups_def)
  have hi: "to_int32 (int (length ?ix) - 1) = 2" by (simp add: to_int32_def)
  have "gather_ids (\<lambda>i. nat (ex_draw 0 2 i)) (accepts_id ex_split_lookups 50 ?ix) 1 0 [] = Some (Inr [1])"
    by (simp add: gather_ids.simps ex_draw_def accepts_id_def ex_split_lookups_def)
  then show ?thesis
    unfolding split_writes_def ix hi wanted Let_def by simp
qed

theorem split_writes_partition_witness:
  "\<exists>new. ex_split_ins = [] @ new \<and> length new = ids_wanted (length ex_split_lookups) 50 \<and> new \<noteq> []
    \<and> sorted_by kv_key ex_split_left \<and> ex_split_left \<noteq> []
    \<and> mset ex_split_left + mset new = mset (make_index_data ex_split_rows)
    \<and> ((50 :: u16) \<noteq> 100 \<longrightarrow> (\<forall>kv \<in> set new. kv_key kv \<notin> lk_key ` set ex_split_lookups))"
  by (rule split_writes_partition [OF ex_split_run sorts_sort_key uniform_ex_draw]) simp

text \<open>The loop of a mixed run over a tree, and its first state.\<close>

definition mixed_env ::
  "('k::linorder, 'm) multimap_ops \<Rightarrow> nat \<Rightarrow> 'k Row list \<Rightarrow> 'k EqualityLookup list \<Rightarrow> u16 \<Rightarrow> (nat \<Rightarrow> int)
   \<Rightarrow> ('k, 'm MultimapIndex) loop_env" where
  "mixed_env ops size_scale data lookups wp draw =
     \<lparr>le_index = stx_Index ops size_scale (\<lambda>_. 0), le_searcher = (\<lambda>d k a b. Some (branching_search d k a b)),
      le_data = data, le_lookups = lookups, le_memory = [], le_write_portion = wp,
      le_clear_cache = False, le_draw = draw, le_ns = (\<lambda>_. 0)\<rparr>"

definition mixed_start :: "'st \<Rightarrow> 'k KeyValue list \<Rightarrow> ('k, 'st) loop_state" where
  "mixed_start st ins = \<lparr>ls_index = st, ls_insertion = ins, ls_random_sum = 0,
     ls_individual_ns_sum = 0, ls_results = [], ls_run_failed = False\<rparr>"

text \<open>
  C2. A mixed run on an STX B-tree with every entry in the index, on data without duplicates:
  for every sequence of draws it either runs out of entries to insert, which the code reports,
  or every lookup computes the sum over all rows of its key, however insertions and lookups are
  interleaved. The tree is any ordered multimap that fulfils its contract.
\<close>
theorem mixed_workload_right:
  fixes data :: "'k::linorder Row list"
  assumes "ordered_multimap ops entries valid" and "sorts srt" and "uniform rnd"
    and "sorted_rows data" and "distinct (map row_key data)" and "length data < 2 ^ 31"
    and "split_writes rnd srt wp lookups (make_index_data data) [] = Some (Inr (ix, ins))" and "wp \<noteq> 100"
    and "stx_Build ops 1 ix = Inr st"
  shows "core_loop (mixed_env ops 1 data lookups wp draw) 0 (length lookups) 0 (mixed_start st ins)
      = Some (Inl (Fail ''More inserts happened than was expected, ran out of data to insert''))
    \<or> (\<exists>s'. core_loop (mixed_env ops 1 data lookups wp draw) 0 (length lookups) 0 (mixed_start st ins)
           = Some (Inr s')
         \<and> ls_results s' = map (\<lambda>i. lookup_sum data (lk_key (lookups ! i)))
             (read_requests (mixed_env ops 1 data lookups wp draw) 0 0 (length lookups)))"
proof -
  have "length (make_index_data data) < 2 ^ 31" using assms(6) by simp
  from split_writes_right [OF assms(7,2,3) this] obtain new where new: "ins = new"
    "mset ix + mset new = mset (make_index_data data)" "sorted_by kv_key ix" "ix \<noteq> []"
    "\<forall>kv \<in> set new. kv_key kv \<notin> lk_key ` set lookups"
    using assms(8) by auto
  have "mixed_inv entries valid data (lk_key ` set lookups) st new"
    by (rule ordered_multimap.mixed_inv_init [OF assms(1,5,6) new(2-5) assms(9)])
  with ordered_multimap.mixed_core_loop [OF assms(1), of "mixed_env ops 1 data lookups wp draw" "\<lambda>_. 0"
      "length lookups" "mixed_start st ins" 0 0] assms new(1)
  show ?thesis by (auto simp: mixed_env_def mixed_start_def)
qed

theorem mixed_workload_right_witness:
  "\<exists>st. stx_Build (stx_ops 8) 1 ex_split_left = Inr st \<and>
    (core_loop (mixed_env (stx_ops 8) 1 ex_split_rows ex_split_lookups 50 (\<lambda>_. 99)) 0 (length ex_split_lookups) 0
        (mixed_start st ex_split_ins)
      = Some (Inl (Fail ''More inserts happened than was expected, ran out of data to insert''))
    \<or> (\<exists>s'. core_loop (mixed_env (stx_ops 8) 1 ex_split_rows ex_split_lookups 50 (\<lambda>_. 99)) 0
           (length ex_split_lookups) 0 (mixed_start st ex_split_ins) = Some (Inr s')
         \<and> ls_results s' = map (\<lambda>i. lookup_sum ex_split_rows (lk_key (ex_split_lookups ! i)))
             (read_requests (mixed_env (stx_ops 8) 1 ex_split_rows ex_split_lookups 50 (\<lambda>_. 99)) 0 0
               (length ex_split_lookups))))"
proof -
  obtain st where st: "stx_Build (stx_ops 8) 1 ex_split_left = Inr st" by (simp add: stx_Build_def)
  have "sorted_rows ex_split_rows" "distinct (map row_key ex_split_rows)" "length ex_split_rows < 2 ^ 31"
    by simp_all
  from mixed_workload_right [OF stx_map.ordered_multimap_axioms sorts_sort_key uniform_ex_draw this
      ex_split_run _ st, of "\<lambda>_. 99"] st
  show ?thesis by (intro exI [of _ st]) simp
qed

text \<open>
  With a \<open>size_scale\<close> of 2 the same run is wrong: of the keys 10 to 50 the positions 0, 2
  and 4 are sampled, the entry of key 30 at position 2 is set aside for insertion, and the
  lookup of key 20, which is in the data, gets the bound of key 50 and returns no row.
\<close>
theorem sampled_index_misses:
  "\<exists>st bound. stx_Build list_multimap 2 [\<lparr>kv_key = 10, kv_value = 0\<rparr>, \<lparr>kv_key = 20, kv_value = 1\<rparr>,
        \<lparr>kv_key = 40, kv_value = 3\<rparr>, \<lparr>kv_key = 50 :: u32, kv_value = 4\<rparr>] = Inr st
    \<and> stx_EqualityLookup list_multimap 2 st 20 = Inr bound
    \<and> inline_search (add_values [10, 20, 30, 40, 50 :: u32]) 20 bound = Inr 0
    \<and> lookup_sum (add_values [10, 20, 30, 40, 50 :: u32]) 20 = 1"
proof -
  have rows: "add_values [10, 20, 30, 40, 50 :: u32] = [\<lparr>row_key = 10, row_data = [0]\<rparr>,
      \<lparr>row_key = 20, row_data = [1]\<rparr>, \<lparr>row_key = 30, row_data = [2]\<rparr>, \<lparr>row_key = 40, row_data = [3]\<rparr>,
      \<lparr>row_key = 50, row_data = [4]\<rparr>]"
    by (simp add: add_values_def make_row_def ROW_WIDTH_def get_value_def upt_rec)
  show ?thesis
    unfolding rows
    by (simp add: stx_Build_def stx_EqualityLookup_def list_multimap_def guess_bound_def Let_def
        inline_search_def to_int32_def lower_bound_def lb_loop.simps sum_run.simps lookup_sum_def)
qed

text \<open>
  C21. Without writes a run in batches does the same as a run in one piece, whatever the index
  does: the same results in the same order, the same state at the end, and the same error if
  there is one.
\<close>
theorem batched_run_equals_single:
  assumes "\<not> le_clear_cache env" and "le_write_portion env = 0" and "\<forall>i. 0 \<le> le_draw env i"
    and "length (le_lookups env) < 2 ^ 32"
  shows "one_repeat env num_threads s = one_repeat env 1 s"
  using batch_loop_eq [OF assms(1,2) _ assms(4), of 0] assms(3,4)
  by (simp add: one_repeat_def Let_def equality_lookups_core_loop_def)

theorem batched_run_equals_single_witness:
  "one_repeat (mk_loop_env ex_run (ex_bench ex_opts []) False) 8 (mixed_start 4 [])
    = one_repeat (mk_loop_env ex_run (ex_bench ex_opts []) False) 1 (mixed_start 4 [])"
  by (rule batched_run_equals_single) (simp_all add: mk_loop_env_def ex_run_def ex_bench_def ex_opts_def)

text \<open>
  A cold run rejects the lookup files of the generator as soon as they hold a negative
  lookup: its expected result is \<open>NOT_FOUND\<close> while a search that finds no row returns 0. The
  loop ends with a failure at the latest at the first negative lookup.
\<close>
theorem negative_lookup_fails_cold_run:
  assumes "le_clear_cache env" and "sorted_rows (le_data env)"
    and "search_algorithm (le_searcher env) (\<lambda>_ _ _ _. True)"
    and "\<forall>l \<in> set (le_lookups env). served (le_index env) (ls_index s) (le_data env) (lk_key l)
      \<and> good_lookup (le_data env) l"
    and "i < length (le_lookups env)" and "lk_key (le_lookups env ! i) \<notin> row_key ` set (le_data env)"
  shows "\<exists>s'. core_loop env start (length (le_lookups env)) 0 s = Some (Inr s') \<and> ls_run_failed s'"
proof -
  have "found env (ls_index s) (lk_key l)" if l: "l \<in> set (le_lookups env)" for l
  proof -
    obtain bd where bd: "ix_EqualityLookup (le_index env) (ls_index s) (lk_key l) = Inr bd"
      "encloses bd (row_lb (le_data env) (lk_key l)) (length (le_data env))"
      using assms(4) [rule_format, OF l] unfolding served_def by blast
    then show ?thesis
      using search_algorithm.search_correct [OF assms(3,2)] by (auto simp: found_def encloses_def)
  qed
  moreover have "good_lookup (le_data env) (le_lookups env ! i)" using assms(4,5) by simp
  then have "lk_result (le_lookups env ! i) \<noteq> lookup_sum (le_data env) (lk_key (le_lookups env ! i))"
    using assms(6) by (simp add: good_lookup_def NOT_FOUND_def)
  ultimately show ?thesis
    using core_loop_rejects [OF assms(1) order_refl _ refl _ assms(5), of s 0 start] by simp
qed

theorem negative_lookup_fails_cold_run_witness:
  "\<exists>s'. core_loop (mk_loop_env ex_run (ex_bench ex_opts [\<lparr>lk_key = 7, lk_result = NOT_FOUND\<rparr>]) True) 0
      (length [\<lparr>lk_key = (7 :: u32), lk_result = NOT_FOUND\<rparr>]) 0 (mixed_start 4 []) = Some (Inr s') \<and> ls_run_failed s'"
proof -
  let ?env = "mk_loop_env ex_run (ex_bench ex_opts [\<lparr>lk_key = 7, lk_result = NOT_FOUND\<rparr>]) True"
  have "\<exists>s'. core_loop ?env 0 (length (le_lookups ?env)) 0 (mixed_start 4 []) = Some (Inr s') \<and> ls_run_failed s'"
  proof (rule negative_lookup_fails_cold_run [where i = 0])
    show "search_algorithm (le_searcher ?env) (\<lambda>_ _ _ _. True)"
      using branching.search_algorithm_axioms by (simp add: mk_loop_env_def ex_run_def)
    show "\<forall>l \<in> set (le_lookups ?env). served (le_index ?env) (ls_index (mixed_start 4 [] :: (u32, nat) loop_state))
        (le_data ?env) (lk_key l) \<and> good_lookup (le_data ?env) l"
      using ex_rows_keys key_lb_le [of row_key ex_rows 7]
      by (simp add: mk_loop_env_def ex_bench_def ex_run_def bs_Index_def mixed_start_def served_def
          bs_lookup_def encloses_def good_lookup_def)
  qed (use ex_rows_keys in \<open>simp_all add: mk_loop_env_def ex_bench_def\<close>)
  then show ?thesis by (simp add: mk_loop_env_def ex_bench_def)
qed

text \<open>
  A run that tracks errors never prints them: the branch of \<open>Run\<close> returns before
  \<open>PrintResult\<close>, so no result line and no CSV line is written, whatever the index.
\<close>
theorem error_tracking_prints_nothing:
  assumes "\<not> re_fast_mode re" and "bo_track_errors (b_opts b)"
    and "run_built re st b = Some (Inr (b', results, lines))"
  shows "lines = (None, None) \<and> b_first_run b' = b_first_run b"
  using assms
  by (auto simp: run_built_def do_lookups_with_error_tracking_def Let_def res_simps split: if_splits)

theorem error_tracking_prints_nothing_witness:
  "\<exists>b' results lines. run_built ex_run 4 (ex_bench (ex_opts\<lparr>bo_track_errors := True\<rparr>) []) = Some (Inr (b', results, lines))
    \<and> lines = (None, None) \<and> b_first_run b'"
proof -
  have "\<exists>b' results lines. run_built ex_run 4 (ex_bench (ex_opts\<lparr>bo_track_errors := True\<rparr>) [])
      = Some (Inr (b', results, lines))"
    by (simp add: run_built_def do_lookups_with_error_tracking_def ex_run_def ex_bench_def ex_opts_def Let_def)
  then obtain b' results lines where run:
    "run_built ex_run 4 (ex_bench (ex_opts\<lparr>bo_track_errors := True\<rparr>) []) = Some (Inr (b', results, lines))"
    by blast
  from error_tracking_prints_nothing [OF _ _ run] run show ?thesis
    by (simp add: ex_run_def ex_bench_def)
qed

text \<open>
  The removal of the keys that PGM cannot hold ends and leaves exactly the lookups of
  other keys, in their order, duplicates of the forbidden keys included.
\<close>
theorem forbidden_lookups_removed:
  "remove_forbidden lookups = filter (\<lambda>l. ucast (lk_key l) \<notin> set forbidden_keys) lookups"
  by (rule remove_forbidden_eq)

end
