(* ===== verification/LearnedIndexes.thy ===== *)
theory LearnedIndexes
  imports Benchmark StxTree
begin

text \<open>
  Model of the wrappers of the learned indexes: \<open>src/competitors/rmi_search.h\<close>,
  \<open>src/competitors/rs.h\<close>, \<open>src/competitors/ts.h\<close>, \<open>src/competitors/cht.h\<close>, and of
  \<open>src/competitors/fast64_search.h\<close>. The libraries behind them are submodules or generated
  code and parameters here. RS, TS and CHT choose the parameters of their builder from a table
  by the name of the data set; \<open>applicable\<close> fills them in before \<open>Build\<close> is called.
\<close>

section \<open>RMI\<close>

text \<open>
  A model is the function, the loader and the constants that its generated namespace has.
  \<open>rmi_lookup\<close> returns the guess and the error.
\<close>

record rmi_model =
  rmi_lookup :: "u64 \<Rightarrow> u64 \<times> u64"
  rmi_load :: "string \<Rightarrow> bool"
  rmi_build_time :: u64
  rmi_size :: nat

definition rmi_Build :: "rmi_model \<Rightarrow> string option \<Rightarrow> 'k KeyValue list \<Rightarrow> u64 res" where
  "rmi_Build model env_path data =
     (let rmi_path = (case env_path of None \<Rightarrow> ''rmi_data'' | Some p \<Rightarrow> p)
      in if \<not> rmi_load model rmi_path
         then Inl (Fail ''Could not load RMI data from rmi_data/ -- either an allocation failed or the file could not be read.'')
         else Inr (word_of_nat (length data)))"

definition rmi_EqualityLookup :: "rmi_model \<Rightarrow> u64 \<Rightarrow> 'l::len word \<Rightarrow> SearchBound res" where
  "rmi_EqualityLookup model data_size lookup_key =
     (let (guess, error) = rmi_lookup model (ucast lookup_key);
          start = (if guess < error then 0 else guess - error);
          stop = (if guess + error \<ge> data_size then data_size else guess + error)
      in Inr \<lparr>sb_start = unat start, sb_stop = unat stop\<rparr>)"

section \<open>Spline and histogram libraries\<close>

text \<open>
  What RS, TS and CHT call: a builder made from the smallest and the largest key and a
  configuration, \<open>AddKey\<close>, \<open>Finalize\<close>, and \<open>GetSearchBound\<close> with its \<open>begin\<close> and \<open>end\<close>.
\<close>

record ('k, 'c, 'b, 't) spline_ops =
  sp_Builder :: "'k \<Rightarrow> 'k \<Rightarrow> 'c \<Rightarrow> 'b"
  sp_AddKey :: "'b \<Rightarrow> 'k \<Rightarrow> 'b"
  sp_Finalize :: "'b \<Rightarrow> 't"
  sp_GetSearchBound :: "'t \<Rightarrow> 'k \<Rightarrow> u64 \<times> u64"
  sp_GetSize :: "'t \<Rightarrow> nat"

definition sp_build ::
  "('l::len word, 'c, 'b, 't) spline_ops \<Rightarrow> 'c \<Rightarrow> 'l word KeyValue list \<Rightarrow> 't" where
  "sp_build ops config data =
     (let min = (if data = [] then 0 else kv_key (data ! 0));
          max = (if data = [] then - 1 else kv_key (last data))
      in sp_Finalize ops (foldl (\<lambda>b kv. sp_AddKey ops b (kv_key kv)) (sp_Builder ops min max config) data))"

definition sp_lookup :: "('l::len word, 'c, 'b, 't) spline_ops \<Rightarrow> 't option \<Rightarrow> 'l word \<Rightarrow> SearchBound res" where
  "sp_lookup ops index lookup_key =
     (case index of
        None \<Rightarrow> Inl Undefined
      | Some t \<Rightarrow> let (b, e) = sp_GetSearchBound ops t lookup_key
                  in Inr \<lparr>sb_start = unat b, sb_stop = unat e\<rparr>)"

section \<open>RS\<close>

text \<open>The parameters have no value before they are set.\<close>

record 't RS =
  rs_index :: "'t option"
  rs_num_radix_bits :: nat
  rs_max_error :: nat
  rs_parameters_set :: bool

definition rs_configs :: "(string \<times> (nat \<times> nat) list) list" where
  "rs_configs =
    [(''normal_200M_uint32'',
        [(10, 6), (15, 1), (16, 1), (18, 1), (20, 1),
         (21, 1), (24, 1), (25, 1), (26, 1), (26, 1)]),
     (''normal_200M_uint64'',
        [(14, 2), (16, 1), (16, 1), (20, 1), (22, 1),
         (24, 1), (26, 1), (26, 1), (28, 1), (28, 1)]),
     (''lognormal_200M_uint32'',
        [(12, 20), (16, 3), (16, 2), (18, 1), (20, 1),
         (22, 1), (24, 1), (24, 1), (26, 1), (28, 1)]),
     (''lognormal_200M_uint64'',
        [(12, 3), (18, 1), (18, 1), (20, 1), (22, 1),
         (24, 1), (26, 1), (26, 1), (28, 1), (28, 1)]),
     (''uniform_dense_200M_uint32'',
        [(4, 2), (16, 2), (18, 1), (20, 1), (20, 1),
         (22, 2), (24, 1), (26, 3), (26, 3), (28, 2)]),
     (''uniform_dense_200M_uint64'',
        [(4, 2), (16, 1), (16, 1), (20, 1), (22, 1),
         (24, 1), (24, 1), (26, 1), (28, 1), (28, 1)]),
     (''uniform_sparse_200M_uint32'',
        [(12, 220), (14, 100), (14, 80), (16, 30), (18, 20),
         (20, 10), (20, 8), (20, 5), (24, 3), (26, 1)]),
     (''uniform_sparse_200M_uint64'',
        [(12, 150), (14, 70), (16, 50), (18, 20), (20, 20),
         (20, 9), (20, 5), (24, 3), (26, 2), (28, 1)]),
     (''books_200M_uint32'',
        [(14, 250), (14, 250), (16, 190), (18, 80), (18, 50),
         (22, 20), (22, 9), (22, 8), (24, 3), (28, 2)]),
     (''books_200M_uint64'',
        [(12, 380), (16, 170), (16, 110), (20, 50), (20, 30),
         (22, 20), (22, 10), (24, 3), (26, 3), (28, 2)]),
     (''books_400M_uint64'',
        [(16, 220), (16, 220), (18, 160), (20, 60), (20, 40),
         (22, 20), (22, 7), (26, 3), (28, 2), (28, 1)]),
     (''books_600M_uint64'',
        [(18, 330), (18, 330), (18, 190), (20, 70), (22, 50),
         (22, 20), (24, 7), (26, 3), (28, 2), (28, 1)]),
     (''books_800M_uint64'',
        [(18, 320), (18, 320), (18, 200), (22, 80), (22, 60),
         (22, 20), (24, 9), (26, 3), (28, 3), (28, 3)]),
     (''fb_200M_uint64'',
        [(8, 140), (8, 140), (8, 140), (8, 140), (10, 90),
         (22, 90), (24, 70), (26, 80), (26, 7), (28, 80)]),
     (''osm_cellids_200M_uint64'',
        [(20, 160), (20, 160), (20, 160), (20, 160), (20, 80),
         (24, 40), (24, 20), (26, 8), (26, 3), (28, 2)]),
     (''osm_cellids_400M_uint64'',
        [(20, 190), (20, 190), (20, 190), (20, 190), (22, 80),
         (24, 20), (26, 20), (26, 10), (28, 6), (28, 2)]),
     (''osm_cellids_600M_uint64'',
        [(20, 190), (20, 190), (20, 190), (22, 180), (22, 100),
         (24, 20), (26, 20), (28, 7), (28, 5), (28, 2)]),
     (''osm_cellids_800M_uint64'',
        [(22, 190), (22, 190), (22, 190), (22, 190), (24, 190),
         (26, 30), (26, 20), (28, 7), (28, 5), (28, 1)]),
     (''wiki_ts_200M_uint64'',
        [(14, 100), (14, 100), (16, 60), (18, 20), (20, 20),
         (20, 9), (20, 5), (22, 3), (26, 2), (26, 1)])]"

definition rs_SetParameters :: "nat \<Rightarrow> string \<Rightarrow> 't RS \<Rightarrow> (bool \<times> 't RS) res" where
  "rs_SetParameters size_scale dataset st =
     bind_res (assertion (size_scale \<ge> 1 \<and> size_scale \<le> 10)) (\<lambda>_.
       case map_of rs_configs dataset of
         None \<Rightarrow> Inr (False, st)
       | Some configs \<Rightarrow> bind_res (at configs (size_scale - 1)) (\<lambda>config.
           Inr (True, st\<lparr>rs_num_radix_bits := fst config, rs_max_error := snd config, rs_parameters_set := True\<rparr>)))"

definition rs_applicable :: "nat \<Rightarrow> bool \<Rightarrow> string \<Rightarrow> 't RS \<Rightarrow> (bool \<times> 't RS) res" where
  "rs_applicable size_scale unique data_filename st =
     bind_res (strip_data_prefix data_filename) (\<lambda>dataset. rs_SetParameters size_scale dataset st)"

definition rs_Build ::
  "('l::len word, nat \<times> nat, 'b, 't) spline_ops \<Rightarrow> 'l word KeyValue list \<Rightarrow> 't RS \<Rightarrow> 't RS res" where
  "rs_Build ops data st =
     (if \<not> rs_parameters_set st then Inl (Fail ''RS parameters not set.'')
      else Inr (st\<lparr>rs_index := Some (sp_build ops (rs_num_radix_bits st, rs_max_error st) data)\<rparr>))"

definition rs_EqualityLookup ::
  "('l::len word, nat \<times> nat, 'b, 't) spline_ops \<Rightarrow> 't RS \<Rightarrow> 'l word \<Rightarrow> SearchBound res" where
  "rs_EqualityLookup ops st lookup_key = sp_lookup ops (rs_index st) lookup_key"

section \<open>TS\<close>

text \<open>The configuration: the error of the spline, the number of bins, the error of the tree.\<close>

record 't TS =
  ts_index :: "'t option"
  ts_config :: "nat \<times> nat \<times> nat"
  ts_parameters_set :: bool

definition ts_configs :: "(string \<times> (nat \<times> nat \<times> nat) list) list" where
  "ts_configs =
    [(''books_200M_uint64'',
        [(512, 128, 2), (256, 256, 2), (128, 256, 16), (64, 1024, 4), (32, 1024, 16),
         (16, 1024, 16), (16, 1024, 8), (4, 256, 8), (2, 512, 8), (2, 1024, 8)]),
     (''fb_200M_uint64'',
        [(1024, 1024, 16), (1024, 1024, 16), (1024, 512, 8), (256, 512, 8), (128, 512, 8),
         (16, 128, 16), (16, 1024, 16), (8, 1024, 16), (4, 256, 16), (2, 256, 16)]),
     (''osm_cellids_200M_uint64'',
        [(1024, 32, 16), (1024, 32, 16), (512, 32, 16), (128, 128, 16), (64, 128, 16),
         (16, 64, 16), (8, 32, 16), (8, 256, 16), (2, 256, 16), (2, 512, 16)]),
     (''wiki_ts_200M_uint64'',
        [(1024, 128, 4), (128, 128, 8), (64, 256, 8), (32, 1024, 8), (16, 1024, 8),
         (16, 1024, 4), (4, 128, 16), (8, 128, 2), (2, 512, 8), (2, 128, 2)])]"

definition ts_SetParameters :: "nat \<Rightarrow> string \<Rightarrow> 't TS \<Rightarrow> (bool \<times> 't TS) res" where
  "ts_SetParameters size_scale dataset st =
     bind_res (assertion (size_scale \<ge> 1 \<and> size_scale \<le> 10)) (\<lambda>_.
       case map_of ts_configs dataset of
         None \<Rightarrow> Inr (False, st)
       | Some configs \<Rightarrow> bind_res (at configs (size_scale - 1)) (\<lambda>config.
           Inr (True, st\<lparr>ts_config := config, ts_parameters_set := True\<rparr>)))"

definition ts_applicable :: "nat \<Rightarrow> bool \<Rightarrow> string \<Rightarrow> 't TS \<Rightarrow> (bool \<times> 't TS) res" where
  "ts_applicable size_scale unique data_filename st =
     bind_res (strip_data_prefix data_filename) (\<lambda>dataset. ts_SetParameters size_scale dataset st)"

definition ts_Build ::
  "('l::len word, nat \<times> nat \<times> nat, 'b, 't) spline_ops \<Rightarrow> 'l word KeyValue list \<Rightarrow> 't TS \<Rightarrow> 't TS res" where
  "ts_Build ops data st =
     (if \<not> ts_parameters_set st then Inl (Fail ''TS parameters not set.'')
      else Inr (st\<lparr>ts_index := Some (sp_build ops (ts_config st) data)\<rparr>))"

definition ts_EqualityLookup ::
  "('l::len word, nat \<times> nat \<times> nat, 'b, 't) spline_ops \<Rightarrow> 't TS \<Rightarrow> 'l word \<Rightarrow> SearchBound res" where
  "ts_EqualityLookup ops st lookup_key = sp_lookup ops (ts_index st) lookup_key"

section \<open>CHT\<close>

text \<open>The number of bins is 64 before it is set.\<close>

record 't CHT =
  cht_index :: "'t option"
  cht_num_bins :: nat
  cht_max_error :: nat
  cht_parameters_set :: bool

definition cht_configs :: "(string \<times> (nat \<times> nat) list) list" where
  "cht_configs =
    [(''books_200M_uint64'',
        [(128, 512), (128, 512), (128, 512), (128, 512), (16, 512),
         (256, 128), (64, 64), (512, 32), (128, 16), (1024, 16)]),
     (''fb_200M_uint64'',
        [(64, 1024), (64, 1024), (64, 1024), (64, 1024), (256, 1024),
         (1024, 512), (64, 128), (512, 128), (256, 64), (256, 32)]),
     (''osm_cellids_200M_uint64'',
        [(32, 1024), (32, 1024), (32, 1024), (32, 1024), (32, 512),
         (64, 256), (64, 128), (64, 32), (64, 16), (1024, 8)])]"

definition cht_SetParameters :: "nat \<Rightarrow> string \<Rightarrow> 't CHT \<Rightarrow> (bool \<times> 't CHT) res" where
  "cht_SetParameters size_scale dataset st =
     bind_res (assertion (size_scale \<ge> 1 \<and> size_scale \<le> 10)) (\<lambda>_.
       case map_of cht_configs dataset of
         None \<Rightarrow> Inr (False, st)
       | Some configs \<Rightarrow> bind_res (at configs (size_scale - 1)) (\<lambda>config.
           Inr (True, st\<lparr>cht_num_bins := fst config, cht_max_error := snd config, cht_parameters_set := True\<rparr>)))"

definition cht_applicable :: "nat \<Rightarrow> bool \<Rightarrow> string \<Rightarrow> 't CHT \<Rightarrow> (bool \<times> 't CHT) res" where
  "cht_applicable size_scale unique data_filename st =
     bind_res (strip_data_prefix data_filename) (\<lambda>dataset. cht_SetParameters size_scale dataset st)"

definition cht_Build ::
  "('l::len word, nat \<times> nat, 'b, 't) spline_ops \<Rightarrow> 'l word KeyValue list \<Rightarrow> 't CHT \<Rightarrow> 't CHT res" where
  "cht_Build ops data st =
     (if \<not> cht_parameters_set st then Inl (Fail ''CHT parameters not set.'')
      else Inr (st\<lparr>cht_index := Some (sp_build ops (cht_num_bins st, cht_max_error st) data)\<rparr>))"

definition cht_EqualityLookup ::
  "('l::len word, nat \<times> nat, 'b, 't) spline_ops \<Rightarrow> 't CHT \<Rightarrow> 'l word \<Rightarrow> SearchBound res" where
  "cht_EqualityLookup ops st lookup_key = sp_lookup ops (cht_index st) lookup_key"

section \<open>FAST\<close>

text \<open>
  \<open>create_fast\<close> gets the keys and the values at every \<open>size_scale\<close>-th position, \<open>lookup_fast\<close>
  returns the two values around a key. The wrappers of 32-bit and 64-bit keys differ in the
  width of the values only.
\<close>

record ('k, 'v, 't) fast_ops =
  create_fast :: "'k list \<Rightarrow> 'v list \<Rightarrow> 't"
  lookup_fast :: "'t \<Rightarrow> 'k \<Rightarrow> 'v \<times> 'v"

record 't FAST =
  fast_data_size :: u64
  fast_tree :: 't

definition fast_sample :: "nat \<Rightarrow> 'k KeyValue list \<Rightarrow> 'k KeyValue list" where
  "fast_sample size_scale data =
     filter (\<lambda>itm. \<not> (size_scale > 1 \<and> kv_value itm mod word_of_nat size_scale \<noteq> 0)) data"

definition fast64_Build :: "(u64, u64, 't) fast_ops \<Rightarrow> nat \<Rightarrow> u64 KeyValue list \<Rightarrow> 't FAST res" where
  "fast64_Build ops size_scale data =
     (let items = fast_sample size_scale data
      in if items = [] then Inl Undefined
         else Inr \<lparr>fast_data_size = word_of_nat (length data),
                fast_tree = create_fast ops (map kv_key items) (map kv_value items)\<rparr>)"

definition fast64_EqualityLookup :: "(u64, u64, 't) fast_ops \<Rightarrow> 't FAST \<Rightarrow> u64 \<Rightarrow> SearchBound res" where
  "fast64_EqualityLookup ops st lookup_key =
     (let (v1, v2) = lookup_fast ops (fast_tree st) lookup_key;
          v2 = min (fast_data_size st) v2
      in Inr \<lparr>sb_start = unat v1, sb_stop = unat v2\<rparr>)"

definition fast32_Build :: "(u32, u32, 't) fast_ops \<Rightarrow> nat \<Rightarrow> u32 KeyValue list \<Rightarrow> 't FAST res" where
  "fast32_Build ops size_scale data =
     (let items = fast_sample size_scale data
      in if items = [] then Inl Undefined
         else Inr \<lparr>fast_data_size = word_of_nat (length data),
                fast_tree = create_fast ops (map kv_key items) (map (\<lambda>kv. ucast (kv_value kv)) items)\<rparr>)"

definition fast32_EqualityLookup :: "(u32, u32, 't) fast_ops \<Rightarrow> 't FAST \<Rightarrow> u32 \<Rightarrow> SearchBound res" where
  "fast32_EqualityLookup ops st lookup_key =
     (let (v1, v2) = lookup_fast ops (fast_tree st) lookup_key;
          v2 = ucast (min (fast_data_size st) (ucast v2)) :: u32
      in Inr \<lparr>sb_start = unat v1, sb_stop = unat v2\<rparr>)"

section \<open>Bounds\<close>

lemma unat_less_add: "unat (a :: u64) + unat b < 2 ^ 64 \<Longrightarrow> unat (a + b) = unat a + unat b"
  by (simp add: unat_word_ariths)

lemma rmi_bound:
  assumes "unat g + unat e < 2 ^ 64" and "p \<le> unat n" and "p \<le> unat g + unat e" and "unat g \<le> p + unat e"
  defines "start \<equiv> (if g < e then 0 else g - e)" and "stop \<equiv> (if g + e \<ge> n then n else g + e)"
  shows "unat (start :: u64) \<le> p \<and> p \<le> unat (stop :: u64) \<and> unat stop \<le> unat n \<and> unat stop - unat start \<le> 2 * unat e"
proof -
  have "unat start = unat g - unat e"
    by (auto simp: start_def word_less_nat_alt unat_sub word_le_nat_alt not_less)
  moreover have "unat stop = min (unat n) (unat g + unat e)"
    using unat_less_add [OF assms(1)] by (auto simp: stop_def word_le_nat_alt not_le)
  ultimately show ?thesis using assms(2-4) by auto
qed

text \<open>
  The behaviour the wrappers rely on: an index over sorted keys, made with the smallest and the
  largest of them, answers for a key that was added with a range \<open>[begin, end)\<close> that has the
  first position of the key.
\<close>

definition spline_contract :: "('l::len word, 'c, 'b, 't) spline_ops \<Rightarrow> 'c \<Rightarrow> bool" where
  "spline_contract ops config \<longleftrightarrow> (\<forall>ks k. sorted ks \<longrightarrow> length ks < 2 ^ 63 \<longrightarrow> k \<in> set ks \<longrightarrow>
     (case sp_GetSearchBound ops
             (sp_Finalize ops (foldl (sp_AddKey ops) (sp_Builder ops (hd ks) (last ks) config) ks)) k of
        (b, e) \<Rightarrow> unat b \<le> key_lb (\<lambda>x. x) ks k \<and> key_lb (\<lambda>x. x) ks k < unat e \<and> unat e \<le> length ks))"

lemma foldl_map_arg: "foldl (\<lambda>b x. f b (g x)) a xs = foldl f a (map g xs)"
  by (induction xs arbitrary: a) simp_all

lemma sp_lookup_encloses:
  assumes contract: "spline_contract ops config" and input: "index_input kvs" and k: "k \<in> kv_key ` set kvs"
  shows "\<exists>b. sp_lookup ops (Some (sp_build ops config kvs)) k = Inr b \<and> encloses b (kv_lb kvs k) (length kvs)
    \<and> kv_lb kvs k < sb_stop b"
proof -
  let ?ks = "map kv_key kvs"
  have ne: "kvs \<noteq> []" using k by auto
  have "sorted ?ks" "length ?ks < 2 ^ 63" "k \<in> set ?ks" using input k by (simp_all add: index_input_def)
  from contract [unfolded spline_contract_def, rule_format, OF this]
  have range: "case sp_GetSearchBound ops (sp_Finalize ops (foldl (sp_AddKey ops)
        (sp_Builder ops (hd ?ks) (last ?ks) config) ?ks)) k of
      (b, e) \<Rightarrow> unat b \<le> kv_lb kvs k \<and> kv_lb kvs k < unat e \<and> unat e \<le> length kvs"
    by (simp only: key_lb_map length_map)
  have "sp_build ops config kvs
      = sp_Finalize ops (foldl (sp_AddKey ops) (sp_Builder ops (hd ?ks) (last ?ks) config) ?ks)"
    using ne by (simp add: sp_build_def hd_map last_map hd_conv_nth foldl_map_arg [symmetric])
  with range show ?thesis by (cases "sp_GetSearchBound ops (sp_build ops config kvs) k")
    (simp add: sp_lookup_def encloses_def)
qed

section \<open>Parameters\<close>

definition ten_configs :: "(string \<times> 'c list) list \<Rightarrow> bool" where
  "ten_configs table \<longleftrightarrow> list_all (\<lambda>(_, configs). length configs = 10) table"

lemma tables_have_ten: "ten_configs rs_configs" "ten_configs ts_configs" "ten_configs cht_configs"
  by (simp_all add: ten_configs_def rs_configs_def ts_configs_def cht_configs_def)

lemma ten_configs_at:
  assumes "ten_configs table" and "map_of table dataset = Some configs" and "1 \<le> s" and "s \<le> 10"
  shows "at configs (s - 1) = Inr (configs ! (s - 1))"
proof -
  have "length configs = 10" using assms(1) map_of_SomeD [OF assms(2)] by (auto simp: ten_configs_def list_all_iff)
  then show ?thesis using assms(3,4) by simp
qed

lemma table_row:
  assumes "ten_configs t" and "1 \<le> s" and "s \<le> 10"
  shows "(d \<in> fst ` set t \<and> (\<exists>configs. map_of t d = Some configs \<and> at configs (s - 1) = Inr (configs ! (s - 1))))
    \<or> (d \<notin> fst ` set t \<and> map_of t d = None)"
proof (cases "map_of t d")
  case None
  then show ?thesis by (simp add: map_of_eq_None_iff)
next
  case (Some configs)
  then have "d \<in> fst ` set t" using map_of_eq_None_iff [of t d] by simp
  with Some show ?thesis using ten_configs_at [OF assms(1) Some assms(2,3)] by simp
qed

lemma strip_prefix: "find_str ''data/'' f = Some p \<Longrightarrow> strip_data_prefix f = Inr (drop (p + 5) f)"
  by (simp add: strip_data_prefix_def numeral_eq_Suc)

lemma rs_parameters:
  assumes "1 \<le> s" and "s \<le> 10" and "find_str ''data/'' f = Some p"
  shows "\<exists>st. rs_applicable s u f (rs :: 'a RS) = Inr (drop (p + 5) f \<in> fst ` set rs_configs, st)
      \<and> (drop (p + 5) f \<in> fst ` set rs_configs \<longrightarrow> (\<exists>st'. rs_Build rs_ops kvs st = Inr st'))"
  using table_row [OF tables_have_ten(1) assms(1,2), of "drop (p + 5) f"] strip_prefix [OF assms(3)] assms(1,2)
  by (elim disjE conjE exE) (simp_all add: rs_applicable_def rs_SetParameters_def rs_Build_def assertion_def)

lemma ts_parameters:
  assumes "1 \<le> s" and "s \<le> 10" and "find_str ''data/'' f = Some p"
  shows "\<exists>st. ts_applicable s u f (ts :: 'a TS) = Inr (drop (p + 5) f \<in> fst ` set ts_configs, st)
      \<and> (drop (p + 5) f \<in> fst ` set ts_configs \<longrightarrow> (\<exists>st'. ts_Build ts_ops kvs st = Inr st'))"
  using table_row [OF tables_have_ten(2) assms(1,2), of "drop (p + 5) f"] strip_prefix [OF assms(3)] assms(1,2)
  by (elim disjE conjE exE) (simp_all add: ts_applicable_def ts_SetParameters_def ts_Build_def assertion_def)

lemma cht_parameters:
  assumes "1 \<le> s" and "s \<le> 10" and "find_str ''data/'' f = Some p"
  shows "\<exists>st. cht_applicable s u f (cht :: 'a CHT) = Inr (drop (p + 5) f \<in> fst ` set cht_configs, st)
      \<and> (drop (p + 5) f \<in> fst ` set cht_configs \<longrightarrow> (\<exists>st'. cht_Build cht_ops kvs st = Inr st'))"
  using table_row [OF tables_have_ten(3) assms(1,2), of "drop (p + 5) f"] strip_prefix [OF assms(3)] assms(1,2)
  by (elim disjE conjE exE) (simp_all add: cht_applicable_def cht_SetParameters_def cht_Build_def assertion_def)

section \<open>Properties\<close>

text \<open>
  The bound of RMI: when the guess of the model is off by at most its error, and the sum of the
  two fits into 64 bits, the lookup returns a bound inside the data that encloses the first
  position whose key is not below the lookup key and is at most twice the error wide. The code
  clamps the difference of the two, but lets their sum wrap around.
\<close>
theorem rmi_bound_encloses:
  fixes kvs :: "'l::len word KeyValue list"
  assumes "rmi_load model (case path of None \<Rightarrow> ''rmi_data'' | Some p \<Rightarrow> p)" and "length kvs < 2 ^ 63"
    and "rmi_lookup model (ucast k) = (g, e)" and "unat g + unat e < 2 ^ 64"
    and "kv_lb kvs k \<le> unat g + unat e" and "unat g \<le> kv_lb kvs k + unat e"
  shows "\<exists>st b. rmi_Build model path kvs = Inr st \<and> rmi_EqualityLookup model st k = Inr b
    \<and> encloses b (kv_lb kvs k) (length kvs) \<and> sb_stop b - sb_start b \<le> 2 * unat e"
proof -
  have n: "unat (word_of_nat (length kvs) :: u64) = length kvs" using assms(2) by (intro unat_word_of_nat) simp
  show ?thesis
    using rmi_bound [OF assms(4) _ assms(5,6), of "word_of_nat (length kvs)"] assms(1,3) n
    by (simp add: rmi_Build_def rmi_EqualityLookup_def encloses_def Let_def)
qed

text \<open>Four keys and a model that divides the key by ten.\<close>

definition ten_keys :: "u64 KeyValue list" where
  "ten_keys = [\<lparr>kv_key = 10, kv_value = 0\<rparr>, \<lparr>kv_key = 20, kv_value = 1\<rparr>, \<lparr>kv_key = 30, kv_value = 2\<rparr>,
     \<lparr>kv_key = 45, kv_value = 3\<rparr>]"

definition ten_model :: rmi_model where
  "ten_model = \<lparr>rmi_lookup = (\<lambda>k. (k div 10, 1)), rmi_load = (\<lambda>p. p = ''rmi_data''), rmi_build_time = 5, rmi_size = 64\<rparr>"

lemma ten_keys_facts: "index_input ten_keys" "length ten_keys = 4" "kv_lb ten_keys 30 = 2"
  by (simp_all add: ten_keys_def index_input_iff upt_rec key_lb_def lb_def)

theorem rmi_bound_encloses_witness:
  "\<exists>st b. rmi_Build ten_model None ten_keys = Inr st \<and> rmi_EqualityLookup ten_model st (30 :: u64) = Inr b
    \<and> encloses b (kv_lb ten_keys 30) (length ten_keys) \<and> sb_stop b - sb_start b \<le> 2 * unat (1 :: u64)"
  by (rule rmi_bound_encloses [where g = 3]) (simp_all add: ten_keys_facts ten_model_def)

text \<open>
  C36. The parameters of RS, TS and CHT: for every variant from 1 to 10 and every file name with
  a directory \<open>data/\<close>, \<open>applicable\<close> returns and says whether the data set has a row in the
  table of the index; if it has, all parameters are set and \<open>Build\<close> does not fail. No variant
  reads past a row of the tables.
\<close>
theorem spline_parameters_in_table:
  assumes "1 \<le> s" and "s \<le> 10" and "find_str ''data/'' f = Some p"
  shows "(\<exists>st. rs_applicable s u f (rs :: 'a RS) = Inr (drop (p + 5) f \<in> fst ` set rs_configs, st)
      \<and> (drop (p + 5) f \<in> fst ` set rs_configs \<longrightarrow> (\<exists>st'. rs_Build rs_ops kvs st = Inr st')))
    \<and> (\<exists>st. ts_applicable s u f (ts :: 'b TS) = Inr (drop (p + 5) f \<in> fst ` set ts_configs, st)
      \<and> (drop (p + 5) f \<in> fst ` set ts_configs \<longrightarrow> (\<exists>st'. ts_Build ts_ops kvs st = Inr st')))
    \<and> (\<exists>st. cht_applicable s u f (cht :: 'c CHT) = Inr (drop (p + 5) f \<in> fst ` set cht_configs, st)
      \<and> (drop (p + 5) f \<in> fst ` set cht_configs \<longrightarrow> (\<exists>st'. cht_Build cht_ops kvs st = Inr st')))"
  using rs_parameters [OF assms, of u rs rs_ops kvs] ts_parameters [OF assms, of u ts ts_ops kvs]
    cht_parameters [OF assms, of u cht cht_ops kvs] by blast

theorem spline_parameters_in_table_witness:
  "(\<exists>st. rs_applicable 10 True ''data/wiki_ts_200M_uint64'' (\<lparr>rs_index = None, rs_num_radix_bits = 0,
        rs_max_error = 0, rs_parameters_set = False\<rparr> :: unit RS) = Inr (True, st)
      \<and> (\<exists>st'. rs_Build (\<lparr>sp_Builder = \<lambda>_ _ _. (), sp_AddKey = \<lambda>_ _. (), sp_Finalize = \<lambda>_. (),
          sp_GetSearchBound = \<lambda>_ _. (0, 4), sp_GetSize = \<lambda>_. 0\<rparr> :: (u64, nat \<times> nat, unit, unit) spline_ops) ten_keys st = Inr st'))"
proof -
  have f: "find_str ''data/'' ''data/wiki_ts_200M_uint64'' = Some 0" by (simp add: find_str.simps)
  have d: "drop (0 + 5) ''data/wiki_ts_200M_uint64'' \<in> fst ` set rs_configs" by (simp add: rs_configs_def)
  show ?thesis
    using conjunct1 [OF spline_parameters_in_table [of 10 _ _ True _ _ ten_keys, OF _ _ f]] d by simp
qed

text \<open>
  RS, TS and CHT after their parameters are set: when the library keeps its promise for the
  parameters of the table, the lookup of every key of the data, duplicates included, returns a
  bound inside the data that encloses the first position of the key.
\<close>
theorem spline_bound_encloses:
  assumes "index_input kvs" and "k \<in> kv_key ` set kvs"
    and "rs_applicable s u f rs = Inr (True, rs1)" and "ts_applicable s u f ts = Inr (True, ts1)"
    and "cht_applicable s u f cht = Inr (True, cht1)"
    and "spline_contract rs_ops (rs_num_radix_bits rs1, rs_max_error rs1)"
    and "spline_contract ts_ops (ts_config ts1)"
    and "spline_contract cht_ops (cht_num_bins cht1, cht_max_error cht1)"
  shows "(\<exists>st b. rs_Build rs_ops kvs rs1 = Inr st \<and> rs_EqualityLookup rs_ops st k = Inr b
      \<and> encloses b (kv_lb kvs k) (length kvs))
    \<and> (\<exists>st b. ts_Build ts_ops kvs ts1 = Inr st \<and> ts_EqualityLookup ts_ops st k = Inr b
      \<and> encloses b (kv_lb kvs k) (length kvs))
    \<and> (\<exists>st b. cht_Build cht_ops kvs cht1 = Inr st \<and> cht_EqualityLookup cht_ops st k = Inr b
      \<and> encloses b (kv_lb kvs k) (length kvs))"
proof -
  have set: "rs_parameters_set rs1" "ts_parameters_set ts1" "cht_parameters_set cht1"
    using assms(3-5) by (auto simp: rs_applicable_def ts_applicable_def cht_applicable_def rs_SetParameters_def
        ts_SetParameters_def cht_SetParameters_def res_simps split: option.splits)
  show ?thesis
    using sp_lookup_encloses [OF assms(6,1,2)] sp_lookup_encloses [OF assms(7,1,2)] sp_lookup_encloses [OF assms(8,1,2)]
    by (auto simp: set rs_Build_def ts_Build_def cht_Build_def rs_EqualityLookup_def ts_EqualityLookup_def
        cht_EqualityLookup_def)
qed

text \<open>A library that keeps the keys and answers exactly.\<close>

definition list_spline :: "('l::len word, 'c, 'l word list, 'l word list) spline_ops" where
  "list_spline = \<lparr>sp_Builder = (\<lambda>_ _ _. []), sp_AddKey = (\<lambda>ks k. ks @ [k]), sp_Finalize = (\<lambda>ks. ks),
     sp_GetSearchBound = (\<lambda>ks k. (word_of_nat (key_lb (\<lambda>x. x) ks k), word_of_nat (key_lb (\<lambda>x. x) ks k + 1))),
     sp_GetSize = length\<rparr>"

lemma foldl_snoc: "foldl (\<lambda>xs x. xs @ [x]) ys xs = ys @ xs"
  by (induction xs arbitrary: ys) simp_all

lemma list_spline_contract: "spline_contract (list_spline :: ('l::len word, 'c, _, _) spline_ops) config"
proof -
  have "unat (word_of_nat (key_lb (\<lambda>x. x) ks k) :: u64) \<le> key_lb (\<lambda>x. x) ks k
      \<and> key_lb (\<lambda>x. x) ks k < unat (word_of_nat (key_lb (\<lambda>x. x) ks k + 1) :: u64)
      \<and> unat (word_of_nat (key_lb (\<lambda>x. x) ks k + 1) :: u64) \<le> length ks"
    if "sorted ks" "length ks < 2 ^ 63" "k \<in> set ks" for ks and k :: "'l word"
  proof -
    let ?p = "key_lb (\<lambda>x. x) ks k"
    have "?p < length ks"
      using that(1,3) key_lb_hit_iff [of "\<lambda>x. x" ks k] by auto
    then have "unat (word_of_nat ?p :: u64) = ?p" "unat (word_of_nat (?p + 1) :: u64) = ?p + 1"
      using that(2) by (intro unat_word_of_nat; simp)+
    then show ?thesis using \<open>?p < length ks\<close> by simp
  qed
  then show ?thesis by (simp add: spline_contract_def list_spline_def foldl_snoc)
qed

theorem spline_bound_encloses_witness:
  "\<exists>(st :: u64 list CHT) b. cht_Build list_spline ten_keys \<lparr>cht_index = None, cht_num_bins = 256, cht_max_error = 32,
      cht_parameters_set = True\<rparr> = Inr st \<and> cht_EqualityLookup list_spline st 45 = Inr b
    \<and> encloses b (kv_lb ten_keys 45) (length ten_keys)"
proof -
  let ?f = "''data/fb_200M_uint64''"
  have name: "strip_data_prefix ?f = Inr ''fb_200M_uint64''" by (simp add: strip_data_prefix_def find_str.simps)
  have "rs_applicable 10 True ?f \<lparr>rs_index = None, rs_num_radix_bits = 0, rs_max_error = 0, rs_parameters_set = False\<rparr>
      = Inr (True, \<lparr>rs_index = None, rs_num_radix_bits = 28, rs_max_error = 80, rs_parameters_set = True\<rparr>)"
    "ts_applicable 10 True ?f \<lparr>ts_index = None, ts_config = (0, 0, 0), ts_parameters_set = False\<rparr>
      = Inr (True, \<lparr>ts_index = None, ts_config = (2, 256, 16), ts_parameters_set = True\<rparr>)"
    "cht_applicable 10 True ?f \<lparr>cht_index = None, cht_num_bins = 64, cht_max_error = 0, cht_parameters_set = False\<rparr>
      = Inr (True, \<lparr>cht_index = None, cht_num_bins = 256, cht_max_error = 32, cht_parameters_set = True\<rparr>)"
    by (simp_all add: rs_applicable_def ts_applicable_def cht_applicable_def name assertion_def
        rs_SetParameters_def ts_SetParameters_def cht_SetParameters_def rs_configs_def ts_configs_def cht_configs_def)
  from spline_bound_encloses [OF ten_keys_facts(1) _ this list_spline_contract list_spline_contract
      list_spline_contract, of 45]
  show ?thesis by (simp add: ten_keys_def)
qed

end
