(* ===== verification/RobinTable.thy ===== *)
theory RobinTable
  imports Complex_Main Prelude
begin

text \<open>
  Model of \<open>src/robin-map/include/tsl/robin_hash.h\<close> and of the growth policy of
  \<open>src/robin-map/include/tsl/robin_growth_policy.h\<close>: the hash map with open addressing and Robin
  Hood probing behind \<open>src/competitors/hash.h\<close>. The template arguments are those of
  \<open>tsl::robin_map<KeyType, uint64_t>\<close> with an arithmetic key and the default hash: \<open>STORE_HASH\<close> is
  false, the growth policy is \<open>power_of_two_growth_policy<2>\<close>. The hash function, the rounding of
  \<open>float\<close> and the largest size of a vector are the record \<open>rh_env\<close>. An iterator is the index
  of its bucket, \<open>end()\<close> the bucket count. Loops that probe need not end: partial functions.
\<close>

section \<open>Growth policy\<close>

definition is_power_of_two :: "u64 \<Rightarrow> bool" where
  "is_power_of_two v \<longleftrightarrow> v \<noteq> 0 \<and> v AND (v - 1) = 0"

definition round_up_to_power_of_two :: "u64 \<Rightarrow> u64" where
  "round_up_to_power_of_two v =
     (if is_power_of_two v then v
      else if v = 0 then 1
      else foldl (\<lambda>v i. v OR drop_bit i v) (v - 1) [1, 2, 4, 8, 16, 32] + 1)"

definition policy_max_bucket_count :: u64 where
  "policy_max_bucket_count = (- 1) div 2 + 1"

text \<open>The constructor of the policy gives the mask and the number of buckets.\<close>

definition power_of_two_growth_policy :: "u64 \<Rightarrow> (u64 \<times> u64) res" where
  "power_of_two_growth_policy cnt =
     (if policy_max_bucket_count < cnt then Inl (Thrown ''length_error'')
      else if 0 < cnt then
        (let cnt = round_up_to_power_of_two cnt in Inr (cnt - 1, cnt))
      else Inr (0, cnt))"

definition next_bucket_count :: "u64 \<Rightarrow> u64 res" where
  "next_bucket_count m_mask =
     (if policy_max_bucket_count div 2 < m_mask + 1 then Inl (Thrown ''length_error'')
      else Inr ((m_mask + 1) * 2))"

section \<open>Buckets\<close>

text \<open>
  \<open>m_dist_from_ideal_bucket\<close> is an \<open>int16_t\<close>: a number of the type \<open>int\<close> kept in its range by
  \<open>to_int16\<close>. The storage \<open>m_value\<close> is \<open>None\<close> while it holds no object.
\<close>

definition to_int16 :: "int \<Rightarrow> int" where
  "to_int16 x = sint (word_of_int x :: u16)"

record ('k, 'v) bucket_entry =
  be_dist :: int
  be_last :: bool
  be_value :: "('k \<times> 'v) option"

definition DIST_FROM_IDEAL_BUCKET_LIMIT :: int where
  "DIST_FROM_IDEAL_BUCKET_LIMIT = 4096"

definition bucket_entry_new :: "bool \<Rightarrow> ('k, 'v) bucket_entry" where
  "bucket_entry_new last_bucket = \<lparr>be_dist = - 1, be_last = last_bucket, be_value = None\<rparr>"

definition be_empty :: "('k, 'v) bucket_entry \<Rightarrow> bool" where
  "be_empty b \<longleftrightarrow> be_dist b = - 1"

definition be_clear :: "('k, 'v) bucket_entry \<Rightarrow> ('k, 'v) bucket_entry" where
  "be_clear b = (if be_empty b then b else b\<lparr>be_value := None, be_dist := - 1\<rparr>)"

definition be_get :: "('k, 'v) bucket_entry \<Rightarrow> ('k \<times> 'v) res" where
  "be_get b = (case be_value b of None \<Rightarrow> Inl Undefined | Some kv \<Rightarrow> Inr kv)"

definition set_value_of_empty_bucket ::
  "int \<Rightarrow> 'k \<times> 'v \<Rightarrow> ('k, 'v) bucket_entry \<Rightarrow> ('k, 'v) bucket_entry" where
  "set_value_of_empty_bucket d kv b = b\<lparr>be_value := Some kv, be_dist := d\<rparr>"

text \<open>The new bucket, and the distance and the value that were in it.\<close>

definition swap_with_value_in_bucket ::
  "int \<Rightarrow> 'k \<times> 'v \<Rightarrow> ('k, 'v) bucket_entry \<Rightarrow> (('k, 'v) bucket_entry \<times> int \<times> 'k \<times> 'v) res" where
  "swap_with_value_in_bucket d kv b =
     bind_res (be_get b) (\<lambda>old. Inr (b\<lparr>be_value := Some kv, be_dist := d\<rparr>, be_dist b, old))"

section \<open>The table\<close>

record ('k, 'v) robin_hash =
  rh_mask :: u64
  rh_buckets_data :: "('k, 'v) bucket_entry list"
  rh_bucket_count :: nat
  rh_nb_elements :: nat
  rh_load_threshold :: nat
  rh_max_load_factor :: rat
  rh_grow_on_next_insert :: bool
  rh_min_load_factor :: rat
  rh_try_skrink_on_next_insert :: bool

record 'k rh_env =
  re_hash :: "'k \<Rightarrow> u64"
  re_float :: "rat \<Rightarrow> rat"
  re_vector_max :: nat

definition DEFAULT_MAX_LOAD_FACTOR :: rat where "DEFAULT_MAX_LOAD_FACTOR = 1 / 2"
definition DEFAULT_MIN_LOAD_FACTOR :: rat where "DEFAULT_MIN_LOAD_FACTOR = 0"

text \<open>The constants 0.2f, 0.95f, 0.0f and 0.15f.\<close>

definition MINIMUM_MAX_LOAD_FACTOR :: "'k rh_env \<Rightarrow> rat" where
  "MINIMUM_MAX_LOAD_FACTOR env = re_float env (1 / 5)"
definition MAXIMUM_MAX_LOAD_FACTOR :: "'k rh_env \<Rightarrow> rat" where
  "MAXIMUM_MAX_LOAD_FACTOR env = re_float env (19 / 20)"
definition MINIMUM_MIN_LOAD_FACTOR :: "'k rh_env \<Rightarrow> rat" where
  "MINIMUM_MIN_LOAD_FACTOR env = 0"
definition MAXIMUM_MIN_LOAD_FACTOR :: "'k rh_env \<Rightarrow> rat" where
  "MAXIMUM_MIN_LOAD_FACTOR env = re_float env (3 / 20)"

definition clamp :: "rat \<Rightarrow> rat \<Rightarrow> rat \<Rightarrow> rat" where
  "clamp v lo hi = min hi (max lo v)"

text \<open>\<open>size_type(x)\<close>: undefined when the number without its fraction does not fit.\<close>

definition size_of_float :: "rat \<Rightarrow> nat res" where
  "size_of_float x =
     (if 0 \<le> \<lfloor>x\<rfloor> \<and> \<lfloor>x\<rfloor> < 2 ^ 64 then Inr (nat \<lfloor>x\<rfloor>) else Inl Undefined)"

definition float_of_size :: "'k rh_env \<Rightarrow> nat \<Rightarrow> rat" where
  "float_of_size env n = re_float env (of_nat n)"

definition set_min_load_factor ::
  "'k rh_env \<Rightarrow> rat \<Rightarrow> ('k, 'v) robin_hash \<Rightarrow> ('k, 'v) robin_hash" where
  "set_min_load_factor env ml t =
     t\<lparr>rh_min_load_factor := clamp ml (MINIMUM_MIN_LOAD_FACTOR env) (MAXIMUM_MIN_LOAD_FACTOR env)\<rparr>"

definition set_max_load_factor ::
  "'k rh_env \<Rightarrow> rat \<Rightarrow> ('k, 'v) robin_hash \<Rightarrow> ('k, 'v) robin_hash res" where
  "set_max_load_factor env ml t =
     (let ml = clamp ml (MINIMUM_MAX_LOAD_FACTOR env) (MAXIMUM_MAX_LOAD_FACTOR env)
      in bind_res (size_of_float (re_float env (float_of_size env (rh_bucket_count t) * ml)))
           (\<lambda>threshold. Inr (t\<lparr>rh_max_load_factor := ml, rh_load_threshold := threshold\<rparr>)))"

definition max_bucket_count :: "'k rh_env \<Rightarrow> nat" where
  "max_bucket_count env = min (unat policy_max_bucket_count) (re_vector_max env)"

definition new_buckets :: "nat \<Rightarrow> ('k, 'v) bucket_entry list" where
  "new_buckets n =
     (if 0 < n then (replicate n (bucket_entry_new False))[n - 1 := bucket_entry_new True] else [])"

definition robin_hash_new ::
  "'k rh_env \<Rightarrow> u64 \<Rightarrow> rat \<Rightarrow> rat \<Rightarrow> ('k, 'v) robin_hash res" where
  "robin_hash_new env cnt min_load_factor max_load_factor =
     bind_res (power_of_two_growth_policy cnt) (\<lambda>(m_mask, bucket_count).
       if max_bucket_count env < unat bucket_count then Inl (Thrown ''length_error'')
       else set_max_load_factor env max_load_factor
         (set_min_load_factor env min_load_factor
           \<lparr>rh_mask = m_mask, rh_buckets_data = new_buckets (unat bucket_count),
            rh_bucket_count = unat bucket_count, rh_nb_elements = 0, rh_load_threshold = 0,
            rh_max_load_factor = 0, rh_grow_on_next_insert = False, rh_min_load_factor = 0,
            rh_try_skrink_on_next_insert = False\<rparr>))"

text \<open>The pointer \<open>m_buckets\<close> is to one static empty bucket while there are none.\<close>

definition m_buckets :: "('k, 'v) robin_hash \<Rightarrow> ('k, 'v) bucket_entry list" where
  "m_buckets t = (if rh_buckets_data t = [] then [bucket_entry_new True] else rh_buckets_data t)"

definition bucket_for_hash :: "u64 \<Rightarrow> u64 \<Rightarrow> nat" where
  "bucket_for_hash m_mask h = unat (h AND m_mask)"

definition next_bucket :: "u64 \<Rightarrow> nat \<Rightarrow> nat" where
  "next_bucket m_mask index = unat ((word_of_nat index + 1) AND m_mask)"

section \<open>Lookup\<close>

text \<open>
  The loop that \<open>find_impl\<close> and \<open>insert_impl\<close> share: whether the key was found, the bucket where
  the loop stopped and the distance there.
\<close>

partial_function (option) rh_probe ::
  "u64 \<Rightarrow> ('k, 'v) bucket_entry list \<Rightarrow> 'k \<Rightarrow> nat \<Rightarrow> int \<Rightarrow> (bool \<times> nat \<times> int) res option" where
  "rh_probe m_mask bs key ibucket d =
     (case Prelude.at bs ibucket of
        Inl e \<Rightarrow> Some (Inl e)
      | Inr b \<Rightarrow>
          if d \<le> be_dist b then
            (case be_get b of
               Inl e \<Rightarrow> Some (Inl e)
             | Inr kv \<Rightarrow>
                 if fst kv = key then Some (Inr (True, ibucket, d))
                 else rh_probe m_mask bs key (next_bucket m_mask ibucket) (to_int16 (d + 1)))
          else Some (Inr (False, ibucket, d)))"

definition rh_find :: "'k rh_env \<Rightarrow> ('k, 'v) robin_hash \<Rightarrow> 'k \<Rightarrow> nat res option" where
  "rh_find env t key =
     bind_run (rh_probe (rh_mask t) (m_buckets t) key (bucket_for_hash (rh_mask t) (re_hash env key)) 0)
       (\<lambda>(found, ibucket, d). Some (Inr (if found then ibucket else rh_bucket_count t)))"

text \<open>\<open>it.value()\<close>\<close>

definition rh_value :: "('k, 'v) robin_hash \<Rightarrow> nat \<Rightarrow> 'v res" where
  "rh_value t it = bind_res (Prelude.at (m_buckets t) it) (\<lambda>b. bind_res (be_get b) (\<lambda>kv. Inr (snd kv)))"

definition rh_at :: "'k rh_env \<Rightarrow> ('k, 'v) robin_hash \<Rightarrow> 'k \<Rightarrow> 'v res option" where
  "rh_at env t key =
     bind_run (rh_find env t key) (\<lambda>it.
       Some (if it \<noteq> rh_bucket_count t then rh_value t it else Inl (Thrown ''out_of_range'')))"

definition rh_count :: "'k rh_env \<Rightarrow> ('k, 'v) robin_hash \<Rightarrow> 'k \<Rightarrow> nat res option" where
  "rh_count env t key =
     bind_run (rh_find env t key) (\<lambda>it. Some (Inr (if it \<noteq> rh_bucket_count t then 1 else 0)))"

definition rh_contains :: "'k rh_env \<Rightarrow> ('k, 'v) robin_hash \<Rightarrow> 'k \<Rightarrow> bool res option" where
  "rh_contains env t key = bind_run (rh_count env t key) (\<lambda>n. Some (Inr (n \<noteq> 0)))"

section \<open>Growing and shrinking\<close>

partial_function (option) insert_value_on_rehash ::
  "u64 \<Rightarrow> ('k, 'v) bucket_entry list \<Rightarrow> nat \<Rightarrow> int \<Rightarrow> 'k \<times> 'v
    \<Rightarrow> ('k, 'v) bucket_entry list res option" where
  "insert_value_on_rehash m_mask bs ibucket d kv =
     (case Prelude.at bs ibucket of
        Inl e \<Rightarrow> Some (Inl e)
      | Inr b \<Rightarrow>
          if be_dist b < d then
            if be_empty b then Some (Inr (bs[ibucket := set_value_of_empty_bucket d kv b]))
            else
              (case swap_with_value_in_bucket d kv b of
                 Inl e \<Rightarrow> Some (Inl e)
               | Inr (b', d', kv') \<Rightarrow>
                   insert_value_on_rehash m_mask (bs[ibucket := b']) (next_bucket m_mask ibucket)
                     (to_int16 (d' + 1)) kv')
          else insert_value_on_rehash m_mask bs (next_bucket m_mask ibucket) (to_int16 (d + 1)) kv)"

fun rehash_loop ::
  "'k rh_env \<Rightarrow> u64 \<Rightarrow> ('k, 'v) bucket_entry list \<Rightarrow> ('k, 'v) bucket_entry list
    \<Rightarrow> ('k, 'v) bucket_entry list res option" where
  "rehash_loop env m_mask [] new = Some (Inr new)"
| "rehash_loop env m_mask (b # bs) new =
     (if be_empty b then rehash_loop env m_mask bs new
      else case be_get b of
        Inl e \<Rightarrow> Some (Inl e)
      | Inr kv \<Rightarrow>
          bind_run (insert_value_on_rehash m_mask new
                      (bucket_for_hash m_mask (re_hash env (fst kv))) 0 kv)
            (rehash_loop env m_mask bs))"

definition rehash_impl ::
  "'k rh_env \<Rightarrow> u64 \<Rightarrow> ('k, 'v) robin_hash \<Rightarrow> ('k, 'v) robin_hash res option" where
  "rehash_impl env cnt t =
     bind_run (Some (robin_hash_new env cnt (rh_min_load_factor t) (rh_max_load_factor t))) (\<lambda>new_table.
       bind_run (rehash_loop env (rh_mask new_table) (rh_buckets_data t) (rh_buckets_data new_table))
         (\<lambda>bs. Some (Inr (new_table\<lparr>rh_buckets_data := bs, rh_nb_elements := rh_nb_elements t\<rparr>))))"

text \<open>\<open>size_type(std::ceil(float(n) / max_load_factor()))\<close>\<close>

definition buckets_for :: "'k rh_env \<Rightarrow> nat \<Rightarrow> ('k, 'v) robin_hash \<Rightarrow> nat res" where
  "buckets_for env n t =
     size_of_float (of_int \<lceil>re_float env (float_of_size env n / rh_max_load_factor t)\<rceil>)"

definition rh_rehash ::
  "'k rh_env \<Rightarrow> nat \<Rightarrow> ('k, 'v) robin_hash \<Rightarrow> ('k, 'v) robin_hash res option" where
  "rh_rehash env cnt t =
     bind_run (Some (buckets_for env (rh_nb_elements t) t)) (\<lambda>least.
       rehash_impl env (word_of_nat (max cnt least)) t)"

definition rh_reserve ::
  "'k rh_env \<Rightarrow> nat \<Rightarrow> ('k, 'v) robin_hash \<Rightarrow> ('k, 'v) robin_hash res option" where
  "rh_reserve env cnt t =
     bind_run (Some (buckets_for env cnt t)) (\<lambda>n. rh_rehash env n t)"

definition load_factor :: "'k rh_env \<Rightarrow> ('k, 'v) robin_hash \<Rightarrow> rat" where
  "load_factor env t =
     (if rh_bucket_count t = 0 then 0
      else re_float env (float_of_size env (rh_nb_elements t) / float_of_size env (rh_bucket_count t)))"

definition rehash_on_extreme_load ::
  "'k rh_env \<Rightarrow> ('k, 'v) robin_hash \<Rightarrow> (('k, 'v) robin_hash \<times> bool) res option" where
  "rehash_on_extreme_load env t =
     (if rh_grow_on_next_insert t \<or> rh_load_threshold t \<le> rh_nb_elements t then
        bind_run (Some (next_bucket_count (rh_mask t))) (\<lambda>cnt.
          bind_run (rehash_impl env cnt t) (\<lambda>t.
            Some (Inr (t\<lparr>rh_grow_on_next_insert := False\<rparr>, True))))
      else if rh_try_skrink_on_next_insert t then
        (let t = t\<lparr>rh_try_skrink_on_next_insert := False\<rparr>
         in if rh_min_load_factor t \<noteq> 0 \<and> load_factor env t < rh_min_load_factor t then
              bind_run (rh_reserve env (rh_nb_elements t + 1) t) (\<lambda>t. Some (Inr (t, True)))
            else Some (Inr (t, False)))
      else Some (Inr (t, False)))"

section \<open>Insertion\<close>

text \<open>The second loop of \<open>insert_impl\<close>, after a rehash.\<close>

partial_function (option) rh_probe_free ::
  "u64 \<Rightarrow> ('k, 'v) bucket_entry list \<Rightarrow> nat \<Rightarrow> int \<Rightarrow> (nat \<times> int) res option" where
  "rh_probe_free m_mask bs ibucket d =
     (case Prelude.at bs ibucket of
        Inl e \<Rightarrow> Some (Inl e)
      | Inr b \<Rightarrow>
          if d \<le> be_dist b then rh_probe_free m_mask bs (next_bucket m_mask ibucket) (to_int16 (d + 1))
          else Some (Inr (ibucket, d)))"

text \<open>The loop of \<open>insert_value_impl\<close>: the buckets and \<open>m_grow_on_next_insert\<close>.\<close>

partial_function (option) insert_value_loop ::
  "u64 \<Rightarrow> ('k, 'v) bucket_entry list \<Rightarrow> nat \<Rightarrow> int \<Rightarrow> 'k \<times> 'v \<Rightarrow> bool
    \<Rightarrow> (('k, 'v) bucket_entry list \<times> bool) res option" where
  "insert_value_loop m_mask bs ibucket d kv grow =
     (case Prelude.at bs ibucket of
        Inl e \<Rightarrow> Some (Inl e)
      | Inr b \<Rightarrow>
          if be_empty b then Some (Inr (bs[ibucket := set_value_of_empty_bucket d kv b], grow))
          else if be_dist b < d then
            (case swap_with_value_in_bucket d kv b of
               Inl e \<Rightarrow> Some (Inl e)
             | Inr (b', d', kv') \<Rightarrow>
                 insert_value_loop m_mask (bs[ibucket := b']) (next_bucket m_mask ibucket)
                   (to_int16 (d' + 1)) kv' (grow \<or> DIST_FROM_IDEAL_BUCKET_LIMIT \<le> d))
          else insert_value_loop m_mask bs (next_bucket m_mask ibucket) (to_int16 (d + 1)) kv grow)"

definition insert_value_impl ::
  "nat \<Rightarrow> int \<Rightarrow> 'k \<times> 'v \<Rightarrow> ('k, 'v) robin_hash \<Rightarrow> ('k, 'v) robin_hash res option" where
  "insert_value_impl ibucket d kv t =
     bind_run (Some (Prelude.at (rh_buckets_data t) ibucket)) (\<lambda>b.
     bind_run (Some (swap_with_value_in_bucket d kv b)) (\<lambda>(b', d', kv').
     bind_run (insert_value_loop (rh_mask t) ((rh_buckets_data t)[ibucket := b'])
                 (next_bucket (rh_mask t) ibucket) (to_int16 (d' + 1)) kv' (rh_grow_on_next_insert t))
       (\<lambda>(bs, grow). Some (Inr (t\<lparr>rh_buckets_data := bs, rh_grow_on_next_insert := grow\<rparr>)))))"

text \<open>Where the new value goes: the bucket the first loop found, or the one found again after a rehash.\<close>

definition insert_position ::
  "'k rh_env \<Rightarrow> 'k \<Rightarrow> nat \<Rightarrow> int \<Rightarrow> ('k, 'v) robin_hash \<Rightarrow> (('k, 'v) robin_hash \<times> nat \<times> int) res option" where
  "insert_position env key ibucket d t =
     bind_run (rehash_on_extreme_load env t) (\<lambda>(t, rehashed).
       if rehashed then
         bind_run (rh_probe_free (rh_mask t) (m_buckets t)
                     (bucket_for_hash (rh_mask t) (re_hash env key)) 0)
           (\<lambda>(ibucket, d). Some (Inr (t, ibucket, d)))
       else Some (Inr (t, ibucket, d)))"

definition place_value ::
  "'k \<times> 'v \<Rightarrow> ('k, 'v) robin_hash \<Rightarrow> nat \<Rightarrow> int \<Rightarrow> ('k, 'v) robin_hash res option" where
  "place_value kv t ibucket d =
     bind_run (Some (Prelude.at (rh_buckets_data t) ibucket)) (\<lambda>b.
     bind_run (if be_empty b then
                 Some (Inr (t\<lparr>rh_buckets_data := (rh_buckets_data t)[ibucket := set_value_of_empty_bucket d kv b]\<rparr>))
               else insert_value_impl ibucket d kv t)
       (\<lambda>t. Some (Inr (t\<lparr>rh_nb_elements := rh_nb_elements t + 1\<rparr>))))"

text \<open>The table, the bucket of the key, and whether the key is new.\<close>

definition rh_insert ::
  "'k rh_env \<Rightarrow> 'k \<times> 'v \<Rightarrow> ('k, 'v) robin_hash \<Rightarrow> (('k, 'v) robin_hash \<times> nat \<times> bool) res option" where
  "rh_insert env kv t =
     bind_run (rh_probe (rh_mask t) (m_buckets t) (fst kv)
                 (bucket_for_hash (rh_mask t) (re_hash env (fst kv))) 0) (\<lambda>(found, ibucket, d).
       if found then Some (Inr (t, ibucket, False))
       else bind_run (insert_position env (fst kv) ibucket d t) (\<lambda>(t, ibucket, d).
         bind_run (place_value kv t ibucket d) (\<lambda>t. Some (Inr (t, ibucket, True)))))"

definition insert_or_assign ::
  "'k rh_env \<Rightarrow> 'k \<Rightarrow> 'v \<Rightarrow> ('k, 'v) robin_hash \<Rightarrow> (('k, 'v) robin_hash \<times> nat \<times> bool) res option" where
  "insert_or_assign env key obj t =
     bind_run (rh_insert env (key, obj) t) (\<lambda>(t, it, inserted).
       if inserted then Some (Inr (t, it, inserted))
       else bind_run (Some (Prelude.at (rh_buckets_data t) it)) (\<lambda>b.
         bind_run (Some (be_get b)) (\<lambda>kv.
           Some (Inr (t\<lparr>rh_buckets_data := (rh_buckets_data t)[it := b\<lparr>be_value := Some (fst kv, obj)\<rparr>]\<rparr>,
             it, inserted)))))"

section \<open>Removal\<close>

partial_function (option) erase_shift ::
  "u64 \<Rightarrow> ('k, 'v) bucket_entry list \<Rightarrow> nat \<Rightarrow> nat \<Rightarrow> ('k, 'v) bucket_entry list res option" where
  "erase_shift m_mask bs previous_ibucket ibucket =
     (case Prelude.at bs ibucket of
        Inl e \<Rightarrow> Some (Inl e)
      | Inr b \<Rightarrow>
          if 0 < be_dist b then
            (case be_get b of
               Inl e \<Rightarrow> Some (Inl e)
             | Inr kv \<Rightarrow>
                 erase_shift m_mask
                   (bs[previous_ibucket := set_value_of_empty_bucket (to_int16 (be_dist b - 1)) kv
                                              (bs ! previous_ibucket),
                       ibucket := be_clear b])
                   ibucket (next_bucket m_mask ibucket))
          else Some (Inr bs))"

definition erase_from_bucket ::
  "nat \<Rightarrow> ('k, 'v) robin_hash \<Rightarrow> ('k, 'v) robin_hash res option" where
  "erase_from_bucket pos t =
     bind_run (Some (Prelude.at (rh_buckets_data t) pos)) (\<lambda>b.
     bind_run (erase_shift (rh_mask t) ((rh_buckets_data t)[pos := be_clear b]) pos (next_bucket (rh_mask t) pos))
       (\<lambda>bs. Some (Inr (t\<lparr>rh_buckets_data := bs, rh_nb_elements := rh_nb_elements t - 1\<rparr>))))"

text \<open>\<open>erase(key)\<close>: the table and the number of removed elements.\<close>

definition rh_erase ::
  "'k rh_env \<Rightarrow> 'k \<Rightarrow> ('k, 'v) robin_hash \<Rightarrow> (('k, 'v) robin_hash \<times> nat) res option" where
  "rh_erase env key t =
     bind_run (rh_find env t key) (\<lambda>it.
       if it \<noteq> rh_bucket_count t then
         bind_run (erase_from_bucket it t) (\<lambda>t.
           Some (Inr (t\<lparr>rh_try_skrink_on_next_insert := True\<rparr>, 1)))
       else Some (Inr (t, 0)))"

definition rh_clear :: "('k, 'v) robin_hash \<Rightarrow> ('k, 'v) robin_hash" where
  "rh_clear t =
     t\<lparr>rh_buckets_data := map be_clear (rh_buckets_data t), rh_nb_elements := 0,
       rh_grow_on_next_insert := False\<rparr>"

section \<open>Iteration\<close>

text \<open>\<open>begin()\<close>: the first bucket with a value.\<close>

definition rh_begin :: "('k, 'v) robin_hash \<Rightarrow> nat" where
  "rh_begin t = length (takeWhile be_empty (take (rh_bucket_count t) (m_buckets t)))"

text \<open>
  \<open>operator++\<close>: the search ends at the first bucket with a value, or past the bucket that is
  marked as the last one. The argument \<open>n\<close> is the number of buckets behind the iterator.
\<close>

fun rh_increment_loop :: "('k, 'v) bucket_entry list \<Rightarrow> nat \<Rightarrow> nat \<Rightarrow> nat res" where
  "rh_increment_loop bs it 0 =
     bind_res (Prelude.at bs it) (\<lambda>b. if be_last b then Inr (it + 1) else Inl Undefined)"
| "rh_increment_loop bs it (Suc n) =
     bind_res (Prelude.at bs it) (\<lambda>b.
       if be_last b then Inr (it + 1)
       else bind_res (Prelude.at bs (it + 1)) (\<lambda>b'.
         if \<not> be_empty b' then Inr (it + 1) else rh_increment_loop bs (it + 1) n))"

definition rh_increment :: "('k, 'v) robin_hash \<Rightarrow> nat \<Rightarrow> nat res" where
  "rh_increment t it = rh_increment_loop (m_buckets t) it (length (m_buckets t) - 1 - it)"

text \<open>\<open>erase(iterator)\<close> and the iterator it returns.\<close>

definition rh_erase_at ::
  "nat \<Rightarrow> ('k, 'v) robin_hash \<Rightarrow> (('k, 'v) robin_hash \<times> nat) res option" where
  "rh_erase_at pos t =
     bind_run (erase_from_bucket pos t) (\<lambda>t.
     bind_run (Some (Prelude.at (rh_buckets_data t) pos)) (\<lambda>b.
     bind_run (Some (if be_empty b then rh_increment t pos else Inr pos)) (\<lambda>pos.
       Some (Inr (t\<lparr>rh_try_skrink_on_next_insert := True\<rparr>, pos)))))"

text \<open>
  \<open>erase(first, last)\<close>: the values between the iterators are destroyed, then the values behind
  them move as close to their ideal buckets as the gap allows. The loop stops at the end of the
  array, at an empty bucket or at a value in its ideal bucket.
\<close>

fun erase_range_clear ::
  "('k, 'v) bucket_entry list \<Rightarrow> nat \<Rightarrow> nat \<Rightarrow> nat \<Rightarrow> (('k, 'v) bucket_entry list \<times> nat) res" where
  "erase_range_clear bs nb it 0 = Inr (bs, nb)"
| "erase_range_clear bs nb it (Suc n) =
     bind_res (Prelude.at bs it) (\<lambda>b.
       if be_empty b then erase_range_clear bs nb (it + 1) n
       else erase_range_clear (bs[it := be_clear b]) (nb - 1) (it + 1) n)"

fun erase_range_shift ::
  "('k, 'v) bucket_entry list \<Rightarrow> nat \<Rightarrow> nat \<Rightarrow> nat \<Rightarrow> ('k, 'v) bucket_entry list res" where
  "erase_range_shift bs icloser_bucket ito_move 0 = Inr bs"
| "erase_range_shift bs icloser_bucket ito_move (Suc n) =
     bind_res (Prelude.at bs ito_move) (\<lambda>b.
       if be_dist b \<le> 0 then Inr bs
       else bind_res (be_get b) (\<lambda>kv.
         let icloser = ito_move - min (ito_move - icloser_bucket) (nat (be_dist b));
             d = to_int16 (be_dist b - int (ito_move - icloser))
         in erase_range_shift
              (bs[icloser := set_value_of_empty_bucket d kv (bs ! icloser), ito_move := be_clear b])
              (icloser + 1) (ito_move + 1) n))"

text \<open>
  The distance of the bucket behind the range is read as an unsigned number: an empty bucket gives
  a number above every gap.
\<close>

definition rh_erase_range ::
  "nat \<Rightarrow> nat \<Rightarrow> ('k, 'v) robin_hash \<Rightarrow> (('k, 'v) robin_hash \<times> nat) res" where
  "rh_erase_range first_it last_it t =
     (if first_it = last_it then Inr (t, first_it)
      else bind_res (erase_range_clear (rh_buckets_data t) (rh_nb_elements t) first_it (last_it - first_it))
        (\<lambda>(bs, nb).
           if last_it = rh_bucket_count t
           then Inr (t\<lparr>rh_buckets_data := bs, rh_nb_elements := nb\<rparr>, rh_bucket_count t)
           else bind_res (Prelude.at bs last_it) (\<lambda>b.
             let ireturn = last_it - min (last_it - first_it) (unat (word_of_int (be_dist b) :: u64))
             in bind_res (erase_range_shift bs first_it last_it (rh_bucket_count t - last_it)) (\<lambda>bs.
                  Inr (t\<lparr>rh_buckets_data := bs, rh_nb_elements := nb,
                         rh_try_skrink_on_next_insert := True\<rparr>, ireturn)))))"

section \<open>Moving a table\<close>

text \<open>The move constructor: the new table and what is left of the old one.\<close>

definition rh_move :: "('k, 'v) robin_hash \<Rightarrow> ('k, 'v) robin_hash \<times> ('k, 'v) robin_hash" where
  "rh_move other =
     (other, other\<lparr>rh_mask := 0, rh_buckets_data := [], rh_bucket_count := 0, rh_nb_elements := 0,
        rh_load_threshold := 0, rh_grow_on_next_insert := False, rh_try_skrink_on_next_insert := False\<rparr>)"

text \<open>\<open>swap\<close>, and the assignment by moving: a swap after which the other table is cleared.\<close>

definition rh_swap ::
  "('k, 'v) robin_hash \<Rightarrow> ('k, 'v) robin_hash \<Rightarrow> ('k, 'v) robin_hash \<times> ('k, 'v) robin_hash" where
  "rh_swap this other = (other, this)"

definition rh_move_assign ::
  "('k, 'v) robin_hash \<Rightarrow> ('k, 'v) robin_hash \<Rightarrow> ('k, 'v) robin_hash \<times> ('k, 'v) robin_hash" where
  "rh_move_assign this other =
     (let (this, other) = rh_swap this other in (this, rh_clear other))"

text \<open>\<open>insert(first, last)\<close> over a forward range.\<close>

fun rh_insert_each ::
  "'k rh_env \<Rightarrow> ('k \<times> 'v) list \<Rightarrow> ('k, 'v) robin_hash \<Rightarrow> ('k, 'v) robin_hash res option" where
  "rh_insert_each env [] t = Some (Inr t)"
| "rh_insert_each env (kv # kvs) t =
     bind_run (rh_insert env kv t) (\<lambda>(t, it, inserted). rh_insert_each env kvs t)"

definition rh_insert_range ::
  "'k rh_env \<Rightarrow> ('k \<times> 'v) list \<Rightarrow> ('k, 'v) robin_hash \<Rightarrow> ('k, 'v) robin_hash res option" where
  "rh_insert_range env kvs t =
     (let nb_free_buckets = word_of_nat (rh_load_threshold t) - word_of_nat (rh_nb_elements t) :: u64
      in bind_run
           (if 0 < length kvs \<and> nb_free_buckets < word_of_nat (length kvs)
            then rh_reserve env (rh_nb_elements t + length kvs) t else Some (Inr t))
           (rh_insert_each env kvs))"

text \<open>\<open>operator[]\<close>: the table with an entry for the key, and its bucket; \<open>init\<close> is the value of \<open>T()\<close>.\<close>

definition rh_index ::
  "'k rh_env \<Rightarrow> 'v \<Rightarrow> 'k \<Rightarrow> ('k, 'v) robin_hash \<Rightarrow> (('k, 'v) robin_hash \<times> nat) res option" where
  "rh_index env init key t =
     bind_run (rh_insert env (key, init) t) (\<lambda>(t, it, inserted). Some (Inr (t, it)))"

text \<open>\<open>insert_hint\<close>: a hint at the key itself is returned as it is.\<close>

definition rh_insert_hint ::
  "'k rh_env \<Rightarrow> nat \<Rightarrow> 'k \<times> 'v \<Rightarrow> ('k, 'v) robin_hash \<Rightarrow> (('k, 'v) robin_hash \<times> nat) res option" where
  "rh_insert_hint env hint kv t =
     (if hint \<noteq> rh_bucket_count t then
        bind_run (Some (bind_res (Prelude.at (m_buckets t) hint) be_get)) (\<lambda>at_hint.
          if fst at_hint = fst kv then Some (Inr (t, hint))
          else bind_run (rh_insert env kv t) (\<lambda>(t, it, inserted). Some (Inr (t, it))))
      else bind_run (rh_insert env kv t) (\<lambda>(t, it, inserted). Some (Inr (t, it))))"

end
