(* ===== verification/RobinProbing.thy ===== *)
theory RobinProbing
  imports RobinTable
begin

text \<open>
  The bucket array of the hash map of \<open>RobinTable\<close>: the Robin Hood invariant, and what the loops
  that probe, insert, shift back and rehash do to an array that satisfies it. The loops end because
  an empty bucket is ahead; the distances stay 16-bit numbers because it is near (\<open>roomy\<close>).
\<close>

section \<open>Masks and powers of two\<close>

lemma unat_and_mask: "unat (w AND mask p) = unat w mod 2 ^ p" for w :: u64
  by (simp only: take_bit_eq_mask [symmetric] unsigned_take_bit_eq) (simp only: take_bit_eq_mod)

lemma bucket_for_hash_mod: "bucket_for_hash (mask p) h = unat h mod 2 ^ p"
  by (simp only: bucket_for_hash_def unat_and_mask)

lemma next_bucket_mod:
  assumes "i < 2 ^ p" and "p \<le> 63"
  shows "next_bucket (mask p) i = (i + 1) mod 2 ^ p"
proof -
  have "i + 1 < 2 ^ LENGTH(64)"
    using assms power_increasing [of p 63 "2::nat"] by simp
  then have "unat (word_of_nat (i + 1) :: u64) = i + 1" by (rule unat_word_of_nat)
  moreover have "word_of_nat i + 1 = (word_of_nat (i + 1) :: u64)" by simp
  ultimately show ?thesis by (simp only: next_bucket_def unat_and_mask)
qed

lemma to_int16_small: "- 32768 \<le> x \<Longrightarrow> x < 32768 \<Longrightarrow> to_int16 x = x"
  unfolding to_int16_def sint_sbintrunc' by (rule signed_take_bit_int_eq_self) auto

lemma highest_bit:
  fixes w :: u64
  assumes "w \<noteq> 0"
  obtains p where "p < 64" "2 ^ p \<le> unat w" "unat w < 2 ^ (p + 1)"
proof -
  have "1 \<le> unat w" using assms by (simp add: Suc_le_eq unat_gt_0)
  then obtain p where p: "2 ^ p \<le> unat w" "unat w < 2 ^ (p + 1)"
    using ex_power_ivl1 [of 2 "unat w"] by auto
  have "unat w < 2 ^ 64" using unat_bound [of w] by simp
  with p(1) have "(2::nat) ^ p < 2 ^ 64" by linarith
  then have "p < 64" by (simp only: power_strict_increasing_iff)
  then show ?thesis using p by (rule that)
qed

lemma bit_below_highest:
  assumes "unat (w :: u64) < 2 ^ (p + 1)" and "bit w n"
  shows "n \<le> p"
proof (rule ccontr)
  assume "\<not> n \<le> p"
  then have "(2::nat) ^ (p + 1) \<le> 2 ^ n" by (intro power_increasing) auto
  with assms(1) have "unat w div 2 ^ n = 0" by (intro div_less) linarith
  moreover have "bit (unat w) n" using assms(2) by (simp add: bit_unsigned_iff)
  ultimately show False by (simp add: bit_iff_odd)
qed

lemma bit_highest:
  assumes "2 ^ p \<le> unat (w :: u64)" and "unat w < 2 ^ (p + 1)"
  shows "bit w p"
proof -
  have "unat w div 2 ^ p = 1"
    using assms by (intro div_nat_eqI) auto
  then have "bit (unat w) p" by (simp add: bit_iff_odd)
  then show ?thesis by (simp add: bit_unsigned_iff)
qed

lemma unat_eq_exp: "unat v = 2 ^ p \<Longrightarrow> v = 2 ^ p" for v :: u64
proof -
  assume "unat v = 2 ^ p"
  then have "(word_of_nat (unat v) :: u64) = word_of_nat (2 ^ p)" by (rule arg_cong)
  then show "v = 2 ^ p" by (simp only: of_nat_unat ucast_id of_nat_power of_nat_numeral)
qed

lemma is_power_of_two_iff:
  assumes "2 ^ p \<le> unat v" and "unat v < 2 ^ (p + 1)"
  shows "is_power_of_two v \<longleftrightarrow> unat v = 2 ^ p"
proof
  assume pow: "is_power_of_two v"
  show "unat v = 2 ^ p"
  proof (rule ccontr)
    assume "unat v \<noteq> 2 ^ p"
    with assms have lo: "2 ^ p \<le> unat v - 1" by linarith
    have u: "unat (v - 1) = unat v - 1"
      using pow by (simp add: is_power_of_two_def unat_minus_one)
    have "bit v p" using assms by (rule bit_highest)
    moreover have "bit (v - 1) p" using lo assms u by (intro bit_highest) auto
    ultimately have "bit (v AND (v - 1)) p" by (simp add: bit_and_iff)
    with pow show False by (simp add: is_power_of_two_def)
  qed
next
  assume v: "unat v = 2 ^ p"
  have p: "p < 64"
  proof -
    have "(2::nat) ^ p < 2 ^ 64" using v unat_bound [of v] by simp
    then show ?thesis by (simp only: power_strict_increasing_iff)
  qed
  have "v = 2 ^ p" using v by (rule unat_eq_exp)
  moreover have "(2 ^ p :: u64) - 1 = mask p" by (simp add: mask_eq_exp_minus_1)
  moreover have "unat (2 ^ p AND mask p :: u64) = 0"
    using v \<open>v = 2 ^ p\<close> by (simp only: unat_and_mask) simp
  ultimately show "is_power_of_two v"
    using p by (simp add: is_power_of_two_def unat_eq_0)
qed

lemma smear_step:
  assumes "\<And>n. bit (u :: u64) n \<longleftrightarrow> (\<exists>j<m. bit w (n + j))"
  shows "bit (u OR drop_bit m u) n \<longleftrightarrow> (\<exists>j<2 * m. bit w (n + j))"
proof -
  have "bit (u OR drop_bit m u) n \<longleftrightarrow> (\<exists>j<m. bit w (n + j)) \<or> (\<exists>j<m. bit w (n + (m + j)))"
    by (simp add: bit_or_iff bit_drop_bit_eq assms add.commute add.left_commute)
  also have "\<dots> \<longleftrightarrow> (\<exists>j<2 * m. bit w (n + j))"
  proof
    assume "\<exists>j<2 * m. bit w (n + j)"
    then obtain j where j: "j < 2 * m" "bit w (n + j)" by blast
    show "(\<exists>j<m. bit w (n + j)) \<or> (\<exists>j<m. bit w (n + (m + j)))"
    proof (cases "j < m")
      case False
      with j have "j - m < m" "bit w (n + (m + (j - m)))" by simp_all
      then show ?thesis by blast
    qed (use j in blast)
  next
    assume "(\<exists>j<m. bit w (n + j)) \<or> (\<exists>j<m. bit w (n + (m + j)))"
    then show "\<exists>j<2 * m. bit w (n + j)"
    proof (elim disjE exE conjE)
      fix j assume "j < m" "bit w (n + j)"
      then show ?thesis by (intro exI [of _ j]) simp
    next
      fix j assume "j < m" "bit w (n + (m + j))"
      then show ?thesis by (intro exI [of _ "m + j"]) simp
    qed
  qed
  finally show ?thesis .
qed

lemma smear_bits:
  "bit (foldl (\<lambda>v i. v OR drop_bit i v) w [1, 2, 4, 8, 16, 32]) n \<longleftrightarrow> (\<exists>j<64. bit w (n + j))"
  for w :: u64
proof -
  have 0: "bit w n \<longleftrightarrow> (\<exists>j<1. bit w (n + j))" for n by simp
  note 1 = smear_step [OF 0, simplified mult_1_right]
  note 2 = smear_step [OF 1, simplified] note 3 = smear_step [OF 2, simplified]
  note 4 = smear_step [OF 3, simplified] note 5 = smear_step [OF 4, simplified]
  note 6 = smear_step [OF 5, simplified]
  show ?thesis by (simp add: 6)
qed

text \<open>The result is the least power of two that is not below the argument.\<close>

lemma round_up_power:
  assumes "0 < v" and "unat v \<le> 2 ^ 63"
  obtains p where "p \<le> 63" "round_up_to_power_of_two v = 2 ^ p" "unat v \<le> 2 ^ p"
    "p = 0 \<or> 2 ^ (p - 1) < unat v"
proof (cases "is_power_of_two v")
  case True
  obtain p where p: "p < 64" "2 ^ p \<le> unat v" "unat v < 2 ^ (p + 1)"
    using highest_bit [of v] assms(1) by blast
  with True have u: "unat v = 2 ^ p" using is_power_of_two_iff by blast
  then have "v = 2 ^ p" by (rule unat_eq_exp)
  with True u p(1) show ?thesis
    by (intro that [of p]) (auto simp: round_up_to_power_of_two_def)
next
  case False
  have nz: "v \<noteq> 0" using assms(1) by auto
  have one: "unat v \<noteq> 1" using False is_power_of_two_iff [of 0 v] by auto
  let ?w = "v - 1"
  have w: "unat ?w = unat v - 1" using nz by (rule unat_minus_one)
  have "?w \<noteq> 0" using w one nz by (auto simp: unat_eq_0)
  then obtain p where p: "p < 64" "2 ^ p \<le> unat ?w" "unat ?w < 2 ^ (p + 1)"
    using highest_bit [of ?w] by blast
  have "(2::nat) ^ p < 2 ^ 63" using p(2) w assms nz by (simp add: unat_gt_0)
  then have p63: "p + 1 \<le> 63" by (simp only: power_strict_increasing_iff)
  have "foldl (\<lambda>v i. v OR drop_bit i v) ?w [1, 2, 4, 8, 16, 32] = mask (p + 1)"
  proof (rule bit_eqI)
    fix n assume n: "possible_bit TYPE(64 word) n"
    show "bit (foldl (\<lambda>v i. v OR drop_bit i v) ?w [1, 2, 4, 8, 16, 32]) n = bit (mask (p + 1) :: u64) n"
      unfolding smear_bits bit_mask_iff
    proof
      assume "\<exists>j<64. bit ?w (n + j)"
      then obtain j where "bit ?w (n + j)" by blast
      from bit_below_highest [OF p(3) this] n
      show "possible_bit TYPE(64 word) n \<and> n < p + 1" by simp
    next
      assume "possible_bit TYPE(64 word) n \<and> n < p + 1"
      then show "\<exists>j<64. bit ?w (n + j)"
        using bit_highest [OF p(2,3)] p(1) by (intro exI [of _ "p - n"]) auto
    qed
  qed
  then have "round_up_to_power_of_two v = mask (p + 1) + 1"
    using False nz by (simp only: round_up_to_power_of_two_def if_False)
  also have "\<dots> = 2 ^ (p + 1)" by (simp add: mask_eq_exp_minus_1)
  finally have "round_up_to_power_of_two v = 2 ^ (p + 1)" .
  moreover have "unat v \<le> 2 ^ (p + 1)" "2 ^ p < unat v"
    using p(2,3) w nz by (auto simp: unat_gt_0 Suc_le_eq)
  ultimately show ?thesis using p63 by (intro that [of "p + 1"]) auto
qed

section \<open>The Robin Hood invariant\<close>

text \<open>
  \<open>h\<close> gives the ideal bucket of a key. A value at distance \<open>d\<close> is \<open>d\<close> buckets behind its ideal
  bucket, and from a bucket to the next one the distance grows by at most one; an empty bucket
  counts as the distance \<open>-1\<close>.
\<close>

definition bucket_ok :: "('k \<Rightarrow> nat) \<Rightarrow> nat \<Rightarrow> nat \<Rightarrow> ('k, 'v) bucket_entry \<Rightarrow> bool" where
  "bucket_ok h n i b \<longleftrightarrow>
     (case be_value b of
        None \<Rightarrow> be_dist b = - 1
      | Some kv \<Rightarrow> 0 \<le> be_dist b \<and> i = (h (fst kv) + nat (be_dist b)) mod n)"

definition robin_inv :: "('k \<Rightarrow> nat) \<Rightarrow> ('k, 'v) bucket_entry list \<Rightarrow> bool" where
  "robin_inv h bs \<longleftrightarrow>
     (\<forall>i<length bs. bucket_ok h (length bs) i (bs ! i)) \<and>
     (\<forall>i<length bs. be_dist (bs ! (Suc i mod length bs)) \<le> be_dist (bs ! i) + 1)"

definition entries :: "('k, 'v) bucket_entry list \<Rightarrow> ('k \<times> 'v) list" where
  "entries bs = List.map_filter be_value bs"

text \<open>Within \<open>l\<close> steps of every bucket there is an empty one.\<close>

definition roomy :: "nat \<Rightarrow> ('k, 'v) bucket_entry list \<Rightarrow> bool" where
  "roomy l bs \<longleftrightarrow> (\<forall>i<length bs. \<exists>e\<le>l. be_empty (bs ! ((i + e) mod length bs)))"

text \<open>A value that is carried to bucket \<open>i\<close>.\<close>

definition carried :: "('k \<Rightarrow> nat) \<Rightarrow> ('k, 'v) bucket_entry list \<Rightarrow> nat \<Rightarrow> int \<Rightarrow> 'k \<times> 'v \<Rightarrow> bool" where
  "carried h bs i d kv \<longleftrightarrow> i < length bs \<and> 0 \<le> d \<and> i = (h (fst kv) + nat d) mod length bs
     \<and> (\<forall>j<length bs. Suc j mod length bs = i \<longrightarrow> d \<le> be_dist (bs ! j) + 1)"

lemma robin_inv_ok: "robin_inv h bs \<Longrightarrow> i < length bs \<Longrightarrow> bucket_ok h (length bs) i (bs ! i)"
  by (simp add: robin_inv_def)

lemma robin_inv_step:
  "robin_inv h bs \<Longrightarrow> i < length bs \<Longrightarrow> be_dist (bs ! (Suc i mod length bs)) \<le> be_dist (bs ! i) + 1"
  by (simp add: robin_inv_def)

lemma bucket_ok_empty: "bucket_ok h n i b \<Longrightarrow> be_empty b \<longleftrightarrow> be_value b = None"
  by (auto simp: bucket_ok_def be_empty_def split: option.splits)

lemma bucket_ok_dist: "bucket_ok h n i b \<Longrightarrow> - 1 \<le> be_dist b"
  by (auto simp: bucket_ok_def split: option.splits)

lemma bucket_ok_full:
  "bucket_ok h n i b \<Longrightarrow> 0 \<le> be_dist b \<Longrightarrow>
    \<exists>kv. be_value b = Some kv \<and> i = (h (fst kv) + nat (be_dist b)) mod n"
  by (auto simp: bucket_ok_def split: option.splits)

lemma bucket_ok_not_empty: "bucket_ok h n i b \<Longrightarrow> \<not> be_empty b \<longleftrightarrow> 0 \<le> be_dist b"
  by (auto simp: bucket_ok_def be_empty_def split: option.splits)

lemma robin_inv_steps:
  assumes "robin_inv h bs" and "bs \<noteq> []"
  shows "be_dist (bs ! ((i + k) mod length bs)) \<le> be_dist (bs ! (i mod length bs)) + int k"
proof (induction k)
  case (Suc k)
  have "be_dist (bs ! (Suc ((i + k) mod length bs) mod length bs)) \<le> be_dist (bs ! ((i + k) mod length bs)) + 1"
    using assms by (intro robin_inv_step) simp_all
  with Suc show ?case by (simp add: mod_Suc_eq)
qed simp

lemma mod_step_inj:
  fixes n :: nat
  assumes "i < n" and "j < n" and "Suc i mod n = Suc j mod n"
  shows "i = j"
proof -
  have "(Suc i + (n - 1)) mod n = (Suc j + (n - 1)) mod n"
    using assms(3) by (metis mod_add_left_eq)
  with assms(1,2) show ?thesis by simp
qed

lemma roomy_dist:
  assumes inv: "robin_inv h bs" and room: "roomy l bs" and i: "i < length bs"
  shows "be_dist (bs ! i) < int l"
proof (cases "be_value (bs ! i)")
  case (Some kv)
  let ?n = "length bs" and ?d = "nat (be_dist (bs ! i))"
  have ok: "0 \<le> be_dist (bs ! i)" "i = (h (fst kv) + ?d) mod ?n"
    using robin_inv_ok [OF inv i] Some by (auto simp: bucket_ok_def)
  have n: "0 < ?n" "bs \<noteq> []" using i by auto
  from n(1) have "h (fst kv) mod ?n < ?n" by simp
  then obtain e where e: "e \<le> l" "be_empty (bs ! ((h (fst kv) mod ?n + e) mod ?n))"
    using room unfolding roomy_def by blast
  then have e': "be_dist (bs ! ((h (fst kv) + e) mod ?n)) = - 1"
    by (simp add: be_empty_def mod_add_left_eq)
  have "?d < e"
  proof (rule ccontr)
    assume "\<not> ?d < e"
    then have "be_dist (bs ! ((h (fst kv) + e + (?d - e)) mod ?n)) \<le> - 1 + int (?d - e)"
      using robin_inv_steps [OF inv, of "h (fst kv) + e" "?d - e"] n e' by simp
    moreover have "h (fst kv) + e + (?d - e) = h (fst kv) + ?d" using \<open>\<not> ?d < e\<close> by simp
    ultimately have "be_dist (bs ! i) \<le> - 1 + int (?d - e)" using ok(2) by simp
    then show False using ok(1) by linarith
  qed
  with e(1) show ?thesis by linarith
next
  case None
  then have "be_dist (bs ! i) = - 1" using robin_inv_ok [OF inv i] by (simp add: bucket_ok_def)
  then show ?thesis by simp
qed

section \<open>Placing and swapping\<close>

lemma put_inv:
  assumes inv: "robin_inv h bs" and c: "carried h bs i d kv" and d: "be_dist (bs ! i) < d"
  shows "robin_inv h (bs[i := (bs ! i)\<lparr>be_value := Some kv, be_dist := d\<rparr>])"
    (is "robin_inv h ?bs")
proof -
  let ?n = "length bs"
  have i: "i < ?n" "0 \<le> d" "i = (h (fst kv) + nat d) mod ?n"
    and left: "\<And>j. j < ?n \<Longrightarrow> Suc j mod ?n = i \<Longrightarrow> d \<le> be_dist (bs ! j) + 1"
    using c unfolding carried_def by blast+
  have ok: "bucket_ok h ?n j (?bs ! j)" if "j < ?n" for j
    using that robin_inv_ok [OF inv that] i by (cases "j = i") (simp_all add: bucket_ok_def)
  have step: "be_dist (?bs ! (Suc j mod ?n)) \<le> be_dist (?bs ! j) + 1" if j: "j < ?n" for j
  proof (cases "Suc j mod ?n = i")
    case True
    then show ?thesis using left [OF j True] i(1) by (cases "j = i") simp_all
  next
    case False
    then show ?thesis using robin_inv_step [OF inv j] d i(1) by (cases "j = i") simp_all
  qed
  show ?thesis using ok step by (simp add: robin_inv_def)
qed

lemma step_home:
  assumes "i = (a + nat d) mod n" and "0 \<le> d"
  shows "Suc i mod n = (a + nat (d + 1)) mod n"
proof -
  have "nat (d + 1) = Suc (nat d)" using assms(2) by simp
  then show ?thesis using assms(1) by (simp only: mod_Suc_eq add_Suc_right)
qed

lemma skip_carried:
  assumes c: "carried h bs i d kv" and d: "d \<le> be_dist (bs ! i)"
  shows "carried h bs (Suc i mod length bs) (d + 1) kv"
proof -
  have i: "i < length bs" "0 \<le> d" "i = (h (fst kv) + nat d) mod length bs"
    using c unfolding carried_def by blast+
  have "Suc i mod length bs = (h (fst kv) + nat (d + 1)) mod length bs"
    using i(3,2) by (rule step_home)
  moreover have "d + 1 \<le> be_dist (bs ! j) + 1" if "j < length bs" "Suc j mod length bs = Suc i mod length bs" for j
    using mod_step_inj [OF that(1) i(1) that(2)] d by simp
  moreover have "Suc i mod length bs < length bs" using i(1) by (intro mod_less_divisor, linarith)
  ultimately show ?thesis using i(2) unfolding carried_def by simp
qed

lemma swap_carried:
  assumes inv: "robin_inv h bs" and c: "carried h bs i d kv" and d: "be_dist (bs ! i) < d"
    and old: "be_value (bs ! i) = Some kv'"
  shows "carried h (bs[i := (bs ! i)\<lparr>be_value := Some kv, be_dist := d\<rparr>])
    (Suc i mod length bs) (be_dist (bs ! i) + 1) kv'"
proof -
  have i: "i < length bs" using c unfolding carried_def by blast
  have ok: "0 \<le> be_dist (bs ! i)" "i = (h (fst kv') + nat (be_dist (bs ! i))) mod length bs"
    using robin_inv_ok [OF inv i] old by (auto simp: bucket_ok_def)
  have "Suc i mod length bs = (h (fst kv') + nat (be_dist (bs ! i) + 1)) mod length bs"
    using ok(2,1) by (rule step_home)
  moreover have "Suc i mod length bs < length bs" using i by (intro mod_less_divisor, linarith)
  moreover have "be_dist (bs ! i) + 1
      \<le> be_dist (bs[i := (bs ! i)\<lparr>be_value := Some kv, be_dist := d\<rparr>] ! j) + 1"
    if "j < length bs" "Suc j mod length bs = Suc i mod length bs" for j
    using mod_step_inj [OF that(1) i that(2)] i d by simp
  ultimately show ?thesis using ok(1) by (simp add: carried_def)
qed

lemma mset_entries: "mset (entries bs) = (\<Sum>b\<leftarrow>bs. mset (case be_value b of None \<Rightarrow> [] | Some kv \<Rightarrow> [kv]))"
  unfolding entries_def by (induction bs) (simp_all add: map_filter_simps split: option.split)

lemma entries_update:
  assumes "i < length bs"
  shows "mset (entries (bs[i := b])) + mset (case be_value (bs ! i) of None \<Rightarrow> [] | Some kv \<Rightarrow> [kv])
    = mset (entries bs) + mset (case be_value b of None \<Rightarrow> [] | Some kv \<Rightarrow> [kv])"
proof -
  have bs: "bs = take i bs @ bs ! i # drop (Suc i) bs"
    using assms by (rule id_take_nth_drop)
  have "bs[i := b] = take i bs @ b # drop (Suc i) bs"
    using assms by (rule upd_conv_take_nth_drop)
  then show ?thesis
    unfolding mset_entries by (subst (2) bs) (simp add: ac_simps)
qed

lemma entries_put_empty:
  assumes "i < length bs" and "be_value (bs ! i) = None" and "be_value b = Some kv"
  shows "mset (entries (bs[i := b])) = add_mset kv (mset (entries bs))"
  using entries_update [OF assms(1), of b] assms(2,3) by simp

lemma entries_swap:
  assumes "i < length bs" and "be_value (bs ! i) = Some kv'" and "be_value b = Some kv"
  shows "add_mset kv' (mset (entries (bs[i := b]))) = add_mset kv (mset (entries bs))"
  using entries_update [OF assms(1), of b] assms(2,3) by simp

lemma in_entries: "kv \<in> set (entries bs) \<longleftrightarrow> (\<exists>i<length bs. be_value (bs ! i) = Some kv)"
  by (auto simp: entries_def List.map_filter_def in_set_conv_nth image_iff)

section \<open>Insertion\<close>

definition placed ::
  "('k \<Rightarrow> nat) \<Rightarrow> ('k, 'v) bucket_entry list \<Rightarrow> 'k \<times> 'v \<Rightarrow> ('k, 'v) bucket_entry list \<Rightarrow> bool" where
  "placed h bs kv bs' \<longleftrightarrow> robin_inv h bs' \<and> map be_last bs' = map be_last bs
     \<and> mset (entries bs') = add_mset kv (mset (entries bs))"

lemma placed_length: "placed h bs kv bs' \<Longrightarrow> length bs' = length bs"
  unfolding placed_def by (metis length_map)

lemma map_update_same: "i < length xs \<Longrightarrow> f y = f (xs ! i) \<Longrightarrow> map f (xs[i := y]) = map f xs"
  by (simp add: map_update list_update_same_conv)

lemma placed_put:
  assumes inv: "robin_inv h bs" and c: "carried h bs i d kv" and e: "be_empty (bs ! i)"
  shows "placed h bs kv (bs[i := set_value_of_empty_bucket d kv (bs ! i)])"
proof -
  have i: "i < length bs" "0 \<le> d" using c unfolding carried_def by blast+
  have "be_dist (bs ! i) < d" using e i(2) by (simp add: be_empty_def)
  note put = put_inv [OF inv c this]
  have "be_value (bs ! i) = None" using bucket_ok_empty [OF robin_inv_ok [OF inv i(1)]] e by simp
  with put i(1) show ?thesis
    by (simp add: placed_def set_value_of_empty_bucket_def map_update_same entries_put_empty)
qed

lemma placed_swap:
  assumes "placed h (bs[i := (bs ! i)\<lparr>be_value := Some kv, be_dist := d\<rparr>]) kv' bs'"
    and "i < length bs" and "be_value (bs ! i) = Some kv'"
  shows "placed h bs kv bs'"
proof -
  let ?bs = "bs[i := (bs ! i)\<lparr>be_value := Some kv, be_dist := d\<rparr>]"
  have "add_mset kv' (mset (entries ?bs)) = add_mset kv (mset (entries bs))"
    using assms(2,3) by (intro entries_swap) simp_all
  moreover have "map be_last ?bs = map be_last bs" using assms(2) by (intro map_update_same) simp_all
  ultimately show ?thesis using assms(1) by (simp add: placed_def)
qed

lemma empty_update:
  assumes "\<not> be_empty (bs ! i)" and "\<not> be_empty b"
  shows "be_empty (bs[i := b] ! j) \<longleftrightarrow> be_empty (bs ! j)"
  using assms by (cases "i < length bs") (auto simp: nth_list_update list_update_beyond)

lemma roomy_update:
  assumes "roomy l bs" and "\<not> be_empty (bs ! i)" and "\<not> be_empty b"
  shows "roomy l (bs[i := b])"
  using assms(1) unfolding roomy_def length_list_update empty_update [OF assms(2,3)] .

text \<open>What both loops of the insertion do at a bucket that is not empty.\<close>

lemma insertion_step:
  assumes inv: "robin_inv h bs" and c: "carried h bs i d kv" and room: "roomy l bs"
    and full: "\<not> be_empty (bs ! i)" and goal: "be_empty (bs ! ((i + Suc g) mod length bs))"
    and swap: "be_dist (bs ! i) < d"
  obtains kv' bs' where "be_get (bs ! i) = Inr kv'"
    and "bs' = bs[i := (bs ! i)\<lparr>be_value := Some kv, be_dist := d\<rparr>]"
    and "length bs' = length bs"
    and "robin_inv h bs'" "carried h bs' (Suc i mod length bs) (be_dist (bs ! i) + 1) kv'"
    and "roomy l bs'" "be_empty (bs' ! ((Suc i mod length bs + g) mod length bs))"
    and "\<And>bs''. placed h bs' kv' bs'' \<Longrightarrow> placed h bs kv bs''"
proof -
  let ?b = "(bs ! i)\<lparr>be_value := Some kv, be_dist := d\<rparr>"
  have i: "i < length bs" "0 \<le> d" using c unfolding carried_def by blast+
  have "0 \<le> be_dist (bs ! i)" using bucket_ok_not_empty [OF robin_inv_ok [OF inv i(1)]] full by simp
  then obtain kv' where kv': "be_value (bs ! i) = Some kv'"
    using bucket_ok_full [OF robin_inv_ok [OF inv i(1)]] by blast
  have b: "\<not> be_empty ?b" using i(2) by (simp add: be_empty_def)
  have "(Suc i mod length bs + g) mod length bs = (i + Suc g) mod length bs"
    by (simp add: mod_add_left_eq)
  then have "be_empty (bs[i := ?b] ! ((Suc i mod length bs + g) mod length bs))"
    using goal by (simp only: empty_update [OF full b])
  then show ?thesis
    using kv' put_inv [OF inv c swap] swap_carried [OF inv c swap kv'] roomy_update [OF room full b]
      placed_swap [OF _ i(1) kv']
    by (intro that [of kv' "bs[i := ?b]"]) (simp_all add: be_get_def)
qed

lemma insert_value_on_rehash_placed:
  assumes len: "length bs = 2 ^ p" and p: "p \<le> 63" and "robin_inv h bs" and "carried h bs i d kv"
    and "roomy l bs" and l: "l \<le> 32767" and "be_empty (bs ! ((i + g) mod length bs))"
  shows "\<exists>bs'. insert_value_on_rehash (mask p) bs i d kv = Some (Inr bs') \<and> placed h bs kv bs'"
  using assms(1,3-5,7)
proof (induction g arbitrary: bs i d kv)
  case 0
  then have i: "i < length bs" "0 \<le> d" unfolding carried_def by blast+
  with 0 have "be_empty (bs ! i)" by simp
  moreover from this have "be_dist (bs ! i) < d" using i(2) by (simp add: be_empty_def)
  ultimately show ?case
    using i placed_put [OF 0(2,3)] by (subst insert_value_on_rehash.simps) simp
next
  case (Suc g)
  have i: "i < length bs" "0 \<le> d" using Suc.prems(3) unfolding carried_def by blast+
  have nxt: "next_bucket (mask p) i = Suc i mod length bs"
    using next_bucket_mod [of i p] i(1) Suc.prems(1) p by simp
  have dist: "be_dist (bs ! i) < 32767" "- 1 \<le> be_dist (bs ! i)"
    using roomy_dist [OF Suc.prems(2,4) i(1)] l bucket_ok_dist [OF robin_inv_ok [OF Suc.prems(2) i(1)]]
    by simp_all
  show ?case
  proof (cases "be_empty (bs ! i)")
    case True
    moreover from this have "be_dist (bs ! i) < d" using i(2) by (simp add: be_empty_def)
    ultimately show ?thesis
      using i placed_put [OF Suc.prems(2,3)] by (subst insert_value_on_rehash.simps) simp
  next
    case full: False
    show ?thesis
    proof (cases "be_dist (bs ! i) < d")
      case True
      obtain kv' bs' where get: "be_get (bs ! i) = Inr kv'"
        and bs': "bs' = bs[i := (bs ! i)\<lparr>be_value := Some kv, be_dist := d\<rparr>]"
        and IH: "length bs' = length bs" "robin_inv h bs'"
          "carried h bs' (Suc i mod length bs) (be_dist (bs ! i) + 1) kv'"
          "roomy l bs'" "be_empty (bs' ! ((Suc i mod length bs + g) mod length bs))"
        and lift: "\<And>bs''. placed h bs' kv' bs'' \<Longrightarrow> placed h bs kv bs''"
        by (rule insertion_step [OF Suc.prems(2-4) full Suc.prems(5) True]) blast
      have "\<exists>bs''. insert_value_on_rehash (mask p) bs' (Suc i mod length bs) (be_dist (bs ! i) + 1) kv'
          = Some (Inr bs'') \<and> placed h bs' kv' bs''"
        using IH Suc.prems(1) by (intro Suc.IH) simp_all
      then show ?thesis
        using i full True get bs' lift dist
        by (subst insert_value_on_rehash.simps)
           (auto simp: swap_with_value_in_bucket_def nxt to_int16_small)
    next
      case False
      have "\<exists>bs'. insert_value_on_rehash (mask p) bs (Suc i mod length bs) (d + 1) kv
          = Some (Inr bs') \<and> placed h bs kv bs'"
        using Suc.prems skip_carried [OF Suc.prems(3)] False
        by (intro Suc.IH) (simp_all add: mod_add_left_eq)
      then show ?thesis
        using i False dist by (subst insert_value_on_rehash.simps) (auto simp: nxt to_int16_small)
    qed
  qed
qed

text \<open>An insertion that starts at bucket \<open>i\<close> changes at most the next \<open>g\<close> buckets.\<close>

definition untouched :: "'a list \<Rightarrow> nat \<Rightarrow> nat \<Rightarrow> 'a list \<Rightarrow> bool" where
  "untouched bs i g bs' \<longleftrightarrow> (\<forall>j. (\<forall>e\<le>g. j \<noteq> (i + e) mod length bs) \<longrightarrow> bs' ! j = bs ! j)"

lemma untouched_put: "i < length bs \<Longrightarrow> untouched bs i g (bs[i := b])"
  unfolding untouched_def
proof (intro allI impI)
  fix j assume "i < length bs" "\<forall>e\<le>g. j \<noteq> (i + e) mod length bs"
  then have "j \<noteq> i" using spec [of _ 0] by auto
  then show "bs[i := b] ! j = bs ! j" by simp
qed

lemma untouched_step:
  assumes "i < length bs" and "untouched (bs[i := b]) (Suc i mod length bs) g bs'"
  shows "untouched bs i (Suc g) bs'"
  unfolding untouched_def
proof (intro allI impI)
  fix j assume j: "\<forall>e\<le>Suc g. j \<noteq> (i + e) mod length bs"
  have "j \<noteq> i" using j assms(1) spec [OF j, of 0] by simp
  moreover have "j \<noteq> (Suc i mod length bs + e) mod length bs" if "e \<le> g" for e
    using spec [OF j, of "Suc e"] that by (simp add: mod_add_left_eq)
  then have "bs' ! j = bs[i := b] ! j" using assms(2) by (simp add: untouched_def)
  ultimately show "bs' ! j = bs ! j" by simp
qed

lemma insert_value_loop_placed:
  assumes len: "length bs = 2 ^ p" and p: "p \<le> 63" and "robin_inv h bs" and "carried h bs i d kv"
    and "roomy l bs" and l: "l \<le> 32767" and "be_empty (bs ! ((i + g) mod length bs))"
    and "d \<le> int l"
  shows "\<exists>bs' grow'. insert_value_loop (mask p) bs i d kv grow = Some (Inr (bs', grow')) \<and> placed h bs kv bs'
    \<and> (l < 4096 \<longrightarrow> grow' = grow)
    \<and> untouched bs i g bs'"
  using assms(1,3-5,7,8)
proof (induction g arbitrary: bs i d kv grow)
  case 0
  then have "i < length bs" unfolding carried_def by blast
  with 0 have "be_empty (bs ! i)" by simp
  then show ?case
    using \<open>i < length bs\<close> placed_put [OF 0(2,3)] by (subst insert_value_loop.simps) (simp add: untouched_put)
next
  case (Suc g)
  have i: "i < length bs" "0 \<le> d" using Suc.prems(3) unfolding carried_def by blast+
  have nxt: "next_bucket (mask p) i = Suc i mod length bs"
    using next_bucket_mod [of i p] i(1) Suc.prems(1) p by simp
  have dist: "be_dist (bs ! i) < int l" "be_dist (bs ! i) < 32767" "- 1 \<le> be_dist (bs ! i)"
    using roomy_dist [OF Suc.prems(2,4) i(1)] l bucket_ok_dist [OF robin_inv_ok [OF Suc.prems(2) i(1)]]
    by simp_all
  show ?case
  proof (cases "be_empty (bs ! i)")
    case True
    then show ?thesis
      using i placed_put [OF Suc.prems(2,3)] by (subst insert_value_loop.simps) (simp add: untouched_put)
  next
    case full: False
    show ?thesis
    proof (cases "be_dist (bs ! i) < d")
      case True
      obtain kv' bs' where get: "be_get (bs ! i) = Inr kv'"
        and bs': "bs' = bs[i := (bs ! i)\<lparr>be_value := Some kv, be_dist := d\<rparr>]"
        and IH: "length bs' = length bs" "robin_inv h bs'"
          "carried h bs' (Suc i mod length bs) (be_dist (bs ! i) + 1) kv'"
          "roomy l bs'" "be_empty (bs' ! ((Suc i mod length bs + g) mod length bs))"
        and lift: "\<And>bs''. placed h bs' kv' bs'' \<Longrightarrow> placed h bs kv bs''"
        by (rule insertion_step [OF Suc.prems(2-4) full Suc.prems(5) True]) blast
      have "\<exists>bs'' grow''. insert_value_loop (mask p) bs' (Suc i mod length bs) (be_dist (bs ! i) + 1) kv'
          (grow \<or> DIST_FROM_IDEAL_BUCKET_LIMIT \<le> d) = Some (Inr (bs'', grow''))
          \<and> placed h bs' kv' bs'' \<and> (l < 4096 \<longrightarrow> grow'' = (grow \<or> DIST_FROM_IDEAL_BUCKET_LIMIT \<le> d))
          \<and> untouched bs' (Suc i mod length bs) g bs''"
        using IH Suc.prems(1) dist(1) by (intro Suc.IH) simp_all
      then show ?thesis
        using i full True get bs' lift dist Suc.prems(6) untouched_step [OF i(1)]
        by (subst insert_value_loop.simps)
          (auto simp: swap_with_value_in_bucket_def nxt to_int16_small DIST_FROM_IDEAL_BUCKET_LIMIT_def)
    next
      case False
      have "\<exists>bs' grow'. insert_value_loop (mask p) bs (Suc i mod length bs) (d + 1) kv grow
          = Some (Inr (bs', grow')) \<and> placed h bs kv bs' \<and> (l < 4096 \<longrightarrow> grow' = grow)
          \<and> untouched bs (Suc i mod length bs) g bs'"
        using Suc.prems skip_carried [OF Suc.prems(3)] False dist(1)
        by (intro Suc.IH) (simp_all add: mod_add_left_eq)
      then show ?thesis
        using i False full dist untouched_step [OF i(1), where b = "bs ! i"]
        by (subst insert_value_loop.simps) (auto simp: nxt to_int16_small)
    qed
  qed
qed

section \<open>Lookup\<close>

definition passed :: "('k \<Rightarrow> nat) \<Rightarrow> ('k, 'v) bucket_entry list \<Rightarrow> 'k \<Rightarrow> nat \<Rightarrow> bool" where
  "passed h bs key e \<longleftrightarrow>
     (\<forall>e'<e. int e' \<le> be_dist (bs ! ((h key + e') mod length bs))
        \<and> (\<forall>v. be_value (bs ! ((h key + e') mod length bs)) \<noteq> Some (key, v)))"

text \<open>A probe that ended without finding the key.\<close>

definition stopped :: "('k \<Rightarrow> nat) \<Rightarrow> ('k, 'v) bucket_entry list \<Rightarrow> 'k \<Rightarrow> nat \<Rightarrow> int \<Rightarrow> bool" where
  "stopped h bs key i d \<longleftrightarrow> 0 \<le> d \<and> i = (h key + nat d) mod length bs \<and> passed h bs key (nat d)
     \<and> be_dist (bs ! i) < d"

lemma rh_probe_ends:
  assumes len: "length bs = 2 ^ p" and p: "p \<le> 63" and inv: "robin_inv h bs" and room: "roomy l bs"
    and l: "l \<le> 32767" and "passed h bs key e"
    and "be_empty (bs ! ((h key + e + g) mod length bs))"
  shows "(\<exists>i d v. rh_probe (mask p) bs key ((h key + e) mod length bs) (int e) = Some (Inr (True, i, d))
            \<and> i < length bs \<and> be_value (bs ! i) = Some (key, v))
    \<or> (\<exists>i d. rh_probe (mask p) bs key ((h key + e) mod length bs) (int e) = Some (Inr (False, i, d))
            \<and> rh_probe_free (mask p) bs ((h key + e) mod length bs) (int e) = Some (Inr (i, d))
            \<and> stopped h bs key i d)"
  using assms(6,7)
proof (induction g arbitrary: e)
  case 0
  let ?i = "(h key + e) mod length bs"
  have "0 < length bs" using len by simp
  then have i: "?i < length bs" by (rule mod_less_divisor)
  have "be_dist (bs ! ?i) < int e" using 0(2) by (simp add: be_empty_def)
  with i 0(1) show ?case
    by (subst (2) rh_probe.simps, subst rh_probe.simps, subst rh_probe_free.simps) (simp add: stopped_def)
next
  case (Suc g)
  let ?i = "(h key + e) mod length bs"
  have "0 < length bs" using len by simp
  then have i: "?i < length bs" by (rule mod_less_divisor)
  have nxt: "next_bucket (mask p) ?i = (h key + Suc e) mod length bs"
    using next_bucket_mod [of ?i p] i len p by (simp add: mod_Suc_eq)
  show ?case
  proof (cases "int e \<le> be_dist (bs ! ?i)")
    case False
    with i Suc.prems(1) show ?thesis
      by (subst (2) rh_probe.simps, subst rh_probe.simps, subst rh_probe_free.simps) (simp add: stopped_def)
  next
    case True
    obtain kv where kv: "be_value (bs ! ?i) = Some kv"
      using bucket_ok_full [OF robin_inv_ok [OF inv i]] True by auto
    show ?thesis
    proof (cases "fst kv = key")
      case key: True
      then have "rh_probe (mask p) bs key ?i (int e) = Some (Inr (True, ?i, int e))"
        using True i kv by (subst rh_probe.simps) (simp add: be_get_def)
      moreover have "be_value (bs ! ?i) = Some (key, snd kv)" using key kv by (cases kv) simp
      ultimately show ?thesis using i by blast
    next
      case False
      have "int e + 1 < 32768" using True roomy_dist [OF inv room i] l by linarith
      then have e: "to_int16 (int e + 1) = int (Suc e)" by (simp add: to_int16_small)
      have "rh_probe (mask p) bs key ?i (int e)
          = rh_probe (mask p) bs key ((h key + Suc e) mod length bs) (int (Suc e))"
        using True False i kv by (subst rh_probe.simps) (simp add: be_get_def nxt e del: of_nat_Suc)
      moreover have "rh_probe_free (mask p) bs ?i (int e)
          = rh_probe_free (mask p) bs ((h key + Suc e) mod length bs) (int (Suc e))"
        using True i by (subst rh_probe_free.simps) (simp add: nxt e del: of_nat_Suc)
      moreover have "passed h bs key (Suc e)"
        using Suc.prems(1) True False kv by (auto simp: passed_def less_Suc_eq)
      ultimately show ?thesis using Suc.IH [of "Suc e"] Suc.prems(2) by simp
    qed
  qed
qed

lemma stopped_absent:
  assumes inv: "robin_inv h bs" and stop: "stopped h bs key i d" and ne: "bs \<noteq> []"
  shows "key \<notin> fst ` set (entries bs)"
proof
  assume "key \<in> fst ` set (entries bs)"
  then obtain j v where j: "j < length bs" "be_value (bs ! j) = Some (key, v)"
    by (auto simp: in_entries)
  let ?e = "nat (be_dist (bs ! j))"
  have ok: "0 \<le> be_dist (bs ! j)" "j = (h key + ?e) mod length bs"
    using robin_inv_ok [OF inv j(1)] j(2) by (auto simp: bucket_ok_def)
  show False
  proof (cases "?e < nat d")
    case True
    then show False using stop j(2) ok(2) unfolding stopped_def passed_def by metis
  next
    case False
    have "be_dist (bs ! ((h key + nat d + (?e - nat d)) mod length bs))
        \<le> be_dist (bs ! ((h key + nat d) mod length bs)) + int (?e - nat d)"
      by (rule robin_inv_steps [OF inv ne])
    moreover have "nat d \<le> ?e" using False by linarith
    then have "h key + nat d + (?e - nat d) = h key + ?e" by (simp only: add.assoc le_add_diff_inverse)
    ultimately have "be_dist (bs ! j) \<le> be_dist (bs ! ((h key + nat d) mod length bs)) + int (?e - nat d)"
      by (simp only: ok(2) [symmetric])
    moreover have "be_dist (bs ! ((h key + nat d) mod length bs)) < d" "0 \<le> d"
      using stop by (auto simp: stopped_def)
    ultimately show False using \<open>nat d \<le> ?e\<close> ok(1) by linarith
  qed
qed

lemma stopped_carried:
  assumes inv: "robin_inv h bs" and stop: "stopped h bs key i d" and ne: "bs \<noteq> []"
  shows "carried h bs i d (key, v)"
proof -
  have i: "i < length bs" using stop ne by (simp add: stopped_def)
  have "d \<le> be_dist (bs ! j) + 1" if j: "j < length bs" "Suc j mod length bs = i" for j
  proof (cases "d = 0")
    case True
    then show ?thesis using bucket_ok_dist [OF robin_inv_ok [OF inv j(1)]] by simp
  next
    case False
    then have d: "0 \<le> d - 1" "nat d = Suc (nat (d - 1))" using stop by (auto simp: stopped_def)
    let ?j = "(h key + nat (d - 1)) mod length bs"
    have "?j < length bs" using ne by simp
    moreover have "Suc ?j mod length bs = i"
      using stop d by (simp add: stopped_def mod_Suc_eq)
    ultimately have "j = ?j" using mod_step_inj j by metis
    moreover have "int (nat (d - 1)) \<le> be_dist (bs ! ?j)"
    proof -
      have "\<forall>e'<nat d. int e' \<le> be_dist (bs ! ((h key + e') mod length bs))"
        using stop by (simp add: stopped_def passed_def)
      moreover have "nat (d - 1) < nat d" using d(2) by simp
      ultimately show ?thesis by blast
    qed
    ultimately show ?thesis using d(1) by simp
  qed
  with i stop show ?thesis by (simp add: carried_def stopped_def)
qed

section \<open>Removal\<close>

text \<open>Bucket \<open>i\<close> was cleared and the values behind it are not yet shifted.\<close>

definition holed :: "('k \<Rightarrow> nat) \<Rightarrow> ('k, 'v) bucket_entry list \<Rightarrow> nat \<Rightarrow> bool" where
  "holed h bs i \<longleftrightarrow> i < length bs \<and> be_value (bs ! i) = None
     \<and> (\<forall>j<length bs. bucket_ok h (length bs) j (bs ! j))
     \<and> (\<forall>j<length bs. j \<noteq> i \<longrightarrow> be_dist (bs ! (Suc j mod length bs)) \<le> be_dist (bs ! j) + 1)
     \<and> (\<forall>j<length bs. Suc j mod length bs = i
          \<longrightarrow> be_dist (bs ! (Suc i mod length bs)) \<le> be_dist (bs ! j) + 2)"

lemma holed_facts:
  assumes "holed h bs i"
  shows "i < length bs" "be_value (bs ! i) = None" "be_dist (bs ! i) = - 1"
    "\<And>j. j < length bs \<Longrightarrow> bucket_ok h (length bs) j (bs ! j)"
    "\<And>j. j < length bs \<Longrightarrow> j \<noteq> i \<Longrightarrow> be_dist (bs ! (Suc j mod length bs)) \<le> be_dist (bs ! j) + 1"
    "\<And>j. j < length bs \<Longrightarrow> Suc j mod length bs = i
      \<Longrightarrow> be_dist (bs ! (Suc i mod length bs)) \<le> be_dist (bs ! j) + 2"
  using assms unfolding holed_def by (auto simp: bucket_ok_def)

lemma be_clear_fields:
  assumes "bucket_ok h n i b"
  shows "be_value (be_clear b) = None" "be_dist (be_clear b) = - 1" "be_last (be_clear b) = be_last b"
  using assms by (auto simp: be_clear_def be_empty_def bucket_ok_def split: option.splits)

lemma clear_holed:
  assumes inv: "robin_inv h bs" and i: "i < length bs"
  shows "holed h (bs[i := be_clear (bs ! i)]) i"
proof -
  let ?n = "length bs" and ?bs = "bs[i := be_clear (bs ! i)]"
  note c = be_clear_fields [OF robin_inv_ok [OF inv i]]
  have low: "- 1 \<le> be_dist (bs ! j)" if "j < ?n" for j
    using bucket_ok_dist [OF robin_inv_ok [OF inv that]] .
  have n: "0 < ?n" using i by linarith
  have ok: "bucket_ok h ?n j (?bs ! j)" if "j < ?n" for j
    using robin_inv_ok [OF inv that] i c by (cases "j = i") (simp_all add: bucket_ok_def)
  have step: "be_dist (?bs ! (Suc j mod ?n)) \<le> be_dist (?bs ! j) + 1" if j: "j < ?n" "j \<noteq> i" for j
    using robin_inv_step [OF inv j(1)] i c j low [OF j(1)] by (cases "Suc j mod ?n = i") simp_all
  have two: "be_dist (?bs ! (Suc i mod ?n)) \<le> be_dist (?bs ! j) + 2"
    if j: "j < ?n" "Suc j mod ?n = i" for j
  proof (cases "j = i")
    case True
    then show ?thesis using j i c by simp
  next
    case False
    have nxt: "Suc i mod ?n < ?n" using n by (rule mod_less_divisor)
    have "be_dist (bs ! (Suc i mod ?n)) \<le> be_dist (bs ! j) + 2"
      using robin_inv_step [OF inv i] robin_inv_step [OF inv j(1)] j(2) by simp
    with False i j(1) c low [OF j(1)] show ?thesis by (cases "Suc i mod ?n = i") simp_all
  qed
  show ?thesis using i c ok step two unfolding holed_def by simp
qed

lemma holed_end:
  assumes h: "holed h bs i" and e: "be_dist (bs ! (Suc i mod length bs)) \<le> 0"
  shows "robin_inv h bs"
proof -
  have "be_dist (bs ! (Suc j mod length bs)) \<le> be_dist (bs ! j) + 1" if "j < length bs" for j
    using holed_facts(5) [OF h that] holed_facts(3) [OF h] e by (cases "j = i") simp_all
  then show ?thesis using holed_facts(4) [OF h] by (simp add: robin_inv_def)
qed

lemma holed_home:
  assumes h: "holed h bs i" and k: "k = Suc i mod length bs" and d: "0 < be_dist (bs ! k)"
    and v: "be_value (bs ! k) = Some kv"
  shows "i = (h (fst kv) + nat (be_dist (bs ! k) - 1)) mod length bs"
proof -
  note f = holed_facts [OF h]
  have n: "0 < length bs" using f(1) by linarith
  have "k < length bs" unfolding k using n by (rule mod_less_divisor)
  from f(4) [OF this] have k_home: "k = (h (fst kv) + nat (be_dist (bs ! k))) mod length bs"
    using v by (simp add: bucket_ok_def)
  have "nat (be_dist (bs ! k)) = Suc (nat (be_dist (bs ! k) - 1))" using d by simp
  then have "Suc i mod length bs = Suc ((h (fst kv) + nat (be_dist (bs ! k) - 1)) mod length bs) mod length bs"
    using k k_home by (simp only: add_Suc_right mod_Suc_eq)
  moreover have "(h (fst kv) + nat (be_dist (bs ! k) - 1)) mod length bs < length bs"
    using n by (rule mod_less_divisor)
  ultimately show ?thesis using mod_step_inj [OF f(1)] by blast
qed

lemma holed_move:
  assumes h: "holed h bs i" and k: "k = Suc i mod length bs" and d: "0 < be_dist (bs ! k)"
    and v: "be_value (bs ! k) = Some kv"
    and bs': "bs' = bs[i := set_value_of_empty_bucket (be_dist (bs ! k) - 1) kv (bs ! i),
                       k := be_clear (bs ! k)]"
  shows "holed h bs' k"
proof -
  let ?n = "length bs"
  note f = holed_facts [OF h]
  have n: "0 < ?n" using f(1) by linarith
  have k_less: "k < ?n" unfolding k using n by (rule mod_less_divisor)
  have ki: "k \<noteq> i" using d f(3) by auto
  note c = be_clear_fields [OF f(4) [OF k_less]]
  have at_i: "be_value (bs' ! i) = Some kv" "be_dist (bs' ! i) = be_dist (bs ! k) - 1"
    using ki f(1) k_less by (simp_all add: bs' set_value_of_empty_bucket_def)
  have at_k: "be_value (bs' ! k) = None" "be_dist (bs' ! k) = - 1"
    using k_less c by (simp_all add: bs')
  have other: "bs' ! j = bs ! j" if "j \<noteq> i" "j \<noteq> k" for j
    using that by (simp add: bs')
  have len: "length bs' = ?n" by (simp add: bs')
  have low: "- 1 \<le> be_dist (bs ! j)" if "j < ?n" for j
    using bucket_ok_dist [OF f(4) [OF that]] .
  note i_home = holed_home [OF h k d v]
  have ok: "bucket_ok h ?n j (bs' ! j)" if "j < ?n" for j
  proof -
    consider "j = i" | "j = k" | "j \<noteq> i" "j \<noteq> k" by blast
    then show ?thesis
    proof cases
      case 1
      then show ?thesis using at_i d i_home by (simp add: bucket_ok_def)
    qed (use at_k other f(4) [OF that] in \<open>simp_all add: bucket_ok_def\<close>)
  qed
  have step: "be_dist (bs' ! (Suc j mod ?n)) \<le> be_dist (bs' ! j) + 1" if j: "j < ?n" "j \<noteq> k" for j
  proof (cases "j = i")
    case True
    then show ?thesis using at_i at_k k d by simp
  next
    case False
    then have j': "bs' ! j = bs ! j" using other j by blast
    have "Suc j mod ?n \<noteq> k" using False mod_step_inj [OF j(1) f(1)] k by blast
    then consider "Suc j mod ?n = i" | "bs' ! (Suc j mod ?n) = bs ! (Suc j mod ?n)" using other by blast
    then show ?thesis
    proof cases
      case 1
      then show ?thesis using at_i f(6) [OF j(1) 1] k j' by simp
    next
      case 2
      then show ?thesis using f(5) [OF j(1) False] j' by simp
    qed
  qed
  have two: "be_dist (bs' ! (Suc k mod ?n)) \<le> be_dist (bs' ! j) + 2" if j: "j < ?n" "Suc j mod ?n = k" for j
  proof -
    have "j = i" using mod_step_inj [OF j(1) f(1)] j(2) k by simp
    have orig: "be_dist (bs ! (Suc k mod ?n)) \<le> be_dist (bs ! k) + 1" using f(5) [OF k_less ki] .
    consider "Suc k mod ?n = i" | "Suc k mod ?n = k" | "bs' ! (Suc k mod ?n) = bs ! (Suc k mod ?n)"
      using other by blast
    then show ?thesis
      by cases (use orig at_i at_k d \<open>j = i\<close> in simp_all)
  qed
  show ?thesis
    unfolding holed_def len using k_less at_k ok step two by simp
qed

lemma move_entries:
  assumes h: "holed h bs i" and k: "k = Suc i mod length bs" and d: "0 < be_dist (bs ! k)"
    and v: "be_value (bs ! k) = Some kv"
  shows "mset (entries (bs[i := set_value_of_empty_bucket e kv (bs ! i), k := be_clear (bs ! k)]))
    = mset (entries bs)"
proof -
  note f = holed_facts [OF h]
  let ?b = "set_value_of_empty_bucket e kv (bs ! i)"
  have "0 < length bs" using f(1) by linarith
  then have k_less: "k < length bs" unfolding k by (rule mod_less_divisor)
  have ki: "k \<noteq> i" using d f(3) by auto
  have "mset (entries (bs[i := ?b])) = add_mset kv (mset (entries bs))"
    using f(1,2) by (intro entries_put_empty) (simp_all add: set_value_of_empty_bucket_def)
  moreover have "add_mset kv (mset (entries (bs[i := ?b, k := be_clear (bs ! k)])))
      = mset (entries (bs[i := ?b]))"
    using entries_update [of k "bs[i := ?b]" "be_clear (bs ! k)"] k_less ki v
      be_clear_fields [OF f(4) [OF k_less]] by simp
  ultimately show ?thesis by simp
qed

lemma erase_shift_ends:
  assumes len: "length bs = 2 ^ p" and p: "p \<le> 63" and "holed h bs i"
    and "\<And>j. j < length bs \<Longrightarrow> be_dist (bs ! j) < 32768"
    and "be_empty (bs ! ((Suc i + g) mod length bs))" and "Suc g < length bs"
  shows "\<exists>bs'. erase_shift (mask p) bs i (Suc i mod length bs) = Some (Inr bs') \<and> robin_inv h bs'
    \<and> map be_last bs' = map be_last bs \<and> mset (entries bs') = mset (entries bs)"
  using assms(1,3-)
proof (induction g arbitrary: bs i)
  case 0
  have "0 < length bs" using holed_facts(1) [OF 0(2)] by linarith
  then have k: "Suc i mod length bs < length bs" by (rule mod_less_divisor)
  have e: "be_dist (bs ! (Suc i mod length bs)) = - 1" using 0(4) by (simp add: be_empty_def)
  then have "robin_inv h bs" using holed_end [OF 0(2)] by simp
  with e k show ?case by (subst erase_shift.simps) simp
next
  case (Suc g)
  let ?n = "length bs"
  define k where "k = Suc i mod ?n"
  note f = holed_facts [OF Suc.prems(2)]
  have "0 < ?n" using f(1) by linarith
  then have k: "k < ?n" unfolding k_def by (rule mod_less_divisor)
  show ?case
  proof (cases "0 < be_dist (bs ! k)")
    case False
    then have "robin_inv h bs" using holed_end [OF Suc.prems(2)] unfolding k_def by simp
    with False k show ?thesis unfolding k_def by (subst erase_shift.simps) simp
  next
    case True
    obtain kv where v: "be_value (bs ! k) = Some kv"
      using bucket_ok_full [OF f(4) [OF k]] True by auto
    let ?d = "be_dist (bs ! k) - 1"
    define bs' where "bs' = bs[i := set_value_of_empty_bucket ?d kv (bs ! i), k := be_clear (bs ! k)]"
    note c = be_clear_fields [OF f(4) [OF k]]
    have ki: "k \<noteq> i" using True f(3) by auto
    have dist: "be_dist (bs ! k) < 32768" using Suc.prems(3) [OF k] .
    have len': "length bs' = ?n" by (simp add: bs'_def)
    have small: "be_dist (bs' ! j) < 32768" if "j < length bs'" for j
      using that Suc.prems(3) [of j] dist c f(1) k
      by (auto simp: bs'_def nth_list_update set_value_of_empty_bucket_def)
    have far: "(Suc i + Suc g) mod ?n \<noteq> i"
      using f(1) Suc.prems(5) by (cases "Suc i + Suc g < ?n") (simp_all add: le_mod_geq)
    have same: "(Suc k + g) mod ?n = (Suc i + Suc g) mod ?n"
    proof -
      have "Suc k + g = k + Suc g" by simp
      then show ?thesis by (simp only: k_def mod_add_left_eq)
    qed
    have "be_empty (bs' ! t)" if "be_empty (bs ! t)" "t \<noteq> i" for t
      using that k c(2) by (cases "t = k") (auto simp: bs'_def be_empty_def)
    from this [OF Suc.prems(4) far] have e: "be_empty (bs' ! ((Suc k + g) mod length bs'))"
      by (simp only: len' same)
    have "\<exists>bs''. erase_shift (mask p) bs' k (Suc k mod length bs') = Some (Inr bs'') \<and> robin_inv h bs''
        \<and> map be_last bs'' = map be_last bs' \<and> mset (entries bs'') = mset (entries bs')"
      using Suc.prems(1,5) len' holed_move [OF Suc.prems(2) k_def True v bs'_def] small e
      by (intro Suc.IH) simp_all
    moreover have "map be_last bs' = map be_last bs"
      using f(1) k ki c(3) by (simp add: bs'_def map_update_same set_value_of_empty_bucket_def)
    moreover have "mset (entries bs') = mset (entries bs)"
      unfolding bs'_def by (rule move_entries [OF Suc.prems(2) k_def True v])
    moreover have "next_bucket (mask p) k = Suc k mod length bs'"
      using next_bucket_mod [of k p] k Suc.prems(1) p len' by simp
    ultimately show ?thesis
      using True k v dist unfolding k_def [symmetric]
      by (subst erase_shift.simps) (simp add: be_get_def to_int16_small bs'_def [symmetric])
  qed
qed

section \<open>Free buckets\<close>

lemma length_entries:
  assumes "robin_inv h bs"
  shows "length (entries bs) = card {i. i < length bs \<and> \<not> be_empty (bs ! i)}"
proof -
  have "length (entries bs) = card {i. i < length bs \<and> be_value (bs ! i) \<noteq> None}"
    by (simp add: entries_def List.map_filter_def length_filter_conv_card)
  moreover have "be_value (bs ! i) \<noteq> None \<longleftrightarrow> \<not> be_empty (bs ! i)" if "i < length bs" for i
    using bucket_ok_empty [OF robin_inv_ok [OF assms that]] by simp
  then have "{i. i < length bs \<and> be_value (bs ! i) \<noteq> None} = {i. i < length bs \<and> \<not> be_empty (bs ! i)}"
    by blast
  ultimately show ?thesis by simp
qed

lemma mod_window_inj:
  fixes n :: nat
  assumes "m < n"
  shows "inj_on (\<lambda>e. (i + e) mod n) {0..m}"
proof (rule inj_onI)
  fix e e' assume e: "e \<in> {0..m}" "e' \<in> {0..m}" "(i + e) mod n = (i + e') mod n"
  have aux: "a = b" if "a \<le> b" "b \<le> m" "(i + a) mod n = (i + b) mod n" for a b
  proof -
    have "i + a \<le> i + b" using that(1) by simp
    then have "n dvd (i + b) - (i + a)" using that(3) mod_eq_dvd_iff_nat by metis
    then have "n dvd b - a" using that(1) by simp
    moreover have "b - a < n" using that(2) assms by linarith
    ultimately show "a = b" using that(1) by (auto dest: dvd_imp_le)
  qed
  have le: "e \<le> m" "e' \<le> m" using e(1,2) by simp_all
  show "e = e'"
  proof (cases "e \<le> e'")
    case True
    then show ?thesis using le(2) e(3) by (rule aux)
  next
    case False
    then have "e' \<le> e" by simp
    from aux [OF this le(1) e(3) [symmetric]] show ?thesis by (rule sym)
  qed
qed

lemma roomy_entries:
  assumes inv: "robin_inv h bs" and less: "length (entries bs) < length bs"
  shows "roomy (length (entries bs)) bs"
  unfolding roomy_def
proof (intro allI impI)
  let ?m = "length (entries bs)" and ?n = "length bs"
  fix i assume "i < ?n"
  show "\<exists>e\<le>?m. be_empty (bs ! ((i + e) mod ?n))"
  proof (rule ccontr)
    assume no: "\<not> (\<exists>e\<le>?m. be_empty (bs ! ((i + e) mod ?n)))"
    let ?full = "{j. j < ?n \<and> \<not> be_empty (bs ! j)}"
    have "0 < ?n" using less by linarith
    then have "(\<lambda>e. (i + e) mod ?n) ` {0..?m} \<subseteq> ?full" using no by auto
    then have "card ((\<lambda>e. (i + e) mod ?n) ` {0..?m}) \<le> card ?full" by (intro card_mono) simp_all
    moreover have "card ((\<lambda>e. (i + e) mod ?n) ` {0..?m}) = Suc ?m"
      using card_image [OF mod_window_inj [OF less]] by simp
    ultimately show False using length_entries [OF inv] by simp
  qed
qed

lemma empty_ahead:
  assumes "robin_inv h bs" and "length (entries bs) < length bs" and "i < length bs"
  obtains g where "g \<le> length (entries bs)" "be_empty (bs ! ((i + g) mod length bs))"
  using roomy_entries [OF assms(1,2)] assms(3) unfolding roomy_def by blast

section \<open>Rehashing\<close>

lemma entries_new_buckets [simp]: "entries (new_buckets n) = []"
proof -
  have "\<forall>b\<in>set (new_buckets n :: ('a, 'b) bucket_entry list). be_value b = None"
    by (auto simp: new_buckets_def bucket_entry_new_def dest!: set_update_subset_insert [THEN subsetD])
  then show ?thesis by (simp add: entries_def List.map_filter_def)
qed

lemma length_new_buckets [simp]: "length (new_buckets n) = n"
  by (simp add: new_buckets_def)

lemma new_buckets_nth:
  "i < n \<Longrightarrow> new_buckets n ! i = bucket_entry_new (i = n - 1)"
  by (simp add: new_buckets_def nth_list_update)

lemma new_buckets_inv: "robin_inv h (new_buckets n)"
proof -
  have "new_buckets n ! (Suc i mod n) = bucket_entry_new (Suc i mod n = n - 1)" if "i < n" for i
    using that by (intro new_buckets_nth mod_less_divisor) linarith
  then show ?thesis
    by (simp add: robin_inv_def bucket_ok_def new_buckets_nth bucket_entry_new_def)
qed

lemma insert_on_rehash:
  assumes "length bs = 2 ^ p" and "p \<le> 63" and h: "\<And>k. h k = bucket_for_hash (mask p) (re_hash env k)"
    and inv: "robin_inv h bs"
    and less: "length (entries bs) < length bs" and l: "length (entries bs) \<le> 32767"
  shows "\<exists>bs'. insert_value_on_rehash (mask p) bs (h (fst kv)) 0 kv = Some (Inr bs') \<and> placed h bs kv bs'"
proof -
  have i: "h (fst kv) < length bs" using assms(1) h by (simp add: bucket_for_hash_mod)
  obtain g where g: "be_empty (bs ! ((h (fst kv) + g) mod length bs))"
    using empty_ahead [OF inv less i] by blast
  have "0 \<le> be_dist (bs ! j) + 1" if "j < length bs" for j
    using bucket_ok_dist [OF robin_inv_ok [OF inv that]] by linarith
  then have "carried h bs (h (fst kv)) 0 kv" using i by (simp add: carried_def)
  then show ?thesis
    using assms(1,2) roomy_entries [OF inv less] g l inv by (intro insert_value_on_rehash_placed)
qed

lemma rehash_loop_ok:
  assumes p: "p \<le> 63" and h: "\<And>k. h k = bucket_for_hash (mask p) (re_hash env k)"
    and "length ns = 2 ^ p" and "robin_inv h ns"
    and "\<And>b. b \<in> set bs \<Longrightarrow> be_empty b \<longleftrightarrow> be_value b = None"
    and "length (entries ns) + length (entries bs) < length ns"
    and "length (entries ns) + length (entries bs) \<le> 32767"
  shows "\<exists>ns'. rehash_loop env (mask p) bs ns = Some (Inr ns') \<and> robin_inv h ns'
    \<and> map be_last ns' = map be_last ns \<and> mset (entries ns') = mset (entries bs) + mset (entries ns)"
  using assms(3-)
proof (induction bs arbitrary: ns)
  case Nil
  then show ?case by (simp add: entries_def map_filter_simps)
next
  case (Cons b bs)
  show ?case
  proof (cases "be_value b")
    case None
    then have "entries (b # bs) = entries bs" by (simp add: entries_def map_filter_simps)
    then show ?thesis using None Cons by simp
  next
    case (Some kv)
    then have e: "entries (b # bs) = kv # entries bs" by (simp add: entries_def map_filter_simps)
    obtain ns1 where ns1: "insert_value_on_rehash (mask p) ns (h (fst kv)) 0 kv = Some (Inr ns1)"
      and pl: "placed h ns kv ns1"
      using insert_on_rehash [OF Cons.prems(1) p h Cons.prems(2), where kv = kv] Cons.prems(4,5) e by auto
    have m: "mset (entries ns1) = add_mset kv (mset (entries ns))" using pl by (simp add: placed_def)
    then have n1: "length (entries ns1) = Suc (length (entries ns))"
      by (metis size_mset size_add_mset)
    have "\<exists>ns'. rehash_loop env (mask p) bs ns1 = Some (Inr ns') \<and> robin_inv h ns'
        \<and> map be_last ns' = map be_last ns1 \<and> mset (entries ns') = mset (entries bs) + mset (entries ns1)"
      using Cons.prems pl e n1 placed_length [OF pl] by (intro Cons.IH) (simp_all add: placed_def)
    moreover have "map be_last ns1 = map be_last ns" using pl by (simp add: placed_def)
    moreover have "\<not> be_empty b" using Cons.prems(3) Some by auto
    ultimately show ?thesis
      using ns1 Some e m by (auto simp: be_get_def h [symmetric])
  qed
qed

end
