(* ===== verification/RobinHash.thy ===== *)
theory RobinHash
  imports RobinProbing SampledIndexes
begin

text \<open>
  Correctness of the hash map of \<open>RobinTable\<close> as a whole: the invariant \<open>rh_ok\<close> of a table, the map
  it stores (\<open>contents\<close>), and that every operation keeps the one and has the documented effect on
  the other; that the map meets the contract \<open>hash_map\<close> of the competitor; and where it fails:
  colliding keys and the removal of a range.
\<close>

section \<open>Load factors\<close>

text \<open>
  What the proofs need of the rounding to \<open>float\<close>: it is monotone, and a number with at most 24
  significant bits is represented exactly.
\<close>

definition ieee_single :: "(rat \<Rightarrow> rat) \<Rightarrow> bool" where
  "ieee_single f \<longleftrightarrow> (\<forall>x y. x \<le> y \<longrightarrow> f x \<le> f y)
     \<and> (\<forall>n i j. n < 2 ^ 24 \<and> i \<le> 64 \<and> j \<le> 64
          \<longrightarrow> f (rat_of_nat n * 2 ^ i / 2 ^ j) = rat_of_nat n * 2 ^ i / 2 ^ j)"

lemma ieee_single_id: "ieee_single (\<lambda>x. x)"
  by (simp add: ieee_single_def)

lemma ieee_mono: "ieee_single f \<Longrightarrow> x \<le> y \<Longrightarrow> f x \<le> f y"
  by (simp add: ieee_single_def)

lemma ieee_exact:
  assumes "ieee_single f" and "n < 2 ^ 24" and "i \<le> 64" and "j \<le> 64"
  shows "f (rat_of_nat n * 2 ^ i / 2 ^ j) = rat_of_nat n * 2 ^ i / 2 ^ j"
  using assms unfolding ieee_single_def by blast

lemma ieee_nat: "ieee_single f \<Longrightarrow> n < 2 ^ 24 \<Longrightarrow> f (rat_of_nat n) = rat_of_nat n"
  using ieee_exact [of f n 0 0] by simp

lemma ieee_pow: "ieee_single f \<Longrightarrow> p \<le> 64 \<Longrightarrow> f (2 ^ p) = 2 ^ p"
  using ieee_exact [of f 1 p 0] by simp

definition factor_ok :: "rat \<Rightarrow> bool" where
  "factor_ok ml \<longleftrightarrow> 3 / 16 \<le> ml \<and> ml \<le> 31 / 32"

lemma clamp_factor_ok:
  assumes "ieee_single (re_float env)"
  shows "factor_ok (clamp ml (MINIMUM_MAX_LOAD_FACTOR env) (MAXIMUM_MAX_LOAD_FACTOR env))"
proof -
  have e: "re_float env (3 / 16) = 3 / 16" "re_float env (31 / 32) = 31 / 32"
    using ieee_exact [OF assms, of 3 0 4] ieee_exact [OF assms, of 31 0 5] by simp_all
  have "3 / 16 \<le> MINIMUM_MAX_LOAD_FACTOR env" "3 / 16 \<le> MAXIMUM_MAX_LOAD_FACTOR env"
    "MAXIMUM_MAX_LOAD_FACTOR env \<le> 31 / 32"
    using ieee_mono [OF assms, of "3 / 16" "1 / 5"] ieee_mono [OF assms, of "3 / 16" "19 / 20"]
      ieee_mono [OF assms, of "19 / 20" "31 / 32"] e
    by (simp_all add: MINIMUM_MAX_LOAD_FACTOR_def MAXIMUM_MAX_LOAD_FACTOR_def)
  then show ?thesis unfolding factor_ok_def clamp_def by linarith
qed

lemma clamp_half:
  assumes "ieee_single (re_float env)"
  shows "clamp (1 / 2) (MINIMUM_MAX_LOAD_FACTOR env) (MAXIMUM_MAX_LOAD_FACTOR env) = 1 / 2"
proof -
  have "re_float env (1 / 2) = 1 / 2" using ieee_exact [OF assms, of 1 0 1] by simp
  then have "MINIMUM_MAX_LOAD_FACTOR env \<le> 1 / 2" "1 / 2 \<le> MAXIMUM_MAX_LOAD_FACTOR env"
    using ieee_mono [OF assms, of "1 / 5" "1 / 2"] ieee_mono [OF assms, of "1 / 2" "19 / 20"]
    by (simp_all add: MINIMUM_MAX_LOAD_FACTOR_def MAXIMUM_MAX_LOAD_FACTOR_def)
  then show ?thesis by (simp add: clamp_def)
qed

lemma threshold_ok:
  assumes f: "ieee_single (re_float env)" and p: "p \<le> 63" and ml: "factor_ok ml"
  obtains n where "size_of_float (re_float env (float_of_size env (2 ^ p) * ml)) = Inr n" "n < 2 ^ p"
    "ml = 1 / 2 \<Longrightarrow> n = 2 ^ p div 2"
proof -
  have r: "float_of_size env (2 ^ p) = 2 ^ p" using ieee_pow [OF f] p by (simp add: float_of_size_def)
  let ?x = "re_float env (2 ^ p * ml)"
  have e: "re_float env (2 ^ p * (31 / 32)) = 2 ^ p * (31 / 32)" "re_float env 0 = 0"
    using ieee_exact [OF f, of 31 p 5] ieee_exact [OF f, of 0 0 0] p by (simp_all add: mult.commute)
  have "0 \<le> 2 ^ p * ml" "2 ^ p * ml \<le> 2 ^ p * (31 / 32)" using ml by (simp_all add: factor_ok_def)
  then have "0 \<le> ?x" "?x \<le> 2 ^ p * (31 / 32)" using ieee_mono [OF f] e by metis+
  moreover have "2 ^ p * (31 / 32) < (2 ^ p :: rat)" by simp
  ultimately have x: "0 \<le> \<lfloor>?x\<rfloor>" "?x < of_int (2 ^ p)" by (simp_all only: zero_le_floor of_int_power of_int_numeral)
  then have u: "\<lfloor>?x\<rfloor> < 2 ^ p" by (simp only: floor_less_iff)
  also have "(2::int) ^ p < 2 ^ 64" using p by (intro power_strict_increasing) simp_all
  finally have "size_of_float ?x = Inr (nat \<lfloor>?x\<rfloor>)" using x(1) by (simp add: size_of_float_def)
  moreover have "nat \<lfloor>?x\<rfloor> < 2 ^ p" using u x(1) by (simp add: nat_less_iff)
  moreover have "nat \<lfloor>?x\<rfloor> = 2 ^ p div 2" if "ml = 1 / 2"
  proof -
    have "?x = 2 ^ p / 2" using ieee_exact [OF f, of 1 p 1] p unfolding that by simp
    then have "\<lfloor>?x\<rfloor> = \<lfloor>rat_of_int (2 ^ p) / rat_of_int 2\<rfloor>"
      by (simp only: of_int_power of_int_numeral)
    also have "\<dots> = 2 ^ p div 2" by (rule floor_divide_of_int_eq)
    finally show ?thesis by (simp add: nat_div_distrib nat_power_eq)
  qed
  ultimately show ?thesis unfolding r [symmetric] by (rule that)
qed

lemma threshold_zero:
  assumes f: "ieee_single (re_float env)"
  shows "size_of_float (re_float env (float_of_size env 0 * ml)) = Inr 0"
  using ieee_exact [OF f, of 0 0 0] by (simp add: float_of_size_def size_of_float_def)

lemma buckets_for_ok:
  assumes f: "ieee_single (re_float env)" and n: "n \<le> 2 ^ 17" and ml: "factor_ok (rh_max_load_factor t)"
  obtains m where "buckets_for env n t = Inr m" "m \<le> 6 * n" "0 < n \<Longrightarrow> n < m"
    "rh_max_load_factor t = 1 / 2 \<Longrightarrow> m = 2 * n"
proof -
  let ?ml = "rh_max_load_factor t" and ?n = "rat_of_nat n"
  have r: "float_of_size env n = ?n" using ieee_nat [OF f, of n] n by (simp add: float_of_size_def)
  let ?x = "re_float env (?n / ?ml)"
  have ml': "3 / 16 \<le> ?ml" "?ml \<le> 31 / 32" using ml by (simp_all add: factor_ok_def)
  have six: "re_float env (6 * ?n) = 6 * ?n"
    using ieee_nat [OF f, of "6 * n"] n by simp
  have "?n / ?ml \<le> 6 * ?n"
  proof -
    have "?n \<le> 6 * ?n * ?ml" using ml'(1) by (simp add: mult_le_cancel_left1 field_simps)
    then show ?thesis using ml'(1) by (simp add: pos_divide_le_eq)
  qed
  then have hi: "?x \<le> 6 * ?n" using ieee_mono [OF f] six by metis
  have lo: "0 \<le> ?x"
    using ieee_mono [OF f, of 0 "?n / ?ml"] ieee_nat [OF f, of 0] ml'(1) by simp
  have above: "?n < ?x" if pos: "0 < n"
  proof -
    have "re_float env (rat_of_nat (64 * n + 1) * 2 ^ 0 / 2 ^ 6) = rat_of_nat (64 * n + 1) * 2 ^ 0 / 2 ^ 6"
      using n by (intro ieee_exact [OF f]) simp_all
    then have e: "re_float env (?n + 1 / 64) = ?n + 1 / 64" by (simp add: add_divide_distrib add.commute)
    have "(?n + 1 / 64) * ?ml \<le> (?n + 1 / 64) * (31 / 32)" using ml'(2) by (intro mult_left_mono) simp_all
    also have "\<dots> \<le> ?n" using pos by (simp add: field_simps)
    finally have "?n + 1 / 64 \<le> ?n / ?ml" using ml'(1) by (simp add: pos_le_divide_eq)
    then have "?n + 1 / 64 \<le> ?x" using ieee_mono [OF f] e by metis
    then show ?thesis by linarith
  qed
  have c: "0 \<le> \<lceil>?x\<rceil>" "\<lceil>?x\<rceil> \<le> 6 * int n"
    using lo hi by (simp_all add: ceiling_le_iff)
  have "6 * int n \<le> 6 * 2 ^ 17" using n by simp
  with c(2) have "\<lceil>?x\<rceil> \<le> 6 * 2 ^ 17" by (rule order_trans)
  then have "\<lceil>?x\<rceil> < 2 ^ 64" by simp
  then have "buckets_for env n t = Inr (nat \<lceil>?x\<rceil>)"
    using c(1) by (simp only: buckets_for_def r size_of_float_def floor_of_int simp_thms if_True)
  moreover have "nat \<lceil>?x\<rceil> \<le> 6 * n" using c by linarith
  moreover have "n < nat \<lceil>?x\<rceil>" if "0 < n"
  proof -
    have "rat_of_int (int n) < ?x" using above [OF that] by simp
    then have "int n < \<lceil>?x\<rceil>" by (simp only: less_ceiling_iff)
    then show ?thesis by linarith
  qed
  moreover have "nat \<lceil>?x\<rceil> = 2 * n" if "?ml = 1 / 2"
  proof -
    have "?n / ?ml = rat_of_nat (2 * n)" unfolding that by simp
    then have "?x = rat_of_nat (2 * n)" using ieee_nat [OF f, of "2 * n"] n by simp
    then have "\<lceil>?x\<rceil> = int (2 * n)" by (simp only: ceiling_of_nat)
    then show ?thesis by linarith
  qed
  ultimately show ?thesis by (rule that)
qed

section \<open>Tables\<close>

definition rh_home :: "'k rh_env \<Rightarrow> ('k, 'v) robin_hash \<Rightarrow> 'k \<Rightarrow> nat" where
  "rh_home env t k = bucket_for_hash (rh_mask t) (re_hash env k)"

text \<open>The number of buckets is a power of two and the mask fits, or there are none.\<close>

definition table_shape :: "('k, 'v) robin_hash \<Rightarrow> bool" where
  "table_shape t \<longleftrightarrow> rh_bucket_count t = length (rh_buckets_data t)
     \<and> (rh_buckets_data t = [] \<and> rh_mask t = 0
        \<or> (\<exists>p\<le>63. rh_mask t = mask p \<and> length (rh_buckets_data t) = 2 ^ p))
     \<and> map be_last (rh_buckets_data t)
         = map be_last (new_buckets (length (rh_buckets_data t)) :: ('k, 'v) bucket_entry list)"

definition rh_ok :: "'k rh_env \<Rightarrow> ('k, 'v) robin_hash \<Rightarrow> bool" where
  "rh_ok env t \<longleftrightarrow> table_shape t
     \<and> robin_inv (rh_home env t) (rh_buckets_data t)
     \<and> distinct (map fst (entries (rh_buckets_data t)))
     \<and> rh_nb_elements t = length (entries (rh_buckets_data t))
     \<and> (rh_buckets_data t = [] \<or> rh_nb_elements t < length (rh_buckets_data t))
     \<and> (rh_load_threshold t = 0 \<or> rh_load_threshold t < length (rh_buckets_data t))
     \<and> factor_ok (rh_max_load_factor t)"

text \<open>The map that a table stores.\<close>

definition contents :: "('k, 'v) robin_hash \<Rightarrow> 'k \<rightharpoonup> 'v" where
  "contents t = map_of (entries (rh_buckets_data t))"

lemma distinct_keys_mset:
  assumes "mset xs = mset ys" and "distinct (map fst ys)"
  shows "distinct (map fst xs)"
proof -
  have "mset (map fst xs) = mset (map fst ys)" using assms(1) by simp
  then show ?thesis using assms(2) mset_eq_imp_distinct_iff by blast
qed

lemma map_of_mset:
  assumes "mset xs = mset ys" and "distinct (map fst ys)"
  shows "map_of xs = map_of ys"
proof -
  have s: "set xs = set ys" using assms(1) by (rule mset_eq_setD)
  have d: "distinct (map fst xs)" using assms by (rule distinct_keys_mset)
  show ?thesis
  proof
    fix k show "map_of xs k = map_of ys k"
      using map_of_eq_Some_iff [OF d] map_of_eq_Some_iff [OF assms(2)] s
      by (cases "map_of xs k"; cases "map_of ys k") (simp_all, metis+)?
  qed
qed

lemma new_table:
  fixes env :: "'k rh_env"
  assumes f: "ieee_single (re_float env)" and v: "0 < v" "unat v \<le> 2 ^ 63"
    and vec: "2 * unat v \<le> re_vector_max env"
  obtains t :: "('k, 'v) robin_hash" and p where "robin_hash_new env v minf maxf = Inr t" "p \<le> 63" "rh_mask t = mask p"
    "unat v \<le> 2 ^ p" "p = 0 \<or> 2 ^ (p - 1) < unat v" "rh_buckets_data t = new_buckets (2 ^ p)"
    "rh_bucket_count t = 2 ^ p" "rh_load_threshold t < 2 ^ p"
    "rh_max_load_factor t = clamp maxf (MINIMUM_MAX_LOAD_FACTOR env) (MAXIMUM_MAX_LOAD_FACTOR env)"
    "rh_min_load_factor t = clamp minf (MINIMUM_MIN_LOAD_FACTOR env) (MAXIMUM_MIN_LOAD_FACTOR env)"
    "\<not> rh_grow_on_next_insert t" "\<not> rh_try_skrink_on_next_insert t" "rh_nb_elements t = 0"
    "rh_max_load_factor t = 1 / 2 \<Longrightarrow> rh_load_threshold t = 2 ^ p div 2"
proof -
  obtain p where p: "p \<le> 63" "round_up_to_power_of_two v = 2 ^ p" "unat v \<le> 2 ^ p"
    "p = 0 \<or> 2 ^ (p - 1) < unat v" using round_up_power [OF v] .
  have max: "unat policy_max_bucket_count = 2 ^ 63" by (simp add: policy_max_bucket_count_def)
  have pu: "unat (2 ^ p :: u64) = 2 ^ p"
  proof -
    have "(2::nat) ^ p < 2 ^ 64" using p(1) by (intro power_strict_increasing) simp_all
    then show ?thesis using unat_word_of_nat [of "2 ^ p", where 'l = 64] by simp
  qed
  let ?ml = "clamp maxf (MINIMUM_MAX_LOAD_FACTOR env) (MAXIMUM_MAX_LOAD_FACTOR env)"
  obtain n where n: "size_of_float (re_float env (float_of_size env (2 ^ p) * ?ml)) = Inr n" "n < 2 ^ p"
    "?ml = 1 / 2 \<Longrightarrow> n = 2 ^ p div 2"
    using threshold_ok [OF f p(1) clamp_factor_ok [OF f]] by blast
  have le: "(2::nat) ^ p \<le> 2 * unat v"
    using p(4) v(1) by (cases p) (auto simp: unat_gt_0 Suc_le_eq)
  have "(2::nat) ^ p \<le> 2 ^ 63" using p(1) by (intro power_increasing) simp_all
  with le vec have b: "2 ^ p \<le> max_bucket_count env" by (simp add: max_bucket_count_def max)
  have "\<not> policy_max_bucket_count < v" using v(2) max by (simp add: word_less_nat_alt)
  then have pol: "power_of_two_growth_policy v = Inr (mask p, 2 ^ p)"
    using v(1) p(2) by (simp add: power_of_two_growth_policy_def mask_eq_exp_minus_1 Let_def)
  define t :: "('k, 'v) robin_hash" where
    "t = \<lparr>rh_mask = mask p, rh_buckets_data = new_buckets (2 ^ p), rh_bucket_count = 2 ^ p,
      rh_nb_elements = 0, rh_load_threshold = n, rh_max_load_factor = ?ml,
      rh_grow_on_next_insert = False,
      rh_min_load_factor = clamp minf (MINIMUM_MIN_LOAD_FACTOR env) (MAXIMUM_MIN_LOAD_FACTOR env),
      rh_try_skrink_on_next_insert = False\<rparr>"
  have new: "robin_hash_new env v minf maxf = Inr t"
    using pol pu b n(1)
    by (simp add: robin_hash_new_def set_max_load_factor_def set_min_load_factor_def not_less t_def Let_def)
  have half: "rh_load_threshold t = 2 ^ p div 2" if "rh_max_load_factor t = 1 / 2"
    using n(3) that unfolding t_def by (simp only: robin_hash.simps)
  show ?thesis
    by (rule that [OF new p(1) _ p(3,4) _ _ _ _ _ _ _ _ half]) (use n(2) in \<open>simp_all add: t_def\<close>)
qed

lemma table_shape_home:
  assumes "table_shape t" and "rh_buckets_data t \<noteq> []"
  obtains p where "p \<le> 63" "rh_mask t = mask p" "length (rh_buckets_data t) = 2 ^ p"
    "\<And>k. rh_home env t k = bucket_for_hash (mask p) (re_hash env k)"
    "\<And>k. rh_home env t k < length (rh_buckets_data t)"
proof -
  obtain p where "p \<le> 63" "rh_mask t = mask p" "length (rh_buckets_data t) = 2 ^ p"
    using assms by (auto simp: table_shape_def)
  then show ?thesis by (intro that [of p]) (simp_all add: rh_home_def bucket_for_hash_mod)
qed

lemma empty_table:
  fixes env :: "'k rh_env"
  assumes f: "ieee_single (re_float env)"
  obtains t :: "('k, 'v) robin_hash" where "robin_hash_new env 0 minf maxf = Inr t" "rh_ok env t"
    "rh_buckets_data t = []" "rh_bucket_count t = 0" "rh_nb_elements t = 0" "rh_load_threshold t = 0"
    "rh_max_load_factor t = clamp maxf (MINIMUM_MAX_LOAD_FACTOR env) (MAXIMUM_MAX_LOAD_FACTOR env)"
    "rh_min_load_factor t = clamp minf (MINIMUM_MIN_LOAD_FACTOR env) (MAXIMUM_MIN_LOAD_FACTOR env)"
    "\<not> rh_grow_on_next_insert t" "\<not> rh_try_skrink_on_next_insert t"
proof -
  let ?ml = "clamp maxf (MINIMUM_MAX_LOAD_FACTOR env) (MAXIMUM_MAX_LOAD_FACTOR env)"
  define t :: "('k, 'v) robin_hash" where
    "t = \<lparr>rh_mask = 0, rh_buckets_data = [], rh_bucket_count = 0,
      rh_nb_elements = 0, rh_load_threshold = 0, rh_max_load_factor = ?ml,
      rh_grow_on_next_insert = False,
      rh_min_load_factor = clamp minf (MINIMUM_MIN_LOAD_FACTOR env) (MAXIMUM_MIN_LOAD_FACTOR env),
      rh_try_skrink_on_next_insert = False\<rparr>"
  have new: "robin_hash_new env 0 minf maxf = Inr t"
    using threshold_zero [OF f]
    by (simp add: robin_hash_new_def power_of_two_growth_policy_def set_max_load_factor_def
        set_min_load_factor_def new_buckets_def t_def Let_def)
  have "rh_ok env t"
    using clamp_factor_ok [OF f]
    by (simp add: rh_ok_def t_def table_shape_def robin_inv_def entries_def map_filter_simps new_buckets_def)
  then show ?thesis by (intro that [OF new]) (simp_all add: t_def)
qed

lemma rehash_impl_ok:
  fixes env :: "'k rh_env" and t :: "('k, 'v) robin_hash"
  assumes f: "ieee_single (re_float env)" and ok: "rh_ok env t"
    and v: "0 < v" "unat v \<le> 2 ^ 63" "2 * unat v \<le> re_vector_max env"
    and n: "rh_nb_elements t < unat v" "rh_nb_elements t \<le> 32767"
  obtains t' where "rehash_impl env v t = Some (Inr t')" "rh_ok env t'" "contents t' = contents t"
    "rh_nb_elements t' = rh_nb_elements t" "rh_buckets_data t' \<noteq> []"
    "unat v \<le> length (rh_buckets_data t')" "length (rh_buckets_data t') < 2 * unat v"
    "rh_max_load_factor t' = clamp (rh_max_load_factor t) (MINIMUM_MAX_LOAD_FACTOR env) (MAXIMUM_MAX_LOAD_FACTOR env)"
    "rh_min_load_factor t' = clamp (rh_min_load_factor t) (MINIMUM_MIN_LOAD_FACTOR env) (MAXIMUM_MIN_LOAD_FACTOR env)"
    "\<not> rh_grow_on_next_insert t'" "\<not> rh_try_skrink_on_next_insert t'"
    "rh_max_load_factor t' = 1 / 2 \<Longrightarrow> rh_load_threshold t' = length (rh_buckets_data t') div 2"
proof -
  obtain nt :: "('k, 'v) robin_hash" and p where nt:
    "robin_hash_new env v (rh_min_load_factor t) (rh_max_load_factor t) = Inr nt"
    and p: "p \<le> 63" and m: "rh_mask nt = mask p"
    and len: "unat v \<le> 2 ^ p" "p = 0 \<or> 2 ^ (p - 1) < unat v" and d: "rh_buckets_data nt = new_buckets (2 ^ p)"
    and c: "rh_bucket_count nt = 2 ^ p" and th: "rh_load_threshold nt < 2 ^ p"
    and ml: "rh_max_load_factor nt = clamp (rh_max_load_factor t) (MINIMUM_MAX_LOAD_FACTOR env) (MAXIMUM_MAX_LOAD_FACTOR env)"
      "rh_min_load_factor nt = clamp (rh_min_load_factor t) (MINIMUM_MIN_LOAD_FACTOR env) (MAXIMUM_MIN_LOAD_FACTOR env)"
    and g: "\<not> rh_grow_on_next_insert nt" "\<not> rh_try_skrink_on_next_insert nt"
    and half: "rh_max_load_factor nt = 1 / 2 \<Longrightarrow> rh_load_threshold nt = 2 ^ p div 2"
    by (rule new_table [OF f v, where minf = "rh_min_load_factor t" and maxf = "rh_max_load_factor t"])
      (rule that; assumption)
  let ?h = "\<lambda>k. bucket_for_hash (mask p) (re_hash env k)"
  have inv: "robin_inv (rh_home env t) (rh_buckets_data t)"
    and dist: "distinct (map fst (entries (rh_buckets_data t)))"
    and nb: "rh_nb_elements t = length (entries (rh_buckets_data t))"
    using ok by (simp_all add: rh_ok_def)
  have e: "be_empty b \<longleftrightarrow> be_value b = None" if "b \<in> set (rh_buckets_data t)" for b
    using that bucket_ok_empty [OF robin_inv_ok [OF inv]] by (auto simp: in_set_conv_nth)
  have "\<exists>ns'. rehash_loop env (mask p) (rh_buckets_data t) (new_buckets (2 ^ p)) = Some (Inr ns')
      \<and> robin_inv ?h ns' \<and> map be_last ns' = map be_last (new_buckets (2 ^ p) :: ('k, 'v) bucket_entry list)
      \<and> mset (entries ns') = mset (entries (rh_buckets_data t))
          + mset (entries (new_buckets (2 ^ p) :: ('k, 'v) bucket_entry list))"
    using e n nb len(1) by (intro rehash_loop_ok [OF p]) (simp_all add: new_buckets_inv)
  then obtain bs where bs: "rehash_loop env (mask p) (rh_buckets_data t) (new_buckets (2 ^ p)) = Some (Inr bs)"
    "robin_inv ?h bs" "map be_last bs = map be_last (new_buckets (2 ^ p) :: ('k, 'v) bucket_entry list)"
    and ms: "mset (entries bs) = mset (entries (rh_buckets_data t))" by auto
  define t' where "t' = nt\<lparr>rh_buckets_data := bs, rh_nb_elements := rh_nb_elements t\<rparr>"
  have r: "rehash_impl env v t = Some (Inr t')"
    using nt bs(1) m d by (simp add: rehash_impl_def t'_def)
  have lb: "length bs = 2 ^ p" using arg_cong [OF bs(3), of length] by simp
  have dis: "distinct (map fst (entries bs))"
    using ms dist by (rule distinct_keys_mset)
  have home: "rh_home env t' = ?h" by (simp add: rh_home_def t'_def m fun_eq_iff)
  have "rh_ok env t'"
    unfolding rh_ok_def home
    using bs lb p c m th nb n len(1) ml clamp_factor_ok [OF f] dis mset_eq_length [OF ms]
    by (auto simp: table_shape_def t'_def)
  moreover have "contents t' = contents t"
    using map_of_mset [OF ms dist] by (simp add: contents_def t'_def)
  moreover have "length bs < 2 * unat v"
  proof -
    have "0 < unat v" using v(1) by (simp add: unat_gt_0)
    then show ?thesis using len(2) lb by (cases p) auto
  qed
  ultimately show ?thesis
    using lb len(1) ml g half by (intro that [OF r]) (auto simp: t'_def)
qed

section \<open>Lookup in a table\<close>

lemma rh_ok_facts:
  assumes "rh_ok env t"
  shows "table_shape t" "robin_inv (rh_home env t) (rh_buckets_data t)"
    "distinct (map fst (entries (rh_buckets_data t)))"
    "rh_nb_elements t = length (entries (rh_buckets_data t))"
    "rh_buckets_data t \<noteq> [] \<Longrightarrow> length (entries (rh_buckets_data t)) < length (rh_buckets_data t)"
    "factor_ok (rh_max_load_factor t)" "rh_bucket_count t = length (rh_buckets_data t)"
  using assms by (auto simp: rh_ok_def table_shape_def)

lemma contents_Some:
  assumes "rh_ok env t" and "i < length (rh_buckets_data t)" and "be_value (rh_buckets_data t ! i) = Some (k, v)"
  shows "contents t k = Some v"
  using assms rh_ok_facts(3) [OF assms(1)] by (auto simp: contents_def in_entries)

lemma contents_None: "k \<notin> fst ` set (entries (rh_buckets_data t)) \<Longrightarrow> contents t k = None"
  by (simp add: contents_def map_of_eq_None_iff)

lemma table_probe:
  fixes key :: 'k
  assumes ok: "rh_ok env t" and n: "rh_nb_elements t \<le> 32767"
  shows "(\<exists>i d v. rh_probe (rh_mask t) (m_buckets t) key (rh_home env t key) 0 = Some (Inr (True, i, d))
            \<and> i < length (rh_buckets_data t) \<and> be_value (rh_buckets_data t ! i) = Some (key, v)
            \<and> contents t key = Some v)
    \<or> (\<exists>i d. rh_probe (rh_mask t) (m_buckets t) key (rh_home env t key) 0 = Some (Inr (False, i, d))
            \<and> contents t key = None
            \<and> (rh_buckets_data t \<noteq> [] \<longrightarrow>
                 rh_probe_free (rh_mask t) (m_buckets t) (rh_home env t key) 0 = Some (Inr (i, d))
                 \<and> stopped (rh_home env t) (rh_buckets_data t) key i d))"
proof (cases "rh_buckets_data t = []")
  case True
  then have "rh_home env t key = 0"
    using rh_ok_facts(1) [OF ok] by (simp add: table_shape_def rh_home_def bucket_for_hash_def)
  then have "rh_probe (rh_mask t) (m_buckets t) key (rh_home env t key) 0 = Some (Inr (False, 0, 0))"
    using True by (subst rh_probe.simps) (simp add: m_buckets_def bucket_entry_new_def)
  moreover have "contents t key = None" using True by (simp add: contents_def entries_def map_filter_simps)
  ultimately show ?thesis using True by blast
next
  case False
  let ?bs = "rh_buckets_data t" and ?h = "rh_home env t"
  obtain p where p: "p \<le> 63" "rh_mask t = mask p" "length ?bs = 2 ^ p"
    and home: "\<And>k. ?h k < length ?bs"
    by (rule table_shape_home [OF rh_ok_facts(1) [OF ok] False, of env]) (rule that; assumption)
  note inv = rh_ok_facts(2) [OF ok] and less = rh_ok_facts(5) [OF ok False]
  have l: "length (entries ?bs) \<le> 32767" using n rh_ok_facts(4) [OF ok] by simp
  have b: "m_buckets t = ?bs" using False by (simp add: m_buckets_def)
  obtain g where g: "be_empty (?bs ! ((?h key + g) mod length ?bs))"
    using empty_ahead [OF inv less home] by blast
  have st: "?h key mod length ?bs = ?h key" using home by simp
  have "passed ?h ?bs key 0" by (simp add: passed_def)
  from rh_probe_ends [OF p(3,1) inv roomy_entries [OF inv less] l this, of g] g
  consider (found) i d v where "rh_probe (mask p) ?bs key (?h key) 0 = Some (Inr (True, i, d))"
      "i < length ?bs" "be_value (?bs ! i) = Some (key, v)"
    | (stop) i d where "rh_probe (mask p) ?bs key (?h key) 0 = Some (Inr (False, i, d))"
      "rh_probe_free (mask p) ?bs (?h key) 0 = Some (Inr (i, d))" "stopped ?h ?bs key i d"
    by (auto simp: st)
  then show ?thesis
  proof cases
    case found
    then show ?thesis using contents_Some [OF ok found(2,3)] unfolding b p(2) by blast
  next
    case stop
    then show ?thesis
      using contents_None [OF stopped_absent [OF inv stop(3) False]] unfolding b p(2) by blast
  qed
qed

text \<open>\<open>find\<close> is right, and so are \<open>at\<close>, \<open>count\<close> and \<open>contains\<close>.\<close>

lemma rh_find_ok:
  assumes ok: "rh_ok env t" and n: "rh_nb_elements t \<le> 32767"
  obtains it where "rh_find env t key = Some (Inr it)" "it \<le> rh_bucket_count t"
    "it = rh_bucket_count t \<longleftrightarrow> contents t key = None"
    "\<And>v. contents t key = Some v \<Longrightarrow> be_value (rh_buckets_data t ! it) = Some (key, v)"
  using table_probe [OF ok n, of key]
proof (elim disjE exE conjE)
  fix i d v
  assume "rh_probe (rh_mask t) (m_buckets t) key (rh_home env t key) 0 = Some (Inr (True, i, d))"
    and "i < length (rh_buckets_data t)" "be_value (rh_buckets_data t ! i) = Some (key, v)"
    and "contents t key = Some v"
  then show ?thesis
    using rh_ok_facts(7) [OF ok] by (intro that [of i]) (simp_all add: rh_find_def rh_home_def)
next
  fix i d
  assume "rh_probe (rh_mask t) (m_buckets t) key (rh_home env t key) 0 = Some (Inr (False, i, d))"
    and "contents t key = None"
  then show ?thesis by (intro that [of "rh_bucket_count t"]) (simp_all add: rh_find_def rh_home_def)
qed

lemma rh_value_at:
  assumes "rh_ok env t" and "it < rh_bucket_count t" and "be_value (rh_buckets_data t ! it) = Some (key, v)"
  shows "rh_value t it = Inr v"
proof -
  have "it < length (rh_buckets_data t)" using assms rh_ok_facts(7) by metis
  moreover from this have "m_buckets t = rh_buckets_data t" by (auto simp: m_buckets_def)
  ultimately show ?thesis using assms(3) by (simp add: rh_value_def be_get_def)
qed

lemma rh_at_ok:
  assumes ok: "rh_ok env t" and n: "rh_nb_elements t \<le> 32767"
  shows "rh_at env t key = Some (case contents t key of None \<Rightarrow> Inl (Thrown ''out_of_range'') | Some v \<Rightarrow> Inr v)"
proof -
  obtain it where it: "rh_find env t key = Some (Inr it)" "it \<le> rh_bucket_count t"
    "it = rh_bucket_count t \<longleftrightarrow> contents t key = None"
    "\<And>v. contents t key = Some v \<Longrightarrow> be_value (rh_buckets_data t ! it) = Some (key, v)"
    by (rule rh_find_ok [OF ok n, of key]) (rule that; simp)
  show ?thesis
  proof (cases "contents t key")
    case None
    then show ?thesis using it by (simp add: rh_at_def)
  next
    case (Some v)
    then have "it < rh_bucket_count t" using it(2,3) by auto
    from rh_value_at [OF ok this it(4) [OF Some]] show ?thesis
      using it Some by (simp add: rh_at_def)
  qed
qed

lemma rh_contains_ok:
  assumes ok: "rh_ok env t" and n: "rh_nb_elements t \<le> 32767"
  shows "rh_contains env t key = Some (Inr (contents t key \<noteq> None))"
proof -
  obtain it where "rh_find env t key = Some (Inr it)" "it = rh_bucket_count t \<longleftrightarrow> contents t key = None"
    by (rule rh_find_ok [OF ok n, of key])
  then show ?thesis by (simp add: rh_contains_def rh_count_def)
qed

section \<open>Insertion into a table\<close>

text \<open>Everything of a table but the buckets, the flag and the number of elements.\<close>

definition same_policy :: "('k, 'v) robin_hash \<Rightarrow> ('k, 'v) robin_hash \<Rightarrow> bool" where
  "same_policy t t' \<longleftrightarrow> rh_mask t' = rh_mask t \<and> rh_bucket_count t' = rh_bucket_count t
     \<and> length (rh_buckets_data t') = length (rh_buckets_data t)
     \<and> rh_load_threshold t' = rh_load_threshold t \<and> rh_max_load_factor t' = rh_max_load_factor t
     \<and> rh_min_load_factor t' = rh_min_load_factor t
     \<and> rh_try_skrink_on_next_insert t' = rh_try_skrink_on_next_insert t"

lemma insert_buckets:
  assumes ok: "rh_ok env t" and ne: "rh_buckets_data t \<noteq> []" and n: "rh_nb_elements t \<le> 32767"
    and stop: "stopped (rh_home env t) (rh_buckets_data t) key i d"
  shows "\<exists>bs grow. place_value (key, v) t i d = Some (Inr (t\<lparr>rh_buckets_data := bs,
        rh_grow_on_next_insert := grow, rh_nb_elements := rh_nb_elements t + 1\<rparr>))
    \<and> placed (rh_home env t) (rh_buckets_data t) (key, v) bs
    \<and> i < length bs \<and> be_value (bs ! i) = Some (key, v)
    \<and> (rh_nb_elements t < 4096 \<longrightarrow> grow = rh_grow_on_next_insert t)"
proof -
  let ?bs = "rh_buckets_data t" and ?h = "rh_home env t"
  obtain p where p: "p \<le> 63" "rh_mask t = mask p" "length ?bs = 2 ^ p"
    by (rule table_shape_home [OF rh_ok_facts(1) [OF ok] ne, of env]) (rule that; assumption)
  note inv = rh_ok_facts(2) [OF ok] and less = rh_ok_facts(5) [OF ok ne] and nb = rh_ok_facts(4) [OF ok]
  note c = stopped_carried [OF inv stop ne, of v]
  have i: "i < length ?bs" using c by (simp add: carried_def)
  show ?thesis
  proof (cases "be_empty (?bs ! i)")
    case True
    let ?new = "?bs[i := set_value_of_empty_bucket d (key, v) (?bs ! i)]"
    have "place_value (key, v) t i d = Some (Inr (t\<lparr>rh_buckets_data := ?new, rh_nb_elements := rh_nb_elements t + 1\<rparr>))"
      using True i by (simp add: place_value_def)
    then show ?thesis
      using placed_put [OF inv c True] i
      by (intro exI [of _ ?new] exI [of _ "rh_grow_on_next_insert t"])
         (simp add: set_value_of_empty_bucket_def)
  next
    case False
    let ?l = "length (entries ?bs)"
    obtain g where g: "g \<le> ?l" "be_empty (?bs ! ((i + g) mod length ?bs))"
      using empty_ahead [OF inv less i] by blast
    then obtain g' where g': "g = Suc g'" using False i by (cases g) auto
    then have g2: "be_empty (?bs ! ((i + Suc g') mod length ?bs))" using g(2) by simp
    have dist: "be_dist (?bs ! i) < d" using stop unfolding stopped_def by blast
    obtain kv' bs1 where get: "be_get (?bs ! i) = Inr kv'"
      and bs1: "bs1 = ?bs[i := (?bs ! i)\<lparr>be_value := Some (key, v), be_dist := d\<rparr>]"
      and s: "length bs1 = length ?bs" "robin_inv ?h bs1"
        "carried ?h bs1 (Suc i mod length ?bs) (be_dist (?bs ! i) + 1) kv'"
        "roomy ?l bs1" "be_empty (bs1 ! ((Suc i mod length ?bs + g') mod length ?bs))"
      and lift: "\<And>bs''. placed ?h bs1 kv' bs'' \<Longrightarrow> placed ?h ?bs (key, v) bs''"
      by (rule insertion_step [OF inv c roomy_entries [OF inv less] False g2 dist]) (rule that; (assumption | drule meta_spec, erule meta_mp, assumption))
    have room: "be_dist (?bs ! i) < int ?l" using roomy_dist [OF inv roomy_entries [OF inv less] i] .
    have "\<exists>bs' grow'. insert_value_loop (mask p) bs1 (Suc i mod length ?bs) (be_dist (?bs ! i) + 1) kv'
          (rh_grow_on_next_insert t) = Some (Inr (bs', grow')) \<and> placed ?h bs1 kv' bs'
        \<and> (?l < 4096 \<longrightarrow> grow' = rh_grow_on_next_insert t) \<and> untouched bs1 (Suc i mod length ?bs) g' bs'"
      using s p room n nb by (intro insert_value_loop_placed) simp_all
    then obtain bs' grow' where b: "insert_value_loop (mask p) bs1 (Suc i mod length ?bs)
          (be_dist (?bs ! i) + 1) kv' (rh_grow_on_next_insert t) = Some (Inr (bs', grow'))"
      "placed ?h bs1 kv' bs'" "?l < 4096 \<longrightarrow> grow' = rh_grow_on_next_insert t"
      "untouched bs1 (Suc i mod length ?bs) g' bs'" by blast
    have "next_bucket (mask p) i = Suc i mod length ?bs"
      using next_bucket_mod [of i p] i p by simp
    moreover have "to_int16 (be_dist (?bs ! i) + 1) = be_dist (?bs ! i) + 1"
      using room n nb bucket_ok_dist [OF robin_inv_ok [OF inv i]] by (intro to_int16_small) linarith+
    ultimately have r: "place_value (key, v) t i d = Some (Inr (t\<lparr>rh_buckets_data := bs',
        rh_grow_on_next_insert := grow', rh_nb_elements := rh_nb_elements t + 1\<rparr>))"
      using False i get b(1) p(2)
      by (simp add: place_value_def insert_value_impl_def swap_with_value_in_bucket_def bs1)
    have "bs' ! i = bs1 ! i"
    proof -
      have "i \<noteq> (Suc i mod length ?bs + e) mod length ?bs" if "e \<le> g'" for e
      proof -
        have "Suc e < length ?bs" using that g(1) g' less by linarith
        then show ?thesis
          using i by (cases "i + Suc e < length ?bs") (simp_all add: mod_add_left_eq le_mod_geq)
      qed
      then show ?thesis using b(4) s(1) by (simp add: untouched_def)
    qed
    then show ?thesis
      using r lift [OF b(2)] placed_length [OF b(2)] s(1) i b(3) nb
      by (intro exI [of _ bs'] exI [of _ grow']) (simp add: bs1)
  qed
qed

text \<open>The room that a table needs to grow, or to be built anew for its elements.\<close>

definition rh_space :: "'k rh_env \<Rightarrow> ('k, 'v) robin_hash \<Rightarrow> bool" where
  "rh_space env t \<longleftrightarrow> ieee_single (re_float env) \<and> 2 ^ 20 \<le> re_vector_max env
     \<and> 4 * rh_bucket_count t \<le> re_vector_max env \<and> rh_bucket_count t \<le> 2 ^ 62"

text \<open>What a rehash keeps.\<close>

definition rebuilt :: "'k rh_env \<Rightarrow> ('k, 'v) robin_hash \<Rightarrow> ('k, 'v) robin_hash \<Rightarrow> bool" where
  "rebuilt env t t' \<longleftrightarrow> rh_ok env t' \<and> contents t' = contents t
     \<and> rh_nb_elements t' = rh_nb_elements t \<and> rh_buckets_data t' \<noteq> []
     \<and> Suc (rh_nb_elements t) < length (rh_buckets_data t')
     \<and> \<not> rh_grow_on_next_insert t' \<and> \<not> rh_try_skrink_on_next_insert t'"

text \<open>The settings of \<open>hash.h\<close>: the default load factors.\<close>

definition default_factors :: "('k, 'v) robin_hash \<Rightarrow> bool" where
  "default_factors t \<longleftrightarrow> rh_max_load_factor t = 1 / 2 \<and> rh_min_load_factor t = 0
     \<and> rh_load_threshold t = length (rh_buckets_data t) div 2"

lemma clamp_zero:
  assumes "ieee_single (re_float env)"
  shows "clamp 0 (MINIMUM_MIN_LOAD_FACTOR env) (MAXIMUM_MIN_LOAD_FACTOR env) = 0"
  using ieee_mono [OF assms, of 0 "3 / 20"] ieee_nat [OF assms, of 0]
  by (simp add: clamp_def MINIMUM_MIN_LOAD_FACTOR_def MAXIMUM_MIN_LOAD_FACTOR_def)

lemma rehash_rebuilt:
  fixes env :: "'k rh_env" and t :: "('k, 'v) robin_hash"
  assumes f: "ieee_single (re_float env)" and ok: "rh_ok env t"
    and v: "0 < v" "unat v \<le> 2 ^ 63" "2 * unat v \<le> re_vector_max env"
    and n: "Suc (rh_nb_elements t) < unat v" "rh_nb_elements t \<le> 32767"
  obtains t' where "rehash_impl env v t = Some (Inr t')" "rebuilt env t t'"
    "unat v \<le> length (rh_buckets_data t')" "length (rh_buckets_data t') < 2 * unat v"
    "default_factors t \<Longrightarrow> default_factors t'"
proof -
  have less: "rh_nb_elements t < unat v" using n(1) by simp
  obtain t' :: "('k, 'v) robin_hash" where t': "rehash_impl env v t = Some (Inr t')" "rh_ok env t'"
    "contents t' = contents t" "rh_nb_elements t' = rh_nb_elements t" "rh_buckets_data t' \<noteq> []"
    "unat v \<le> length (rh_buckets_data t')" "length (rh_buckets_data t') < 2 * unat v"
    "rh_max_load_factor t' = clamp (rh_max_load_factor t) (MINIMUM_MAX_LOAD_FACTOR env) (MAXIMUM_MAX_LOAD_FACTOR env)"
    "rh_min_load_factor t' = clamp (rh_min_load_factor t) (MINIMUM_MIN_LOAD_FACTOR env) (MAXIMUM_MIN_LOAD_FACTOR env)"
    "\<not> rh_grow_on_next_insert t'" "\<not> rh_try_skrink_on_next_insert t'"
    "rh_max_load_factor t' = 1 / 2 \<Longrightarrow> rh_load_threshold t' = length (rh_buckets_data t') div 2"
    by (rule rehash_impl_ok [OF f ok v less n(2)]) (rule that; (assumption | simp))
  have "default_factors t'" if "default_factors t"
    using that t'(8,9,12) clamp_half [OF f] clamp_zero [OF f] unfolding default_factors_def by metis
  moreover have "rebuilt env t t'" using t' n(1) unfolding rebuilt_def by linarith
  ultimately show ?thesis by (intro that [OF t'(1) _ t'(6,7)])
qed

lemma next_bucket_count_ok:
  assumes ok: "rh_ok env t" and s: "rh_bucket_count t \<le> 2 ^ 62"
  shows "\<exists>v. next_bucket_count (rh_mask t) = Inr v
    \<and> unat v = (if rh_buckets_data t = [] then 2 else 2 * rh_bucket_count t)"
proof -
  have m: "unat policy_max_bucket_count = 2 ^ 63" by (simp add: policy_max_bucket_count_def)
  then have half: "unat (policy_max_bucket_count div 2) = 2 ^ 62" by (simp add: unat_div_distrib)
  show ?thesis
  proof (cases "rh_buckets_data t = []")
    case True
    then have "rh_mask t = 0" using rh_ok_facts(1) [OF ok] by (simp add: table_shape_def)
    then show ?thesis using True half by (simp add: next_bucket_count_def word_less_nat_alt)
  next
    case False
    obtain p where p: "p \<le> 63" "rh_mask t = mask p" "length (rh_buckets_data t) = 2 ^ p"
      by (rule table_shape_home [OF rh_ok_facts(1) [OF ok] False, of env]) (rule that; assumption)
    have "(2::nat) ^ p \<le> 2 ^ 62" using s rh_ok_facts(7) [OF ok] p(3) by simp
    then have p62: "p \<le> 62" by (simp only: power_increasing_iff)
    have one: "rh_mask t + 1 = 2 ^ p" by (simp add: p(2) mask_eq_exp_minus_1)
    have u: "unat (2 ^ p :: u64) = 2 ^ p" and u2: "unat (2 ^ Suc p :: u64) = 2 ^ Suc p"
    proof -
      have "(2::nat) ^ p < 2 ^ 64" "(2::nat) ^ Suc p < 2 ^ 64"
        using p62 by (intro power_strict_increasing; simp)+
      then show "unat (2 ^ p :: u64) = 2 ^ p" "unat (2 ^ Suc p :: u64) = 2 ^ Suc p"
        using unat_word_of_nat [of "2 ^ p", where 'l = 64] unat_word_of_nat [of "2 ^ Suc p", where 'l = 64]
        by simp_all
    qed
    have "\<not> policy_max_bucket_count div 2 < rh_mask t + 1"
      using \<open>(2::nat) ^ p \<le> 2 ^ 62\<close> unfolding one by (simp add: word_less_nat_alt half u)
    then have "next_bucket_count (rh_mask t) = Inr (2 ^ Suc p)"
      by (simp add: next_bucket_count_def one mult.commute)
    then show ?thesis using False u2 p(3) rh_ok_facts(7) [OF ok] by simp
  qed
qed

lemma reserve_ok:
  fixes env :: "'k rh_env" and t :: "('k, 'v) robin_hash"
  assumes f: "ieee_single (re_float env)" and vec: "2 ^ 20 \<le> re_vector_max env" and ok: "rh_ok env t"
    and n: "0 < n" "n \<le> 2 ^ 16" "rh_nb_elements t < n" "rh_nb_elements t \<le> 32767"
  obtains t' where "rh_reserve env n t = Some (Inr t')" "rebuilt env t t'"
    "n < length (rh_buckets_data t')"
    "default_factors t \<Longrightarrow> default_factors t'"
    "default_factors t \<Longrightarrow> 2 * n \<le> length (rh_buckets_data t') \<and> length (rh_buckets_data t') < 4 * n"
proof -
  note ml = rh_ok_facts(6) [OF ok]
  have n17: "n \<le> 2 ^ 17" "rh_nb_elements t \<le> 2 ^ 17" using n(2,3) by simp_all
  obtain m where m: "buckets_for env n t = Inr m" "m \<le> 6 * n" "n < m"
    "rh_max_load_factor t = 1 / 2 \<Longrightarrow> m = 2 * n"
    by (rule buckets_for_ok [OF f n17(1) ml]) (rule that; (assumption | simp add: n(1)))
  obtain m' where m': "buckets_for env (rh_nb_elements t) t = Inr m'" "m' \<le> 6 * rh_nb_elements t"
    "rh_max_load_factor t = 1 / 2 \<Longrightarrow> m' = 2 * rh_nb_elements t"
    by (rule buckets_for_ok [OF f n17(2) ml]) (rule that; (assumption | simp))
  let ?v = "word_of_nat (max m m') :: u64"
  have "max m m' < 2 ^ LENGTH(64)" using m(2) m'(2) n by simp
  then have u: "unat ?v = max m m'" by (rule unat_word_of_nat)
  have v: "0 < ?v" using u m(3) by (simp add: word_less_nat_alt)
  have b: "unat ?v \<le> 2 ^ 63" "2 * unat ?v \<le> re_vector_max env" "Suc (rh_nb_elements t) < unat ?v"
    "rh_nb_elements t \<le> 32767"
    using u m(2,3) m'(2) n vec by simp_all
  obtain t' :: "('k, 'v) robin_hash" where t': "rehash_impl env ?v t = Some (Inr t')" "rebuilt env t t'"
    "unat ?v \<le> length (rh_buckets_data t')" "length (rh_buckets_data t') < 2 * unat ?v"
    "default_factors t \<Longrightarrow> default_factors t'"
    by (rule rehash_rebuilt [OF f ok v b]) (rule that; (assumption | simp))
  have "rh_reserve env n t = Some (Inr t')"
    using m(1) m'(1) t'(1) by (simp add: rh_reserve_def rh_rehash_def)
  moreover have "n < length (rh_buckets_data t')" using t'(3) u m(3) by simp
  moreover have "2 * n \<le> length (rh_buckets_data t') \<and> length (rh_buckets_data t') < 4 * n"
    if "default_factors t"
  proof -
    have "rh_max_load_factor t = 1 / 2" using that by (simp only: default_factors_def)
    then show ?thesis using t'(3,4) u m(4) m'(3) n(3) by simp
  qed
  ultimately show ?thesis using t'(2,5) by (intro that)
qed

lemma extreme_load:
  fixes env :: "'k rh_env" and t :: "('k, 'v) robin_hash"
  assumes s: "rh_space env t" and ok: "rh_ok env t" and n: "rh_nb_elements t < 32767"
  obtains t' r where "rehash_on_extreme_load env t = Some (Inr (t', r))" "rebuilt env t t'"
    "\<not> r \<Longrightarrow> rh_buckets_data t' = rh_buckets_data t \<and> rh_mask t' = rh_mask t"
    "default_factors t \<Longrightarrow> default_factors t'"
    "default_factors t \<Longrightarrow> length (rh_buckets_data t') \<le> 4 * max 1 (length (rh_buckets_data t))
      \<and> (rh_nb_elements t < rh_load_threshold t \<and> \<not> rh_grow_on_next_insert t
          \<longrightarrow> rh_buckets_data t' = rh_buckets_data t)"
proof -
  have f: "ieee_single (re_float env)" and vec: "2 ^ 20 \<le> re_vector_max env"
    and bc: "4 * rh_bucket_count t \<le> re_vector_max env" "rh_bucket_count t \<le> 2 ^ 62"
    using s by (simp_all add: rh_space_def)
  note len = rh_ok_facts(7) [OF ok]
  have nb: "rh_buckets_data t \<noteq> [] \<Longrightarrow> rh_nb_elements t < length (rh_buckets_data t)"
    "rh_buckets_data t = [] \<Longrightarrow> rh_nb_elements t = 0"
    using rh_ok_facts(4,5) [OF ok] by (simp_all add: entries_def map_filter_simps)
  show ?thesis
  proof (cases "rh_grow_on_next_insert t \<or> rh_load_threshold t \<le> rh_nb_elements t")
    case True
    obtain v where v: "next_bucket_count (rh_mask t) = Inr v"
      "unat v = (if rh_buckets_data t = [] then 2 else 2 * rh_bucket_count t)"
      using next_bucket_count_ok [OF ok bc(2)] by blast
    have less: "Suc (rh_nb_elements t) < unat v"
      using nb v(2) len by (cases "rh_buckets_data t = []") auto
    then have pos: "0 < v" by (simp add: word_less_nat_alt)
    have b: "unat v \<le> 2 ^ 63" "2 * unat v \<le> re_vector_max env" "rh_nb_elements t \<le> 32767"
      using v(2) bc vec n by (simp_all split: if_splits)
    obtain t' :: "('k, 'v) robin_hash" where t': "rehash_impl env v t = Some (Inr t')" "rebuilt env t t'"
      "unat v \<le> length (rh_buckets_data t')" "length (rh_buckets_data t') < 2 * unat v"
      "default_factors t \<Longrightarrow> default_factors t'"
      by (rule rehash_rebuilt [OF f ok pos b(1,2) less b(3)]) (rule that; (assumption | simp))
    let ?t = "t'\<lparr>rh_grow_on_next_insert := False\<rparr>"
    have "?t = t'" using t'(2) by (cases t') (simp add: rebuilt_def)
    then have r: "rehash_on_extreme_load env t = Some (Inr (t', True))"
      using True v(1) t'(1) by (simp add: rehash_on_extreme_load_def)
    have "length (rh_buckets_data t') \<le> 4 * max 1 (length (rh_buckets_data t))"
      using t'(4) v(2) len by (simp split: if_splits)
    then show ?thesis using True t'(5) by (intro that [OF r t'(2)]) auto
  next
    case calm: False
    let ?t = "t\<lparr>rh_try_skrink_on_next_insert := False\<rparr>"
    have "rh_ok env ?t = rh_ok env t" by (simp add: rh_ok_def table_shape_def rh_home_def [abs_def])
    then have ok': "rh_ok env ?t" "contents ?t = contents t" using ok by (simp_all add: contents_def)
    have th: "rh_load_threshold t < length (rh_buckets_data t)" "rh_buckets_data t \<noteq> []"
      using ok calm by (auto simp: rh_ok_def)
    show ?thesis
    proof (cases "rh_try_skrink_on_next_insert t \<and> rh_min_load_factor t \<noteq> 0
        \<and> load_factor env ?t < rh_min_load_factor t")
      case True
      obtain t' :: "('k, 'v) robin_hash" where t': "rh_reserve env (rh_nb_elements t + 1) ?t = Some (Inr t')"
        "rebuilt env ?t t'" "default_factors ?t \<Longrightarrow> default_factors t'"
        by (rule reserve_ok [OF f vec ok'(1), where n = "rh_nb_elements t + 1"])
           (use n in \<open>simp_all add: that\<close>)
      have "rebuilt env t t'" using t'(2) ok'(2) by (simp add: rebuilt_def)
      moreover have "rehash_on_extreme_load env t = Some (Inr (t', True))"
        using True calm t'(1) by (simp add: rehash_on_extreme_load_def)
      moreover have "\<not> default_factors t" using True by (simp add: default_factors_def)
      ultimately show ?thesis by (intro that [of t' True]) simp_all
    next
      case False
      have "?t = t" if "\<not> rh_try_skrink_on_next_insert t" using that by (cases t) simp
      then have r: "rehash_on_extreme_load env t = Some (Inr (?t, False))"
        using False calm by (auto simp: rehash_on_extreme_load_def)
      have "rebuilt env t ?t" using ok' calm th by (simp add: rebuilt_def)
      then show ?thesis by (intro that [OF r]) (simp_all add: default_factors_def)
    qed
  qed
qed

lemma place_value_ok:
  assumes r: "rebuilt env t0 t" and n: "rh_nb_elements t \<le> 32767"
    and stop: "stopped (rh_home env t) (rh_buckets_data t) key i d"
    and new: "contents t key = None"
  obtains t' where "place_value (key, v) t i d = Some (Inr t')" "rh_ok env t'"
    "contents t' = (contents t)(key \<mapsto> v)" "rh_nb_elements t' = rh_nb_elements t + 1"
    "i < length (rh_buckets_data t')" "be_value (rh_buckets_data t' ! i) = Some (key, v)"
    "same_policy t t'" "rh_nb_elements t < 4096 \<Longrightarrow> \<not> rh_grow_on_next_insert t'"
proof -
  have ok: "rh_ok env t" and ne: "rh_buckets_data t \<noteq> []"
    and room: "Suc (rh_nb_elements t) < length (rh_buckets_data t)" and g: "\<not> rh_grow_on_next_insert t"
    using r by (simp_all add: rebuilt_def)
  obtain bs grow where ins: "place_value (key, v) t i d = Some (Inr (t\<lparr>rh_buckets_data := bs,
        rh_grow_on_next_insert := grow, rh_nb_elements := rh_nb_elements t + 1\<rparr>))"
    and pl: "placed (rh_home env t) (rh_buckets_data t) (key, v) bs"
    and at_i: "i < length bs" "be_value (bs ! i) = Some (key, v)"
    and small: "rh_nb_elements t < 4096 \<longrightarrow> grow = rh_grow_on_next_insert t"
    using insert_buckets [OF ok ne n stop] by blast
  define t' where "t' = t\<lparr>rh_buckets_data := bs, rh_grow_on_next_insert := grow,
    rh_nb_elements := rh_nb_elements t + 1\<rparr>"
  note len = placed_length [OF pl]
  have ms: "mset (entries bs) = mset ((key, v) # entries (rh_buckets_data t))"
    using pl by (simp add: placed_def)
  have "key \<notin> fst ` set (entries (rh_buckets_data t))"
    using new by (simp add: contents_def map_of_eq_None_iff)
  then have d: "distinct (map fst ((key, v) # entries (rh_buckets_data t)))"
    using rh_ok_facts(3) [OF ok] by simp
  have "rh_home env t' = rh_home env t" by (simp add: rh_home_def [abs_def] t'_def)
  then have "rh_ok env t'"
    using ok pl len room distinct_keys_mset [OF ms d] mset_eq_length [OF ms]
    by (auto simp: rh_ok_def table_shape_def t'_def placed_def)
  moreover have "contents t' = (contents t)(key \<mapsto> v)"
    using map_of_mset [OF ms d] by (simp add: contents_def t'_def)
  ultimately show ?thesis
    using ins at_i small g len by (intro that [of t']) (simp_all add: t'_def same_policy_def)
qed

text \<open>
  \<open>insert\<close>: a key that is present leaves the table alone; a new one is added, and the iterator
  that is returned is at its value.
\<close>

lemma rh_insert_ok:
  fixes env :: "'k rh_env" and t :: "('k, 'v) robin_hash"
  assumes s: "rh_space env t" and ok: "rh_ok env t" and n: "rh_nb_elements t < 32767"
  obtains t' it where
    "rh_insert env (key, v) t = Some (Inr (t', it, contents t key = None))" "rh_ok env t'"
    "contents t' = (if contents t key = None then (contents t)(key \<mapsto> v) else contents t)"
    "it < rh_bucket_count t'" "\<exists>w. contents t' key = Some w \<and> be_value (rh_buckets_data t' ! it) = Some (key, w)"
    "rh_nb_elements t' = (if contents t key = None then rh_nb_elements t + 1 else rh_nb_elements t)"
    "default_factors t \<Longrightarrow> default_factors t'"
    "rh_nb_elements t < 4096 \<Longrightarrow> contents t key = None \<Longrightarrow> \<not> rh_grow_on_next_insert t'"
    "contents t key \<noteq> None \<Longrightarrow> t' = t"
    "default_factors t \<Longrightarrow> length (rh_buckets_data t') \<le> 4 * max 1 (length (rh_buckets_data t))
      \<and> (rh_nb_elements t < rh_load_threshold t \<and> \<not> rh_grow_on_next_insert t
          \<longrightarrow> length (rh_buckets_data t') = length (rh_buckets_data t))"
proof -
  have n': "rh_nb_elements t \<le> 32767" using n by simp
  note probe = table_probe [OF ok n', of key]
  show ?thesis
  proof (cases "contents t key")
    case (Some w)
    then obtain i d where p: "rh_probe (rh_mask t) (m_buckets t) key (rh_home env t key) 0 = Some (Inr (True, i, d))"
      "i < length (rh_buckets_data t)" "be_value (rh_buckets_data t ! i) = Some (key, w)"
      using probe by auto
    then have "rh_insert env (key, v) t = Some (Inr (t, i, False))"
      by (simp add: rh_insert_def rh_home_def)
    then show ?thesis
      using Some p ok rh_ok_facts(7) [OF ok] by (intro that [of t i]) simp_all
  next
    case None
    then obtain i d where p: "rh_probe (rh_mask t) (m_buckets t) key (rh_home env t key) 0 = Some (Inr (False, i, d))"
      "rh_buckets_data t \<noteq> [] \<Longrightarrow> stopped (rh_home env t) (rh_buckets_data t) key i d"
      using probe by auto
    obtain t1 r where t1: "rehash_on_extreme_load env t = Some (Inr (t1, r))" "rebuilt env t t1"
      "\<not> r \<Longrightarrow> rh_buckets_data t1 = rh_buckets_data t \<and> rh_mask t1 = rh_mask t"
      "default_factors t \<Longrightarrow> default_factors t1"
      "default_factors t \<Longrightarrow> length (rh_buckets_data t1) \<le> 4 * max 1 (length (rh_buckets_data t))
        \<and> (rh_nb_elements t < rh_load_threshold t \<and> \<not> rh_grow_on_next_insert t
            \<longrightarrow> rh_buckets_data t1 = rh_buckets_data t)"
      by (rule extreme_load [OF s ok n]) (rule that; (assumption | simp))
    have ok1: "rh_ok env t1" and c1: "contents t1 = contents t" and n1: "rh_nb_elements t1 = rh_nb_elements t"
      and ne1: "rh_buckets_data t1 \<noteq> []" using t1(2) by (simp_all add: rebuilt_def)
    have "rh_nb_elements t1 \<le> 32767" using n1 n by simp
    note probe1 = table_probe [OF ok1 this, of key]
    have "\<exists>i1 d1. insert_position env key i d t = Some (Inr (t1, i1, d1))
        \<and> stopped (rh_home env t1) (rh_buckets_data t1) key i1 d1"
    proof (cases r)
      case True
      from probe1 obtain i1 d1 where "rh_probe_free (rh_mask t1) (m_buckets t1) (rh_home env t1 key) 0 = Some (Inr (i1, d1))"
        "stopped (rh_home env t1) (rh_buckets_data t1) key i1 d1"
        using None c1 ne1 by auto
      then show ?thesis using t1(1) True by (simp add: insert_position_def rh_home_def)
    next
      case False
      then have "rh_home env t1 = rh_home env t" "rh_buckets_data t1 = rh_buckets_data t"
        using t1(3) by (simp_all add: rh_home_def [abs_def])
      then show ?thesis using t1(1) False p(2) ne1 by (simp add: insert_position_def)
    qed
    then obtain i1 d1 where pos: "insert_position env key i d t = Some (Inr (t1, i1, d1))"
      and st: "stopped (rh_home env t1) (rh_buckets_data t1) key i1 d1" by blast
    have n1': "rh_nb_elements t1 \<le> 32767" and new1: "contents t1 key = None" using n1 n c1 None by simp_all
    obtain t' where t': "place_value (key, v) t1 i1 d1 = Some (Inr t')" "rh_ok env t'"
      "contents t' = (contents t1)(key \<mapsto> v)" "rh_nb_elements t' = rh_nb_elements t1 + 1"
      "i1 < length (rh_buckets_data t')" "be_value (rh_buckets_data t' ! i1) = Some (key, v)"
      "same_policy t1 t'" "rh_nb_elements t1 < 4096 \<Longrightarrow> \<not> rh_grow_on_next_insert t'"
      by (rule place_value_ok [OF t1(2) n1' st new1]) (rule that; (assumption | simp))
    have "rh_insert env (key, v) t = Some (Inr (t', i1, contents t key = None))"
      using p(1) pos t'(1) None by (simp add: rh_insert_def rh_home_def)
    moreover have "default_factors t'" if "default_factors t"
      using t1(4) [OF that] t'(7) by (simp add: default_factors_def same_policy_def)
    ultimately show ?thesis
      using t' c1 n1 None rh_ok_facts(7) [OF t'(2)] t1(5) by (intro that [of t' i1]) (auto simp: same_policy_def)
  qed
qed

section \<open>Assignment, removal and clearing\<close>

lemma map_of_eq_at:
  assumes "distinct (map fst xs)" and "distinct (map fst ys)"
    and same: "\<And>v. (k, v) \<in> set xs \<longleftrightarrow> (k, v) \<in> set ys"
  shows "map_of xs k = map_of ys k"
proof (cases "map_of ys k")
  case (Some v)
  from map_of_SomeD [OF this] have "(k, v) \<in> set xs" using same by blast
  then show ?thesis using Some assms(1) by simp
next
  case None
  have "map_of xs k \<noteq> Some v" for v
  proof
    assume "map_of xs k = Some v"
    from map_of_SomeD [OF this] have "(k, v) \<in> set ys" using same by blast
    then show False using None assms(2) by simp
  qed
  then have "map_of xs k = None" by blast
  then show ?thesis using None by simp
qed

text \<open>A new value in the bucket of a key.\<close>

lemma assign_ok:
  fixes v :: 'v
  assumes ok: "rh_ok env t" and i: "it < length (rh_buckets_data t)"
    and w: "be_value (rh_buckets_data t ! it) = Some (key, w)"
  defines "bs \<equiv> (rh_buckets_data t)[it := (rh_buckets_data t ! it)\<lparr>be_value := Some (key, v)\<rparr>]"
  shows "rh_ok env (t\<lparr>rh_buckets_data := bs\<rparr>) \<and> contents (t\<lparr>rh_buckets_data := bs\<rparr>) = (contents t)(key \<mapsto> v)"
proof -
  let ?bs = "rh_buckets_data t" and ?t = "t\<lparr>rh_buckets_data := bs\<rparr>"
  have ms: "add_mset (key, w) (mset (entries bs)) = add_mset (key, v) (mset (entries ?bs))"
    unfolding bs_def using i w by (intro entries_swap) simp_all
  have len: "length bs = length ?bs" by (simp add: bs_def)
  have "mset (map fst (entries bs)) = mset (map fst (entries ?bs))"
    using arg_cong [OF ms, of "image_mset fst"] by simp
  then have d: "distinct (map fst (entries bs))"
    using rh_ok_facts(3) [OF ok] mset_eq_imp_distinct_iff by blast
  have inv: "robin_inv (rh_home env t) bs"
  proof -
    have "be_dist (bs ! j) = be_dist (?bs ! j)" if "j < length ?bs" for j
      using that by (cases "j = it") (simp_all add: bs_def)
    moreover have "bucket_ok (rh_home env t) (length ?bs) j (bs ! j)" if "j < length ?bs" for j
      using robin_inv_ok [OF rh_ok_facts(2) [OF ok] that] that w
      by (cases "j = it") (simp_all add: bucket_ok_def bs_def)
    moreover have "Suc j mod length ?bs < length ?bs" for j using i by (intro mod_less_divisor, linarith)
    ultimately show ?thesis using rh_ok_facts(2) [OF ok] len by (simp add: robin_inv_def)
  qed
  have "map be_last bs = map be_last ?bs" unfolding bs_def using i by (intro map_update_same) simp_all
  moreover have "rh_home env ?t = rh_home env t" by (simp add: rh_home_def [abs_def])
  moreover have "length (entries bs) = length (entries ?bs)" using arg_cong [OF ms, of size] by simp
  ultimately have ok': "rh_ok env ?t" using ok d inv len by (auto simp: rh_ok_def table_shape_def)
  moreover have "contents ?t k = ((contents t)(key \<mapsto> v)) k" for k
  proof (cases "k = key")
    case True
    then show ?thesis using contents_Some [OF ok', of it key v] i by (simp add: bs_def)
  next
    case False
    have "(k, x) \<in> set (entries bs) \<longleftrightarrow> (k, x) \<in> set (entries ?bs)" for x
      using arg_cong [OF ms, of "\<lambda>m. (k, x) \<in># m"] False by simp
    then show ?thesis
      using map_of_eq_at [OF d rh_ok_facts(3) [OF ok]] False by (simp add: contents_def)
  qed
  ultimately show ?thesis by blast
qed

lemma insert_or_assign_ok:
  fixes env :: "'k rh_env" and t :: "('k, 'v) robin_hash"
  assumes s: "rh_space env t" and ok: "rh_ok env t" and n: "rh_nb_elements t < 32767"
  shows "\<exists>t' it. insert_or_assign env key v t = Some (Inr (t', it, contents t key = None)) \<and> rh_ok env t'
    \<and> contents t' = (contents t)(key \<mapsto> v)"
proof -
  obtain t1 it where t1: "rh_insert env (key, v) t = Some (Inr (t1, it, contents t key = None))" "rh_ok env t1"
    "contents t1 = (if contents t key = None then (contents t)(key \<mapsto> v) else contents t)"
    "it < rh_bucket_count t1" "\<exists>w. contents t1 key = Some w \<and> be_value (rh_buckets_data t1 ! it) = Some (key, w)"
    by (rule rh_insert_ok [OF s ok n]) (rule that; assumption)
  show ?thesis
  proof (cases "contents t key = None")
    case True
    then show ?thesis using t1 by (simp add: insert_or_assign_def)
  next
    case False
    obtain w where w: "be_value (rh_buckets_data t1 ! it) = Some (key, w)" using t1(5) by blast
    have i: "it < length (rh_buckets_data t1)" using t1(4) rh_ok_facts(7) [OF t1(2)] by simp
    show ?thesis
      using t1(1,3) False i w assign_ok [OF t1(2) i w, of v] by (simp add: insert_or_assign_def be_get_def)
  qed
qed

lemma erase_from_bucket_ok:
  assumes ok: "rh_ok env t" and n: "rh_nb_elements t \<le> 32767"
    and i: "i < rh_bucket_count t" and v: "be_value (rh_buckets_data t ! i) = Some (key, v)"
  obtains t' where "erase_from_bucket i t = Some (Inr t')" "rh_ok env t'"
    "contents t' = (contents t)(key := None)" "Suc (rh_nb_elements t') = rh_nb_elements t"
    "rh_bucket_count t' = rh_bucket_count t"
proof -
  let ?bs = "rh_buckets_data t" and ?h = "rh_home env t"
  have il: "i < length ?bs" using i rh_ok_facts(7) [OF ok] by simp
  then have ne: "?bs \<noteq> []" by auto
  obtain p where p: "p \<le> 63" "rh_mask t = mask p" "length ?bs = 2 ^ p"
    by (rule table_shape_home [OF rh_ok_facts(1) [OF ok] ne, of env]) (rule that; assumption)
  note inv = rh_ok_facts(2) [OF ok] and less = rh_ok_facts(5) [OF ok ne] and nb = rh_ok_facts(4) [OF ok]
  note c = be_clear_fields [OF robin_inv_ok [OF inv il]]
  let ?cl = "?bs[i := be_clear (?bs ! i)]"
  have full: "\<not> be_empty (?bs ! i)" using bucket_ok_empty [OF robin_inv_ok [OF inv il]] v by simp
  obtain g0 where g0: "g0 \<le> length (entries ?bs)" "be_empty (?bs ! ((i + g0) mod length ?bs))"
    by (rule empty_ahead [OF inv less il]) (rule that; assumption)
  then obtain g where g: "g0 = Suc g" using full il by (cases g0) auto
  have "be_empty (?cl ! ((Suc i + g) mod length ?cl))"
    using g0(2) g c(2) il by (cases "(Suc i + g) mod length ?bs = i") (simp_all add: be_empty_def)
  moreover have "Suc g < length ?cl" using g0(1) g less by simp
  moreover have "be_dist (?cl ! j) < 32768" if "j < length ?cl" for j
    using that c(2) roomy_dist [OF inv roomy_entries [OF inv less], of j] n nb
    by (cases "j = i") simp_all
  ultimately have "\<exists>bs'. erase_shift (mask p) ?cl i (Suc i mod length ?cl) = Some (Inr bs') \<and> robin_inv ?h bs'
      \<and> map be_last bs' = map be_last ?cl \<and> mset (entries bs') = mset (entries ?cl)"
    using p clear_holed [OF inv il] by (intro erase_shift_ends) simp_all
  then obtain bs' where b: "erase_shift (mask p) ?cl i (Suc i mod length ?bs) = Some (Inr bs')" "robin_inv ?h bs'"
    "map be_last bs' = map be_last ?bs" "mset (entries bs') = mset (entries ?cl)"
    using map_update_same [OF il, of be_last] c(3) by auto
  have "add_mset (key, v) (mset (entries ?cl)) = mset (entries ?bs)"
    using entries_update [OF il, of "be_clear (?bs ! i)"] v c(1) by simp
  then have ms: "mset ((key, v) # entries bs') = mset (entries ?bs)" using b(4) by simp
  have d: "distinct (map fst ((key, v) # entries bs'))"
    using ms rh_ok_facts(3) [OF ok] by (rule distinct_keys_mset)
  define t' where "t' = t\<lparr>rh_buckets_data := bs', rh_nb_elements := rh_nb_elements t - 1\<rparr>"
  have "next_bucket (mask p) i = Suc i mod length ?bs" using next_bucket_mod [of i p] il p by simp
  then have r: "erase_from_bucket i t = Some (Inr t')"
    using il p(2) b(1) by (simp add: erase_from_bucket_def t'_def)
  have len: "length bs' = length ?bs" using arg_cong [OF b(3), of length] by simp
  have nb': "Suc (length (entries bs')) = length (entries ?bs)" using mset_eq_length [OF ms] by simp
  have "?h = rh_home env t'" by (simp add: rh_home_def [abs_def] t'_def)
  then have "rh_ok env t'"
    using ok b(2,3) d len nb' less by (auto simp: rh_ok_def table_shape_def t'_def)
  moreover have "contents t' = (contents t)(key := None)"
  proof -
    have "map_of (entries ?bs) = map_of ((key, v) # entries bs')"
      using map_of_mset [OF ms [symmetric] d] .
    moreover have "map_of (entries bs') key = None" using d by (simp add: map_of_eq_None_iff)
    ultimately show ?thesis by (auto simp: contents_def t'_def fun_eq_iff)
  qed
  ultimately show ?thesis using nb' nb by (intro that [OF r]) (simp_all add: t'_def)
qed

text \<open>\<open>erase(key)\<close> removes the key and nothing else.\<close>

lemma rh_erase_ok:
  fixes env :: "'k rh_env"
  assumes ok: "rh_ok env t" and n: "rh_nb_elements t \<le> 32767"
  shows "\<exists>t'. rh_erase env key t = Some (Inr (t', if contents t key = None then 0 else 1)) \<and> rh_ok env t'
    \<and> contents t' = (contents t)(key := None)"
proof -
  obtain it where it: "rh_find env t key = Some (Inr it)" "it \<le> rh_bucket_count t"
    "it = rh_bucket_count t \<longleftrightarrow> contents t key = None"
    "\<And>v. contents t key = Some v \<Longrightarrow> be_value (rh_buckets_data t ! it) = Some (key, v)"
    by (rule rh_find_ok [OF ok n, of key]) (rule that; simp)
  show ?thesis
  proof (cases "contents t key")
    case None
    then show ?thesis using it ok by (auto simp: rh_erase_def fun_eq_iff)
  next
    case (Some v)
    then have less: "it < rh_bucket_count t" using it(2,3) by auto
    obtain t' where t': "erase_from_bucket it t = Some (Inr t')" "rh_ok env t'"
      "contents t' = (contents t)(key := None)"
      by (rule erase_from_bucket_ok [OF ok n less it(4) [OF Some]]) (rule that; assumption)
    let ?t = "t'\<lparr>rh_try_skrink_on_next_insert := True\<rparr>"
    have "rh_ok env ?t = rh_ok env t'" by (simp add: rh_ok_def table_shape_def rh_home_def [abs_def])
    moreover have "contents ?t = contents t'" by (simp add: contents_def)
    moreover have "rh_erase env key t = Some (Inr (?t, 1))" using it(1) less t'(1) by (simp add: rh_erase_def)
    ultimately show ?thesis using t'(2,3) Some by (intro exI [of _ ?t]) simp
  qed
qed

lemma rh_clear_ok:
  assumes ok: "rh_ok env t"
  shows "rh_ok env (rh_clear t) \<and> contents (rh_clear t) = Map.empty"
proof -
  let ?bs = "rh_buckets_data t"
  have c: "be_value (be_clear (?bs ! i)) = None" "be_dist (be_clear (?bs ! i)) = - 1"
    "be_last (be_clear (?bs ! i)) = be_last (?bs ! i)" if "i < length ?bs" for i
    using be_clear_fields [OF robin_inv_ok [OF rh_ok_facts(2) [OF ok] that]] by blast+
  have "\<forall>b\<in>set (map be_clear ?bs). be_value b = None" using c(1) by (auto simp: in_set_conv_nth)
  then have e: "entries (map be_clear ?bs) = []" by (auto simp: entries_def List.map_filter_def)
  have "robin_inv h (map be_clear ?bs)" for h :: "'a \<Rightarrow> nat"
  proof -
    have "Suc i mod length ?bs < length ?bs" if "i < length ?bs" for i
      using that by (intro mod_less_divisor, linarith)
    then show ?thesis using c by (simp add: robin_inv_def bucket_ok_def)
  qed
  moreover have "map (be_last \<circ> be_clear) ?bs = map be_last ?bs"
    using c(3) by (intro nth_equalityI) simp_all
  ultimately show ?thesis
    using ok e by (auto simp: rh_ok_def table_shape_def rh_clear_def contents_def simp del: map_eq_conv)
qed

section \<open>Iteration\<close>

text \<open>\<open>j\<close> is the first bucket behind \<open>i\<close> that has a value, or the end.\<close>

definition next_full :: "('k, 'v) bucket_entry list \<Rightarrow> nat \<Rightarrow> nat \<Rightarrow> bool" where
  "next_full bs i j \<longleftrightarrow> i < j \<and> j \<le> length bs \<and> (j < length bs \<longrightarrow> \<not> be_empty (bs ! j))
     \<and> (\<forall>k. i < k \<and> k < j \<longrightarrow> be_empty (bs ! k))"

lemma increment_loop_next:
  assumes "\<And>i. i < length bs \<Longrightarrow> be_last (bs ! i) \<longleftrightarrow> i = length bs - 1" and "it + n + 1 = length bs"
  shows "\<exists>j. rh_increment_loop bs it n = Inr j \<and> next_full bs it j"
  using assms(2)
proof (induction n arbitrary: it)
  case 0
  then show ?case using assms(1) [of it] by (auto simp: next_full_def)
next
  case (Suc n)
  have l: "\<not> be_last (bs ! it)" using assms(1) [of it] Suc.prems by simp
  show ?case
  proof (cases "be_empty (bs ! (it + 1))")
    case True
    have "it + 1 + n + 1 = length bs" using Suc.prems by simp
    from Suc.IH [OF this] obtain j where j: "rh_increment_loop bs (it + 1) n = Inr j" "next_full bs (it + 1) j"
      by blast
    have "next_full bs it j"
      using j(2) True unfolding next_full_def by (metis Suc_eq_plus1 Suc_lessD less_antisym not_less_eq)
    then show ?thesis using j(1) l True Suc.prems by simp
  next
    case False
    then have "next_full bs it (it + 1)" using Suc.prems by (auto simp: next_full_def)
    then show ?thesis using False l Suc.prems by simp
  qed
qed

lemma last_flags:
  assumes "rh_ok env t" and "i < length (rh_buckets_data t)"
  shows "be_last (rh_buckets_data t ! i) \<longleftrightarrow> i = length (rh_buckets_data t) - 1"
proof -
  let ?bs = "rh_buckets_data t"
  have "map be_last ?bs ! i = map be_last (new_buckets (length ?bs) :: ('a, 'b) bucket_entry list) ! i"
    using rh_ok_facts(1) [OF assms(1)] by (simp add: table_shape_def)
  then show ?thesis using assms(2) by (simp add: new_buckets_nth bucket_entry_new_def)
qed

lemma rh_increment_next:
  assumes ok: "rh_ok env t" and it: "it < rh_bucket_count t"
  shows "\<exists>j. rh_increment t it = Inr j \<and> next_full (rh_buckets_data t) it j"
proof -
  have i: "it < length (rh_buckets_data t)" using it rh_ok_facts(7) [OF ok] by simp
  then have "m_buckets t = rh_buckets_data t" by (auto simp: m_buckets_def)
  moreover have "it + (length (rh_buckets_data t) - 1 - it) + 1 = length (rh_buckets_data t)" using i by simp
  from increment_loop_next [OF last_flags [OF ok] this]
  have "\<exists>j. rh_increment_loop (rh_buckets_data t) it (length (rh_buckets_data t) - 1 - it) = Inr j
      \<and> next_full (rh_buckets_data t) it j" by simp
  ultimately show ?thesis by (simp add: rh_increment_def)
qed

lemma erase_range_clear_result:
  assumes "it + n \<le> length bs"
  shows "\<exists>bs' nb'. erase_range_clear bs nb it n = Inr (bs', nb') \<and> length bs' = length bs
    \<and> (\<forall>j<length bs. bs' ! j = (if it \<le> j \<and> j < it + n then be_clear (bs ! j) else bs ! j))"
  using assms
proof (induction n arbitrary: bs nb it)
  case (Suc n)
  show ?case
  proof (cases "be_empty (bs ! it)")
    case True
    have "it + 1 + n \<le> length bs" using Suc.prems by simp
    from Suc.IH [OF this, of nb] obtain bs' nb' where r: "erase_range_clear bs nb (it + 1) n = Inr (bs', nb')"
      "length bs' = length bs"
      "\<forall>j<length bs. bs' ! j = (if it + 1 \<le> j \<and> j < it + 1 + n then be_clear (bs ! j) else bs ! j)" by blast
    have "be_clear (bs ! it) = bs ! it" using True by (simp add: be_clear_def)
    then have "\<forall>j<length bs. bs' ! j = (if it \<le> j \<and> j < it + Suc n then be_clear (bs ! j) else bs ! j)"
      using r(3) by (auto simp: le_Suc_eq Suc_le_eq order_le_less)
    then show ?thesis using r(1,2) True Suc.prems by simp
  next
    case False
    let ?bs = "bs[it := be_clear (bs ! it)]"
    have "it + 1 + n \<le> length ?bs" using Suc.prems by simp
    from Suc.IH [OF this, of "nb - 1"] obtain bs' nb' where
      r: "erase_range_clear ?bs (nb - 1) (it + 1) n = Inr (bs', nb')" "length bs' = length bs"
      "\<forall>j<length bs. bs' ! j = (if it + 1 \<le> j \<and> j < it + 1 + n then be_clear (?bs ! j) else ?bs ! j)"
      by auto
    then have "\<forall>j<length bs. bs' ! j = (if it \<le> j \<and> j < it + Suc n then be_clear (bs ! j) else bs ! j)"
      by (auto simp: nth_list_update order_le_less)
    then show ?thesis using r(1,2) False Suc.prems by simp
  qed
qed auto

lemma home_of_wrapped:
  assumes ok: "rh_ok env t" and ne: "rh_buckets_data t \<noteq> []"
    and v: "be_value (rh_buckets_data t ! 0) = Some (key, v)" and d: "0 < be_dist (rh_buckets_data t ! 0)"
  shows "0 < rh_home env t key"
proof (rule ccontr)
  let ?bs = "rh_buckets_data t"
  assume "\<not> 0 < rh_home env t key"
  then have z: "rh_home env t key = 0" by simp
  have l: "0 < length ?bs" using ne by simp
  note inv = rh_ok_facts(2) [OF ok] and less = rh_ok_facts(5) [OF ok ne]
  have "0 = (rh_home env t key + nat (be_dist (?bs ! 0))) mod length ?bs"
    using robin_inv_ok [OF inv l] v by (simp add: bucket_ok_def)
  moreover have "nat (be_dist (?bs ! 0)) < length ?bs"
    using roomy_dist [OF inv roomy_entries [OF inv less] l] less by linarith
  ultimately show False using z d by simp
qed

section \<open>The hash map of the competitor\<close>

definition rh_ops :: "'k rh_env \<Rightarrow> ('k, ('k, u64) robin_hash) hashmap_ops" where
  "rh_ops env = \<lparr>
     hm_reserve = (\<lambda>n. bind_run
       (Some (robin_hash_new env 0 DEFAULT_MIN_LOAD_FACTOR DEFAULT_MAX_LOAD_FACTOR)) (rh_reserve env n)),
     hm_insert = (\<lambda>t k v. bind_run (rh_insert env (k, v) t) (\<lambda>(t, it, inserted). Some (Inr t))),
     hm_find = (\<lambda>t k. bind_run (rh_find env t k) (\<lambda>it. Some
       (if it = rh_bucket_count t then Inr None
        else bind_res (rh_value t it) (\<lambda>v. Inr (Some v))))),
     hm_bucket_count = rh_bucket_count\<rparr>"

text \<open>
  The tables of at most 4096 elements with the default load factors: the flag that asks for
  growing is never set, so that the number of buckets is bounded.
\<close>

definition rh_valid :: "'k rh_env \<Rightarrow> ('k, u64) robin_hash \<Rightarrow> bool" where
  "rh_valid env t \<longleftrightarrow> rh_ok env t \<and> default_factors t \<and> \<not> rh_grow_on_next_insert t
     \<and> rh_bucket_count t \<le> 2 ^ 15 \<and> rh_nb_elements t \<le> 4096"

lemma card_contents:
  assumes "rh_ok env t"
  shows "card (dom (contents t)) = rh_nb_elements t"
  using distinct_card [OF rh_ok_facts(3) [OF assms]] rh_ok_facts(4) [OF assms]
  by (simp add: contents_def dom_map_of_conv_image_fst)

locale robin_env =
  fixes env :: "('k::linorder) rh_env"
  assumes float: "ieee_single (re_float env)" and vector: "2 ^ 20 \<le> re_vector_max env"
begin

lemma reserve_default:
  assumes n: "0 < n" "n \<le> 2 ^ 16"
  obtains t where "hm_reserve (rh_ops env) n = Some (Inr t)" "rh_ok env t" "contents t = Map.empty"
    "default_factors t" "\<not> rh_grow_on_next_insert t" "\<not> rh_try_skrink_on_next_insert t"
    "rh_nb_elements t = 0" "2 * n \<le> rh_bucket_count t" "rh_bucket_count t < 4 * n"
proof -
  obtain t0 :: "('k, u64) robin_hash" where t0:
    "robin_hash_new env 0 DEFAULT_MIN_LOAD_FACTOR DEFAULT_MAX_LOAD_FACTOR = Inr t0" "rh_ok env t0"
    "rh_buckets_data t0 = []" "rh_nb_elements t0 = 0" "rh_load_threshold t0 = 0"
    "rh_max_load_factor t0 = clamp DEFAULT_MAX_LOAD_FACTOR (MINIMUM_MAX_LOAD_FACTOR env) (MAXIMUM_MAX_LOAD_FACTOR env)"
    "rh_min_load_factor t0 = clamp DEFAULT_MIN_LOAD_FACTOR (MINIMUM_MIN_LOAD_FACTOR env) (MAXIMUM_MIN_LOAD_FACTOR env)"
    by (rule empty_table [OF float]) (rule that; assumption)
  have d: "default_factors t0"
    using t0 clamp_half [OF float] clamp_zero [OF float]
    by (simp add: default_factors_def DEFAULT_MAX_LOAD_FACTOR_def DEFAULT_MIN_LOAD_FACTOR_def)
  have n0: "rh_nb_elements t0 < n" "rh_nb_elements t0 \<le> 32767" using n t0(4) by simp_all
  obtain t where t: "rh_reserve env n t0 = Some (Inr t)" "rebuilt env t0 t"
    "default_factors t0 \<Longrightarrow> default_factors t"
    "default_factors t0 \<Longrightarrow> 2 * n \<le> length (rh_buckets_data t) \<and> length (rh_buckets_data t) < 4 * n"
    by (rule reserve_ok [OF float vector t0(2) n n0]) (rule that; (assumption | simp))
  have "contents t0 = Map.empty" using t0(3) by (simp add: contents_def entries_def map_filter_simps)
  then show ?thesis
    using t d t0(1,4) rh_ok_facts(7) [of env t]
    by (intro that [of t]) (auto simp: rebuilt_def rh_ops_def)
qed

lemma reserve_valid:
  assumes "0 < n" and "n \<le> 5461"
  shows "\<exists>t. hm_reserve (rh_ops env) n = Some (Inr t) \<and> rh_valid env t \<and> contents t = Map.empty"
proof -
  have "n \<le> 2 ^ 16" using assms(2) by simp
  from assms(1) this obtain t where "hm_reserve (rh_ops env) n = Some (Inr t)" "rh_ok env t"
    "contents t = Map.empty" "default_factors t" "\<not> rh_grow_on_next_insert t" "rh_nb_elements t = 0"
    "rh_bucket_count t < 4 * n"
    by (rule reserve_default) (rule that; assumption)
  then show ?thesis using assms(2) by (auto simp: rh_valid_def)
qed

lemma insert_valid:
  assumes v: "rh_valid env t" and c: "card (dom (contents t)) < 4096"
  shows "\<exists>t'. hm_insert (rh_ops env) t k x = Some (Inr t') \<and> rh_valid env t'
    \<and> contents t' = (if contents t k = None then (contents t)(k \<mapsto> x) else contents t)"
proof -
  have ok: "rh_ok env t" and d: "default_factors t" and g: "\<not> rh_grow_on_next_insert t"
    and b: "rh_bucket_count t \<le> 2 ^ 15" using v by (simp_all add: rh_valid_def)
  have n: "rh_nb_elements t < 4096" "rh_nb_elements t < 32767" using c card_contents [OF ok] by simp_all
  have s: "rh_space env t" using float vector b by (simp add: rh_space_def)
  obtain t' it where t': "rh_insert env (k, x) t = Some (Inr (t', it, contents t k = None))" "rh_ok env t'"
    "contents t' = (if contents t k = None then (contents t)(k \<mapsto> x) else contents t)"
    "rh_nb_elements t' = (if contents t k = None then rh_nb_elements t + 1 else rh_nb_elements t)"
    "default_factors t \<Longrightarrow> default_factors t'"
    "rh_nb_elements t < 4096 \<Longrightarrow> contents t k = None \<Longrightarrow> \<not> rh_grow_on_next_insert t'"
    "contents t k \<noteq> None \<Longrightarrow> t' = t"
    "default_factors t \<Longrightarrow> length (rh_buckets_data t') \<le> 4 * max 1 (length (rh_buckets_data t))
      \<and> (rh_nb_elements t < rh_load_threshold t \<and> \<not> rh_grow_on_next_insert t
          \<longrightarrow> length (rh_buckets_data t') = length (rh_buckets_data t))"
    by (rule rh_insert_ok [OF s ok n(2), of k x]) (rule that; (assumption | simp))
  have "length (rh_buckets_data t') \<le> 2 ^ 15"
  proof (cases "rh_nb_elements t < rh_load_threshold t")
    case True
    then show ?thesis using t'(8) [OF d] g b rh_ok_facts(7) [OF ok] by simp
  next
    case False
    then have "length (rh_buckets_data t) div 2 \<le> 4095" using d n by (simp add: default_factors_def)
    then have "max 1 (length (rh_buckets_data t)) \<le> 8191" by simp
    moreover have "length (rh_buckets_data t') \<le> 4 * max 1 (length (rh_buckets_data t))"
      using t'(8) [OF d] by blast
    ultimately have "length (rh_buckets_data t') \<le> 4 * 8191" by linarith
    then show ?thesis by simp
  qed
  then have "rh_valid env t'"
    using t' d g n(1) rh_ok_facts(7) [OF t'(2)] by (cases "contents t k = None") (simp_all add: rh_valid_def)
  then show ?thesis using t'(1,3) by (simp add: rh_ops_def)
qed

lemma find_valid:
  assumes v: "rh_valid env t"
  shows "hm_find (rh_ops env) t k = Some (Inr (contents t k))"
proof -
  have ok: "rh_ok env t" and n: "rh_nb_elements t \<le> 32767" using v by (simp_all add: rh_valid_def)
  obtain it where it: "rh_find env t k = Some (Inr it)" "it \<le> rh_bucket_count t"
    "it = rh_bucket_count t \<longleftrightarrow> contents t k = None"
    "\<And>v. contents t k = Some v \<Longrightarrow> be_value (rh_buckets_data t ! it) = Some (k, v)"
    by (rule rh_find_ok [OF ok n, of k]) (rule that; simp)
  show ?thesis
  proof (cases "contents t k")
    case None
    then show ?thesis using it by (simp add: rh_ops_def)
  next
    case (Some x)
    then have "it < rh_bucket_count t" using it(2,3) by auto
    with rh_value_at [OF ok this it(4) [OF Some]] show ?thesis using it(1) Some by (simp add: rh_ops_def)
  qed
qed

sublocale robin: hash_map "rh_ops env" contents "rh_valid env" 4096
proof
  fix n :: nat assume "0 < n" "n \<le> 4 * 4096 div 3"
  then show "\<exists>m. hm_reserve (rh_ops env) n = Some (Inr m) \<and> rh_valid env m \<and> contents m = Map.empty"
    by (intro reserve_valid) simp_all
qed (fact insert_valid find_valid)+

end

text \<open>Exact arithmetic instead of rounding, and any hash function.\<close>

definition exact_env :: "('k \<Rightarrow> u64) \<Rightarrow> 'k rh_env" where
  "exact_env h = \<lparr>re_hash = h, re_float = (\<lambda>x. x), re_vector_max = 2 ^ 40\<rparr>"

interpretation exact: robin_env "exact_env h" for h
  by unfold_locales (simp_all add: exact_env_def ieee_single_id)

section \<open>Colliding keys\<close>

text \<open>
  The buckets after the insertion of \<open>kvs\<close> when every key has the ideal bucket 0. The distance
  of the next one is \<open>length kvs\<close>.
\<close>

definition colliding :: "nat \<Rightarrow> ('k \<times> 'v) list \<Rightarrow> ('k, 'v) bucket_entry list" where
  "colliding n kvs = map (\<lambda>i. if i < length kvs
       then \<lparr>be_dist = int i, be_last = (i = n - 1), be_value = Some (kvs ! i)\<rparr>
       else bucket_entry_new (i = n - 1)) [0..<n]"

definition colliding_table :: "nat \<Rightarrow> ('k \<times> 'v) list \<Rightarrow> ('k, 'v) robin_hash \<Rightarrow> bool" where
  "colliding_table p kvs t \<longleftrightarrow> rh_mask t = mask p \<and> rh_buckets_data t = colliding (2 ^ p) kvs
     \<and> rh_nb_elements t = length kvs \<and> 32768 < rh_load_threshold t
     \<and> \<not> rh_grow_on_next_insert t \<and> \<not> rh_try_skrink_on_next_insert t"

lemma length_colliding [simp]: "length (colliding n kvs) = n"
  by (simp add: colliding_def)

lemma colliding_nth:
  "i < n \<Longrightarrow> colliding n kvs ! i = (if i < length kvs
     then \<lparr>be_dist = int i, be_last = (i = n - 1), be_value = Some (kvs ! i)\<rparr>
     else bucket_entry_new (i = n - 1))"
  by (simp add: colliding_def)

lemma colliding_step:
  assumes "p \<le> 63" and "Suc e < 2 ^ p" and "e < length kvs" and "key \<notin> fst ` set kvs"
  shows "rh_probe (mask p) (colliding (2 ^ p) kvs) key e (int e)
    = rh_probe (mask p) (colliding (2 ^ p) kvs) key (Suc e) (to_int16 (int e + 1))"
proof -
  have "fst (kvs ! e) \<noteq> key" using assms(3,4) by auto
  moreover have "next_bucket (mask p) e = Suc e" using next_bucket_mod [of e p] assms(1,2) by simp
  ultimately show ?thesis
    using assms(2,3) by (subst rh_probe.simps) (simp add: colliding_nth be_get_def)
qed

lemma colliding_probe:
  assumes p: "p \<le> 63" and n: "length kvs < 2 ^ p" "length kvs < 32768" and key: "key \<notin> fst ` set kvs"
    and "e \<le> length kvs"
  shows "rh_probe (mask p) (colliding (2 ^ p) kvs) key e (int e)
    = Some (Inr (False, length kvs, int (length kvs)))"
  using assms(5)
proof (induction rule: inc_induct)
  case base
  show ?case
    using n(1) by (subst rh_probe.simps) (simp add: colliding_nth bucket_entry_new_def)
next
  case (step e)
  have "Suc e < 2 ^ p" using step(2) n(1) by linarith
  from colliding_step [OF p this step(2) key] show ?case
    using step(2,3) n(2) by (simp add: to_int16_small add.commute)
qed

text \<open>With 32768 values the distance wraps around, and an empty bucket is read.\<close>

lemma colliding_probe_undefined:
  assumes p: "p \<le> 63" and n: "length kvs < 2 ^ p" "length kvs = 32768" and key: "key \<notin> fst ` set kvs"
    and "e \<le> 32767"
  shows "rh_probe (mask p) (colliding (2 ^ p) kvs) key e (int e) = Some (Inl Undefined)"
  using assms(5)
proof (induction rule: inc_induct)
  case base
  have w: "to_int16 (int 32767 + 1) = - 32768" by (simp add: to_int16_def)
  have less: "Suc 32767 < (2::nat) ^ p" "32767 < length kvs" using n by simp_all
  have "rh_probe (mask p) (colliding (2 ^ p) kvs) key (Suc 32767) (- 32768) = Some (Inl Undefined)"
    using n by (subst rh_probe.simps) (simp add: colliding_nth bucket_entry_new_def be_get_def)
  then show ?case using colliding_step [OF p less key] w by simp
next
  case (step e)
  have less: "Suc e < 2 ^ p" "e < length kvs" using step(2) n by simp_all
  from colliding_step [OF p less key] show ?case
    using step(2,3) by (simp add: to_int16_small add.commute)
qed

lemma colliding_append:
  assumes "length kvs < n"
  shows "(colliding n kvs)[length kvs :=
      set_value_of_empty_bucket (int (length kvs)) kv (colliding n kvs ! length kvs)]
    = colliding n (kvs @ [kv])"
  using assms
  by (intro nth_equalityI)
     (auto simp: colliding_nth nth_list_update nth_append set_value_of_empty_bucket_def bucket_entry_new_def)

lemma colliding_insert:
  assumes t: "colliding_table p kvs t" and p: "p \<le> 63" "32768 < (2::nat) ^ p"
    and n: "length kvs < 32768" and key: "key \<notin> fst ` set kvs"
    and home: "bucket_for_hash (mask p) (re_hash env key) = 0"
  shows "\<exists>t'. hm_insert (rh_ops env) t key v = Some (Inr t') \<and> colliding_table p (kvs @ [(key, v)]) t'"
proof -
  have b: "rh_mask t = mask p" "rh_buckets_data t = colliding (2 ^ p) kvs"
    using t by (simp_all add: colliding_table_def)
  have less: "length kvs < 2 ^ p" using n p(2) by linarith
  have "m_buckets t = colliding (2 ^ p) kvs" using b less by (simp add: m_buckets_def colliding_def)
  then have probe: "rh_probe (rh_mask t) (m_buckets t) key 0 0 = Some (Inr (False, length kvs, int (length kvs)))"
    using colliding_probe [OF p(1) less n key, of 0] b by simp
  have calm: "rehash_on_extreme_load env t = Some (Inr (t, False))"
    using t n by (simp add: rehash_on_extreme_load_def colliding_table_def)
  have "be_empty (colliding (2 ^ p) kvs ! length kvs)"
    using less by (simp add: colliding_nth be_empty_def bucket_entry_new_def)
  then have "place_value (key, v) t (length kvs) (int (length kvs)) = Some (Inr (t\<lparr>rh_buckets_data :=
      colliding (2 ^ p) (kvs @ [(key, v)]), rh_nb_elements := rh_nb_elements t + 1\<rparr>))"
    using less by (simp add: place_value_def b colliding_append)
  then show ?thesis
    using probe calm home t
    by (simp add: rh_ops_def rh_insert_def b(1) insert_position_def colliding_table_def)
qed

lemma colliding_insert_all:
  assumes p: "p \<le> 63" "32768 < (2::nat) ^ p"
    and home: "\<And>kv. kv \<in> set kvs \<Longrightarrow> bucket_for_hash (mask p) (re_hash env (kv_key kv)) = 0"
    and "colliding_table p xs t" and "distinct (map fst xs @ map kv_key kvs)"
    and "length xs \<le> 32768" and "32768 < length xs + length kvs"
  shows "robin_insert_all (rh_ops env) kvs t = Some (Inl Undefined)"
  using assms(3-)
proof (induction kvs arbitrary: xs t)
  case (Cons kv kvs)
  have key: "kv_key kv \<notin> fst ` set xs" using Cons.prems(3) by auto
  have home: "bucket_for_hash (mask p) (re_hash env (kv_key kv)) = 0" using Cons.prems(1) by simp
  show ?case
  proof (cases "length xs = 32768")
    case True
    have b: "rh_mask t = mask p" "m_buckets t = colliding (2 ^ p) xs"
      using Cons.prems(2) p(2) by (simp_all add: colliding_table_def m_buckets_def colliding_def)
    have "rh_probe (mask p) (colliding (2 ^ p) xs) (kv_key kv) 0 0 = Some (Inl Undefined)"
      using colliding_probe_undefined [OF p(1) _ True key, of 0] True p(2) by simp
    then show ?thesis using home b by (simp add: rh_ops_def rh_insert_def)
  next
    case False
    then have n: "length xs < 32768" using Cons.prems(4) by simp
    obtain t' where t': "hm_insert (rh_ops env) t (kv_key kv) (kv_value kv) = Some (Inr t')"
      "colliding_table p (xs @ [(kv_key kv, kv_value kv)]) t'"
      using colliding_insert [OF Cons.prems(2) p n key home] by blast
    have "robin_insert_all (rh_ops env) kvs t' = Some (Inl Undefined)"
      using Cons.prems n t'(2) by (intro Cons.IH [where xs = "xs @ [(kv_key kv, kv_value kv)]"]) auto
    then show ?thesis using t'(1) by simp
  qed
qed simp

lemma new_buckets_of_empty:
  assumes ok: "rh_ok env t" and e: "contents t = Map.empty" and ne: "rh_buckets_data t \<noteq> []"
  shows "rh_buckets_data t = colliding (length (rh_buckets_data t)) []"
proof (rule nth_equalityI)
  let ?bs = "rh_buckets_data t"
  fix i assume i: "i < length ?bs"
  have "be_value (?bs ! i) = None"
    using contents_Some [OF ok i] e by (cases "be_value (?bs ! i)") auto
  moreover from this have "be_dist (?bs ! i) = - 1"
    using robin_inv_ok [OF rh_ok_facts(2) [OF ok] i] by (simp add: bucket_ok_def)
  moreover have "be_last (?bs ! i) = (i = length ?bs - 1)" using ok i by (rule last_flags)
  ultimately show "?bs ! i = colliding (length ?bs) [] ! i"
    using i by (cases "?bs ! i") (simp add: colliding_nth bucket_entry_new_def)
qed simp

context robin_env
begin

lemma finds_first:
  assumes "index_input kvs" and "length kvs \<le> 4096" and "k \<in> kv_key ` set kvs"
  shows "\<exists>m. robin_Build (rh_ops env) kvs = Some (Inr m) \<and> robin_EqualityLookup (rh_ops env) m k =
    Some (Inr \<lparr>sb_start = kv_lb kvs k, sb_stop = kv_lb kvs k + 1\<rparr>)"
  using assms by (rule robin.robin_lookup)

lemma collisions_undefined:
  assumes n: "32769 \<le> length kvs" "length kvs \<le> 49152" and d: "distinct (map kv_key kvs)"
    and h: "\<And>kv. kv \<in> set kvs \<Longrightarrow> 131072 dvd unat (re_hash env (kv_key kv))"
  shows "robin_Build (rh_ops env) kvs = Some (Inl Undefined)"
proof -
  let ?n = "4 * length kvs div 3"
  have nn: "0 < ?n" "?n \<le> 2 ^ 16" and lo: "43692 \<le> ?n" using n by simp_all
  obtain t where t: "hm_reserve (rh_ops env) ?n = Some (Inr t)" "rh_ok env t" "contents t = Map.empty"
    "default_factors t" "\<not> rh_grow_on_next_insert t" "\<not> rh_try_skrink_on_next_insert t"
    "rh_nb_elements t = 0" "2 * ?n \<le> rh_bucket_count t" "rh_bucket_count t < 4 * ?n"
    by (rule reserve_default [OF nn]) (rule that; assumption)
  have ne: "rh_buckets_data t \<noteq> []" using t(8) lo rh_ok_facts(7) [OF t(2)] by auto
  obtain p where p: "p \<le> 63" "rh_mask t = mask p" "length (rh_buckets_data t) = 2 ^ p"
    by (rule table_shape_home [OF rh_ok_facts(1) [OF t(2)] ne, of env]) (rule that; assumption)
  have c: "2 * ?n \<le> 2 ^ p" "2 ^ p < 4 * ?n" using t(8,9) p(3) rh_ok_facts(7) [OF t(2)] by simp_all
  have "(2::nat) ^ 16 < 2 ^ p" using c(1) lo by simp
  then have "16 < p" by (simp only: power_strict_increasing_iff)
  moreover have "4 * ?n \<le> 2 ^ 18" using nn(2) by simp
  then have "(2::nat) ^ p < 2 ^ 18" using c(2) by linarith
  then have "p < 18" by (simp only: power_strict_increasing_iff)
  ultimately have p17: "p = 17" by simp
  have "colliding_table p [] t"
    using t new_buckets_of_empty [OF t(2,3) ne] p by (simp add: colliding_table_def default_factors_def p17)
  moreover have "bucket_for_hash (mask p) (re_hash env (kv_key kv)) = 0" if "kv \<in> set kvs" for kv
    using h [OF that] by (simp add: bucket_for_hash_mod p17)
  ultimately have "robin_insert_all (rh_ops env) kvs t = Some (Inl Undefined)"
    using n d by (intro colliding_insert_all [OF p(1), where xs = "[]"]) (simp_all add: p17)
  then show ?thesis using t(1) by (simp add: robin_Build_def)
qed

end

section \<open>Properties\<close>

text \<open>
  C20. The number of buckets is rounded up to the least power of two that is not below the
  wanted number, and the mask of the growth policy selects a bucket: the hash modulo the number.
\<close>
theorem bucket_count_rounded_up:
  assumes "0 < n" and "unat n \<le> 2 ^ 63"
  shows "\<exists>p\<le>63. power_of_two_growth_policy n = Inr (mask p, 2 ^ p) \<and> unat n \<le> 2 ^ p
    \<and> (p = 0 \<or> 2 ^ (p - 1) < unat n) \<and> bucket_for_hash (mask p) h = unat h mod 2 ^ p"
proof -
  obtain p where p: "p \<le> 63" "round_up_to_power_of_two n = 2 ^ p" "unat n \<le> 2 ^ p"
    "p = 0 \<or> 2 ^ (p - 1) < unat n" using round_up_power [OF assms] .
  have "\<not> policy_max_bucket_count < n"
    using assms(2) by (simp add: word_less_nat_alt policy_max_bucket_count_def)
  with p(2) assms(1) have "power_of_two_growth_policy n = Inr (mask p, 2 ^ p)"
    by (simp add: power_of_two_growth_policy_def mask_eq_exp_minus_1 Let_def)
  with p show ?thesis using bucket_for_hash_mod by blast
qed

theorem bucket_count_rounded_up_witness:
  "\<exists>p\<le>63. power_of_two_growth_policy 87384 = Inr (mask p, 2 ^ p) \<and> unat (87384 :: u64) \<le> 2 ^ p
    \<and> (p = 0 \<or> 2 ^ (p - 1) < unat (87384 :: u64)) \<and> bucket_for_hash (mask p) 131077 = unat (131077 :: u64) mod 2 ^ p"
  by (rule bucket_count_rounded_up) simp_all

text \<open>A table of four buckets in which the keys 1 and 5 have the same ideal bucket.\<close>

definition ex_table :: "(u64, u64) robin_hash" where
  "ex_table = \<lparr>rh_mask = 3, rh_buckets_data =
      [bucket_entry_new False,
       \<lparr>be_dist = 0, be_last = False, be_value = Some (1, 10)\<rparr>,
       \<lparr>be_dist = 1, be_last = False, be_value = Some (5, 50)\<rparr>,
       bucket_entry_new True],
     rh_bucket_count = 4, rh_nb_elements = 2, rh_load_threshold = 2, rh_max_load_factor = 1 / 2,
     rh_grow_on_next_insert = False, rh_min_load_factor = 0, rh_try_skrink_on_next_insert = False\<rparr>"

lemma ex_table_ok: "rh_ok (exact_env (\<lambda>k. k)) ex_table"
proof -
  let ?bs = "rh_buckets_data ex_table"
  have m: "rh_mask ex_table = mask 2" by (simp add: ex_table_def mask_eq_exp_minus_1)
  have home: "rh_home (exact_env (\<lambda>k. k)) ex_table = (\<lambda>k. unat k mod 4)"
    by (rule ext) (simp add: rh_home_def m bucket_for_hash_mod exact_env_def)
  have "\<exists>p\<le>63. rh_mask ex_table = mask p \<and> length ?bs = 2 ^ p"
    using m by (intro exI [of _ 2]) (simp add: ex_table_def)
  then have shape: "table_shape ex_table"
    by (simp add: table_shape_def ex_table_def new_buckets_def bucket_entry_new_def numeral_eq_Suc)
  have inv: "robin_inv (\<lambda>k. unat k mod 4) ?bs"
    by (simp add: robin_inv_def ex_table_def All_less_Suc bucket_ok_def bucket_entry_new_def)
  have e: "entries ?bs = [(1, 10), (5, 50)]"
    by (simp add: ex_table_def entries_def map_filter_simps bucket_entry_new_def)
  show ?thesis
    unfolding rh_ok_def home e using shape inv by (simp add: ex_table_def factor_ok_def)
qed

lemma ex_table_space: "rh_space (exact_env (\<lambda>k. k)) ex_table"
  by (simp add: rh_space_def exact_env_def ieee_single_id ex_table_def)

text \<open>
  C13. An insertion into a table of less than 32767 elements returns, whatever the hash function:
  it keeps the invariant of the table, adds a key that is new, leaves the value of one that is
  present, tells which it was, and returns the bucket of the key. The table may be moved to more
  buckets on the way.
\<close>
theorem robin_insert_refines:
  assumes "rh_space env t" and "rh_ok env t" and "rh_nb_elements t < 32767"
  shows "\<exists>t' it. rh_insert env (key, v) t = Some (Inr (t', it, contents t key = None)) \<and> rh_ok env t'
    \<and> contents t' = (if contents t key = None then (contents t)(key \<mapsto> v) else contents t)
    \<and> it < rh_bucket_count t'
    \<and> (\<exists>w. contents t' key = Some w \<and> be_value (rh_buckets_data t' ! it) = Some (key, w))"
  by (rule rh_insert_ok [OF assms, of key v]) blast

theorem robin_insert_refines_witness:
  "\<exists>t' it. rh_insert (exact_env (\<lambda>k. k)) (9, 90) ex_table = Some (Inr (t', it, contents ex_table 9 = None))
    \<and> rh_ok (exact_env (\<lambda>k. k)) t'
    \<and> contents t' = (if contents ex_table 9 = None then (contents ex_table)(9 \<mapsto> 90) else contents ex_table)
    \<and> it < rh_bucket_count t'
    \<and> (\<exists>w. contents t' 9 = Some w \<and> be_value (rh_buckets_data t' ! it) = Some (9, w))"
  by (rule robin_insert_refines [OF ex_table_space ex_table_ok]) (simp add: ex_table_def)

text \<open>
  C14. Erasing a key from a table of at most 32767 elements returns, removes that key and no
  other, and keeps the invariant: the values behind it are shifted towards their ideal buckets.
  The limit is that of the 16-bit distances: among more elements the search for an absent key
  that collides with 32768 of them leaves the range of the distance and reads an empty bucket.
\<close>
theorem robin_erase_refines:
  assumes "rh_ok env t" and "rh_nb_elements t \<le> 32767"
  shows "\<exists>t'. rh_erase env key t = Some (Inr (t', if contents t key = None then 0 else 1)) \<and> rh_ok env t'
    \<and> contents t' = (contents t)(key := None)"
  using assms by (rule rh_erase_ok)

theorem robin_erase_refines_witness:
  "\<exists>t'. rh_erase (exact_env (\<lambda>k. k)) 1 ex_table = Some (Inr (t', if contents ex_table 1 = None then 0 else 1))
    \<and> rh_ok (exact_env (\<lambda>k. k)) t' \<and> contents t' = (contents ex_table)(1 := None)"
  by (rule robin_erase_refines [OF ex_table_ok]) (simp add: ex_table_def)

text \<open>
  C19. In a table of at most 32767 elements \<open>at\<close> and \<open>contains\<close> return what the table stores: the
  value of a key that is present, and an \<open>out_of_range\<close> exception for one that is not. In larger
  tables this fails for keys with 32768 collisions, whose distance does not fit into 16 bits.
\<close>
theorem robin_lookup_right:
  assumes "rh_ok env t" and "rh_nb_elements t \<le> 32767"
  shows "rh_at env t key = Some (case contents t key of None \<Rightarrow> Inl (Thrown ''out_of_range'') | Some v \<Rightarrow> Inr v)
    \<and> rh_contains env t key = Some (Inr (contents t key \<noteq> None))"
  using rh_at_ok [OF assms] rh_contains_ok [OF assms] by blast

theorem robin_lookup_right_witness:
  "rh_at (exact_env (\<lambda>k. k)) ex_table 5 = Some (case contents ex_table 5 of
      None \<Rightarrow> Inl (Thrown ''out_of_range'') | Some v \<Rightarrow> Inr v)
    \<and> rh_contains (exact_env (\<lambda>k. k)) ex_table 5 = Some (Inr (contents ex_table 5 \<noteq> None))"
  by (rule robin_lookup_right [OF ex_table_ok]) (simp add: ex_table_def)

text \<open>
  C16. The hash table competitor over the actual table: for up to 4096 rows, whatever the hash
  function, \<open>Build\<close> returns and the lookup of every present key gives the one-element bound of its
  first occurrence, also when the key is duplicated.
\<close>
theorem robin_finds_first:
  fixes kvs :: "'k::linorder KeyValue list"
  assumes "ieee_single (re_float env)" and "2 ^ 20 \<le> re_vector_max env"
    and "index_input kvs" and "length kvs \<le> 4096" and "k \<in> kv_key ` set kvs"
  shows "\<exists>m. robin_Build (rh_ops env) kvs = Some (Inr m) \<and> robin_EqualityLookup (rh_ops env) m k =
    Some (Inr \<lparr>sb_start = kv_lb kvs k, sb_stop = kv_lb kvs k + 1\<rparr>)"
  by (rule robin_env.finds_first [OF robin_env.intro [OF assms(1,2)] assms(3-5)])

theorem robin_finds_first_witness:
  "\<exists>m. robin_Build (rh_ops (exact_env (\<lambda>_. 0))) ex_kvs = Some (Inr m)
    \<and> robin_EqualityLookup (rh_ops (exact_env (\<lambda>_. 0))) m 5 =
      Some (Inr \<lparr>sb_start = kv_lb ex_kvs 5, sb_stop = kv_lb ex_kvs 5 + 1\<rparr>)"
  by (rule robin_finds_first) (simp_all add: exact_env_def ieee_single_id ex_kvs_input)

text \<open>
  C17. Distances are 16-bit numbers. Data of 32769 to 49152 rows with different keys whose hashes
  are multiples of 131072 - with the hash function of the standard library, keys that are -
  fills the first 32768 buckets with distances 0 to 32767; at the next key the distance wraps to
  -32768 and the value of an empty bucket is read.
\<close>
theorem robin_collisions_undefined:
  fixes kvs :: "'k::linorder KeyValue list"
  assumes f: "ieee_single (re_float env)" and vec: "2 ^ 20 \<le> re_vector_max env"
    and n: "32769 \<le> length kvs" "length kvs \<le> 49152" and d: "distinct (map kv_key kvs)"
    and h: "\<forall>kv\<in>set kvs. 131072 dvd unat (re_hash env (kv_key kv))"
  shows "robin_Build (rh_ops env) kvs = Some (Inl Undefined)"
  by (rule robin_env.collisions_undefined [OF robin_env.intro [OF f vec] n d]) (use h in blast)

theorem robin_collisions_undefined_witness:
  "robin_Build (rh_ops (exact_env (\<lambda>k. k)))
     (map (\<lambda>i. \<lparr>kv_key = word_of_nat (i * 131072), kv_value = word_of_nat i\<rparr>) [0..<32769]) = Some (Inl Undefined)"
proof (rule robin_collisions_undefined)
  have u: "unat (word_of_nat (i * 131072) :: u64) = i * 131072" if "i < 32769" for i
    using that by (intro unat_word_of_nat) simp
  have "inj_on (\<lambda>i. word_of_nat (i * 131072) :: u64) {0..<32769}"
  proof (rule inj_onI)
    fix i j assume "i \<in> {0..<32769}" "j \<in> {0..<32769}" "(word_of_nat (i * 131072) :: u64) = word_of_nat (j * 131072)"
    then show "i = j" using u [of i] u [of j] by simp
  qed
  then show "distinct (map kv_key (map (\<lambda>i. \<lparr>kv_key = (word_of_nat (i * 131072) :: u64), kv_value = word_of_nat i\<rparr>) [0..<32769]))"
    by (simp add: distinct_map o_def)
  show "\<forall>kv\<in>set (map (\<lambda>i. \<lparr>kv_key = (word_of_nat (i * 131072) :: u64), kv_value = word_of_nat i\<rparr>) [0..<32769]).
      131072 dvd unat (re_hash (exact_env (\<lambda>k. k)) (kv_key kv))"
    using u by (auto simp: exact_env_def)
qed (simp_all add: exact_env_def ieee_single_id)

text \<open>
  C18. \<open>erase(first, last)\<close> does not look past the end of the bucket array: of a key whose value
  wrapped around to bucket 0, erasing the values from its ideal bucket to \<open>end()\<close> leaves the value
  in the table and in the iteration, but \<open>contains\<close> and \<open>find\<close> do not see it any more.
\<close>
theorem robin_erase_range_loses_key:
  assumes ok: "rh_ok env t" and ne: "rh_buckets_data t \<noteq> []"
    and v: "be_value (rh_buckets_data t ! 0) = Some (key, v)" and d: "0 < be_dist (rh_buckets_data t ! 0)"
  shows "\<exists>t'. rh_erase_range (rh_home env t key) (rh_bucket_count t) t = Inr (t', rh_bucket_count t)
    \<and> (key, v) \<in> set (entries (rh_buckets_data t')) \<and> rh_begin t' = 0
    \<and> rh_contains env t' key = Some (Inr False)"
proof -
  let ?bs = "rh_buckets_data t" and ?i = "rh_home env t key"
  have l: "0 < length ?bs" using ne by simp
  note bc = rh_ok_facts(7) [OF ok]
  have home: "?i < length ?bs" by (rule table_shape_home [OF rh_ok_facts(1) [OF ok] ne, of env]) simp
  have "\<not> be_empty (?bs ! 0)" using d by (simp add: be_empty_def)
  have pos: "0 < ?i" using home_of_wrapped [OF ok ne v d] .
  obtain bs' nb' where c: "erase_range_clear ?bs (rh_nb_elements t) ?i (length ?bs - ?i) = Inr (bs', nb')"
    "length bs' = length ?bs"
    "\<forall>j<length ?bs. bs' ! j = (if ?i \<le> j \<and> j < ?i + (length ?bs - ?i) then be_clear (?bs ! j) else ?bs ! j)"
    using erase_range_clear_result [of ?i "length ?bs - ?i" ?bs "rh_nb_elements t"] home by auto
  define t' where "t' = t\<lparr>rh_buckets_data := bs', rh_nb_elements := nb'\<rparr>"
  have r: "rh_erase_range ?i (rh_bucket_count t) t = Inr (t', rh_bucket_count t)"
    using c(1) home bc by (simp add: rh_erase_range_def t'_def)
  have zero: "bs' ! 0 = ?bs ! 0" using c(3) l pos by simp
  then have "(key, v) \<in> set (entries bs')" using v c(2) l unfolding in_entries by metis
  moreover have ne': "bs' \<noteq> []" using c(2) l by auto
  moreover have "rh_begin t' = 0"
    using zero \<open>\<not> be_empty (?bs ! 0)\<close> ne' l bc by (cases bs') (simp_all add: rh_begin_def m_buckets_def t'_def take_Cons')
  moreover have "be_dist (bs' ! ?i) < 0"
    using c(3) home be_clear_fields(2) [OF robin_inv_ok [OF rh_ok_facts(2) [OF ok] home]] by simp
  then have "rh_probe (rh_mask t) bs' key ?i 0 = Some (Inr (False, ?i, 0))"
    using home c(2) by (subst rh_probe.simps) simp
  then have "rh_contains env t' key = Some (Inr False)"
    using ne' by (simp add: rh_contains_def rh_count_def rh_find_def rh_home_def m_buckets_def t'_def)
  ultimately show ?thesis using r by (intro exI [of _ t']) (simp add: t'_def)
qed

definition ex_wrapped :: "(u64, u64) robin_hash" where
  "ex_wrapped = \<lparr>rh_mask = 3, rh_buckets_data =
      [\<lparr>be_dist = 1, be_last = False, be_value = Some (7, 70)\<rparr>,
       bucket_entry_new False, bucket_entry_new False,
       \<lparr>be_dist = 0, be_last = True, be_value = Some (3, 30)\<rparr>],
     rh_bucket_count = 4, rh_nb_elements = 2, rh_load_threshold = 2, rh_max_load_factor = 1 / 2,
     rh_grow_on_next_insert = False, rh_min_load_factor = 0, rh_try_skrink_on_next_insert = False\<rparr>"

lemma ex_wrapped_ok: "rh_ok (exact_env (\<lambda>k. k)) ex_wrapped"
proof -
  let ?bs = "rh_buckets_data ex_wrapped"
  have m: "rh_mask ex_wrapped = mask 2" by (simp add: ex_wrapped_def mask_eq_exp_minus_1)
  have home: "rh_home (exact_env (\<lambda>k. k)) ex_wrapped = (\<lambda>k. unat k mod 4)"
    by (rule ext) (simp add: rh_home_def m bucket_for_hash_mod exact_env_def)
  have "\<exists>p\<le>63. rh_mask ex_wrapped = mask p \<and> length ?bs = 2 ^ p"
    using m by (intro exI [of _ 2]) (simp add: ex_wrapped_def)
  then have shape: "table_shape ex_wrapped"
    by (simp add: table_shape_def ex_wrapped_def new_buckets_def bucket_entry_new_def numeral_eq_Suc)
  have inv: "robin_inv (\<lambda>k. unat k mod 4) ?bs"
    by (simp add: robin_inv_def ex_wrapped_def All_less_Suc bucket_ok_def bucket_entry_new_def)
  have e: "entries ?bs = [(7, 70), (3, 30)]"
    by (simp add: ex_wrapped_def entries_def map_filter_simps bucket_entry_new_def)
  show ?thesis
    unfolding rh_ok_def home e using shape inv by (simp add: ex_wrapped_def factor_ok_def)
qed

theorem robin_erase_range_loses_key_witness:
  "\<exists>t'. rh_erase_range (rh_home (exact_env (\<lambda>k. k)) ex_wrapped 7) (rh_bucket_count ex_wrapped) ex_wrapped
      = Inr (t', rh_bucket_count ex_wrapped)
    \<and> (7, 70) \<in> set (entries (rh_buckets_data t')) \<and> rh_begin t' = 0
    \<and> rh_contains (exact_env (\<lambda>k. k)) t' 7 = Some (Inr False)"
  by (rule robin_erase_range_loses_key [OF ex_wrapped_ok]) (simp_all add: ex_wrapped_def)

end
