(* ===== verification/Dispatch.thy ===== *)
theory Dispatch
  imports LearnedIndexes Workloads ArtTree RadixBinarySearch InterpolationBTree
begin

text \<open>
  Model of \<open>src/benchmark.cc\<close> and of the files \<open>src/benchmarks/benchmark_*.cc\<close>: the command line,
  the choice of the search, and the sequence of the index variants that are run on one
  benchmark. A run is named by its class, the width of the keys and its template argument.
\<close>

section \<open>The runs of one index\<close>

datatype competitor =
    Run_RMI nat string nat
  | Run_RS nat nat
  | Run_TS nat nat
  | Run_PGM nat nat
  | Run_CHT nat nat
  | Run_ART nat
  | Run_BTree nat nat
  | Run_IBTree nat nat
  | Run_FAST nat nat
  | Run_ALEX nat nat
  | Run_FST nat nat
  | Run_Wormhole nat nat
  | Run_RBS nat nat
  | Run_CuckooMap
  | Run_RobinHash nat
  | Run_BS nat

text \<open>
  The functions \<open>benchmark_32_x\<close> and \<open>benchmark_64_x\<close> have the same variants: one that always
  runs, those of \<open>--pareto\<close>, and those that also need one of the binary searches.
\<close>

definition variants ::
  "(nat \<Rightarrow> competitor) \<Rightarrow> nat \<Rightarrow> nat list \<Rightarrow> nat list \<Rightarrow> bool \<Rightarrow> bool \<Rightarrow> competitor list" where
  "variants run single pareto_sizes binary_sizes pareto binary =
     run single # (if pareto then map run pareto_sizes @ (if binary then map run binary_sizes else []) else [])"

definition benchmark_alex :: "nat \<Rightarrow> bool \<Rightarrow> bool \<Rightarrow> competitor list" where
  "benchmark_alex w pareto binary =
     variants (Run_ALEX w) 1 [4, 8, 16, 32, 64, 128, 256, 512, 1024, 2048] [4096, 8192] pareto binary"

definition benchmark_btree :: "nat \<Rightarrow> bool \<Rightarrow> bool \<Rightarrow> competitor list" where
  "benchmark_btree w pareto binary =
     variants (Run_BTree w) 1 [4, 16, 32, 64, 128, 512, 1024] [4096, 16384, 65536, 262144] pareto binary"

definition benchmark_cht :: "nat \<Rightarrow> bool \<Rightarrow> bool \<Rightarrow> competitor list" where
  "benchmark_cht w pareto binary =
     variants (Run_CHT w) 10 [9, 8, 7, 6, 5, 4, 3, 2, 1] [] pareto binary"

definition benchmark_fst :: "nat \<Rightarrow> bool \<Rightarrow> bool \<Rightarrow> competitor list" where
  "benchmark_fst w pareto binary =
     variants (Run_FST w) 128 [256, 512, 1024, 2048, 4096, 8192] [] pareto binary"

definition benchmark_ibtree :: "nat \<Rightarrow> bool \<Rightarrow> bool \<Rightarrow> competitor list" where
  "benchmark_ibtree w pareto binary =
     variants (Run_IBTree w) 1 [32, 64, 128, 256, 512] [1024, 2048, 4096, 8192] pareto binary"

definition benchmark_pgm :: "nat \<Rightarrow> bool \<Rightarrow> bool \<Rightarrow> competitor list" where
  "benchmark_pgm w pareto binary =
     variants (Run_PGM w) 1 [4, 8, 16, 32, 64, 256, 1024, 2048] [4096, 8192] pareto binary"

definition benchmark_rbs :: "nat \<Rightarrow> bool \<Rightarrow> bool \<Rightarrow> competitor list" where
  "benchmark_rbs w pareto binary =
     variants (Run_RBS w) 28 [26, 24, 22, 20] [18, 16, 14, 12, 10, 8] pareto binary"

definition benchmark_rs :: "nat \<Rightarrow> bool \<Rightarrow> bool \<Rightarrow> competitor list" where
  "benchmark_rs w pareto binary =
     variants (Run_RS w) 10 [9, 8, 7, 6, 5, 4, 3, 2, 1] [] pareto binary"

definition benchmark_ts :: "nat \<Rightarrow> bool \<Rightarrow> bool \<Rightarrow> competitor list" where
  "benchmark_ts w pareto binary =
     variants (Run_TS w) 10 [9, 8, 7, 6, 5, 4, 3, 2, 1] [] pareto binary"

definition benchmark_wormhole :: "nat \<Rightarrow> bool \<Rightarrow> bool \<Rightarrow> competitor list" where
  "benchmark_wormhole w pareto binary =
     variants (Run_Wormhole w) 512 [1024, 2048, 4096] [6384, 5536, 62144] pareto binary"

definition benchmark_fast :: "nat \<Rightarrow> bool \<Rightarrow> bool \<Rightarrow> competitor list" where
  "benchmark_fast w pareto binary =
     variants (Run_FAST w) 1 [16, 256, 512, 768, 1024, 1526, 2048] [4096, 8192] pareto binary"

definition benchmark_art :: "bool \<Rightarrow> bool \<Rightarrow> competitor list" where
  "benchmark_art pareto binary =
     variants (Run_ART) 1 [32, 64, 128, 256, 512] [1024, 2048, 4096, 8192] pareto binary"

text \<open>RMI runs the models that were generated for the data set, which is found in the file name.\<close>

definition dtype_name :: "nat \<Rightarrow> string" where
  "dtype_name w = (if w = 32 then ''uint32'' else ''uint64'')"

definition run_rmi_binary :: "nat \<Rightarrow> string \<Rightarrow> string \<Rightarrow> nat \<Rightarrow> competitor list" where
  "run_rmi_binary w filename name variant =
     (if find_str (''/'' @ name @ ''_'' @ dtype_name w) filename \<noteq> None then [Run_RMI w name variant] else [])"

definition run_rmi_binary_pareto :: "nat \<Rightarrow> bool \<Rightarrow> bool \<Rightarrow> string \<Rightarrow> string \<Rightarrow> competitor list" where
  "run_rmi_binary_pareto w pareto binary filename name =
     run_rmi_binary w filename name 0 @
     (if pareto
      then concat (map (run_rmi_binary w filename name) [1, 2, 3, 4]) @
           (if binary then concat (map (run_rmi_binary w filename name) [5, 6, 7, 8, 9]) else [])
      else [])"

definition rmi_names :: "nat \<Rightarrow> string list" where
  "rmi_names w =
     (if w = 32
      then [''books_200M'', ''normal_200M'', ''lognormal_200M'', ''uniform_dense_200M'', ''uniform_sparse_200M'']
      else [''fb_200M'', ''osm_cellids_200M'', ''wiki_ts_200M'', ''books_200M'',
            ''osm_cellids_400M'', ''osm_cellids_600M'', ''osm_cellids_800M'',
            ''books_400M'', ''books_600M'', ''books_800M'',
            ''normal_200M'', ''lognormal_200M'', ''uniform_dense_200M'', ''uniform_sparse_200M''])"

definition benchmark_rmi :: "nat \<Rightarrow> bool \<Rightarrow> bool \<Rightarrow> string \<Rightarrow> competitor list" where
  "benchmark_rmi w pareto binary filename =
     concat (map (run_rmi_binary_pareto w pareto binary filename) (rmi_names w))"

section \<open>The sequence of runs\<close>

definition check_only :: "bool \<Rightarrow> string \<Rightarrow> string \<Rightarrow> 'a list \<Rightarrow> 'a list" where
  "check_only only_mode only tag code = (if \<not> only_mode \<or> only = tag then code else [])"

text \<open>
  The statements \<open>check_only(tag, code)\<close> in their order; \<open>apple\<close> and \<open>disable_fst\<close> are the two
  macros of the build.
\<close>

definition blocks_32 :: "bool \<Rightarrow> bool \<Rightarrow> bool \<Rightarrow> bool \<Rightarrow> string \<Rightarrow> (string \<times> competitor list) list" where
  "blocks_32 apple disable_fst binary pareto filename =
     [(''RMI'', benchmark_rmi 32 pareto binary filename),
      (''RS'', benchmark_rs 32 pareto binary),
      (''TS'', benchmark_ts 32 pareto binary),
      (''PGM'', benchmark_pgm 32 pareto binary),
      (''CHT'', benchmark_cht 32 pareto binary),
      (''BTree'', benchmark_btree 32 pareto binary),
      (''IBTree'', benchmark_ibtree 32 pareto binary),
      (''FAST'', benchmark_fast 32 pareto binary),
      (''ALEX'', benchmark_alex 32 pareto binary)] @
     (if apple then [] else (if disable_fst then [] else [(''FST'', benchmark_fst 32 pareto binary)]) @
       [(''Wormhole'', benchmark_wormhole 32 pareto binary)]) @
     (if binary
      then [(''RBS'', benchmark_rbs 32 pareto binary), (''CuckooMap'', [Run_CuckooMap]),
            (''RobinHash'', [Run_RobinHash 32]), (''BS'', [Run_BS 32])]
      else [])"

definition blocks_64 :: "bool \<Rightarrow> bool \<Rightarrow> bool \<Rightarrow> bool \<Rightarrow> string \<Rightarrow> (string \<times> competitor list) list" where
  "blocks_64 apple disable_fst binary pareto filename =
     [(''RMI'', benchmark_rmi 64 pareto binary filename),
      (''RS'', benchmark_rs 64 pareto binary),
      (''TS'', benchmark_ts 64 pareto binary),
      (''PGM'', benchmark_pgm 64 pareto binary),
      (''CHT'', benchmark_cht 64 pareto binary),
      (''ART'', benchmark_art pareto binary),
      (''BTree'', benchmark_btree 64 pareto binary),
      (''IBTree'', benchmark_ibtree 64 pareto binary),
      (''FAST'', benchmark_fast 64 pareto binary),
      (''ALEX'', benchmark_alex 64 pareto binary)] @
     (if apple then [] else (if disable_fst then [] else [(''FST'', benchmark_fst 64 pareto binary)]) @
       [(''Wormhole'', benchmark_wormhole 64 pareto binary)]) @
     (if binary
      then [(''RBS'', benchmark_rbs 64 pareto binary), (''RobinHash'', [Run_RobinHash 64]), (''BS'', [Run_BS 64])]
      else [])"

definition run_blocks :: "bool \<Rightarrow> string \<Rightarrow> (string \<times> 'a list) list \<Rightarrow> 'a list" where
  "run_blocks only_mode only blocks = concat (map (\<lambda>(tag, code). check_only only_mode only tag code) blocks)"

text \<open>\<open>name\<close> is the name of the searcher.\<close>

definition execute_32_bit :: "bool \<Rightarrow> bool \<Rightarrow> string \<Rightarrow> bool \<Rightarrow> bool \<Rightarrow> string \<Rightarrow> string \<Rightarrow> competitor list" where
  "execute_32_bit apple disable_fst name pareto only_mode only filename =
     run_blocks only_mode only (blocks_32 apple disable_fst (uses_binary_search name) pareto filename)"

definition execute_64_bit :: "bool \<Rightarrow> bool \<Rightarrow> string \<Rightarrow> bool \<Rightarrow> bool \<Rightarrow> string \<Rightarrow> string \<Rightarrow> competitor list" where
  "execute_64_bit apple disable_fst name pareto only_mode only filename =
     run_blocks only_mode only (blocks_64 apple disable_fst (uses_binary_search name) pareto filename)"

text \<open>The runs share one benchmark; an error of one of them ends the program.\<close>

fun run_all ::
  "(competitor \<Rightarrow> 'b \<Rightarrow> 'b res option) \<Rightarrow> competitor list \<Rightarrow> 'b \<Rightarrow> 'b res option" where
  "run_all run [] b = Some (Inr b)"
| "run_all run (c # cs) b =
     (case run c b of None \<Rightarrow> None | Some (Inl e) \<Rightarrow> Some (Inl e) | Some (Inr b') \<Rightarrow> run_all run cs b')"

section \<open>The main function\<close>

text \<open>What the parser of the command line and the environment give.\<close>

record cli_result =
  co_help :: bool
  co_repeats :: int
  co_threads :: int
  co_perf :: bool
  co_build :: bool
  co_fence :: bool
  co_errors :: bool
  co_cold_cache :: bool
  co_csv :: bool
  co_pareto :: bool
  co_data :: "string option"
  co_lookups :: "string option"
  co_search :: string
  co_only :: "string option"
  co_write :: "string option"
  env_only :: "string option"

text \<open>A value that was not given has no value to convert.\<close>

definition as_given :: "string option \<Rightarrow> string res" where
  "as_given v = (case v of None \<Rightarrow> Inl (Thrown ''option_has_no_value'') | Some s \<Rightarrow> Inr s)"

text \<open>
  \<open>write_portion\<close> is assigned when \<open>--write\<close> is given; \<open>uninit\<close> is what its memory holds before.
\<close>

definition write_portion_of :: "(string \<Rightarrow> int res) \<Rightarrow> u16 \<Rightarrow> cli_result \<Rightarrow> u16 res" where
  "write_portion_of stoi uninit r =
     (case co_write r of
        None \<Rightarrow> Inr uninit
      | Some tmp \<Rightarrow> bind_res (stoi tmp) (\<lambda>n. Inr (word_of_int n)))"

definition only_of :: "cli_result \<Rightarrow> string" where
  "only_of r = (case co_only r of Some s \<Rightarrow> s | None \<Rightarrow> (case env_only r of Some s \<Rightarrow> s | None \<Rightarrow> []))"

definition main_opts :: "cli_result \<Rightarrow> string \<Rightarrow> string \<Rightarrow> u16 \<Rightarrow> bench_opts" where
  "main_opts r filename lookups write_portion =
     \<lparr>bo_data_filename = filename, bo_lookups_filename = lookups,
      bo_num_repeats = unat (word_of_int (co_repeats r) :: u64), bo_perf = co_perf r, bo_build = co_build r,
      bo_fence = co_fence r, bo_cold_cache = co_cold_cache r, bo_track_errors = co_errors r,
      bo_csv = co_csv r, bo_num_threads = unat (word_of_int (co_threads r) :: u64),
      bo_write_portion = write_portion\<rparr>"

text \<open>
  \<open>add_search_type\<close>: the name of the search class, if the type is known in this build. The
  \<open>break\<close> of the macro leaves the \<open>switch\<close>.
\<close>

definition search_class :: "bool \<Rightarrow> DataType \<Rightarrow> string \<Rightarrow> string option res" where
  "search_class fast_mode type search_type =
     (let binary = (if search_type = ''binary'' then Some ''BinarySearch'' else None);
          full = (if search_type = ''binary'' then Some ''BinarySearch''
                  else if search_type = ''branchless_binary'' then Some ''BranchlessBinarySearch''
                  else if search_type = ''linear'' then Some ''LinearSearch''
                  else if search_type = ''interpolation'' then Some ''InterpolationSearch''
                  else None)
      in case type of
           UINT32 \<Rightarrow> if fast_mode
                     then Inl (Fail ''32-bit is not supported when SOSD is built with fast mode'')
                     else Inr full
         | UINT64 \<Rightarrow> Inr (if fast_mode then binary else full))"

text \<open>The end of the program, or the options of the benchmark, its searcher and the runs.\<close>

datatype main_result = Printed_help | No_search_type | Runs bench_opts string "competitor list"

definition benchmark_main ::
  "bool \<Rightarrow> bool \<Rightarrow> bool \<Rightarrow> (string \<Rightarrow> int res) \<Rightarrow> u16 \<Rightarrow> cli_result \<Rightarrow> main_result res" where
  "benchmark_main apple disable_fst fast_mode stoi uninit r =
     (if co_help r then Inr Printed_help
      else bind_res (as_given (co_data r)) (\<lambda>filename.
        bind_res (as_given (co_lookups r)) (\<lambda>lookups.
        bind_res (write_portion_of stoi uninit r) (\<lambda>write_portion.
        bind_res (resolve_type filename) (\<lambda>type.
        bind_res (search_class fast_mode type (co_search r)) (\<lambda>searcher.
          let only_mode = (co_only r \<noteq> None \<or> env_only r \<noteq> None);
              execute = (if type = UINT32 then execute_32_bit else execute_64_bit)
          in Inr (case searcher of
               None \<Rightarrow> No_search_type
             | Some name \<Rightarrow> Runs (main_opts r filename lookups write_portion) name
                 (execute apple disable_fst name (co_pareto r) only_mode (only_of r) filename))))))))"

section \<open>The variants\<close>

lemma set_variants:
  "c \<in> set (variants run single ps bs pareto binary) \<Longrightarrow> \<exists>v \<in> set (single # ps @ bs). c = run v"
  by (auto simp: variants_def split: if_splits)

lemma distinct_variants:
  "inj run \<Longrightarrow> distinct (single # ps @ bs) \<Longrightarrow> distinct (variants run single ps bs pareto binary)"
  by (auto simp: variants_def distinct_map inj_on_def dest: injD)

lemma variants_pareto: "set (variants run single ps bs False binary) \<subseteq> set (variants run single ps bs pareto binary)"
  by (auto simp: variants_def)

lemma benchmark_variants_simps:
  "benchmark_alex w = variants (Run_ALEX w) 1 [4, 8, 16, 32, 64, 128, 256, 512, 1024, 2048] [4096, 8192]"
  "benchmark_btree w = variants (Run_BTree w) 1 [4, 16, 32, 64, 128, 512, 1024] [4096, 16384, 65536, 262144]"
  "benchmark_cht w = variants (Run_CHT w) 10 [9, 8, 7, 6, 5, 4, 3, 2, 1] []"
  "benchmark_fst w = variants (Run_FST w) 128 [256, 512, 1024, 2048, 4096, 8192] []"
  "benchmark_ibtree w = variants (Run_IBTree w) 1 [32, 64, 128, 256, 512] [1024, 2048, 4096, 8192]"
  "benchmark_pgm w = variants (Run_PGM w) 1 [4, 8, 16, 32, 64, 256, 1024, 2048] [4096, 8192]"
  "benchmark_rbs w = variants (Run_RBS w) 28 [26, 24, 22, 20] [18, 16, 14, 12, 10, 8]"
  "benchmark_rs w = variants (Run_RS w) 10 [9, 8, 7, 6, 5, 4, 3, 2, 1] []"
  "benchmark_ts w = variants (Run_TS w) 10 [9, 8, 7, 6, 5, 4, 3, 2, 1] []"
  "benchmark_wormhole w = variants (Run_Wormhole w) 512 [1024, 2048, 4096] [6384, 5536, 62144]"
  "benchmark_fast w = variants (Run_FAST w) 1 [16, 256, 512, 768, 1024, 1526, 2048] [4096, 8192]"
  "benchmark_art = variants Run_ART 1 [32, 64, 128, 256, 512] [1024, 2048, 4096, 8192]"
  by (simp_all add: fun_eq_iff benchmark_alex_def benchmark_btree_def benchmark_cht_def benchmark_fst_def
      benchmark_ibtree_def benchmark_pgm_def benchmark_rbs_def benchmark_rs_def benchmark_ts_def
      benchmark_wormhole_def benchmark_fast_def benchmark_art_def)

fun run_tag :: "competitor \<Rightarrow> string" where
  "run_tag (Run_RMI w n v) = ''RMI''"
| "run_tag (Run_RS w v) = ''RS''"
| "run_tag (Run_TS w v) = ''TS''"
| "run_tag (Run_PGM w v) = ''PGM''"
| "run_tag (Run_CHT w v) = ''CHT''"
| "run_tag (Run_ART v) = ''ART''"
| "run_tag (Run_BTree w v) = ''BTree''"
| "run_tag (Run_IBTree w v) = ''IBTree''"
| "run_tag (Run_FAST w v) = ''FAST''"
| "run_tag (Run_ALEX w v) = ''ALEX''"
| "run_tag (Run_FST w v) = ''FST''"
| "run_tag (Run_Wormhole w v) = ''Wormhole''"
| "run_tag (Run_RBS w v) = ''RBS''"
| "run_tag Run_CuckooMap = ''CuckooMap''"
| "run_tag (Run_RobinHash w) = ''RobinHash''"
| "run_tag (Run_BS w) = ''BS''"

text \<open>What the wrappers need of their template argument.\<close>

fun fits :: "competitor \<Rightarrow> bool" where
  "fits (Run_RMI w n v) = (v \<le> 9 \<and> n \<in> set (rmi_names w))"
| "fits (Run_RS w v) = (1 \<le> v \<and> v \<le> 10)"
| "fits (Run_TS w v) = (1 \<le> v \<and> v \<le> 10)"
| "fits (Run_CHT w v) = (1 \<le> v \<and> v \<le> 10)"
| "fits (Run_PGM w v) = (0 < v \<and> v < 2 ^ 31)"
| "fits (Run_ART v) = (0 < v \<and> v < 2 ^ 31)"
| "fits (Run_BTree w v) = (0 < v \<and> v < 2 ^ 31)"
| "fits (Run_IBTree w v) = (0 < v \<and> v < 2 ^ 31)"
| "fits (Run_FAST w v) = (0 < v \<and> v < 2 ^ 31)"
| "fits (Run_ALEX w v) = (0 < v \<and> v < 2 ^ 31)"
| "fits (Run_FST w v) = (0 < v \<and> v < 2 ^ 31)"
| "fits (Run_Wormhole w v) = (0 < v \<and> v < 2 ^ 31)"
| "fits (Run_RBS w v) = (0 < v \<and> v < w)"
| "fits _ = True"

lemma set_rmi:
  "c \<in> set (benchmark_rmi w pareto binary filename) \<Longrightarrow> \<exists>n v. c = Run_RMI w n v \<and> v \<le> 9 \<and> n \<in> set (rmi_names w)"
  by (auto simp: benchmark_rmi_def run_rmi_binary_pareto_def run_rmi_binary_def split: if_splits)

lemma rmi_once: "concat (map (run_rmi_binary w filename n) vs) =
    (if find_str (''/'' @ n @ ''_'' @ dtype_name w) filename \<noteq> None then map (Run_RMI w n) vs else [])"
  by (induction vs) (simp_all add: run_rmi_binary_def)

lemma distinct_run_rmi: "distinct (run_rmi_binary_pareto w pareto binary filename n)"
  unfolding run_rmi_binary_pareto_def rmi_once by (simp add: run_rmi_binary_def)

lemma distinct_concat_rmi: "distinct ns \<Longrightarrow> distinct (concat (map (run_rmi_binary_pareto w pareto binary filename) ns))"
proof (induction ns)
  case (Cons n ns)
  have name: "\<exists>v. c = Run_RMI w m v" if "c \<in> set (run_rmi_binary_pareto w pareto binary filename m)" for c m
    using that by (auto simp: run_rmi_binary_pareto_def run_rmi_binary_def split: if_splits)
  have "set (run_rmi_binary_pareto w pareto binary filename n)
      \<inter> set (concat (map (run_rmi_binary_pareto w pareto binary filename) ns)) = {}"
  proof (rule ccontr)
    assume "\<not> ?thesis"
    then obtain c m where "c \<in> set (run_rmi_binary_pareto w pareto binary filename n)" "m \<in> set ns"
      "c \<in> set (run_rmi_binary_pareto w pareto binary filename m)" by auto
    with name [of c n] name [of c m] have "m = n" by auto
    with \<open>m \<in> set ns\<close> Cons.prems show False by simp
  qed
  with Cons distinct_run_rmi show ?case by simp
qed simp

lemma distinct_rmi: "distinct (benchmark_rmi w pareto binary filename)"
  unfolding benchmark_rmi_def by (rule distinct_concat_rmi) (simp add: rmi_names_def)

text \<open>The blocks: each holds the runs of one tag, each run once.\<close>

definition block_ok :: "string \<times> competitor list \<Rightarrow> bool" where
  "block_ok b \<longleftrightarrow> distinct (snd b) \<and> (\<forall>c \<in> set (snd b). run_tag c = fst b \<and> fits c)"

lemma block_ok_variants:
  assumes "inj run" and "distinct (single # ps @ bs)" and "list_all (\<lambda>v. run_tag (run v) = t \<and> fits (run v)) (single # ps @ bs)"
  shows "block_ok (t, variants run single ps bs pareto binary)"
proof -
  have "run_tag c = t \<and> fits c" if "c \<in> set (variants run single ps bs pareto binary)" for c
    using set_variants [OF that] assms(3) unfolding list_all_iff by blast
  then show ?thesis using distinct_variants [OF assms(1,2)] by (simp add: block_ok_def)
qed

lemma block_ok_rmi: "block_ok (''RMI'', benchmark_rmi w pareto binary filename)"
  using distinct_rmi set_rmi by (fastforce simp: block_ok_def)

lemma blocks_ok:
  "w = 32 \<or> w = 64 \<Longrightarrow> block_ok (''RS'', benchmark_rs w pareto binary)"
  "w = 32 \<or> w = 64 \<Longrightarrow> block_ok (''TS'', benchmark_ts w pareto binary)"
  "w = 32 \<or> w = 64 \<Longrightarrow> block_ok (''PGM'', benchmark_pgm w pareto binary)"
  "w = 32 \<or> w = 64 \<Longrightarrow> block_ok (''CHT'', benchmark_cht w pareto binary)"
  "block_ok (''ART'', benchmark_art pareto binary)"
  "w = 32 \<or> w = 64 \<Longrightarrow> block_ok (''BTree'', benchmark_btree w pareto binary)"
  "w = 32 \<or> w = 64 \<Longrightarrow> block_ok (''IBTree'', benchmark_ibtree w pareto binary)"
  "w = 32 \<or> w = 64 \<Longrightarrow> block_ok (''FAST'', benchmark_fast w pareto binary)"
  "w = 32 \<or> w = 64 \<Longrightarrow> block_ok (''ALEX'', benchmark_alex w pareto binary)"
  "w = 32 \<or> w = 64 \<Longrightarrow> block_ok (''FST'', benchmark_fst w pareto binary)"
  "w = 32 \<or> w = 64 \<Longrightarrow> block_ok (''Wormhole'', benchmark_wormhole w pareto binary)"
  "w = 32 \<or> w = 64 \<Longrightarrow> block_ok (''RBS'', benchmark_rbs w pareto binary)"
  unfolding benchmark_variants_simps by (rule block_ok_variants; auto simp: inj_def)+

lemma block_ok_single: "block_ok (t, [c]) \<longleftrightarrow> run_tag c = t \<and> fits c"
  by (simp add: block_ok_def)

lemma blocks_32_ok: "list_all block_ok (blocks_32 apple disable_fst binary pareto filename)"
  by (simp add: blocks_32_def block_ok_rmi blocks_ok block_ok_single)

lemma blocks_64_ok: "list_all block_ok (blocks_64 apple disable_fst binary pareto filename)"
  by (simp add: blocks_64_def block_ok_rmi blocks_ok block_ok_single)

lemma blocks_tags: "distinct (map fst (blocks_32 apple disable_fst binary pareto filename))"
  "distinct (map fst (blocks_64 apple disable_fst binary pareto filename))"
  by (cases apple; cases disable_fst; cases binary; simp add: blocks_32_def blocks_64_def)+

lemma run_blocks_simps [simp]:
  "run_blocks m x [] = []"
  "run_blocks m x (b # bs) = check_only m x (fst b) (snd b) @ run_blocks m x bs"
  by (simp_all add: run_blocks_def case_prod_beta)

lemma run_blocks_filter:
  "list_all block_ok bs \<Longrightarrow> run_blocks True only bs = filter (\<lambda>c. run_tag c = only) (run_blocks False x bs)"
proof (induction bs)
  case (Cons b bs)
  then have "run_tag c = fst b" if "c \<in> set (snd b)" for c using that by (simp add: block_ok_def)
  then have "filter (\<lambda>c. run_tag c = only) (snd b) = check_only True only (fst b) (snd b)"
    by (auto simp: check_only_def filter_empty_conv filter_id_conv)
  with Cons show ?case by (simp add: check_only_def)
qed simp

lemma set_run_blocks: "c \<in> set (run_blocks m x bs) \<Longrightarrow> \<exists>b \<in> set bs. c \<in> set (snd b)"
  by (induction bs) (auto simp: check_only_def split: if_splits)

lemma run_blocks_fit: "list_all block_ok bs \<Longrightarrow> c \<in> set (run_blocks m x bs) \<Longrightarrow> fits c"
  by (auto simp: block_ok_def list_all_iff dest!: set_run_blocks)

lemma run_blocks_tag:
  "list_all block_ok bs \<Longrightarrow> c \<in> set (run_blocks m x bs) \<Longrightarrow> run_tag c \<in> fst ` set bs"
  by (auto simp: block_ok_def list_all_iff image_iff dest!: set_run_blocks)

lemma distinct_run_blocks: "list_all block_ok bs \<Longrightarrow> distinct (map fst bs) \<Longrightarrow> distinct (run_blocks m x bs)"
proof (induction bs)
  case (Cons b bs)
  have "c \<notin> set (run_blocks m x bs)" if "c \<in> set (check_only m x (fst b) (snd b))" for c
  proof
    assume "c \<in> set (run_blocks m x bs)"
    moreover have "list_all block_ok bs" using Cons.prems by simp
    ultimately have "run_tag c \<in> fst ` set bs" by (rule run_blocks_tag [rotated])
    moreover have "run_tag c = fst b"
      using that Cons.prems by (auto simp: check_only_def block_ok_def split: if_splits)
    ultimately show False using Cons.prems by auto
  qed
  moreover have "distinct (check_only m x (fst b) (snd b))"
    using Cons.prems by (simp add: check_only_def block_ok_def)
  ultimately show ?case using Cons by auto
qed simp

section \<open>What a sequence of runs leaves\<close>

lemma run_all_append:
  "run_all run (cs @ ds) b = (case run_all run cs b of
     None \<Rightarrow> None | Some (Inl e) \<Rightarrow> Some (Inl e) | Some (Inr b') \<Rightarrow> run_all run ds b')"
  by (induction cs arbitrary: b) (auto split: option.splits sum.splits)

lemma run_all_invariant:
  assumes "run_all run cs b = Some (Inr b')" and "P b"
    and "\<And>c b b'. c \<in> set cs \<Longrightarrow> P b \<Longrightarrow> run c b = Some (Inr b') \<Longrightarrow> P b'"
  shows "P b'"
  using assms
proof (induction cs arbitrary: b)
  case (Cons c cs)
  then obtain b1 where b1: "run c b = Some (Inr b1)" "run_all run cs b1 = Some (Inr b')"
    by (auto split: option.splits sum.splits)
  have "P b1" by (rule Cons.prems(3) [of c b]) (use b1 Cons.prems in simp_all)
  show ?case by (rule Cons.IH [OF b1(2) \<open>P b1\<close>]) (use Cons.prems(3) in auto)
qed simp

lemma do_lookups_keeps:
  assumes "do_equality_lookups env clock b st = Some (Inr (b', rs, st'))"
  shows "b_index_data b' = b_index_data b \<and> b_data b' = b_data b \<and> b_lookups b' = b_lookups b \<and> b_opts b' = b_opts b"
  using assms by (auto simp: do_equality_lookups_def res_simps split: if_splits)

lemma run_built_keeps:
  assumes "run_built re st b = Some (Inr (b', rs, out))"
  shows "b_index_data b' = b_index_data b \<and> b_data b' = b_data b \<and> b_lookups b' = b_lookups b \<and> b_opts b' = b_opts b"
  using assms
  by (auto simp: run_built_def do_lookups_with_error_tracking_def Let_def res_simps
      dest!: do_lookups_keeps split: if_splits)

lemma bench_run_shrinks:
  assumes run: "bench_run re b = Some (Inr (b', rs, out))"
    and app: "ix_applicable (re_index re) (b_unique_keys b) (bo_data_filename (b_opts b))"
    and wp: "0 < bo_write_portion (b_opts b)" and s: "sorts (re_sort re)" and u: "uniform (re_rnd re)"
    and n: "length (b_index_data b) < 2 ^ 31"
  shows "mset (b_index_data b') \<subset># mset (b_index_data b) \<and> b_data b' = b_data b \<and> b_opts b' = b_opts b
    \<and> length (b_index_data b') + ids_wanted (length (b_lookups b')) (bo_write_portion (b_opts b)) = length (b_index_data b)"
proof -
  let ?ls = "if ix_name (re_index re) = ''PGM'' then remove_forbidden (b_lookups b) else b_lookups b"
  obtain ix ins st where split: "split_writes (re_rnd re) (re_sort re) (bo_write_portion (b_opts b)) ?ls
      (b_index_data b) (b_insertion_data b) = Some (Inr (ix, ins))"
    and built: "run_built re st (b\<lparr>b_lookups := ?ls, b_index_data := ix, b_insertion_data := ins, b_build_ns := re_build_ns re\<rparr>)
      = Some (Inr (b', rs, out))"
    using run app wp by (auto simp: bench_run_def Let_def res_simps split: if_splits option.splits sum.splits)
  obtain new where new: "length new = ids_wanted (length ?ls) (bo_write_portion (b_opts b))" "new \<noteq> []"
    "mset ix + mset new = mset (b_index_data b)"
    using split_writes_right [OF split s u n] by blast
  have "length ix + length new = length (b_index_data b)" using arg_cong [OF new(3), of size] by simp
  moreover have "mset ix \<subset># mset (b_index_data b)" unfolding new(3) [symmetric] using new(2)
    by (simp add: subset_mset.less_le)
  ultimately show ?thesis using run_built_keeps [OF built] new(1) by simp
qed

text \<open>The state a run leaves, with the results and lines dropped.\<close>

definition run_benchmark ::
  "(competitor \<Rightarrow> ('l::len word, 'st, 'd::linorder) run_env) \<Rightarrow> competitor \<Rightarrow> ('l word, 'd) Benchmark
   \<Rightarrow> ('l word, 'd) Benchmark res option" where
  "run_benchmark re c b = map_option (\<lambda>r. bind_res r (\<lambda>(b', _). Inr b')) (bench_run (re c) b)"

lemma run_benchmark_Inr:
  "run_benchmark re c b = Some (Inr b') \<longleftrightarrow> (\<exists>rs out. bench_run (re c) b = Some (Inr (b', rs, out)))"
  by (force simp: run_benchmark_def res_simps)

lemma set_remove_forbidden: "set (remove_forbidden ls) \<subseteq> set ls"
  by (auto simp: remove_forbidden_eq)

lemma bench_run_keeps:
  assumes run: "bench_run re b = Some (Inr (b', rs, out))"
  shows "b_data b' = b_data b \<and> b_opts b' = b_opts b \<and> set (b_lookups b') \<subseteq> set (b_lookups b)
    \<and> (bo_write_portion (b_opts b) = 0 \<longrightarrow> b_index_data b' = b_index_data b)"
proof (cases "ix_applicable (re_index re) (b_unique_keys b) (bo_data_filename (b_opts b))")
  case False
  then show ?thesis using run by (auto simp: bench_run_def)
next
  case True
  let ?ls = "if ix_name (re_index re) = ''PGM'' then remove_forbidden (b_lookups b) else b_lookups b"
  have ls: "set ?ls \<subseteq> set (b_lookups b)" using set_remove_forbidden by auto
  obtain b2 st where b2: "run_built re st (b2\<lparr>b_build_ns := re_build_ns re\<rparr>) = Some (Inr (b', rs, out))"
    "b_data b2 = b_data b" "b_opts b2 = b_opts b" "b_lookups b2 = ?ls"
    "bo_write_portion (b_opts b) = 0 \<Longrightarrow> b_index_data b2 = b_index_data b"
    using run True by (auto simp: bench_run_def Let_def res_simps split: if_splits option.splits sum.splits)
  show ?thesis using run_built_keeps [OF b2(1)] b2(2-5) ls by auto
qed

lemma benchmark_main_Runs:
  assumes "benchmark_main apple disable_fst fast_mode stoi uninit r = Inr (Runs opts name runs)"
  shows "\<exists>filename lookups wp. write_portion_of stoi uninit r = Inr wp \<and> opts = main_opts r filename lookups wp"
proof -
  have "\<not> co_help r" using assms by (auto simp: benchmark_main_def)
  then obtain f l wp type searcher where m: "write_portion_of stoi uninit r = Inr wp"
    "(case searcher of None \<Rightarrow> No_search_type
       | Some name \<Rightarrow> Runs (main_opts r f l wp) name ((if type = UINT32 then execute_32_bit else execute_64_bit)
           apple disable_fst name (co_pareto r) (co_only r \<noteq> None \<or> env_only r \<noteq> None) (only_of r) f))
      = Runs opts name runs"
    using assms unfolding benchmark_main_def Let_def if_not_P [OF \<open>\<not> co_help r\<close>] bind_res_eq_Inr sum.inject by blast
  then show ?thesis by (cases searcher) auto
qed

lemma linear_tags:
  "fst ` set (blocks_32 apple disable_fst False pareto filename) \<inter> {''RBS'', ''CuckooMap'', ''RobinHash'', ''BS''} = {}"
  "fst ` set (blocks_64 apple disable_fst False pareto filename) \<inter> {''RBS'', ''CuckooMap'', ''RobinHash'', ''BS''} = {}"
  by (auto simp: blocks_32_def blocks_64_def)

lemma executed_tag:
  assumes "run_tag c \<in> {''RBS'', ''CuckooMap'', ''RobinHash'', ''BS''}"
  shows "c \<in> set (execute_32_bit apple disable_fst name pareto m x filename) \<Longrightarrow> uses_binary_search name"
    and "c \<in> set (execute_64_bit apple disable_fst name pareto m x filename) \<Longrightarrow> uses_binary_search name"
proof -
  show "uses_binary_search name" if "c \<in> set (execute_32_bit apple disable_fst name pareto m x filename)"
  proof (rule ccontr)
    assume "\<not> uses_binary_search name"
    with run_blocks_tag [OF blocks_32_ok that [unfolded execute_32_bit_def]] assms linear_tags(1)
    show False by (metis IntI empty_iff)
  qed
  show "uses_binary_search name" if "c \<in> set (execute_64_bit apple disable_fst name pareto m x filename)"
  proof (rule ccontr)
    assume "\<not> uses_binary_search name"
    with run_blocks_tag [OF blocks_64_ok that [unfolded execute_64_bit_def]] assms linear_tags(2)
    show False by (metis IntI empty_iff)
  qed
qed

lemma search_class_right:
  assumes "fast_mode \<longrightarrow> type = UINT64"
  shows "\<exists>found. search_class fast_mode type s = Inr found
    \<and> (found = None \<longleftrightarrow> s \<notin> (if fast_mode then {''binary''}
        else {''binary'', ''branchless_binary'', ''linear'', ''interpolation''}))
    \<and> (\<forall>name. found = Some name \<longrightarrow> uses_binary_search name \<longrightarrow> s \<in> {''binary'', ''branchless_binary''})"
  using assms
  by (cases "s = ''binary''"; cases "s = ''branchless_binary''"; cases "s = ''linear''";
      cases "s = ''interpolation''"; cases type; cases fast_mode) (simp_all add: search_class_def uses_binary_search_def)

section \<open>Properties\<close>

text \<open>
  C27. \<open>--only\<close>: the runs are exactly those of an invocation without it that belong to the named
  index, in the same order, for both widths, all searches, all builds and all files.
\<close>
theorem only_selects_index:
  "execute_32_bit apple disable_fst name pareto True only filename
      = filter (\<lambda>c. run_tag c = only) (execute_32_bit apple disable_fst name pareto False x filename)
    \<and> execute_64_bit apple disable_fst name pareto True only filename
      = filter (\<lambda>c. run_tag c = only) (execute_64_bit apple disable_fst name pareto False x filename)"
  by (simp add: execute_32_bit_def execute_64_bit_def run_blocks_filter [OF blocks_32_ok, of only _ _ _ _ _ x]
      run_blocks_filter [OF blocks_64_ok, of only _ _ _ _ _ x])

text \<open>
  C6. No invocation runs a variant twice, and each variant has a template argument that its
  wrapper accepts: RS, TS and CHT have rows 1 to 10 in their tables, sampled indexes a positive
  step below \<open>2^31\<close>, the radix table fewer bits than the key.
\<close>
theorem executed_variants_fit:
  "distinct (execute_32_bit apple disable_fst name pareto only_mode only filename)
    \<and> distinct (execute_64_bit apple disable_fst name pareto only_mode only filename)
    \<and> list_all fits (execute_32_bit apple disable_fst name pareto only_mode only filename)
    \<and> list_all fits (execute_64_bit apple disable_fst name pareto only_mode only filename)"
  unfolding execute_32_bit_def execute_64_bit_def list_all_iff
  by (intro conjI ballI distinct_run_blocks blocks_32_ok blocks_64_ok blocks_tags)
    (erule run_blocks_fit [OF blocks_32_ok] run_blocks_fit [OF blocks_64_ok])+

text \<open>
  C25. Whatever sequence of indexes one invocation runs on its benchmark, the rows and options
  stay, lookups are only ever removed, and without writes every index is built on the same
  entries.
\<close>
theorem runs_share_benchmark:
  assumes "run_all (run_benchmark re) cs b = Some (Inr b')"
  shows "b_data b' = b_data b \<and> b_opts b' = b_opts b \<and> set (b_lookups b') \<subseteq> set (b_lookups b)
    \<and> (bo_write_portion (b_opts b) = 0 \<longrightarrow> b_index_data b' = b_index_data b)"
proof (rule run_all_invariant [OF assms, where P = "\<lambda>b'. b_data b' = b_data b \<and> b_opts b' = b_opts b
    \<and> set (b_lookups b') \<subseteq> set (b_lookups b) \<and> (bo_write_portion (b_opts b) = 0 \<longrightarrow> b_index_data b' = b_index_data b)"])
  fix c b1 b2
  assume inv: "b_data b1 = b_data b \<and> b_opts b1 = b_opts b \<and> set (b_lookups b1) \<subseteq> set (b_lookups b)
      \<and> (bo_write_portion (b_opts b) = 0 \<longrightarrow> b_index_data b1 = b_index_data b)"
    and "run_benchmark re c b1 = Some (Inr b2)"
  then obtain rs out where "bench_run (re c) b1 = Some (Inr (b2, rs, out))" unfolding run_benchmark_Inr by blast
  from bench_run_keeps [OF this] inv show "b_data b2 = b_data b \<and> b_opts b2 = b_opts b
      \<and> set (b_lookups b2) \<subseteq> set (b_lookups b) \<and> (bo_write_portion (b_opts b) = 0 \<longrightarrow> b_index_data b2 = b_index_data b)"
    by auto
qed simp

text \<open>
  C24. With writes the indexes of one invocation are not built on the same entries: each run takes
  entries out of those the run before it has left, and none puts them back.
\<close>
theorem later_index_gets_less:
  assumes "bench_run re1 b = Some (Inr (b1, rs1, out1))" and "bench_run re2 b1 = Some (Inr (b2, rs2, out2))"
    and "ix_applicable (re_index re1) (b_unique_keys b) (bo_data_filename (b_opts b))"
    and "ix_applicable (re_index re2) (b_unique_keys b1) (bo_data_filename (b_opts b1))"
    and "0 < bo_write_portion (b_opts b)" and "length (b_index_data b) < 2 ^ 31"
    and "sorts (re_sort re1)" and "sorts (re_sort re2)" and "uniform (re_rnd re1)" and "uniform (re_rnd re2)"
  shows "mset (b_index_data b2) \<subset># mset (b_index_data b1) \<and> mset (b_index_data b1) \<subset># mset (b_index_data b)
    \<and> b_data b2 = b_data b
    \<and> length (b_index_data b2) + ids_wanted (length (b_lookups b2)) (bo_write_portion (b_opts b))
        + ids_wanted (length (b_lookups b1)) (bo_write_portion (b_opts b)) = length (b_index_data b)"
proof -
  note first = bench_run_shrinks [OF assms(1,3,5,7,9,6)]
  have "length (b_index_data b1) < 2 ^ 31" using first assms(6) by linarith
  moreover have "0 < bo_write_portion (b_opts b1)" using first assms(5) by simp
  ultimately show ?thesis using first bench_run_shrinks [OF assms(2,4) _ assms(8,10)] by simp
qed

text \<open>A benchmark that only builds, with half of the requests as writes; the draw is position 1.\<close>

definition ex_write_opts :: "u16 \<Rightarrow> bench_opts" where
  "ex_write_opts wp = ex_opts\<lparr>bo_build := True, bo_write_portion := wp\<rparr>"

definition ex_write_run :: "(u32, nat, nat) run_env" where
  "ex_write_run = ex_run\<lparr>re_rnd := ex_draw\<rparr>"

abbreviation ex_write_lookups :: "u32 EqualityLookup list" where
  "ex_write_lookups \<equiv> [\<lparr>lk_key = 3, lk_result = 0\<rparr>, \<lparr>lk_key = 9, lk_result = 3\<rparr>]"

abbreviation ex_entries :: "u32 KeyValue list" where
  "ex_entries \<equiv> [\<lparr>kv_key = 3, kv_value = 0\<rparr>, \<lparr>kv_key = 5, kv_value = 1\<rparr>, \<lparr>kv_key = 5, kv_value = 2\<rparr>,
     \<lparr>kv_key = 9, kv_value = 3\<rparr>]"

abbreviation ex_entries_left :: "u32 KeyValue list" where
  "ex_entries_left \<equiv> [\<lparr>kv_key = 3, kv_value = 0\<rparr>, \<lparr>kv_key = 5, kv_value = 2\<rparr>, \<lparr>kv_key = 9, kv_value = 3\<rparr>]"

lemma ex_write_wanted: "ids_wanted (length ex_write_lookups) 50 = 1"
  by (simp add: ids_wanted_def insert_count_def to_int32_def)

lemma ex_write_splits:
  "split_writes ex_draw (sort_key kv_key) 50 ex_write_lookups ex_entries []
    = Some (Inr (ex_entries_left, [\<lparr>kv_key = 5, kv_value = 1\<rparr>]))"
  "split_writes ex_draw (sort_key kv_key) 50 ex_write_lookups ex_entries_left [\<lparr>kv_key = 5, kv_value = 1\<rparr>]
    = Some (Inr ([\<lparr>kv_key = 3, kv_value = 0\<rparr>, \<lparr>kv_key = 9, kv_value = 3\<rparr>],
        [\<lparr>kv_key = 5, kv_value = 1\<rparr>, \<lparr>kv_key = 5, kv_value = 2\<rparr>]))"
proof -
  have hi: "to_int32 (int (length ex_entries) - 1) = 3" "to_int32 (int (length ex_entries_left) - 1) = 2"
    by (simp_all add: to_int32_def)
  have "gather_ids (\<lambda>i. nat (ex_draw 0 3 i)) (accepts_id ex_write_lookups 50 ex_entries) 1 0 [] = Some (Inr [1])"
    "gather_ids (\<lambda>i. nat (ex_draw 0 2 i)) (accepts_id ex_write_lookups 50 ex_entries_left) 1 0 [] = Some (Inr [1])"
    by (simp_all add: gather_ids.simps ex_draw_def accepts_id_def)
  then show "split_writes ex_draw (sort_key kv_key) 50 ex_write_lookups ex_entries []
    = Some (Inr (ex_entries_left, [\<lparr>kv_key = 5, kv_value = 1\<rparr>]))"
    "split_writes ex_draw (sort_key kv_key) 50 ex_write_lookups ex_entries_left [\<lparr>kv_key = 5, kv_value = 1\<rparr>]
    = Some (Inr ([\<lparr>kv_key = 3, kv_value = 0\<rparr>, \<lparr>kv_key = 9, kv_value = 3\<rparr>],
        [\<lparr>kv_key = 5, kv_value = 1\<rparr>, \<lparr>kv_key = 5, kv_value = 2\<rparr>]))"
    unfolding split_writes_def hi ex_write_wanted Let_def by simp_all
qed

lemma ex_index_data: "make_index_data ex_rows = ex_entries"
  by (simp add: make_index_data_def add_values_def upt_rec)

lemma ex_write_bench:
  "\<exists>b1 rs1 out1 b2 rs2 out2. bench_run ex_write_run (ex_bench (ex_write_opts 50) ex_write_lookups) = Some (Inr (b1, rs1, out1))
    \<and> b_index_data b1 = ex_entries_left \<and> b_opts b1 = ex_write_opts 50
    \<and> bench_run ex_write_run b1 = Some (Inr (b2, rs2, out2))"
  using ex_write_splits
  by (simp add: bench_run_def ex_write_run_def ex_run_def bs_Index_def base_applicable_def bs_build_def
      run_built_def do_equality_lookups_def print_results_def print_result_def ex_write_opts_def ex_opts_def
      ex_bench_def ex_index_data Let_def)

theorem later_index_gets_less_witness:
  "\<exists>b1 b2 rs1 out1 rs2 out2. bench_run ex_write_run (ex_bench (ex_write_opts 50) ex_write_lookups) = Some (Inr (b1, rs1, out1))
    \<and> bench_run ex_write_run b1 = Some (Inr (b2, rs2, out2)) \<and> mset (b_index_data b2) \<subset># mset (b_index_data b1)"
proof -
  let ?b = "ex_bench (ex_write_opts 50) ex_write_lookups"
  obtain b1 rs1 out1 b2 rs2 out2 where r: "bench_run ex_write_run ?b = Some (Inr (b1, rs1, out1))"
    "bench_run ex_write_run b1 = Some (Inr (b2, rs2, out2))"
    using ex_write_bench by blast
  have "mset (b_index_data b2) \<subset># mset (b_index_data b1)"
    by (rule conjunct1 [OF later_index_gets_less [OF r]])
      (simp_all add: ex_write_run_def ex_run_def bs_Index_def base_applicable_def sorts_sort_key uniform_ex_draw
        ex_bench_def ex_write_opts_def)
  with r show ?thesis by blast
qed

theorem runs_share_benchmark_witness:
  "\<exists>b'. run_all (run_benchmark (\<lambda>_. ex_run)) [Run_BS 32, Run_RobinHash 32] (ex_bench (ex_write_opts 0) ex_write_lookups)
      = Some (Inr b') \<and> b_index_data b' = make_index_data ex_rows"
proof -
  let ?b = "ex_bench (ex_write_opts 0) ex_write_lookups"
  obtain b' where b': "run_all (run_benchmark (\<lambda>_. ex_run)) [Run_BS 32, Run_RobinHash 32] ?b = Some (Inr b')"
    by (simp add: run_benchmark_def bench_run_def ex_run_def bs_Index_def base_applicable_def bs_build_def
      run_built_def do_equality_lookups_def print_results_def print_result_def ex_write_opts_def ex_opts_def
      ex_bench_def Let_def)
  have "b_index_data b' = b_index_data ?b"
    using runs_share_benchmark [OF b'] by (simp add: ex_bench_def ex_write_opts_def)
  with b' show ?thesis by (simp add: ex_bench_def)
qed

text \<open>
  Without \<open>--write\<close> the share of writes is whatever the memory of the variable holds: the
  default value "0" of the option is never read, and a value above 100 ends the program in the
  constructor of the benchmark.
\<close>
theorem write_portion_uninitialised:
  assumes "benchmark_main apple disable_fst fast_mode stoi uninit r = Inr (Runs opts name runs)"
    and "co_write r = None"
  shows "bo_write_portion opts = uninit \<and> (100 < uninit \<longrightarrow> (\<exists>e. bench_init ft dops files opts = Inl (Fail e)))"
proof -
  obtain filename lookups wp where wp: "write_portion_of stoi uninit r = Inr wp"
    and opts: "opts = main_opts r filename lookups wp"
    using benchmark_main_Runs [OF assms(1)] by blast
  have "bo_write_portion opts = uninit"
    using wp assms(2) by (simp add: opts write_portion_of_def main_opts_def)
  then show ?thesis by (auto simp: bench_init_def)
qed

definition ex_cli :: "string \<Rightarrow> string \<Rightarrow> cli_result" where
  "ex_cli filename search = \<lparr>co_help = False, co_repeats = 1, co_threads = 1, co_perf = False, co_build = False,
     co_fence = False, co_errors = False, co_cold_cache = False, co_csv = False, co_pareto = False,
     co_data = Some filename, co_lookups = Some ''data/lookups'', co_search = search, co_only = Some ''BS'',
     co_write = None, env_only = None\<rparr>"

lemma ex_cli_main:
  "\<exists>opts runs. benchmark_main False False False (\<lambda>_. Inr 0) uninit (ex_cli ''data/books_200M_uint64'' ''binary'')
    = Inr (Runs opts ''BinarySearch'' runs)"
proof -
  have "resolve_type ''data/books_200M_uint64'' = Inr UINT64"
    by (simp add: resolve_type_def get_suffix_def Let_def)
  then show ?thesis by (simp add: benchmark_main_def ex_cli_def as_given_def write_portion_of_def search_class_def Let_def)
qed

theorem write_portion_uninitialised_witness:
  "\<exists>opts runs e. benchmark_main False False False (\<lambda>_. Inr 0) 40000 (ex_cli ''data/books_200M_uint64'' ''binary'')
    = Inr (Runs opts ''BinarySearch'' runs)
    \<and> bench_init \<lparr>ft_sz = 8, ft_dec = dec_u64, ft_dec_lookup = dec_lookup64\<rparr> ex_double ex_files opts = Inl (Fail e)"
proof -
  obtain opts runs where m: "benchmark_main False False False (\<lambda>_. Inr 0) 40000
      (ex_cli ''data/books_200M_uint64'' ''binary'') = Inr (Runs opts ''BinarySearch'' runs)"
    using ex_cli_main by blast
  from write_portion_uninitialised [OF m, of "\<lparr>ft_sz = 8, ft_dec = dec_u64, ft_dec_lookup = dec_lookup64\<rparr>" ex_double ex_files]
  have "\<exists>e. bench_init \<lparr>ft_sz = 8, ft_dec = dec_u64, ft_dec_lookup = dec_lookup64\<rparr> ex_double ex_files opts = Inl (Fail e)"
    by (simp add: ex_cli_def)
  with m show ?thesis by blast
qed

text \<open>
  The choice of the search: a valid command line ends without a run exactly when the search
  type is none of those of the build, and the hash tables, the radix table and the plain binary
  search are run with a binary or a branchless binary search only.
\<close>
theorem search_type_dispatch:
  assumes "\<not> co_help r" and "co_data r = Some filename" and "co_lookups r = Some lookups"
    and "write_portion_of stoi uninit r = Inr wp" and "resolve_type filename = Inr type"
    and "fast_mode \<longrightarrow> type = UINT64"
  shows "(benchmark_main apple disable_fst fast_mode stoi uninit r = Inr No_search_type \<longleftrightarrow>
      co_search r \<notin> (if fast_mode then {''binary''}
        else {''binary'', ''branchless_binary'', ''linear'', ''interpolation''}))
    \<and> (\<forall>opts name runs c. benchmark_main apple disable_fst fast_mode stoi uninit r = Inr (Runs opts name runs) \<longrightarrow>
        c \<in> set runs \<longrightarrow> run_tag c \<in> {''RBS'', ''CuckooMap'', ''RobinHash'', ''BS''} \<longrightarrow>
        co_search r \<in> {''binary'', ''branchless_binary''})"
proof -
  obtain found where found: "search_class fast_mode type (co_search r) = Inr found"
    "found = None \<longleftrightarrow> co_search r \<notin> (if fast_mode then {''binary''}
        else {''binary'', ''branchless_binary'', ''linear'', ''interpolation''})"
    "\<And>name. found = Some name \<Longrightarrow> uses_binary_search name \<Longrightarrow> co_search r \<in> {''binary'', ''branchless_binary''}"
    using search_class_right [OF assms(6), of "co_search r"] by blast
  let ?execute = "\<lambda>name. (if type = UINT32 then execute_32_bit else execute_64_bit) apple disable_fst name
    (co_pareto r) (co_only r \<noteq> None \<or> env_only r \<noteq> None) (only_of r) filename"
  have main: "benchmark_main apple disable_fst fast_mode stoi uninit r = Inr (case found of None \<Rightarrow> No_search_type
      | Some name \<Rightarrow> Runs (main_opts r filename lookups wp) name (?execute name))"
    using assms(1-5) found(1) by (cases found) (simp_all add: benchmark_main_def as_given_def Let_def)
  show ?thesis
  proof (intro conjI allI impI)
    show "benchmark_main apple disable_fst fast_mode stoi uninit r = Inr No_search_type \<longleftrightarrow>
      co_search r \<notin> (if fast_mode then {''binary''}
        else {''binary'', ''branchless_binary'', ''linear'', ''interpolation''})"
      unfolding main found(2) [symmetric] by (cases found) simp_all
  next
    fix opts name runs c
    assume r: "benchmark_main apple disable_fst fast_mode stoi uninit r = Inr (Runs opts name runs)"
      and c: "c \<in> set runs" "run_tag c \<in> {''RBS'', ''CuckooMap'', ''RobinHash'', ''BS''}"
    from r have f: "found = Some name" and runs: "runs = ?execute name" unfolding main by (cases found; simp)+
    have "uses_binary_search name"
      using executed_tag [OF c(2)] c(1) unfolding runs by (cases "type = UINT32") (simp_all only: if_True if_False refl)
    from found(3) [OF f this] show "co_search r \<in> {''binary'', ''branchless_binary''}" .
  qed
qed

theorem search_type_dispatch_witness:
  "benchmark_main False False True (\<lambda>_. Inr 0) 0 (ex_cli ''data/books_200M_uint64'' ''linear'') = Inr No_search_type"
proof -
  have t: "resolve_type ''data/books_200M_uint64'' = Inr UINT64"
    by (simp add: resolve_type_def get_suffix_def Let_def)
  from search_type_dispatch [of "ex_cli ''data/books_200M_uint64'' ''linear''" _ _ "\<lambda>_. Inr 0" 0 0, OF _ _ _ _ t, of _ True False False]
  show ?thesis by (simp add: ex_cli_def write_portion_of_def)
qed

end
