(* ===== verification/Spec2Isabelle.thy ===== *)
theory Spec2Isabelle
  imports Prelude Util Searches Competitor RadixBinarySearch InterpolationBTree
    SampledIndexes ByteKeyIndexes CuckooHash AdaptiveRadixTree ArtNodes ArtTree StxTree StxErase StxSiblings StxDelete
    Generate Benchmark Workloads
    LearnedIndexes RobinTable RobinProbing RobinHash Dispatch
begin

text \<open>
  A model of SOSD, the benchmark of Search On Sorted Data (\<open>src/\<close>), and the theorems that make its
  parts correct.

  The program. \<open>generate.cc\<close> reads a data set of sorted keys and writes lookups: a key and the
  expected sum of the payloads of its rows. \<open>benchmark.cc\<close> parses the command line and runs a list
  of index variants (\<open>benchmarks/benchmark_*.cc\<close>) on one \<open>Benchmark\<close> object (\<open>benchmark.h\<close>). For
  each index the benchmark may take out a portion of the entries to insert them later, builds the
  index over the rest, and replays the lookups: the index returns a bound (\<open>EqualityLookup\<close>), a
  search of \<open>searches/\<close> finds the rows within the bound and sums their payloads, and the sum is
  compared with the expected one. Indexes are the files of \<open>competitors/\<close>.

  The two contracts. A search is right when, started on a bound that encloses the first occurrence
  of a key, it returns the sum and the count over the whole data: locale \<open>search_algorithm\<close> in
  \<open>Searches\<close>, interpreted for all four searches. An index is right when, built on sorted data whose
  values are positions, it answers every lookup with such a bound: locale \<open>index_contract\<close> in
  \<open>Competitor\<close>, interpreted for the plain binary search, the radix binary search and the
  interpolation B-tree, and as a consequence of \<open>ordered_multimap\<close> for ALEX, the STX B-tree and PGM.
  The theorems about the driver need only these two.

  Theories, and what each models.

  \<^item> \<open>Prelude\<close>: machine integers; \<open>res\<close>, the result of C++ code that may call \<open>util::fail\<close>, throw or
    run into undefined behaviour; guarded vector access; \<open>std::lower_bound\<close> and relatives; the
    lemmas about partitioned and sorted sequences that all position arguments use.
  \<^item> \<open>Util\<close>: \<open>util.h\<close>. Row types, data set names, the binary file format with its round trip (locale
    \<open>trivially_copyable\<close>), duplicate removal, payloads, the xorshift generator.
  \<^item> \<open>Searches\<close>: \<open>searches/*.h\<close>. The branching, linear, branchless and interpolation search, with
    every out-of-range read as \<open>Undefined\<close>; each is shown to sum all rows of a key, under the
    conditions under which it does not leave the data.
  \<^item> \<open>Competitor\<close>: \<open>competitors/base.h\<close>, \<open>competitors/binary_search.h\<close>.
  \<^item> \<open>RadixBinarySearch\<close>: \<open>competitors/radix_binary_search.h\<close>, for keys of 32 and 64 bits.
  \<^item> \<open>InterpolationBTree\<close>: \<open>competitors/interpolation_btree.h\<close>. Nodes, searches in a node, bulk load
    level by level (\<open>ib_leaf_layer\<close>, \<open>ib_layer\<close>, \<open>ib_layers\<close>), lookup, size; the load builds a valid
    tree, and the lookup finds the first entry that is not below the key.
  \<^item> \<open>SampledIndexes\<close>: the wrappers \<open>competitors/alex.h\<close>, \<open>stx_btree.h\<close>, \<open>pgm_index.h\<close>, \<open>hash.h\<close> and
    \<open>utils/tracking_allocator.h\<close>, over any container that meets \<open>ordered_multimap\<close> or \<open>hash_map\<close>.
  \<^item> \<open>StxTree\<close>: \<open>stx-btree-0.9/include/stx/btree.h\<close>. Nodes, \<open>find_lower\<close>, \<open>bulk_load\<close>, \<open>insert\<close> with
    splits, \<open>verify\<close>. Bulk load and insertion keep what \<open>verify\<close> tests; the tree is an
    interpretation of \<open>ordered_multimap\<close>, so that the STX competitor is right without hypotheses.
  \<^item> \<open>StxErase\<close>, \<open>StxSiblings\<close>, \<open>StxDelete\<close>: deletion from the same tree by key and by iterator. The first
    holds \<open>erase_one_descend\<close>, \<open>erase_iter_descend\<close>, the merges, the shifts and the choice among them,
    with the asserts of a debug build as failures; the second shows what a merge or shift does to two
    siblings and their parent, the third that a deletion removes one entry and keeps the tree valid.
  \<^item> \<open>RobinTable\<close>, \<open>RobinProbing\<close>, \<open>RobinHash\<close>: \<open>robin-map/include/tsl/robin_hash.h\<close> and the
    power-of-two policy of \<open>robin_growth_policy.h\<close>. The first holds the operations, the second the
    Robin Hood invariant of a bucket array and what every probing loop does to it, the third the
    invariant of tables (\<open>rh_ok\<close>), the map they store (\<open>contents\<close>) and the effect of each operation
    on it; the table is a sublocale instance of \<open>hash_map\<close> for every rounding that is exact on 24
    bits (locale \<open>robin_env\<close>), so that \<open>hash.h\<close> is right for up to 4096 rows and any hash function.
    Two theorems show where it is not: 32769 colliding keys, and the removal of a range. Lookups and
    removals are right in tables of at most 32767 elements, whose distances fit into 16 bits.
  \<^item> \<open>ByteKeyIndexes\<close>: \<open>competitors/fst_wrapper.h\<close> and \<open>competitors/wormhole.h\<close>: keys as big endian bytes.
    The bounds of FST are right, those of Wormhole below \<open>2^32\<close> rows; from there on the loop over the
    rows does not end, because its counter has 32 bits.
  \<^item> \<open>CuckooHash\<close>: \<open>competitors/stanford_hash.h\<close>. Buckets of eight keys compared by mask, insertion with
    evictions; what is inserted is found, and the bound is that of the last equal key.
  \<^item> \<open>AdaptiveRadixTree\<close>, \<open>ArtNodes\<close>, \<open>ArtTree\<close>: \<open>competitors/art_primary_lb.h\<close>. The operations; the four
    node layouts as one sorted list of children; the invariant of the tree, insertion as the
    insertion of one leaf, the lower bound as the first leaf that is not below the key.
  \<^item> \<open>LearnedIndexes\<close>: the wrappers \<open>competitors/rmi_search.h\<close>, \<open>rs.h\<close>, \<open>ts.h\<close>, \<open>cht.h\<close>,
    \<open>fast64_search.h\<close>, with their parameter tables.
  \<^item> \<open>Generate\<close>: \<open>generate.cc\<close>. The lookups it writes have the right sums; drawing positive lookups
    ends, drawing negative ones need not.
  \<^item> \<open>Benchmark\<close>, \<open>Workloads\<close>: \<open>benchmark.h\<close>. Constructor, removal of entries to insert, the loops over
    the lookups (timed or with a cold cache, one by one or in batches), error statistics, result
    lines; and the theorems: a timed run over a right index and a right search has correct results
    in every repetition, batches do not change results, taking out entries partitions the data,
    a run that inserts them again answers every lookup right.
  \<^item> \<open>Dispatch\<close>: \<open>benchmark.cc\<close> and \<open>benchmarks/benchmark_*.cc\<close>. Which runs are executed for which
    options, in which order, on one shared benchmark.

  How the code appears. A struct or class is a record or a datatype of the same shape, a member
  function that changes the object returns the changed one. A pointer to a node is the node itself:
  the trees are values, and \<open>*ref = n\<close> is the result of the operation. Keys and values are words of
  their width where the code computes with them, sizes and positions are \<open>nat\<close>; where a wrap-around
  can happen it is written out (\<open>to_int32\<close> and \<open>to_int16\<close> for signed numbers, \<open>u64\<close> for sizes).
  Failures are values: \<open>Inl (Fail msg)\<close>, \<open>Inl (Thrown msg)\<close>, \<open>Inl Undefined\<close>.

  Loops. A loop with a bound is a recursion on the list or number it runs over. A loop that need not
  end is a \<open>partial_function (option)\<close>, where \<open>None\<close> is a call that does not return: the
  interpolation search (\<open>interp_loop\<close>), the leaf layer of the interpolation B-tree, the 32-bit loops of
  Wormhole, \<open>erase\<close> of the STX B+ tree, the insertion into the cuckoo table, the probing loops of the Robin Hood table, the walks over the radix tree, the
  draws of the generator and of the benchmark. That they return is part of the theorems: results are
  stated as \<open>Some (Inr \<dots>)\<close>. The only counter that stands for a bound is the number of buckets behind
  an iterator in \<open>rh_increment_loop\<close> and the like; it is the distance to the end of the array, at
  which the code stops too.

  Parameters. Code that is not under \<open>src/\<close> is an argument, and what the programs rely on is a named
  hypothesis: \<open>ordered_multimap\<close> (ALEX, PGM), \<open>fst_contract\<close> and \<open>wh_contract\<close> (the trie and the
  ordered index behind FST and Wormhole), \<open>spline_contract\<close> (RadixSpline, TrieSpline, CHT), the bound
  of a generated RMI. Floating-point numbers are arguments as well (\<open>slope_ops\<close>, \<open>double_ops\<close>,
  \<open>gen_float\<close>, the estimate of the interpolation search, \<open>re_float\<close> with \<open>ieee_single\<close>), and so are
  the random distributions, the order in which an unstable sort leaves equal elements, the clocks and
  the hash function. Each theorem with such a hypothesis has a witness at a concrete instance.

  Not modelled. Timing, CPU affinity, performance counters (\<open>utils/perf_event.h\<close>, \<open>dtl/\<close>), progress
  messages and the parser of the command line (\<open>utils/cxxopts.hpp\<close>, whose result is the record
  \<open>cli_result\<close>) talk to the operating system or only print. The files \<open>competitors/oracle.h\<close>,
  \<open>competitors/interpolation_search.h\<close>, \<open>rm_tip.h\<close>, \<open>fast.h\<close>, \<open>art.h\<close>, \<open>art32.h\<close>,
  \<open>art_primary.h\<close> and \<open>art32_primary.h\<close> belong to no run of the benchmark. Of the STX B+ tree,
  the links between the leaves (the chain is the order of the leaves), the iterator classes, the other
  queries, copying, dump and restore are not used by the benchmark and left out, as are its container
  classes, tests and demos. Of \<open>robin_hash.h\<close>, stored hashes and the two other growth
  policies are left out, which the competitor does not instantiate; \<open>robin_map.h\<close> and
  \<open>robin_set.h\<close> only forward. Allocation failures are not modelled anywhere, and destructors only
  where they do more than free memory (\<open>destructTree\<close> of the radix tree).
\<close>

end
